(* ===== verification/Mesh_Prelude.thy ===== *)
theory Mesh_Prelude
  imports Main "HOL-Library.Word" "HOL-Library.Char_ord" "HOL-Library.List_Lexorder" "HOL-Library.AList"
begin

text \<open>
  Shared material of the development: the byte and string types of the Go sources, big-endian
  packing of machine integers (\<^verbatim>\<open>encoding/binary\<close>), the hexadecimal codec
  (\<^verbatim>\<open>encoding/hex\<close>), slices with Go's bounds discipline, and the lemma collections the
  component theories feed to the simplifier.
\<close>

unbundle bit_operations_syntax

named_theorems go_defs \<open>definitions that component proofs unfold by default\<close>
named_theorems be_simps \<open>big-endian packing and unpacking\<close>

type_synonym byte = "8 word"
type_synonym bytes = "byte list"

text \<open>A Go result: an error message or a value.\<close>

type_synonym 'a go_result = "string + 'a"

section \<open>Slices\<close>

text \<open>\<^verbatim>\<open>xs[i:j]\<close> for bounds that the caller has checked.\<close>

definition slice :: "nat \<Rightarrow> nat \<Rightarrow> 'a list \<Rightarrow> 'a list" where
  "slice i j xs = take (j - i) (drop i xs)"

text \<open>\<^verbatim>\<open>copy(xs[i:], ys)\<close> when \<^verbatim>\<open>ys\<close> fits.\<close>

definition splice :: "nat \<Rightarrow> 'a list \<Rightarrow> 'a list \<Rightarrow> 'a list" where
  "splice i ys xs = take i xs @ ys @ drop (i + length ys) xs"

lemma length_slice [simp]: "length (slice i j xs) = min (j - i) (length xs - i)"
  by (simp add: slice_def min.commute)

lemma slice_append_left: "j \<le> length xs \<Longrightarrow> slice i j (xs @ ys) = slice i j xs"
  by (cases "i \<le> length xs") (auto simp: slice_def)

lemma slice_append_right:
  "length xs \<le> i \<Longrightarrow> slice i j (xs @ ys) = slice (i - length xs) (j - length xs) ys"
  by (simp add: slice_def)

lemma slice_full [simp]: "slice 0 (length xs) xs = xs"
  by (simp add: slice_def)

lemma slice_all: "length xs \<le> j \<Longrightarrow> slice 0 j xs = xs"
  by (simp add: slice_def)

lemma nth_slice: "i + k < j \<Longrightarrow> j \<le> length xs \<Longrightarrow> slice i j xs ! k = xs ! (i + k)"
  by (simp add: slice_def)

lemma length_splice [simp]: "i + length ys \<le> length xs \<Longrightarrow> length (splice i ys xs) = length xs"
  by (simp add: splice_def)

lemma nth_splice:
  assumes "i + length ys \<le> length xs"
  shows "splice i ys xs ! k =
    (if k < i then xs ! k else if k < i + length ys then ys ! (k - i) else xs ! k)"
  using assms by (auto simp: splice_def nth_append)

lemma slice_splice_same:
  assumes "i + length ys \<le> length xs" "j = i + length ys"
  shows "slice i j (splice i ys xs) = ys"
  using assms by (simp add: slice_def splice_def)

lemma slice_splice_disjoint:
  assumes fit: "i + length ys \<le> length xs" and dis: "b \<le> i \<or> i + length ys \<le> a"
  shows "slice a b (splice i ys xs) = slice a b xs"
proof (rule nth_equalityI)
  show "length (slice a b (splice i ys xs)) = length (slice a b xs)"
    using fit by simp
next
  fix k assume "k < length (slice a b (splice i ys xs))"
  then have k: "k < b - a" "k < length xs - a" using fit by auto
  then have "slice a b (splice i ys xs) ! k = splice i ys xs ! (a + k)"
    and "slice a b xs ! k = xs ! (a + k)"
    using fit by (auto simp: slice_def)
  then show "slice a b (splice i ys xs) ! k = slice a b xs ! k"
    using k dis nth_splice [OF fit, of "a + k"] by auto
qed

section \<open>Big-endian integers\<close>

text \<open>\<^verbatim>\<open>binary.BigEndian\<close>: \<open>be_nat\<close> reads a byte string, \<open>put_be k\<close> writes the low \<open>k\<close> bytes.
  The reads take a prefix of the slice, as Go's do, and are used where its length is known.\<close>

fun be_nat :: "bytes \<Rightarrow> nat" where
  "be_nat [] = 0"
| "be_nat (b # bs) = unat b * 256 ^ length bs + be_nat bs"

fun put_be :: "nat \<Rightarrow> nat \<Rightarrow> bytes" where
  "put_be 0 n = []"
| "put_be (Suc k) n = of_nat (n div 256 ^ k) # put_be k n"

definition be16 :: "bytes \<Rightarrow> 16 word" where
  "be16 bs = of_nat (be_nat (take 2 bs))"

definition put_be16 :: "16 word \<Rightarrow> bytes" where
  "put_be16 w = put_be 2 (unat w)"

definition be32 :: "bytes \<Rightarrow> 32 word" where
  "be32 bs = of_nat (be_nat (take 4 bs))"

definition put_be32 :: "32 word \<Rightarrow> bytes" where
  "put_be32 w = put_be 4 (unat w)"

definition be64 :: "bytes \<Rightarrow> 64 word" where
  "be64 bs = of_nat (be_nat (take 8 bs))"

definition put_be64 :: "64 word \<Rightarrow> bytes" where
  "put_be64 w = put_be 8 (unat w)"

lemma unat_byte_lt: "unat (b :: byte) < 256"
  using unsigned_less [of b] by simp

lemma unat_16_lt: "unat (w :: 16 word) < 65536"
  using unsigned_less [of w] by simp

lemma unat_32_lt: "unat (w :: 32 word) < 4294967296"
  using unsigned_less [of w] by simp

lemma unat_64_lt: "unat (w :: 64 word) < 18446744073709551616"
  using unsigned_less [of w] by simp

lemma unat_of_nat_byte: "unat (of_nat n :: byte) = n mod 256"
  by (simp add: unat_of_nat)

lemma of_nat_byte_eq: "n mod 256 = unat b \<Longrightarrow> (of_nat n :: byte) = b"
  by (metis unat_of_nat_byte unsigned_word_eqI)

lemma length_put_be [simp]: "length (put_be k n) = k"
  by (induction k) auto

lemma length_put_be_word [simp]:
  "length (put_be16 w) = 2" "length (put_be32 x) = 4" "length (put_be64 y) = 8"
  by (simp_all add: put_be16_def put_be32_def put_be64_def del: put_be.simps)

lemma be_nat_put_be: "be_nat (put_be k n) = n mod 256 ^ k"
proof (induction k)
  case (Suc k)
  have "n mod (256 ^ k * 256) = 256 ^ k * (n div 256 ^ k mod 256) + n mod 256 ^ k"
    by (rule mod_mult2_eq)
  then have "n mod 256 ^ Suc k = n div 256 ^ k mod 256 * 256 ^ k + n mod 256 ^ k"
    by (simp add: mult.commute)
  with Suc show ?case by (simp add: unat_of_nat_byte)
qed simp

lemma be_nat_less: "be_nat bs < 256 ^ length bs"
proof (induction bs)
  case (Cons b bs)
  have "unat b * 256 ^ length bs + be_nat bs < (unat b + 1) * 256 ^ length bs"
    using Cons by simp
  also have "\<dots> \<le> 256 * 256 ^ length bs"
    using unat_byte_lt [of b] by (intro mult_right_mono) auto
  finally show ?case by simp
qed simp

lemma put_be_be_nat: "put_be (length bs) (be_nat bs + m * 256 ^ length bs) = bs"
proof (induction bs arbitrary: m)
  case (Cons b bs)
  have 1: "be_nat (b # bs) + m * 256 ^ length (b # bs)
      = be_nat bs + (unat b + m * 256) * 256 ^ length bs"
    by (simp add: algebra_simps)
  have "(be_nat bs + (unat b + m * 256) * 256 ^ length bs) div 256 ^ length bs = unat b + m * 256"
    using be_nat_less [of bs] by simp
  moreover have "(of_nat (unat b + m * 256) :: byte) = b"
    using unat_byte_lt [of b] by (intro of_nat_byte_eq) simp
  ultimately show ?case
    unfolding 1 using Cons [of "unat b + m * 256"] by (simp del: of_nat_add)
qed simp

lemma unat_be16: "length bs \<ge> 2 \<Longrightarrow> unat (be16 bs) = be_nat (take 2 bs)"
  using be_nat_less [of "take 2 bs"] by (simp add: be16_def unat_of_nat min_def split: if_splits)

lemma unat_be32: "length bs \<ge> 4 \<Longrightarrow> unat (be32 bs) = be_nat (take 4 bs)"
  using be_nat_less [of "take 4 bs"] by (simp add: be32_def unat_of_nat min_def split: if_splits)

lemma unat_be64: "length bs \<ge> 8 \<Longrightarrow> unat (be64 bs) = be_nat (take 8 bs)"
  using be_nat_less [of "take 8 bs"] by (simp add: be64_def unat_of_nat min_def split: if_splits)

lemma be_put_be [simp, be_simps]:
  "be16 (put_be16 w) = w" "be32 (put_be32 x) = x" "be64 (put_be64 y) = y"
  using unat_16_lt [of w] unat_32_lt [of x] unat_64_lt [of y]
  by (simp_all add: be16_def put_be16_def be32_def put_be32_def be64_def put_be64_def
      be_nat_put_be del: put_be.simps)

lemma put_be_be16: "length bs = 2 \<Longrightarrow> put_be16 (be16 bs) = bs"
  using put_be_be_nat [of bs 0] by (simp add: put_be16_def unat_be16)

lemma put_be_be32: "length bs = 4 \<Longrightarrow> put_be32 (be32 bs) = bs"
  using put_be_be_nat [of bs 0] by (simp add: put_be32_def unat_be32)

lemma put_be_be64: "length bs = 8 \<Longrightarrow> put_be64 (be64 bs) = bs"
  using put_be_be_nat [of bs 0] by (simp add: put_be64_def unat_be64)

lemma put_be32_inject: "put_be32 a = put_be32 b \<longleftrightarrow> a = b"
  by (metis be_put_be(2))

section \<open>Hexadecimal text\<close>

text \<open>\<^verbatim>\<open>hex.EncodeToString\<close> writes lower case; \<^verbatim>\<open>hex.DecodeString\<close> reads both cases and
  fails on an odd length or any other character.\<close>

definition hex_digit :: "nat \<Rightarrow> char" where
  "hex_digit n = (if n < 10 then char_of (48 + n) else char_of (87 + n))"

definition from_hex_char :: "char \<Rightarrow> nat option" where
  "from_hex_char c =
     (let n = (of_char c :: nat) in
      if 48 \<le> n \<and> n \<le> 57 then Some (n - 48)
      else if 97 \<le> n \<and> n \<le> 102 then Some (n - 87)
      else if 65 \<le> n \<and> n \<le> 70 then Some (n - 55)
      else None)"

fun hex_encode :: "bytes \<Rightarrow> string" where
  "hex_encode [] = []"
| "hex_encode (b # bs) = hex_digit (unat b div 16) # hex_digit (unat b mod 16) # hex_encode bs"

fun hex_decode :: "string \<Rightarrow> bytes option" where
  "hex_decode [] = Some []"
| "hex_decode [c] = None"
| "hex_decode (c # d # cs) =
     (case (from_hex_char c, from_hex_char d, hex_decode cs) of
        (Some h, Some l, Some bs) \<Rightarrow> Some (of_nat (h * 16 + l) # bs)
      | _ \<Rightarrow> None)"

definition lower_hex :: "char \<Rightarrow> bool" where
  "lower_hex c \<longleftrightarrow> (let n = (of_char c :: nat) in (48 \<le> n \<and> n \<le> 57) \<or> (97 \<le> n \<and> n \<le> 102))"

lemma from_hex_digit [simp]: "n < 16 \<Longrightarrow> from_hex_char (hex_digit n) = Some n"
  by (auto simp: from_hex_char_def hex_digit_def Let_def)

lemma hex_digit_from:
  "lower_hex c \<Longrightarrow> from_hex_char c = Some n \<Longrightarrow> hex_digit n = c"
  by (auto simp: from_hex_char_def hex_digit_def Let_def lower_hex_def split: if_splits)

lemma from_hex_char_less: "from_hex_char c = Some n \<Longrightarrow> n < 16"
  by (auto simp: from_hex_char_def Let_def split: if_splits)

lemma lower_hex_digit: "n < 16 \<Longrightarrow> lower_hex (hex_digit n)"
  by (auto simp: lower_hex_def hex_digit_def Let_def)

lemma length_hex_encode [simp]: "length (hex_encode bs) = 2 * length bs"
  by (induction bs) auto

lemma unat_byte_div16: "unat (b :: byte) div 16 < 16"
  using unat_byte_lt [of b] by simp

lemma lower_hex_encode: "list_all lower_hex (hex_encode bs)"
  by (induction bs) (auto simp: lower_hex_digit unat_byte_div16)

lemma hex_decode_encode [simp]: "hex_decode (hex_encode bs) = Some bs"
  by (induction bs) (auto simp: unat_byte_div16)

lemma hex_decode_length: "hex_decode s = Some bs \<Longrightarrow> length s = 2 * length bs"
  by (induction s arbitrary: bs rule: hex_decode.induct) (auto split: option.splits)

lemma hex_encode_decode:
  "hex_decode s = Some bs \<Longrightarrow> list_all lower_hex s \<Longrightarrow> hex_encode bs = s"
proof (induction s arbitrary: bs rule: hex_decode.induct)
  case (3 c d cs)
  then obtain h l bs' where p: "from_hex_char c = Some h" "from_hex_char d = Some l"
    "hex_decode cs = Some bs'" "bs = of_nat (h * 16 + l) # bs'"
    by (auto split: option.splits)
  have "h < 16" "l < 16" using p by (auto dest: from_hex_char_less)
  then have "unat (of_nat (h * 16 + l) :: byte) div 16 = h"
    "unat (of_nat (h * 16 + l) :: byte) mod 16 = l"
    by (auto simp: unat_of_nat_byte simp del: of_nat_add of_nat_mult)
  with p 3 show ?case by (auto simp: hex_digit_from simp del: of_nat_add of_nat_mult)
qed auto

lemma hex_encode_inject: "hex_encode a = hex_encode b \<longleftrightarrow> a = b"
  by (metis hex_decode_encode option.inject)

section \<open>Searching lists\<close>

lemma find_SomeD: "find P xs = Some x \<Longrightarrow> x \<in> set xs \<and> P x"
  by (induction xs) (auto split: if_splits)

lemma find_append: "find P (xs @ ys) = (case find P xs of None \<Rightarrow> find P ys | Some x \<Rightarrow> Some x)"
  by (induction xs) auto

section \<open>Association lists\<close>

lemma length_update_le: "length (AList.update k v xs) \<le> Suc (length xs)"
  by (induction xs) auto

end
