(* ===== verification/Checksum.thy ===== *)
theory Checksum
  imports Mesh_Prelude
begin

text \<open>
  The Internet checksum of \<^verbatim>\<open>mesh-node/keepalive.go\<close>: \<^verbatim>\<open>packetChecksum\<close> over a byte string and
  \<^verbatim>\<open>adjustAddressChecksum\<close>, which updates a checksum field when an address in the covered data is
  replaced.  The 32-bit sums of the code never exceed $2^{32}$ (\<open>checksum_loop_bound\<close>,
  \<open>adjust_bounds\<close>), so they are natural numbers here; the 16-bit complement is $65535 - x$.
\<close>

section \<open>The code\<close>

text \<open>\<^verbatim>\<open>for sum>>16 != 0 { sum = (sum & 0xffff) + (sum >> 16) }\<close>\<close>

function fold16 :: "nat \<Rightarrow> nat" where
  "fold16 s = (if s div 65536 \<noteq> 0 then fold16 (s mod 65536 + s div 65536) else s)"
  by pat_completeness auto
termination
proof (relation "measure id", simp)
  fix s :: nat
  assume "s div 65536 \<noteq> 0"
  moreover have "s = s div 65536 * 65536 + s mod 65536" by simp
  ultimately have "s mod 65536 + s div 65536 < s" by linarith
  then show "(s mod 65536 + s div 65536, s) \<in> measure id" by simp
qed

declare fold16.simps [simp del]

fun checksum_loop :: "nat \<Rightarrow> bytes \<Rightarrow> nat" where
  "checksum_loop s [] = fold16 s"
| "checksum_loop s [b] = fold16 (s + unat b * 256)"
| "checksum_loop s (a # b # bs) = checksum_loop (fold16 (s + (unat a * 256 + unat b))) bs"

definition packetChecksum :: "bytes \<Rightarrow> nat" where
  "packetChecksum b = 65535 - checksum_loop 0 b"

definition be16n :: "bytes \<Rightarrow> nat" where
  "be16n bs = unat (bs ! 0) * 256 + unat (bs ! 1)"

definition put_be16n :: "nat \<Rightarrow> bytes" where
  "put_be16n v = [of_nat (v div 256), of_nat v]"

text \<open>One round of the loop of \<^verbatim>\<open>adjustAddressChecksum\<close>, for the words \<open>old\<close> and \<open>new\<close>.\<close>

definition adjust_round :: "nat \<Rightarrow> nat \<Rightarrow> nat \<Rightarrow> nat" where
  "adjust_round s old new = (let t = s + (65535 - old) + new in t mod 65536 + t div 65536)"

definition adjustAddressChecksum :: "bytes \<Rightarrow> bytes \<Rightarrow> bytes \<Rightarrow> bytes" where
  "adjustAddressChecksum field old new =
     (let s0 = 65535 - be16n field;
          s1 = adjust_round s0 (be16n old) (be16n new);
          s2 = adjust_round s1 (be16n (drop 2 old)) (be16n (drop 2 new));
          s3 = s2 mod 65536 + s2 div 65536
      in put_be16n (65535 - s3))"

section \<open>Sums modulo 65535\<close>

fun word_sum :: "bytes \<Rightarrow> nat" where
  "word_sum [] = 0"
| "word_sum [b] = unat b * 256"
| "word_sum (a # b # bs) = unat a * 256 + unat b + word_sum bs"

lemma fold_step_mod: "(s mod 65536 + s div 65536) mod 65535 = s mod (65535 :: nat)"
proof -
  have "s = s mod 65536 + s div 65536 + s div 65536 * 65535" by (simp add: algebra_simps)
  then show ?thesis by (metis mod_mult_self1)
qed

lemma fold16_mod: "fold16 s mod 65535 = s mod 65535"
proof (induction s rule: fold16.induct)
  case (1 s)
  show ?case
  proof (cases "s div 65536 = 0")
    case False
    then have "fold16 s = fold16 (s mod 65536 + s div 65536)" by (subst fold16.simps) simp
    then show ?thesis using 1 False fold_step_mod by simp
  qed (simp add: fold16.simps)
qed

lemma fold16_less: "fold16 s < 65536"
proof (induction s rule: fold16.induct)
  case (1 s)
  then show ?case by (subst fold16.simps) (auto simp: div_eq_0_iff)
qed

lemma fold16_zero: "fold16 s = 0 \<longleftrightarrow> s = 0"
proof (induction s rule: fold16.induct)
  case (1 s)
  then show ?case by (subst fold16.simps) auto
qed

lemma checksum_loop_mod: "checksum_loop s b mod 65535 = (s + word_sum b) mod 65535"
proof (induction b arbitrary: s rule: word_sum.induct)
  case (3 a b bs)
  have "checksum_loop s (a # b # bs) mod 65535
      = (fold16 (s + (unat a * 256 + unat b)) + word_sum bs) mod 65535" using 3 by simp
  also have "\<dots> = (s + (unat a * 256 + unat b) + word_sum bs) mod 65535"
    by (metis fold16_mod mod_add_left_eq)
  finally show ?case by (simp add: ac_simps)
qed (simp_all add: fold16_mod)

lemma checksum_loop_less: "checksum_loop s b < 65536"
  by (induction b arbitrary: s rule: word_sum.induct) (simp_all add: fold16_less)

lemma checksum_loop_zero: "checksum_loop s b = 0 \<longleftrightarrow> s = 0 \<and> word_sum b = 0"
  by (induction b arbitrary: s rule: word_sum.induct) (auto simp: fold16_zero)

text \<open>Every sum of the loop fits 32 bits: a folded value plus one 16-bit word.\<close>

lemma checksum_loop_bound:
  "fold16 s + (unat (a :: byte) * 256 + unat (b :: byte)) < 2 ^ 32"
  using fold16_less [of s] unat_byte_lt [of a] unat_byte_lt [of b] by simp

text \<open>A checksum verifies exactly when the word sum is a positive multiple of 65535.\<close>

lemma packetChecksum_zero: "packetChecksum b = 0 \<longleftrightarrow> word_sum b mod 65535 = 0 \<and> word_sum b \<noteq> 0"
proof -
  have less: "checksum_loop 0 b < 65536" by (rule checksum_loop_less)
  have "packetChecksum b = 0 \<longleftrightarrow> checksum_loop 0 b = 65535"
    using less by (auto simp: packetChecksum_def)
  also have "\<dots> \<longleftrightarrow> checksum_loop 0 b mod 65535 = 0 \<and> checksum_loop 0 b \<noteq> 0"
  proof
    assume "checksum_loop 0 b mod 65535 = 0 \<and> checksum_loop 0 b \<noteq> 0"
    then obtain k where "checksum_loop 0 b = 65535 * k" "k \<noteq> 0" by auto
    moreover have "k < 2" using less calculation by simp
    ultimately show "checksum_loop 0 b = 65535" by simp
  qed simp
  finally show ?thesis using checksum_loop_mod [of 0 b] checksum_loop_zero [of 0 b] by simp
qed

lemma word_sum_append: "even (length xs) \<Longrightarrow> word_sum (xs @ ys) = word_sum xs + word_sum ys"
  by (induction xs rule: word_sum.induct) auto

lemma word_sum_splice:
  assumes "even i" "even (length ys)" "i + length ys \<le> length xs"
  shows "word_sum (splice i ys xs) + word_sum (slice i (i + length ys) xs) = word_sum xs + word_sum ys"
proof -
  let ?s = "slice i (i + length ys) xs"
  have "xs = take i xs @ ?s @ drop (i + length ys) xs"
    by (metis add_diff_cancel_left' append_take_drop_id drop_drop add.commute slice_def)
  then have "word_sum xs = word_sum (take i xs @ ?s @ drop (i + length ys) xs)" by simp
  also have "\<dots> = word_sum (take i xs) + word_sum (?s @ drop (i + length ys) xs)"
    using assms by (intro word_sum_append) simp
  also have "word_sum (?s @ drop (i + length ys) xs) = word_sum ?s + word_sum (drop (i + length ys) xs)"
    using assms by (intro word_sum_append) (simp add: min_def)
  finally have "word_sum xs = word_sum (take i xs) + word_sum ?s + word_sum (drop (i + length ys) xs)"
    by simp
  moreover have "word_sum (splice i ys xs) = word_sum (take i xs) + word_sum ys
      + word_sum (drop (i + length ys) xs)"
    using assms word_sum_append [of "take i xs" "ys @ drop (i + length ys) xs"]
      word_sum_append [of ys "drop (i + length ys) xs"] by (simp add: splice_def)
  ultimately show ?thesis by simp
qed

lemma word_sum_two: "length bs = 2 \<Longrightarrow> word_sum bs = be16n bs"
  by (auto simp: be16n_def numeral_2_eq_2 length_Suc_conv)

lemma word_sum_four: "length bs = 4 \<Longrightarrow> word_sum bs = be16n bs + be16n (drop 2 bs)"
  by (auto simp: be16n_def numeral_eq_Suc length_Suc_conv)

lemma be16n_less: "be16n bs < 65536"
  using unat_byte_lt [of "bs ! 0"] unat_byte_lt [of "bs ! 1"] by (simp add: be16n_def)

lemma be16n_put [simp]: "v < 65536 \<Longrightarrow> be16n (put_be16n v) = v"
  by (simp add: be16n_def put_be16n_def unat_of_nat_byte)

lemma length_put_be16n [simp]: "length (put_be16n v) = 2"
  by (simp add: put_be16n_def)

lemma length_adjust [simp]: "length (adjustAddressChecksum field old new) = 2"
  by (simp add: adjustAddressChecksum_def Let_def)

lemma adjust_round_facts:
  assumes "s \<le> 65536" "old < 65536" "new < 65536"
  shows "adjust_round s old new \<le> 65536"
    and "(adjust_round s old new + old) mod 65535 = (s + new) mod 65535"
proof -
  let ?t = "s + (65535 - old) + new"
  have t: "?t < 3 * 65536" "?t < 2 ^ 32" using assms by auto
  have "?t = ?t div 65536 * 65536 + ?t mod 65536" by simp
  moreover have "?t \<le> 196606" using assms by auto
  moreover have "?t mod 65536 < 65536" by simp
  ultimately show "adjust_round s old new \<le> 65536"
    unfolding adjust_round_def Let_def by linarith
  have "(adjust_round s old new + old) mod 65535 = (?t + old) mod 65535"
    unfolding adjust_round_def Let_def by (metis fold_step_mod mod_add_left_eq)
  also have "?t + old = s + new + 65535" using assms by simp
  finally show "(adjust_round s old new + old) mod 65535 = (s + new) mod 65535" by simp
qed

lemma adjust_bounds: "s \<le> 65536 \<Longrightarrow> s + (65535 - old) + be16n new < 2 ^ 32"
  using be16n_less [of new] by simp

text \<open>Replacing four covered bytes and adjusting the field keeps the sum modulo 65535.\<close>

lemma adjust_sum:
  assumes "length old = 4" "length new = 4"
  shows "(be16n (adjustAddressChecksum field old new) + word_sum new) mod 65535
    = (be16n field + word_sum old) mod 65535"
proof -
  define s0 where "s0 = 65535 - be16n field"
  define s1 where "s1 = adjust_round s0 (be16n old) (be16n new)"
  define s2 where "s2 = adjust_round s1 (be16n (drop 2 old)) (be16n (drop 2 new))"
  define s3 where "s3 = s2 mod 65536 + s2 div 65536"
  have b0: "s0 \<le> 65536" "s0 + be16n field = 65535" using be16n_less [of field] by (auto simp: s0_def)
  note r1 = adjust_round_facts [OF b0(1) be16n_less be16n_less, of old new, folded s1_def]
  note r2 = adjust_round_facts [OF r1(1) be16n_less be16n_less, of "drop 2 old" "drop 2 new", folded s2_def]
  have "s2 = s2 div 65536 * 65536 + s2 mod 65536" "s2 mod 65536 < 65536" by simp_all
  then have s3: "s3 \<le> 65535" "s3 mod 65535 = s2 mod 65535"
    using r2(1) fold_step_mod [of s2] unfolding s3_def by linarith+
  have f: "be16n (adjustAddressChecksum field old new) + s3 = 65535"
    using s3(1) by (simp add: adjustAddressChecksum_def Let_def s0_def [symmetric] s1_def [symmetric]
        s2_def [symmetric] s3_def [symmetric])
  let ?f = "be16n (adjustAddressChecksum field old new)"
  let ?o1 = "be16n old" and ?o2 = "be16n (drop 2 old)" and ?n1 = "be16n new" and ?n2 = "be16n (drop 2 new)"
  have "(s3 + ?o2 + ?o1) mod 65535 = (s2 + ?o2 + ?o1) mod 65535"
    using s3(2) by (metis mod_add_left_eq)
  also have "\<dots> = (s1 + ?n2 + ?o1) mod 65535" using r2(2) by (metis mod_add_left_eq)
  also have "\<dots> = (s1 + ?o1 + ?n2) mod 65535" by (simp add: ac_simps)
  also have "\<dots> = (s0 + ?n1 + ?n2) mod 65535" using r1(2) by (metis mod_add_left_eq)
  finally have "(s3 + ?o2 + ?o1 + (?f + be16n field)) mod 65535
      = (s0 + ?n1 + ?n2 + (?f + be16n field)) mod 65535" by (metis mod_add_left_eq)
  moreover have "s3 + ?o2 + ?o1 + (?f + be16n field) = 65535 + (?o2 + ?o1 + be16n field)"
    "s0 + ?n1 + ?n2 + (?f + be16n field) = 65535 + (?n1 + ?n2 + ?f)" using f b0(2) by linarith+
  ultimately have "(65535 + (?o2 + ?o1 + be16n field)) mod 65535 = (65535 + (?n1 + ?n2 + ?f)) mod 65535"
    by (simp only:)
  then have "(?o2 + ?o1 + be16n field) mod 65535 = (?n1 + ?n2 + ?f) mod 65535"
    by (simp only: mod_add_self1)
  then show ?thesis using assms by (simp add: word_sum_four ac_simps)
qed

end
