(* ===== verification/Ip.thy ===== *)
theory Ip
  imports Mesh_Prelude
begin

text \<open>
  The parts of \<^verbatim>\<open>net\<close>, \<^verbatim>\<open>net/netip\<close>, \<^verbatim>\<open>strings\<close> and \<^verbatim>\<open>strconv\<close> that the node and the coordinator
  use: decimal numbers, splitting and trimming of strings, dotted IPv4 addresses, host:port pairs
  and IPv4 prefixes.  An address is a 32-bit word in network order; IPv6 literals are text that
  does not parse, as in every place of the sources that goes on only with an IPv4 address.
\<close>

section \<open>Strings\<close>

definition is_digit :: "char \<Rightarrow> bool" where
  "is_digit c \<longleftrightarrow> (let n = (of_char c :: nat) in 48 \<le> n \<and> n \<le> 57)"

definition digit_val :: "char \<Rightarrow> nat" where
  "digit_val c = (of_char c :: nat) - 48"

definition digit_char :: "nat \<Rightarrow> char" where
  "digit_char n = char_of (48 + n)"

fun itoa :: "nat \<Rightarrow> string" where
  "itoa n = (if n < 10 then [digit_char n] else itoa (n div 10) @ [digit_char (n mod 10)])"

declare itoa.simps [simp del]

text \<open>The value of a non-empty string of decimal digits.\<close>

definition atoi :: "string \<Rightarrow> nat option" where
  "atoi s = (if s = [] \<or> \<not> list_all is_digit s then None
     else Some (fold (\<lambda>c acc. acc * 10 + digit_val c) s 0))"

fun split_on :: "char \<Rightarrow> string \<Rightarrow> string list" where
  "split_on d [] = [[]]"
| "split_on d (c # cs) =
     (if c = d then [] # split_on d cs
      else case split_on d cs of [] \<Rightarrow> [[c]] | w # ws \<Rightarrow> (c # w) # ws)"

fun join_with :: "string \<Rightarrow> string list \<Rightarrow> string" where
  "join_with d [] = []"
| "join_with d [w] = w"
| "join_with d (w # ws) = w @ d @ join_with d ws"

definition to_lower_char :: "char \<Rightarrow> char" where
  "to_lower_char c = (let n = (of_char c :: nat) in if 65 \<le> n \<and> n \<le> 90 then char_of (n + 32) else c)"

definition ToLower :: "string \<Rightarrow> string" where
  "ToLower s = map to_lower_char s"

definition is_space :: "char \<Rightarrow> bool" where
  "is_space c \<longleftrightarrow> (let n = (of_char c :: nat) in n = 32 \<or> (9 \<le> n \<and> n \<le> 13))"

definition TrimSpace :: "string \<Rightarrow> string" where
  "TrimSpace s = rev (dropWhile is_space (rev (dropWhile is_space s)))"

definition HasPrefix :: "string \<Rightarrow> string \<Rightarrow> bool" where
  "HasPrefix s p \<longleftrightarrow> take (length p) s = p"

definition HasSuffix :: "string \<Rightarrow> string \<Rightarrow> bool" where
  "HasSuffix s p \<longleftrightarrow> length p \<le> length s \<and> drop (length s - length p) s = p"

fun Contains :: "string \<Rightarrow> string \<Rightarrow> bool" where
  "Contains [] p \<longleftrightarrow> p = []"
| "Contains (c # cs) p \<longleftrightarrow> HasPrefix (c # cs) p \<or> Contains cs p"

section \<open>Addresses\<close>

type_synonym ipv4 = "32 word"

definition ip_bytes :: "ipv4 \<Rightarrow> bytes" where
  "ip_bytes a = put_be32 a"

definition parse_octet :: "string \<Rightarrow> nat option" where
  "parse_octet s =
     (case atoi s of None \<Rightarrow> None
      | Some n \<Rightarrow> if 3 < length s \<or> 255 < n \<or> (1 < length s \<and> hd s = CHR ''0'') then None else Some n)"

definition ParseAddr :: "string \<Rightarrow> ipv4 option" where
  "ParseAddr s =
     (case split_on (CHR ''.'') s of
        [a, b, c, d] \<Rightarrow>
          (case (parse_octet a, parse_octet b, parse_octet c, parse_octet d) of
             (Some w, Some x, Some y, Some z) \<Rightarrow> Some (be32 [of_nat w, of_nat x, of_nat y, of_nat z])
           | _ \<Rightarrow> None)
      | _ \<Rightarrow> None)"

definition Addr_String :: "ipv4 \<Rightarrow> string" where
  "Addr_String a = join_with ''.'' (map (\<lambda>b. itoa (unat b)) (put_be32 a))"

text \<open>\<^verbatim>\<open>net.SplitHostPort\<close>: the port follows the last colon; the host is either free of colons or a
  bracketed literal, and no other bracket occurs.\<close>

definition SplitHostPort :: "string \<Rightarrow> (string \<times> string) option" where
  "SplitHostPort s =
     (let ws = split_on (CHR '':'') s; h = join_with '':'' (butlast ws); p = last ws in
      if length ws < 2 then None
      else if h \<noteq> [] \<and> hd h = CHR ''['' then
        (if 2 \<le> length h \<and> last h = CHR '']'' \<and> CHR '']'' \<notin> set (butlast h) \<and> CHR ''['' \<notin> set (tl h @ p)
            \<and> CHR '']'' \<notin> set p
         then Some (butlast (tl h), p) else None)
      else if CHR '':'' \<in> set h \<or> CHR ''['' \<in> set s \<or> CHR '']'' \<in> set s then None
      else Some (h, p))"

definition JoinHostPort :: "string \<Rightarrow> string \<Rightarrow> string" where
  "JoinHostPort h p = (if CHR '':'' \<in> set h then ''['' @ h @ '']:'' @ p else h @ '':'' @ p)"

definition IsPrivate :: "ipv4 \<Rightarrow> bool" where
  "IsPrivate a \<longleftrightarrow> drop_bit 24 a = 10 \<or> drop_bit 20 a = 0xAC1 \<or> drop_bit 16 a = 0xC0A8"

definition IsLoopback :: "ipv4 \<Rightarrow> bool" where
  "IsLoopback a \<longleftrightarrow> drop_bit 24 a = 127"

definition IsLinkLocalUnicast :: "ipv4 \<Rightarrow> bool" where
  "IsLinkLocalUnicast a \<longleftrightarrow> drop_bit 16 a = 0xA9FE"

definition IsMulticast :: "ipv4 \<Rightarrow> bool" where
  "IsMulticast a \<longleftrightarrow> drop_bit 28 a = 0xE"

definition IsUnspecified :: "ipv4 \<Rightarrow> bool" where
  "IsUnspecified a \<longleftrightarrow> a = 0"

section \<open>Prefixes\<close>

record prefix =
  Addr :: ipv4
  Bits :: nat

definition Masked :: "prefix \<Rightarrow> prefix" where
  "Masked p = p\<lparr>Addr := push_bit (32 - Bits p) (drop_bit (32 - Bits p) (Addr p))\<rparr>"

definition prefix_Contains :: "prefix \<Rightarrow> ipv4 \<Rightarrow> bool" where
  "prefix_Contains p a \<longleftrightarrow> drop_bit (32 - Bits p) a = drop_bit (32 - Bits p) (Addr p)"

definition prefix_Overlaps :: "prefix \<Rightarrow> prefix \<Rightarrow> bool" where
  "prefix_Overlaps p q \<longleftrightarrow>
     (let k = 32 - min (Bits p) (Bits q) in drop_bit k (Addr p) = drop_bit k (Addr q))"

definition ParsePrefix :: "string \<Rightarrow> prefix option" where
  "ParsePrefix s =
     (case split_on (CHR ''/'') s of
        [a, b] \<Rightarrow>
          (case (ParseAddr a, atoi b) of
             (Some ip, Some n) \<Rightarrow>
               if 32 < n \<or> 2 < length b \<or> (1 < length b \<and> hd b = CHR ''0'') then None
               else Some \<lparr>Addr = ip, Bits = n\<rparr>
           | _ \<Rightarrow> None)
      | _ \<Rightarrow> None)"

definition Prefix_String :: "prefix \<Rightarrow> string" where
  "Prefix_String p = Addr_String (Addr p) @ ''/'' @ itoa (Bits p)"

section \<open>Lemmas\<close>

lemma digit_val_char [simp]: "n < 10 \<Longrightarrow> digit_val (digit_char n) = n"
  by (simp add: digit_val_def digit_char_def)

lemma is_digit_char [simp]: "n < 10 \<Longrightarrow> is_digit (digit_char n)"
  by (simp add: is_digit_def digit_char_def)

lemma itoa_digits: "list_all is_digit (itoa n) \<and> itoa n \<noteq> []"
proof (induction n rule: itoa.induct)
  case (1 n)
  then show ?case by (subst (1 2) itoa.simps) (cases "n < 10"; simp)
qed

lemma itoa_value: "fold (\<lambda>c acc. acc * 10 + digit_val c) (itoa n) 0 = n"
proof (induction n rule: itoa.induct)
  case (1 n)
  then show ?case by (subst itoa.simps) (cases "n < 10"; simp)
qed

lemma atoi_itoa [simp]: "atoi (itoa n) = Some n"
  using itoa_digits [of n] itoa_value [of n] by (simp add: atoi_def)

lemma itoa_small:
  assumes "n < 1000"
  shows "length (itoa n) \<le> 3 \<and> (1 < length (itoa n) \<longrightarrow> hd (itoa n) \<noteq> CHR ''0'')"
proof -
  consider "n < 10" | "10 \<le> n" "n < 100" | "100 \<le> n" "n < 1000" using assms by linarith
  then show ?thesis
  proof cases
    case 1
    then show ?thesis by (simp add: itoa.simps)
  next
    case 2
    then have "itoa n = [digit_char (n div 10), digit_char (n mod 10)]"
    proof -
      have "n div 10 < 10" using 2 by simp
      then show ?thesis using 2 by (simp add: itoa.simps [of n] itoa.simps [of "n div 10"])
    qed
    moreover have "digit_char (n div 10) \<noteq> CHR ''0''"
    proof
      assume "digit_char (n div 10) = CHR ''0''"
      then have "digit_val (digit_char (n div 10)) = 0" by (simp add: digit_val_def)
      then show False using 2 by simp
    qed
    ultimately show ?thesis by simp
  next
    case 3
    then have "itoa n = [digit_char (n div 100), digit_char (n div 10 mod 10), digit_char (n mod 10)]"
    proof -
      have "n div 100 < 10" "\<not> n div 10 < 10" "n div 10 div 10 = n div 100"
        using 3 by (simp_all add: div_mult2_eq [symmetric])
      then show ?thesis
        using 3 by (simp add: itoa.simps [of n] itoa.simps [of "n div 10"] itoa.simps [of "n div 100"])
    qed
    moreover have "digit_char (n div 100) \<noteq> CHR ''0''"
    proof
      assume "digit_char (n div 100) = CHR ''0''"
      then have "digit_val (digit_char (n div 100)) = 0" by (simp add: digit_val_def)
      then show False using 3 by simp
    qed
    ultimately show ?thesis by simp
  qed
qed

lemma parse_octet_itoa [simp]: "n \<le> 255 \<Longrightarrow> parse_octet (itoa n) = Some n"
  using itoa_small [of n] by (auto simp: parse_octet_def)

lemma split_on_none: "d \<notin> set w \<Longrightarrow> split_on d w = [w]"
  by (induction w) auto

lemma split_on_append: "d \<notin> set w \<Longrightarrow> split_on d (w @ d # s) = w # split_on d s"
  by (induction w) auto

lemma itoa_no_char: "\<not> is_digit d \<Longrightarrow> d \<notin> set (itoa n)"
  using itoa_digits [of n] by (auto simp: list_all_iff)

lemma put_be32_four: "\<exists>w x y z. put_be32 a = [w, x, y, z]"
proof -
  have four: "length xs = Suc (Suc (Suc (Suc 0))) \<Longrightarrow> \<exists>w x y z. xs = [w, x, y, z]" for xs :: bytes
    by (auto simp: length_Suc_conv)
  show ?thesis by (rule four) simp
qed

lemma ParseAddr_String [simp]: "ParseAddr (Addr_String a) = Some a"
proof -
  obtain w x y z where b: "put_be32 a = [w, x, y, z]" using put_be32_four by blast
  have "CHR ''.'' \<notin> set (itoa n)" for n by (rule itoa_no_char) (simp add: is_digit_def)
  then have "split_on (CHR ''.'') (Addr_String a)
      = [itoa (unat w), itoa (unat x), itoa (unat y), itoa (unat z)]"
    by (simp add: Addr_String_def b split_on_append split_on_none)
  moreover have "unat v \<le> 255" for v :: byte using unat_byte_lt [of v] by simp
  ultimately show ?thesis
    by (simp add: ParseAddr_def b [symmetric])
qed

lemma drop_bit_mono_eq:
  fixes a b :: ipv4
  assumes "j \<le> k" "drop_bit j a = drop_bit j b"
  shows "drop_bit k a = drop_bit k b"
proof -
  have "drop_bit k c = drop_bit (k - j) (drop_bit j c)" for c :: ipv4 using assms(1) by simp
  with assms(2) show ?thesis by metis
qed

text \<open>Two prefixes overlap exactly when they share an address.\<close>

lemma prefix_Overlaps_iff: "prefix_Overlaps p q \<longleftrightarrow> (\<exists>a. prefix_Contains p a \<and> prefix_Contains q a)"
proof
  assume o: "prefix_Overlaps p q"
  show "\<exists>a. prefix_Contains p a \<and> prefix_Contains q a"
  proof (cases "Bits p \<le> Bits q")
    case True
    then show ?thesis using o
      by (intro exI [of _ "Addr q"]) (simp add: prefix_Overlaps_def prefix_Contains_def Let_def min_def)
  next
    case False
    then show ?thesis using o
      by (intro exI [of _ "Addr p"]) (simp add: prefix_Overlaps_def prefix_Contains_def Let_def min_def)
  qed
next
  assume "\<exists>a. prefix_Contains p a \<and> prefix_Contains q a"
  then obtain a where a: "prefix_Contains p a" "prefix_Contains q a" by blast
  let ?k = "32 - min (Bits p) (Bits q)"
  have "drop_bit ?k a = drop_bit ?k (Addr p)" "drop_bit ?k a = drop_bit ?k (Addr q)"
    using a by (auto simp: prefix_Contains_def intro: drop_bit_mono_eq [rotated])
  then show "prefix_Overlaps p q" by (simp add: prefix_Overlaps_def Let_def)
qed

lemma prefix_Overlaps_sym: "prefix_Overlaps p q \<longleftrightarrow> prefix_Overlaps q p"
  by (auto simp: prefix_Overlaps_iff)

lemma Masked_simps [simp]: "Bits (Masked p) = Bits p"
  by (simp add: Masked_def)

lemma unat_drop_bit: "unat (drop_bit k (a :: ipv4)) = unat a div 2 ^ k"
  using unat_32_lt [of a]
  by (simp add: unsigned_drop_bit_eq take_bit_eq_mod) (simp add: drop_bit_eq_div)

lemma Masked_Contains [simp]: "prefix_Contains (Masked p) a = prefix_Contains p a"
proof -
  have "drop_bit k (push_bit k (drop_bit k w)) = drop_bit k w" for k and w :: ipv4
    by (rule bit_eqI) (auto simp: bit_drop_bit_eq bit_push_bit_iff dest: bit_imp_le_length)
  then show ?thesis by (simp add: prefix_Contains_def Masked_def)
qed

lemma Masked_idem [simp]: "Masked (Masked p) = Masked p"
proof -
  have "drop_bit k (push_bit k (drop_bit k w)) = drop_bit k w" for k and w :: ipv4
    by (rule bit_eqI) (auto simp: bit_drop_bit_eq bit_push_bit_iff dest: bit_imp_le_length)
  then show ?thesis by (simp add: Masked_def)
qed

end
