(* ===== verification/Packet_Path.thy ===== *)
theory Packet_Path
  imports Checksum Ip
begin

text \<open>
  The IPv4 packet path between the TUN device and the mesh: address ownership
  (\<^verbatim>\<open>mesh-node/topology.go\<close>: \<^verbatim>\<open>ownerOf\<close>, \<^verbatim>\<open>addressOwnedBy\<close>), the coordinator-managed firewall
  (\<^verbatim>\<open>parseFirewallRules\<close>, \<^verbatim>\<open>permits\<close>), subnet translation with checksum repair
  (\<^verbatim>\<open>mesh-node/tun_forward.go\<close>: \<^verbatim>\<open>translateLocalPacket\<close>), the reader of the TUN device (\<^verbatim>\<open>tunLoop\<close>) and
  the injection of received packets (\<^verbatim>\<open>deliver\<close>).

  The theorems show that translation keeps IPv4 and TCP checksums valid and is undone by the
  translation of the reply, that a node injects only packets whose source belongs to the sender,
  and that what one node takes from its TUN device passes the ownership checks of the receiver.
\<close>

section \<open>State\<close>

record subnetRoute =
  Virtual :: prefix
  LAN :: prefix
  Owner :: string

record fwRules =
  fw_tcp :: "nat set"
  fw_udp :: "nat set"

record packet_node =
  node_id :: string
  subnetRoutes :: "subnetRoute list"
  meshNodes :: "ipv4 \<rightharpoonup> string"
  meshIPv4 :: ipv4
  mesh_prefix :: int
  firewall :: "fwRules option"
  tun_open :: bool

abbreviation maxTUN :: nat where "maxTUN \<equiv> 1350"

section \<open>Ownership\<close>

definition localMeshIP :: "packet_node \<Rightarrow> ipv4" where
  "localMeshIP n = meshIPv4 n"

definition isLocalMeshIP :: "packet_node \<Rightarrow> ipv4 \<Rightarrow> bool" where
  "isLocalMeshIP n ip \<longleftrightarrow> meshIPv4 n \<noteq> 0 \<and> ip = localMeshIP n"

fun longest_route :: "ipv4 \<Rightarrow> subnetRoute list \<Rightarrow> string \<Rightarrow> int \<Rightarrow> string" where
  "longest_route ip [] owner bits = owner"
| "longest_route ip (r # rs) owner bits =
     (if prefix_Contains (Virtual r) ip \<and> bits < int (Bits (Virtual r))
      then longest_route ip rs (Owner r) (int (Bits (Virtual r)))
      else longest_route ip rs owner bits)"

definition ownerOf :: "packet_node \<Rightarrow> ipv4 \<Rightarrow> string" where
  "ownerOf n ip =
     (case meshNodes n ip of
        Some k \<Rightarrow> if k \<noteq> [] then k else longest_route ip (subnetRoutes n) [] (- 1)
      | None \<Rightarrow> longest_route ip (subnetRoutes n) [] (- 1))"

text \<open>A missing entry of \<^verbatim>\<open>meshNodes\<close> reads as the empty string.\<close>

definition addressOwnedBy :: "packet_node \<Rightarrow> string \<Rightarrow> ipv4 \<Rightarrow> bool" where
  "addressOwnedBy n owner ip \<longleftrightarrow>
     (case meshNodes n ip of Some k \<Rightarrow> k | None \<Rightarrow> []) = owner
     \<or> list_ex (\<lambda>r. Owner r = owner \<and> prefix_Contains (Virtual r) ip) (subnetRoutes n)"

section \<open>Firewall\<close>

text \<open>\<^verbatim>\<open>strconv.ParseUint(port, 10, 16)\<close>\<close>

definition parse_uint16 :: "string \<Rightarrow> nat option" where
  "parse_uint16 s = (case atoi s of Some v \<Rightarrow> if v < 65536 then Some v else None | None \<Rightarrow> None)"

definition add_rule :: "string \<Rightarrow> fwRules \<Rightarrow> fwRules" where
  "add_rule raw r =
     (let entry = ToLower (TrimSpace raw) in
      if entry = [] then r
      else (let port = takeWhile (\<lambda>c. c \<noteq> CHR ''/'') entry;
                proto = drop (length port + 1) entry
            in case parse_uint16 port of
                 None \<Rightarrow> r
               | Some v \<Rightarrow>
                   if v = 0 then r
                   else if proto = ''tcp'' then r\<lparr>fw_tcp := insert v (fw_tcp r)\<rparr>
                   else if proto = ''udp'' then r\<lparr>fw_udp := insert v (fw_udp r)\<rparr>
                   else if proto = [] then r\<lparr>fw_tcp := insert v (fw_tcp r), fw_udp := insert v (fw_udp r)\<rparr>
                   else r))"

definition parseFirewallRules :: "(string \<times> string list) option \<Rightarrow> fwRules option" where
  "parseFirewallRules c =
     (case c of None \<Rightarrow> None
      | Some (mode, ports) \<Rightarrow>
          if mode \<noteq> ''whitelist'' then None
          else Some (fold add_rule ports \<lparr>fw_tcp = {}, fw_udp = {}\<rparr>))"

definition ihl_of :: "bytes \<Rightarrow> nat" where
  "ihl_of p = unat (p ! 0 AND 15) * 4"

definition frag_offset :: "bytes \<Rightarrow> nat" where
  "frag_offset p = be16n (slice 6 8 p) mod 8192"

definition permits :: "fwRules \<Rightarrow> bytes \<Rightarrow> bool" where
  "permits f p =
     (if p ! 9 = 1 then True
      else if p ! 9 \<noteq> 6 \<and> p ! 9 \<noteq> 17 then False
      else if frag_offset p \<noteq> 0 then False
      else if length p < ihl_of p + 4 then False
      else (let port = be16n (slice (ihl_of p + 2) (ihl_of p + 4) p)
            in if p ! 9 = 6 then port \<in> fw_tcp f else port \<in> fw_udp f))"

section \<open>Translation\<close>

fun local_route :: "packet_node \<Rightarrow> bool \<Rightarrow> ipv4 \<Rightarrow> subnetRoute list \<Rightarrow> (prefix \<times> prefix) option" where
  "local_route n source ip [] = None"
| "local_route n source ip (r # rs) =
     (if Owner r \<noteq> node_id n then local_route n source ip rs
      else (let (from, to) = (if source then (LAN r, Virtual r) else (Virtual r, LAN r))
            in if prefix_Contains from ip then Some (from, to) else local_route n source ip rs))"

definition addr_at :: "nat \<Rightarrow> bytes \<Rightarrow> ipv4" where
  "addr_at i p = be32 (slice i (i + 4) p)"

definition adjust_at :: "nat \<Rightarrow> bytes \<Rightarrow> bytes \<Rightarrow> bytes \<Rightarrow> bytes" where
  "adjust_at i old new p = splice i (adjustAddressChecksum (slice i (i + 2) p) old new) p"

text \<open>The checksum of the transport header, after the address was replaced.\<close>

definition fix_transport :: "bytes \<Rightarrow> bytes \<Rightarrow> bytes \<Rightarrow> bytes" where
  "fix_transport old new p =
     (let ihl = ihl_of p in
      if length p < ihl \<or> frag_offset p \<noteq> 0 then p
      else if p ! 9 = 6 then (if ihl + 18 \<le> length p then adjust_at (ihl + 16) old new p else p)
      else if p ! 9 = 17 then
        (if ihl + 8 \<le> length p \<and> be16n (slice (ihl + 6) (ihl + 8) p) \<noteq> 0
         then adjust_at (ihl + 6) old new p else p)
      else p)"

definition translateLocalPacket :: "packet_node \<Rightarrow> bytes \<Rightarrow> bool \<Rightarrow> bool \<times> bytes" where
  "translateLocalPacket n packet source =
     (if length packet < 20 then (False, packet)
      else (let at = (if source then 12 else 16); ip = addr_at at packet
            in case local_route n source ip (subnetRoutes n) of
                 None \<Rightarrow> (False, packet)
               | Some (from, to) \<Rightarrow>
                   (let offset = ip - Addr from;
                        replacement = put_be32 (Addr to + offset);
                        old = slice at (at + 4) packet;
                        p1 = splice at replacement packet;
                        p2 = adjust_at 10 old replacement p1
                    in (True, fix_transport old replacement p2))))"

section \<open>Delivery and the TUN reader\<close>

text \<open>\<^verbatim>\<open>deliver\<close>: the packet that is written to the TUN device, if any.\<close>

definition deliver :: "packet_node \<Rightarrow> string \<Rightarrow> bytes \<Rightarrow> bytes option" where
  "deliver n src p =
     (if \<not> tun_open n \<or> length p < 20 \<or> maxTUN < length p \<or> drop_bit 4 (p ! 0) \<noteq> 4 then None
      else (let sourceIP = addr_at 12 p; destinationIP = addr_at 16 p;
                localDestination = isLocalMeshIP n destinationIP
            in if \<not> addressOwnedBy n src sourceIP
                 \<or> \<not> (localDestination \<or> addressOwnedBy n (node_id n) destinationIP) then None
            else if localDestination then
              (case firewall n of None \<Rightarrow> Some p | Some fw \<Rightarrow> if permits fw p then Some p else None)
            else (case translateLocalPacket n p False of
                    (True, p') \<Rightarrow> Some p' | (False, _) \<Rightarrow> None)))"

text \<open>\<open>netip.PrefixFrom(local, bits).Masked()\<close> and the bit loop of \<^verbatim>\<open>isTUNBroadcast\<close>: every host bit of
  the address is set and every host bit of the masked base is clear.\<close>

definition isTUNBroadcast :: "packet_node \<Rightarrow> ipv4 \<Rightarrow> bool" where
  "isTUNBroadcast n addr =
     (if addr = 0xFFFFFFFF then True
      else if meshIPv4 n = 0 \<or> mesh_prefix n < 0 \<or> 30 < mesh_prefix n then False
      else (let prefix = Masked \<lparr>Addr = localMeshIP n, Bits = nat (mesh_prefix n)\<rparr>
            in if \<not> prefix_Contains prefix addr then False
               else list_all (\<lambda>b. bit addr (31 - b) \<and> \<not> bit (Addr prefix) (31 - b))
                      [nat (mesh_prefix n)..<32]))"

datatype tun_action = DropFrame | Loopback bytes | InjectLocal bytes | SendIP string bytes

text \<open>One iteration of \<^verbatim>\<open>tunLoop\<close> on a frame that was read.\<close>

definition tunFrame :: "packet_node \<Rightarrow> bytes \<Rightarrow> tun_action" where
  "tunFrame n b =
     (if length b < 20 \<or> maxTUN < length b \<or> drop_bit 4 (b ! 0) \<noteq> 4 then DropFrame
      else (let srcAddr = addr_at 12 b; dstAddr = addr_at 16 b
            in if isTUNBroadcast n dstAddr then DropFrame
               else if isLocalMeshIP n dstAddr then Loopback b
               else (let dst = ownerOf n dstAddr
                     in if dst = [] then DropFrame
                        else if dst = node_id n then
                          (case translateLocalPacket n b False of
                             (True, b') \<Rightarrow> InjectLocal b' | (False, _) \<Rightarrow> DropFrame)
                        else if isLocalMeshIP n srcAddr then SendIP dst b
                        else (case translateLocalPacket n b True of
                                (True, b') \<Rightarrow> SendIP dst b' | (False, _) \<Rightarrow> DropFrame))))"

section \<open>Lemmas: splicing headers\<close>

lemma mod_cancel: "(a :: nat) + x = b + y \<Longrightarrow> x mod m = y mod m \<Longrightarrow> a mod m = b mod m"
proof -
  assume ab: "a + x = b + y" and xy: "x mod m = y mod m"
  have "int a - int b = int y - int x" using ab by linarith
  moreover have "int m dvd int y - int x" using xy by (metis mod_eq_dvd_iff zmod_int)
  ultimately have "int a mod int m = int b mod int m" by (simp add: mod_eq_dvd_iff)
  then show ?thesis by (metis nat_int zmod_int)
qed

lemma take_splice_low: "i + length ys \<le> k \<Longrightarrow> k \<le> length xs \<Longrightarrow> take k (splice i ys xs) = splice i ys (take k xs)"
  by (simp add: splice_def drop_take min.absorb2)

lemma take_splice_high: "k \<le> i \<Longrightarrow> i + length ys \<le> length xs \<Longrightarrow> take k (splice i ys xs) = take k xs"
  by (simp add: splice_def)

lemma drop_splice_low: "i + length ys \<le> k \<Longrightarrow> k \<le> length xs \<Longrightarrow> drop k (splice i ys xs) = drop k xs"
  by (simp add: splice_def)

lemma drop_splice_high:
  "k \<le> i \<Longrightarrow> i + length ys \<le> length xs \<Longrightarrow> drop k (splice i ys xs) = splice (i - k) ys (drop k xs)"
  by (simp add: splice_def drop_take add.commute)

lemma slice_splice_inner:
  "a \<le> i \<Longrightarrow> i + length ys \<le> b \<Longrightarrow> b \<le> length xs \<Longrightarrow>
   slice a b (splice i ys xs) = splice (i - a) ys (slice a b xs)"
  by (simp add: slice_def drop_splice_high take_splice_low)

lemma word_sum_zero_head: "word_sum xs = 0 \<Longrightarrow> xs \<noteq> [] \<Longrightarrow> xs ! 0 = 0"
  by (cases xs rule: word_sum.cases) (auto simp: unsigned_eq_0_iff)

lemma adjust_at_frame:
  assumes "i + 2 \<le> length p"
  shows "length (adjust_at i old new p) = length p"
    and "k < i \<or> i + 2 \<le> k \<Longrightarrow> adjust_at i old new p ! k = p ! k"
    and "b \<le> i \<or> i + 2 \<le> a \<Longrightarrow> slice a b (adjust_at i old new p) = slice a b p"
  using assms by (auto simp: adjust_at_def nth_splice intro!: slice_splice_disjoint)

text \<open>A sum that changed by a replaced address and by the adjusted checksum is the same modulo 65535.\<close>

lemma adjusted_sum:
  assumes "length old = 4" "length new = 4"
    and "t' + be16n f + word_sum old = t + be16n (adjustAddressChecksum f old new) + word_sum new"
  shows "t' mod 65535 = t mod 65535"
proof (rule mod_cancel)
  let ?g = "adjustAddressChecksum f old new"
  show "t' + (be16n f + word_sum old) = t + (be16n ?g + word_sum new)" using assms(3) by simp
  show "(be16n f + word_sum old) mod 65535 = (be16n ?g + word_sum new) mod 65535"
    using adjust_sum [OF assms(1,2), of f] by simp
qed

lemma field_sum:
  assumes "even i" "i + 2 \<le> length b" "length g = 2"
  shows "word_sum (splice i g b) + be16n (slice i (i + 2) b) = word_sum b + be16n g"
  using word_sum_splice [of i g b] assms by (simp add: word_sum_two)

section \<open>Lemmas: translation\<close>

definition addr_off :: "bool \<Rightarrow> nat" where
  "addr_off source = (if source then 12 else 16)"

text \<open>The packet before the transport checksum is repaired.\<close>

definition readdressed :: "bool \<Rightarrow> bytes \<Rightarrow> bytes \<Rightarrow> bytes" where
  "readdressed source new p =
     adjust_at 10 (slice (addr_off source) (addr_off source + 4) p) new (splice (addr_off source) new p)"

lemma translate_True:
  "translateLocalPacket n p source = (True, p') \<longleftrightarrow>
     20 \<le> length p \<and> (\<exists>from to. local_route n source (addr_at (addr_off source) p) (subnetRoutes n) = Some (from, to)
       \<and> (let new = put_be32 (Addr to + (addr_at (addr_off source) p - Addr from))
          in p' = fix_transport (slice (addr_off source) (addr_off source + 4) p) new (readdressed source new p)))"
  by (auto simp: translateLocalPacket_def readdressed_def addr_off_def Let_def not_less split: option.splits)

lemma translate_form:
  assumes "translateLocalPacket n p source = (True, p')"
  obtains new where "20 \<le> length p" "length new = 4"
    "p' = fix_transport (slice (addr_off source) (addr_off source + 4) p) new (readdressed source new p)"
proof -
  from assms obtain a where "20 \<le> length p"
    "p' = fix_transport (slice (addr_off source) (addr_off source + 4) p) (put_be32 a)
       (readdressed source (put_be32 a) p)"
    by (auto simp: translate_True Let_def)
  then show thesis by (intro that) simp_all
qed

lemma readdressed_frame:
  assumes "20 \<le> length p" "length new = 4"
  shows "length (readdressed source new p) = length p"
    and "k < 10 \<or> 20 \<le> k \<Longrightarrow> readdressed source new p ! k = p ! k"
    and "ihl_of (readdressed source new p) = ihl_of p"
    and "frag_offset (readdressed source new p) = frag_offset p"
    and "slice (addr_off source) (addr_off source + 4) (readdressed source new p) = new"
    and "slice (addr_off (\<not> source)) (addr_off (\<not> source) + 4) (readdressed source new p)
      = slice (addr_off (\<not> source)) (addr_off (\<not> source) + 4) p"
    and "20 \<le> k \<Longrightarrow> k \<le> length p \<Longrightarrow> drop k (readdressed source new p) = drop k p"
proof -
  have nth: "readdressed source new p ! k = p ! k" if "k < 10 \<or> 20 \<le> k" for k
    using assms that by (auto simp: readdressed_def addr_off_def adjust_at_frame nth_splice)
  then show "k < 10 \<or> 20 \<le> k \<Longrightarrow> readdressed source new p ! k = p ! k" .
  show "ihl_of (readdressed source new p) = ihl_of p" by (simp add: ihl_of_def nth)
qed (use assms in \<open>auto simp: readdressed_def addr_off_def adjust_at_frame frag_offset_def
    slice_splice_disjoint slice_splice_same adjust_at_def drop_splice_low\<close>)

lemma slice_take: "b \<le> k \<Longrightarrow> slice a b (take k xs) = slice a b xs"
  by (simp add: slice_def drop_take min_def)

lemma readdressed_header_sum:
  assumes "20 \<le> k" "k \<le> length p" "length new = 4"
  shows "word_sum (take k (readdressed source new p)) mod 65535 = word_sum (take k p) mod 65535"
proof -
  let ?at = "addr_off source" and ?h = "take k p"
  let ?old = "slice ?at (?at + 4) p"
  let ?h1 = "splice ?at new ?h"
  let ?g = "adjustAddressChecksum (slice 10 12 ?h1) ?old new"
  have at: "?at + 4 \<le> 20" "even ?at" "12 \<le> ?at" by (auto simp: addr_off_def)
  have old: "length ?old = 4" "slice ?at (?at + 4) ?h = ?old"
    using assms at by (simp_all add: slice_take)
  have h1: "take k (splice ?at new p) = ?h1" "length ?h1 = k"
    using at assms by (simp_all add: take_splice_low)
  have fld: "slice 10 12 (splice ?at new p) = slice 10 12 ?h1"
    using h1(1) assms(1) slice_take [of 12 k 10 "splice ?at new p"] by simp
  have "take k (readdressed source new p) = splice 10 ?g ?h1"
    using at assms h1 fld by (simp add: readdressed_def adjust_at_def take_splice_low)
  moreover have "word_sum (splice 10 ?g ?h1) + be16n (slice 10 12 ?h1) = word_sum ?h1 + be16n ?g"
    using field_sum [of 10 ?h1 ?g] h1(2) assms(1) by simp
  moreover have "word_sum ?h1 + word_sum ?old = word_sum ?h + word_sum new"
    using word_sum_splice [of ?at new ?h] at assms old by simp
  ultimately have "word_sum (take k (readdressed source new p)) + be16n (slice 10 12 ?h1) + word_sum ?old
      = word_sum ?h + be16n ?g + word_sum new" by simp
  with old(1) assms(3) show ?thesis by (rule adjusted_sum)
qed

text \<open>The transport repair leaves the IPv4 header alone when the header length field is sane.\<close>

lemma fix_transport_frame:
  assumes "20 \<le> ihl_of p"
  shows "length (fix_transport old new p) = length p"
    and "k \<le> ihl_of p \<Longrightarrow> take k (fix_transport old new p) = take k p"
  using assms
  by (auto simp: fix_transport_def Let_def adjust_at_frame)
     (auto simp: adjust_at_def take_splice_high)

lemma fix_transport_slice:
  assumes "20 \<le> ihl_of p" "b \<le> 20"
  shows "slice a b (fix_transport old new p) = slice a b p"
proof -
  have "slice a b q = slice a b (take 20 q)" for q :: bytes using assms(2) by (simp add: slice_take)
  then show ?thesis using fix_transport_frame(2) [OF assms(1,1)] by metis
qed

lemma translate_addresses:
  assumes "translateLocalPacket n p source = (True, p')" "20 \<le> ihl_of p"
  obtains frm dest where
    "local_route n source (addr_at (addr_off source) p) (subnetRoutes n) = Some (frm, dest)"
    "addr_at (addr_off source) p' = Addr dest + (addr_at (addr_off source) p - Addr frm)"
    "addr_at (addr_off (\<not> source)) p' = addr_at (addr_off (\<not> source)) p"
    "length p' = length p"
proof -
  from assms(1) obtain frm dest where len: "20 \<le> length p"
    and r: "local_route n source (addr_at (addr_off source) p) (subnetRoutes n) = Some (frm, dest)"
    and p': "p' = fix_transport (slice (addr_off source) (addr_off source + 4) p)
        (put_be32 (Addr dest + (addr_at (addr_off source) p - Addr frm)))
        (readdressed source (put_be32 (Addr dest + (addr_at (addr_off source) p - Addr frm))) p)"
    by (auto simp: translate_True Let_def)
  let ?new = "put_be32 (Addr dest + (addr_at (addr_off source) p - Addr frm))"
  have l4: "length ?new = 4" by simp
  have i: "20 \<le> ihl_of (readdressed source ?new p)"
    using assms(2) readdressed_frame(3) [OF len l4] by simp
  have at: "addr_off s + 4 \<le> 20" for s by (simp add: addr_off_def)
  show thesis
  proof (rule that [OF r])
    show "addr_at (addr_off source) p' = Addr dest + (addr_at (addr_off source) p - Addr frm)"
      using fix_transport_slice [OF i at] readdressed_frame(5) [OF len l4]
      by (simp add: addr_at_def p')
    show "addr_at (addr_off (\<not> source)) p' = addr_at (addr_off (\<not> source)) p"
      using fix_transport_slice [OF i at] readdressed_frame(6) [OF len l4] by (simp add: addr_at_def p')
    show "length p' = length p"
      using fix_transport_frame(1) [OF i] readdressed_frame(1) [OF len l4] by (simp add: p')
  qed
qed

text \<open>C7: subnet translation keeps the IPv4 header checksum valid.  If the header of a packet (at least the
  20 mandatory bytes) verifies before an address is rewritten, it verifies after it.\<close>

theorem translation_keeps_header_checksum:
  assumes "translateLocalPacket n p source = (True, p')"
    and "20 \<le> ihl_of p" "ihl_of p \<le> length p"
    and "packetChecksum (take (ihl_of p) p) = 0"
  shows "packetChecksum (take (ihl_of p) p') = 0"
proof -
  from assms(1) obtain new where len: "20 \<le> length p" "length new = 4"
    and p': "p' = fix_transport (slice (addr_off source) (addr_off source + 4) p) new (readdressed source new p)"
    by (rule translate_form)
  note fr = readdressed_frame [OF len]
  let ?k = "ihl_of p"
  have "take ?k p' = take ?k (readdressed source new p)"
    unfolding p' using fix_transport_frame(2) [of "readdressed source new p" ?k] fr(3) assms(2) by simp
  moreover have "word_sum (take ?k (readdressed source new p)) mod 65535 = 0"
    using readdressed_header_sum [OF assms(2,3) len(2)] assms(4) by (simp add: packetChecksum_zero)
  moreover have "word_sum (take ?k (readdressed source new p)) \<noteq> 0"
  proof
    assume z: "word_sum (take ?k (readdressed source new p)) = 0"
    have "length (take ?k (readdressed source new p)) = ?k" using assms(3) fr(1) [of source] by simp
    then have "take ?k (readdressed source new p) \<noteq> []" using assms(2) by (metis length_0_conv not_numeral_le_zero)
    from word_sum_zero_head [OF z this] have "p ! 0 = 0" using assms(2) fr(2) [of 0] by simp
    then have "ihl_of p = 0" by (simp add: ihl_of_def)
    with assms(2) show False by simp
  qed
  ultimately show ?thesis by (simp add: packetChecksum_zero)
qed

definition pseudo_header :: "bytes \<Rightarrow> bytes" where
  "pseudo_header p = slice 12 20 p @ [0, p ! 9] @ put_be16n (length p - ihl_of p)"

definition tcp_checksum_ok :: "bytes \<Rightarrow> bool" where
  "tcp_checksum_ok p \<longleftrightarrow> packetChecksum (pseudo_header p @ drop (ihl_of p) p) = 0"

lemma pseudo_sum:
  assumes "20 \<le> length p"
  shows "word_sum (pseudo_header p @ xs)
    = word_sum (slice 12 20 p) + unat (p ! 9) + word_sum (put_be16n (length p - ihl_of p)) + word_sum xs"
proof -
  have "word_sum (slice 12 20 p @ [0, p ! 9] @ put_be16n v @ xs)
      = word_sum (slice 12 20 p) + word_sum ([0, p ! 9] @ put_be16n v @ xs)" for v
    using assms by (intro word_sum_append) simp
  moreover have "word_sum (put_be16n v @ xs) = word_sum (put_be16n v) + word_sum xs" for v
    by (rule word_sum_append) simp
  ultimately show ?thesis by (simp add: pseudo_header_def)
qed

text \<open>C16: subnet translation keeps TCP checksums valid.  For an unfragmented TCP packet that is long enough
  to carry its checksum, if the checksum over pseudo header and segment verifies before the
  translation it verifies after it.\<close>

theorem translation_keeps_tcp_checksum:
  assumes tr: "translateLocalPacket n p source = (True, p')"
    and ihl: "20 \<le> ihl_of p" "ihl_of p + 18 \<le> length p"
    and tcp: "p ! 9 = 6" "frag_offset p = 0" and ok: "tcp_checksum_ok p"
  shows "tcp_checksum_ok p'"
proof -
  let ?at = "addr_off source"
  let ?old = "slice ?at (?at + 4) p"
  from tr obtain new where len: "20 \<le> length p" "length new = 4"
    and p': "p' = fix_transport ?old new (readdressed source new p)"
    by (rule translate_form)
  let ?q = "readdressed source new p" and ?k = "ihl_of p"
  note fr = readdressed_frame [OF len]
  let ?f = "slice 16 18 (drop ?k p)"
  let ?g = "adjustAddressChecksum ?f ?old new"
  have old: "length ?old = 4" using len by (simp add: addr_off_def)
  have at: "12 \<le> ?at" "?at + 4 \<le> 20" "even (?at - 12)" by (auto simp: addr_off_def)
  have tail: "drop ?k ?q = drop ?k p" using fr(7) [of ?k] ihl by simp
  have "slice (?k + 16) (18 + ?k) ?q = ?f" 
  proof -
    have "slice (?k + 16) (18 + ?k) ?q = slice 16 18 (drop ?k ?q)" by (simp add: slice_def add.commute)
    then show ?thesis by (simp only: tail)
  qed
  then have fixd: "p' = splice (?k + 16) ?g ?q"
    unfolding p' using fr(1,3,4) fr(2) [of 9] ihl tcp
    by (simp add: fix_transport_def Let_def adjust_at_def)
  have seg: "drop ?k p' = splice 16 ?g (drop ?k p)"
    unfolding fixd using tail fr(1) ihl by (simp add: drop_splice_high)
  have len': "length p' = length p" unfolding fixd using fr(1) ihl by simp
  have low: "p' ! j = p ! j" if "j < 10" for j
    unfolding fixd using that fr(1) fr(2) [of j] ihl by (simp add: nth_splice)
  have ihl': "ihl_of p' = ?k" using low [of 0] by (simp add: ihl_of_def)
  have "slice 12 20 p' = slice 12 20 ?q"
    unfolding fixd using fr(1) ihl by (intro slice_splice_disjoint) auto
  also have "\<dots> = splice (?at - 12) new (slice 12 20 p)"
  proof -
    have "slice 12 20 ?q = slice 12 20 (splice ?at new p)"
      using len at by (auto simp: readdressed_def intro!: adjust_at_frame)
    then show ?thesis using len at by (simp add: slice_splice_inner)
  qed
  finally have addr: "slice 12 20 p' = splice (?at - 12) new (slice 12 20 p)" .
  have "slice (?at - 12) (?at - 12 + 4) (slice 12 20 p) = ?old"
    using at by (auto simp: slice_def addr_off_def drop_take min_def)
  then have sa: "word_sum (slice 12 20 p') + word_sum ?old = word_sum (slice 12 20 p) + word_sum new"
    using word_sum_splice [of "?at - 12" new "slice 12 20 p"] at len addr by simp
  have ss: "word_sum (drop ?k p') + be16n ?f = word_sum (drop ?k p) + be16n ?g"
    unfolding seg using field_sum [of 16 "drop ?k p" ?g] ihl by simp
  let ?t = "word_sum (pseudo_header p @ drop ?k p)" and ?t' = "word_sum (pseudo_header p' @ drop ?k p')"
  have "?t' + be16n ?f + word_sum ?old = ?t + be16n ?g + word_sum new"
    using sa ss len len' low [of 9] by (simp add: pseudo_sum ihl')
  with old len(2) have "?t' mod 65535 = ?t mod 65535" by (rule adjusted_sum)
  moreover have "?t' \<noteq> 0" using len len' low [of 9] tcp by (simp add: pseudo_sum)
  ultimately show ?thesis using ok by (simp add: tcp_checksum_ok_def packetChecksum_zero ihl')
qed


text \<open>A TCP packet to 10.50.0.7 and a node that translates 10.50.0.0/24 to its LAN 192.168.1.0/24.\<close>

definition sample_node :: packet_node where
  "sample_node = \<lparr>node_id = ''n'', subnetRoutes = [\<lparr>Virtual = \<lparr>Addr = 0x0A320000, Bits = 24\<rparr>,
       LAN = \<lparr>Addr = 0xC0A80100, Bits = 24\<rparr>, Owner = ''n''\<rparr>],
     meshNodes = Map.empty, meshIPv4 = 0x0A2C0001, mesh_prefix = 24, firewall = None, tun_open = True\<rparr>"

definition sample_packet :: bytes where
  "sample_packet = [69, 0, 0, 40, 0, 1, 0, 0, 64, 6, 102, 98, 10, 44, 0, 9, 10, 50, 0, 7, 31, 144, 0, 80, 0, 0, 0, 1, 0, 0, 0, 0, 80, 2, 16, 0, 107, 148, 0, 0]"

lemma sample_packet_facts:
  "length sample_packet = 40" "ihl_of sample_packet = 20" "sample_packet ! 9 = 6"
  "frag_offset sample_packet = 0" "addr_at 16 sample_packet = 0x0A320007"
  "addr_at 12 sample_packet = 0x0A2C0009"
  by (simp_all add: sample_packet_def ihl_of_def frag_offset_def addr_at_def slice_def be16n_def be32_def)

lemma sample_checksums:
  "packetChecksum (take 20 sample_packet) = 0" "tcp_checksum_ok sample_packet"
  by (simp_all add: packetChecksum_zero tcp_checksum_ok_def pseudo_sum sample_packet_facts)
     (simp_all add: sample_packet_def slice_def put_be16n_def)

lemma sample_route:
  "local_route sample_node False 0x0A320007 (subnetRoutes sample_node)
     = Some (\<lparr>Addr = 0x0A320000, Bits = 24\<rparr>, \<lparr>Addr = 0xC0A80100, Bits = 24\<rparr>)"
  by (simp add: sample_node_def prefix_Contains_def drop_bit_word_numeral)

lemma sample_translate:
  "translateLocalPacket sample_node sample_packet False
     = (True, snd (translateLocalPacket sample_node sample_packet False))"
  by (simp add: translateLocalPacket_def sample_packet_facts sample_route Let_def)

theorem translation_keeps_header_checksum_witness:
  "packetChecksum (take 20 (snd (translateLocalPacket sample_node sample_packet False))) = 0"
  using translation_keeps_header_checksum [OF sample_translate] sample_packet_facts sample_checksums by simp

theorem translation_keeps_tcp_checksum_witness:
  "tcp_checksum_ok (snd (translateLocalPacket sample_node sample_packet False))"
  using translation_keeps_tcp_checksum [OF sample_translate] sample_packet_facts sample_checksums by simp

section \<open>Translation is undone by the reply\<close>

text \<open>A route as the topology installs it: both prefixes masked and of the same length.\<close>

definition route_ok :: "subnetRoute \<Rightarrow> bool" where
  "route_ok r \<longleftrightarrow> Bits (Virtual r) = Bits (LAN r) \<and> Bits (LAN r) \<le> 32
     \<and> Masked (Virtual r) = Virtual r \<and> Masked (LAN r) = LAN r"

lemma masked_aligned:
  assumes "Masked p = p"
  shows "unat (Addr p) mod 2 ^ (32 - Bits p) = 0"
proof -
  have "Addr p = push_bit (32 - Bits p) (drop_bit (32 - Bits p) (Addr p))"
    using assms unfolding Masked_def by (metis prefix.simps(1) prefix.surjective prefix.update_convs(1))
  then have "unat (Addr p) = unat (push_bit (32 - Bits p) (drop_bit (32 - Bits p) (Addr p)))" by simp
  also have "\<dots> = take_bit 32 (push_bit (32 - Bits p) (unat (drop_bit (32 - Bits p) (Addr p))))"
    by (simp add: unsigned_push_bit_eq)
  also have "\<dots> mod 2 ^ (32 - Bits p) = 0"
  proof -
    have "(2 :: nat) ^ (32 - Bits p) dvd 2 ^ 32" by (rule le_imp_power_dvd) simp
    then have "x * 2 ^ (32 - Bits p) mod 2 ^ 32 mod 2 ^ (32 - Bits p) = (0 :: nat)" for x
      by (simp only: mod_mod_cancel) simp
    then show ?thesis by (simp only: take_bit_eq_mod push_bit_eq_mult)
  qed
  finally show ?thesis .
qed

lemma shift_contains:
  assumes v: "Masked v = v" and l: "Masked l = l" and b: "Bits v = Bits l" "Bits l \<le> 32"
    and c: "prefix_Contains v ip"
  shows "prefix_Contains l (Addr l + (ip - Addr v))"
proof -
  let ?m = "2 ^ (32 - Bits l) :: nat"
  have dv: "unat ip div ?m = unat (Addr v) div ?m"
    using c b by (metis prefix_Contains_def unat_drop_bit)
  have av: "unat (Addr v) mod ?m = 0" "unat (Addr l) mod ?m = 0"
    using masked_aligned [OF v] masked_aligned [OF l] b by simp_all
  have ip: "unat ip = unat (Addr v) + unat ip mod ?m"
    using dv av(1) by (metis add.commute add.right_neutral mod_div_mult_eq)
  then have "ip = Addr v + of_nat (unat ip mod ?m)"
    by (metis of_nat_add of_nat_unat ucast_id)
  then have off: "Addr l + (ip - Addr v) = Addr l + of_nat (unat ip mod ?m)" by (metis add_diff_cancel_left')
  have r: "unat ip mod ?m < ?m" by simp
  have "unat (Addr l) div ?m * ?m = unat (Addr l)" using av(2) by (metis add.right_neutral mod_div_mult_eq add.commute)
  then have "unat (Addr l) + unat ip mod ?m < (unat (Addr l) div ?m + 1) * ?m" using r by simp
  also have "\<dots> \<le> 2 ^ 32"
  proof -
    have "unat (Addr l) div ?m < 2 ^ Bits l"
      using unat_32_lt [of "Addr l"] b(2)
      by (intro less_mult_imp_div_less) (simp flip: power_add)
    then have "(unat (Addr l) div ?m + 1) * ?m \<le> 2 ^ Bits l * ?m" by (intro mult_right_mono) auto
    then show ?thesis using b(2) by (simp flip: power_add)
  qed
  finally have lt: "unat (Addr l) + unat ip mod ?m < 2 ^ 32" .
  have "Addr l + of_nat (unat ip mod ?m) = of_nat (unat (Addr l) + unat ip mod ?m)" by simp
  then have "unat (Addr l + of_nat (unat ip mod ?m)) = unat (Addr l) + unat ip mod ?m"
    using lt by (simp only: unat_of_nat) simp
  moreover have "(unat (Addr l) + unat ip mod ?m) div ?m = unat (Addr l) div ?m"
  proof -
    have "unat (Addr l) = unat (Addr l) div ?m * ?m" using av(2) by (metis add.right_neutral div_mult_mod_eq)
    then obtain q where q: "unat (Addr l) = q * ?m" ..
    show ?thesis unfolding q using r by simp
  qed
  ultimately have "unat (drop_bit (32 - Bits l) (Addr l + (ip - Addr v))) = unat (drop_bit (32 - Bits l) (Addr l))"
    by (simp add: off unat_drop_bit)
  then show ?thesis unfolding prefix_Contains_def by (rule unsigned_word_eqI)
qed

lemmas translate_dst = translate_addresses [where source = False, unfolded addr_off_def, simplified]
lemmas translate_src = translate_addresses [where source = True, unfolded addr_off_def, simplified]

lemma local_route_Some:
  "local_route n source ip rs = Some (frm, dest) \<Longrightarrow>
   \<exists>r \<in> set rs. Owner r = node_id n \<and> prefix_Contains frm ip
     \<and> (frm, dest) = (if source then (LAN r, Virtual r) else (Virtual r, LAN r))"
  by (induction rs) (auto simp: Let_def split: if_splits)

lemma local_route_complete:
  assumes "r \<in> set rs" "Owner r = node_id n" "prefix_Contains (if source then LAN r else Virtual r) ip"
  shows "\<exists>x. local_route n source ip rs = Some x"
  using assms by (induction rs) (auto simp: Let_def)

definition own_routes :: "packet_node \<Rightarrow> subnetRoute set" where
  "own_routes n = {r \<in> set (subnetRoutes n). Owner r = node_id n}"

text \<open>C17: translation is a consistent one-to-one NAT.  When the node's routes are well formed and their
  LANs do not overlap, the LAN host that received a translated packet answers through the same
  route: the reply's LAN source is translated back to exactly the virtual address the packet was
  sent to.\<close>

theorem translation_roundtrip:
  assumes ok: "\<forall>r \<in> own_routes n. route_ok r"
    and sep: "\<forall>r \<in> own_routes n. \<forall>s \<in> own_routes n. prefix_Overlaps (LAN r) (LAN s) \<longrightarrow> r = s"
    and out: "translateLocalPacket n p False = (True, p')" "20 \<le> ihl_of p"
    and reply: "20 \<le> length q" "20 \<le> ihl_of q" "addr_at 12 q = addr_at 16 p'"
  shows "\<exists>q'. translateLocalPacket n q True = (True, q') \<and> addr_at 12 q' = addr_at 16 p"
proof -
  obtain frm dest
    where r1: "local_route n False (addr_at 16 p) (subnetRoutes n) = Some (frm, dest)"
      and a1: "addr_at 16 p' = Addr dest + (addr_at 16 p - Addr frm)"
    by (rule translate_dst [OF out])
  from local_route_Some [OF r1] obtain r where r: "r \<in> own_routes n" "frm = Virtual r" "dest = LAN r"
    "prefix_Contains (Virtual r) (addr_at 16 p)"
    by (auto simp: own_routes_def)
  have rok: "route_ok r" using ok r(1) by blast
  have in_lan: "prefix_Contains (LAN r) (addr_at 12 q)"
    using shift_contains [of "Virtual r" "LAN r"] rok r a1 reply(3) by (simp add: route_ok_def)
  obtain frm2 dest2 where r2: "local_route n True (addr_at 12 q) (subnetRoutes n) = Some (frm2, dest2)"
    using local_route_complete [of r "subnetRoutes n" n True "addr_at 12 q"] r(1) in_lan
    by (auto simp: own_routes_def)
  from local_route_Some [OF r2] obtain s where s: "s \<in> own_routes n" "frm2 = LAN s" "dest2 = Virtual s"
    "prefix_Contains (LAN s) (addr_at 12 q)"
    by (auto simp: own_routes_def)
  have "prefix_Overlaps (LAN r) (LAN s)" using in_lan s(4) by (auto simp: prefix_Overlaps_iff)
  then have "s = r" using sep r(1) s(1) by blast
  obtain q' where q': "translateLocalPacket n q True = (True, q')"
    using r2 reply(1) by (auto simp: translateLocalPacket_def Let_def)
  have "addr_at 12 q' = Addr dest2 + (addr_at 12 q - Addr frm2)"
    by (rule translate_src [OF q' reply(2)]) (use r2 in auto)
  then show ?thesis using q' s \<open>s = r\<close> r a1 reply(3) by simp
qed

lemma sample_routes_ok:
  "\<forall>r \<in> own_routes sample_node. route_ok r"
  "\<forall>r \<in> own_routes sample_node. \<forall>s \<in> own_routes sample_node. prefix_Overlaps (LAN r) (LAN s) \<longrightarrow> r = s"
  by (auto simp: own_routes_def sample_node_def route_ok_def Masked_def drop_bit_word_numeral)

theorem translation_roundtrip_witness:
  "\<exists>q'. translateLocalPacket sample_node
        (splice 12 (slice 16 20 (snd (translateLocalPacket sample_node sample_packet False))) sample_packet) True
      = (True, q') \<and> addr_at 12 q' = addr_at 16 sample_packet"
proof -
  let ?a = "slice 16 20 (snd (translateLocalPacket sample_node sample_packet False))"
  let ?q = "splice 12 ?a sample_packet"
  have "length (snd (translateLocalPacket sample_node sample_packet False)) = 40"
    using translate_addresses [OF sample_translate] sample_packet_facts by (metis order_refl)
  then have a: "length ?a = 4" by simp
  then have q: "length ?q = 40" "?q ! 0 = sample_packet ! 0" "slice 12 16 ?q = ?a"
    using sample_packet_facts(1) by (simp_all add: nth_splice slice_splice_same)
  show ?thesis
  proof (rule translation_roundtrip [OF sample_routes_ok sample_translate])
    show "20 \<le> ihl_of ?q" using q(2) sample_packet_facts(2) by (simp add: ihl_of_def)
  qed (use q sample_packet_facts in \<open>simp_all add: addr_at_def\<close>)
qed

section \<open>What is delivered\<close>

text \<open>C8: no spoofed or misdirected packet is injected.  Whatever a node writes to its TUN device on behalf
  of a peer carries a source address that the topology assigns to that peer, and is either addressed
  to the node itself and admitted by its firewall, or was addressed into one of the node's own
  virtual subnets and now carries the matching LAN address, its source unchanged.\<close>

theorem deliver_sound:
  assumes "deliver n src p = Some q" "20 \<le> ihl_of p"
    and "\<forall>r \<in> own_routes n. route_ok r"
  shows "addressOwnedBy n src (addr_at 12 q)
    \<and> ((isLocalMeshIP n (addr_at 16 q) \<and> q = p
          \<and> (case firewall n of None \<Rightarrow> True | Some fw \<Rightarrow> permits fw q))
       \<or> (\<exists>r \<in> own_routes n. prefix_Contains (Virtual r) (addr_at 16 p)
            \<and> prefix_Contains (LAN r) (addr_at 16 q)))"
proof -
  have own: "addressOwnedBy n src (addr_at 12 p)"
    using assms(1) by (auto simp: deliver_def Let_def split: if_splits)
  show ?thesis
  proof (cases "isLocalMeshIP n (addr_at 16 p)")
    case True
    then show ?thesis
      using assms(1) own by (auto simp: deliver_def Let_def split: if_splits option.splits)
  next
    case False
    then have t: "translateLocalPacket n p False = (True, q)"
      using assms(1) by (auto simp: deliver_def Let_def split: if_splits prod.splits bool.splits)
    obtain frm dest
      where r1: "local_route n False (addr_at 16 p) (subnetRoutes n) = Some (frm, dest)"
        and a: "addr_at 16 q = Addr dest + (addr_at 16 p - Addr frm)" "addr_at 12 q = addr_at 12 p"
      by (rule translate_dst [OF t assms(2)])
    from local_route_Some [OF r1] obtain r where r: "r \<in> own_routes n" "frm = Virtual r" "dest = LAN r"
      "prefix_Contains (Virtual r) (addr_at 16 p)"
      by (auto simp: own_routes_def)
    moreover have "prefix_Contains (LAN r) (addr_at 16 q)"
      using shift_contains [of "Virtual r" "LAN r"] assms(3) r a(1) by (simp add: route_ok_def)
    ultimately show ?thesis using own a(2) by auto
  qed
qed

definition sample_receiver :: packet_node where
  "sample_receiver = sample_node\<lparr>meshNodes := [0x0A2C0009 \<mapsto> ''peer'']\<rparr>"

lemma sample_deliver: "\<exists>q. deliver sample_receiver ''peer'' sample_packet = Some q"
proof -
  have t: "translateLocalPacket sample_receiver sample_packet False
      = translateLocalPacket sample_node sample_packet False"
    by (simp add: translateLocalPacket_def sample_receiver_def sample_node_def Let_def)
  have "isLocalMeshIP sample_receiver 0x0A320007 = False"
    "addressOwnedBy sample_receiver ''peer'' 0x0A2C0009"
    "addressOwnedBy sample_receiver (node_id sample_receiver) 0x0A320007"
    "tun_open sample_receiver" "drop_bit 4 (sample_packet ! 0) = 4"
    by (simp_all add: sample_receiver_def sample_node_def isLocalMeshIP_def localMeshIP_def
        addressOwnedBy_def prefix_Contains_def sample_packet_def drop_bit_word_numeral)
  then show ?thesis
    using sample_translate by (auto simp: deliver_def sample_packet_facts t Let_def split: prod.splits)
qed

theorem deliver_sound_witness:
  "\<exists>q. deliver sample_receiver ''peer'' sample_packet = Some q
     \<and> addressOwnedBy sample_receiver ''peer'' (addr_at 12 q)"
proof -
  obtain q where q: "deliver sample_receiver ''peer'' sample_packet = Some q" using sample_deliver ..
  have "\<forall>r \<in> own_routes sample_receiver. route_ok r"
    using sample_routes_ok(1) by (simp add: own_routes_def sample_receiver_def)
  with deliver_sound [OF q] q sample_packet_facts(2) show ?thesis by auto
qed

section \<open>Two nodes\<close>

lemma longest_route_owned:
  "longest_route ip rs owner bits = k \<Longrightarrow>
   k = owner \<or> (\<exists>r \<in> set rs. Owner r = k \<and> prefix_Contains (Virtual r) ip)"
proof (induction rs arbitrary: owner bits)
  case (Cons r rs)
  show ?case
  proof (cases "prefix_Contains (Virtual r) ip \<and> bits < int (Bits (Virtual r))")
    case True
    then show ?thesis using Cons.IH [of "Owner r" "int (Bits (Virtual r))"] Cons.prems by auto
  next
    case False
    then show ?thesis using Cons.IH [of owner bits] Cons.prems by auto
  qed
qed simp

lemma ownerOf_owned:
  assumes "ownerOf n ip = k" "k \<noteq> []"
  shows "meshNodes n ip = Some k
    \<or> (\<exists>r \<in> set (subnetRoutes n). Owner r = k \<and> prefix_Contains (Virtual r) ip)"
  using assms longest_route_owned [of ip "subnetRoutes n" "[]" "- 1"]
  by (auto simp: ownerOf_def split: option.splits if_splits)

lemma translate_head:
  assumes "translateLocalPacket n p source = (True, p')" "20 \<le> ihl_of p"
  shows "p' ! 0 = p ! 0"
proof -
  from assms(1) obtain new where len: "20 \<le> length p" "length new = 4"
    and p': "p' = fix_transport (slice (addr_off source) (addr_off source + 4) p) new (readdressed source new p)"
    by (rule translate_form)
  note fr = readdressed_frame [OF len]
  have "take 1 p' = take 1 (readdressed source new p)"
    unfolding p' using fix_transport_frame(2) [of "readdressed source new p" 1] fr(3) assms(2) by simp
  then have "take 1 p' ! 0 = take 1 (readdressed source new p) ! 0" by simp
  then show ?thesis using fr(2) [of 0] by simp
qed

text \<open>The receiver's view agrees with the sender's, and each node's mesh address is registered to it.\<close>

definition same_topology :: "packet_node \<Rightarrow> packet_node \<Rightarrow> bool" where
  "same_topology a b \<longleftrightarrow> set (subnetRoutes a) = set (subnetRoutes b) \<and> meshNodes a = meshNodes b
     \<and> (meshIPv4 a \<noteq> 0 \<longrightarrow> meshNodes a (meshIPv4 a) = Some (node_id a))
     \<and> (\<forall>ip. meshNodes b ip = Some (node_id b) \<longrightarrow> isLocalMeshIP b ip)"

lemma tunFrame_source:
  assumes "tunFrame a b = SendIP d b'" "20 \<le> ihl_of b" "same_topology a n"
    and "\<forall>r \<in> own_routes a. route_ok r"
  shows "addressOwnedBy n (node_id a) (addr_at 12 b') \<and> addr_at 16 b' = addr_at 16 b
    \<and> length b' = length b \<and> b' ! 0 = b ! 0"
proof (cases "isLocalMeshIP a (addr_at 12 b)")
  case True
  then have "b' = b" using assms(1)
    by (auto simp: tunFrame_def Let_def split: if_splits prod.splits bool.splits)
  moreover have "meshNodes n (addr_at 12 b) = Some (node_id a)"
    using True assms(3) by (auto simp: isLocalMeshIP_def localMeshIP_def same_topology_def)
  ultimately show ?thesis by (simp add: addressOwnedBy_def)
next
  case False
  then have t: "translateLocalPacket a b True = (True, b')" using assms(1)
    by (auto simp: tunFrame_def Let_def split: if_splits prod.splits bool.splits)
  obtain frm dest
    where r1: "local_route a True (addr_at 12 b) (subnetRoutes a) = Some (frm, dest)"
      and x: "addr_at 12 b' = Addr dest + (addr_at 12 b - Addr frm)" "addr_at 16 b' = addr_at 16 b"
        "length b' = length b"
    by (rule translate_src [OF t assms(2)])
  from local_route_Some [OF r1] obtain r where r: "r \<in> own_routes a" "frm = LAN r" "dest = Virtual r"
    "prefix_Contains (LAN r) (addr_at 12 b)"
    by (auto simp: own_routes_def)
  then have "prefix_Contains (Virtual r) (addr_at 12 b')"
    using shift_contains [of "LAN r" "Virtual r"] assms(4) x(1) by (simp add: route_ok_def)
  then have "addressOwnedBy n (node_id a) (addr_at 12 b')"
    using r(1) assms(3) by (auto simp: addressOwnedBy_def own_routes_def same_topology_def list_ex_iff)
  then show ?thesis using x translate_head [OF t assms(2)] by simp
qed

text \<open>The two ends of the data path agree.  What a node takes from its TUN device and sends to a peer,
  that peer (with the same topology and no firewall) accepts and injects: the ownership checks of
  the receiver never reject what the sender's own checks let through.\<close>

lemma tun_to_tun:
  assumes send: "tunFrame a b = SendIP d b'" "20 \<le> ihl_of b"
    and recv: "node_id n = d" "same_topology a n" "tun_open n" "firewall n = None"
    and ok: "\<forall>r \<in> own_routes a. route_ok r"
  shows "\<exists>q. deliver n (node_id a) b' = Some q"
proof -
  have frame: "20 \<le> length b" "length b \<le> maxTUN" "drop_bit 4 (b ! 0) = 4"
    and own: "ownerOf a (addr_at 16 b) = d" "d \<noteq> []"
    using send(1) by (auto simp: tunFrame_def Let_def split: if_splits prod.splits bool.splits)
  note src = tunFrame_source [OF send recv(2) ok]
  show ?thesis
  proof (cases "isLocalMeshIP n (addr_at 16 b')")
    case True
    then show ?thesis using frame src recv by (simp add: deliver_def)
  next
    case False
    have "meshNodes n (addr_at 16 b') \<noteq> Some d" using False recv(1,2) by (auto simp: same_topology_def)
    then obtain r where r: "r \<in> set (subnetRoutes n)" "Owner r = d" "prefix_Contains (Virtual r) (addr_at 16 b')"
      using ownerOf_owned [OF own] src recv(2) by (auto simp: same_topology_def)
    then have "addressOwnedBy n d (addr_at 16 b')" by (auto simp: addressOwnedBy_def list_ex_iff)
    moreover obtain x where "local_route n False (addr_at 16 b') (subnetRoutes n) = Some x"
      using local_route_complete [of r "subnetRoutes n" n False "addr_at 16 b'"] r recv(1) by auto
    then have "fst (translateLocalPacket n b' False)"
      using frame(1) src by (cases x) (simp add: translateLocalPacket_def Let_def)
    ultimately show ?thesis
      using frame src recv False by (auto simp: deliver_def Let_def split: prod.splits)
  qed
qed

definition sample_sender :: packet_node where
  "sample_sender = \<lparr>node_id = ''peer'', subnetRoutes = subnetRoutes sample_node,
     meshNodes = [0x0A2C0009 \<mapsto> ''peer'', 0x0A2C0001 \<mapsto> ''n''], meshIPv4 = 0x0A2C0009,
     mesh_prefix = 24, firewall = None, tun_open = True\<rparr>"

definition sample_peer_node :: packet_node where
  "sample_peer_node = sample_node\<lparr>meshNodes := meshNodes sample_sender\<rparr>"

lemma tun_to_tun_witness:
  "tunFrame sample_sender sample_packet = SendIP ''n'' sample_packet
   \<and> (\<exists>q. deliver sample_peer_node ''peer'' sample_packet = Some q)"
proof -
  have "isTUNBroadcast sample_sender 0x0A320007 = False" "isLocalMeshIP sample_sender 0x0A320007 = False"
    "isLocalMeshIP sample_sender 0x0A2C0009" "ownerOf sample_sender 0x0A320007 = ''n''"
    "drop_bit 4 (sample_packet ! 0) = 4" "node_id sample_sender = ''peer''"
    by (simp_all add: isTUNBroadcast_def Masked_def sample_sender_def sample_node_def isLocalMeshIP_def
        localMeshIP_def ownerOf_def prefix_Contains_def sample_packet_def drop_bit_word_numeral)
  then have t: "tunFrame sample_sender sample_packet = SendIP ''n'' sample_packet"
    by (simp add: tunFrame_def sample_packet_facts Let_def)
  have "same_topology sample_sender sample_peer_node" "own_routes sample_sender = {}"
    by (auto simp: same_topology_def own_routes_def sample_sender_def sample_peer_node_def sample_node_def
        isLocalMeshIP_def localMeshIP_def split: if_splits)
  then have "\<exists>q. deliver sample_peer_node (node_id sample_sender) sample_packet = Some q"
    using sample_packet_facts(2)
    by (intro tun_to_tun [OF t]) (simp_all add: sample_peer_node_def sample_node_def)
  then show ?thesis using t by (simp add: sample_sender_def)
qed

end
