(* ===== verification/Base64.thy ===== *)
theory Base64
  imports Mesh_Prelude
begin

text \<open>
  The unpadded URL-safe base64 of \<^verbatim>\<open>encoding/base64\<close> that tokens and public keys are written in
  (\<^verbatim>\<open>protocol.B64Encode\<close>, \<^verbatim>\<open>protocol.B64Decode\<close>, \<^verbatim>\<open>randomToken\<close>), and the fact that decoding inverts encoding.
\<close>

definition b64_alphabet :: string where
  "b64_alphabet = ''ABCDEFGHIJKLMNOPQRSTUVWXYZabcdefghijklmnopqrstuvwxyz0123456789-_''"

definition b64_char :: "nat \<Rightarrow> char" where
  "b64_char n = b64_alphabet ! (n mod 64)"

definition b64_val :: "char \<Rightarrow> nat option" where
  "b64_val c = find (\<lambda>i. b64_alphabet ! i = c) [0..<64]"

text \<open>\<^verbatim>\<open>base64.RawURLEncoding.EncodeToString\<close>\<close>

fun B64Encode :: "bytes \<Rightarrow> string" where
  "B64Encode [] = []"
| "B64Encode [a] = [b64_char (unat a div 4), b64_char (unat a mod 4 * 16)]"
| "B64Encode [a, b] =
     [b64_char (unat a div 4), b64_char (unat a mod 4 * 16 + unat b div 16), b64_char (unat b mod 16 * 4)]"
| "B64Encode (a # b # c # r) =
     b64_char (unat a div 4) # b64_char (unat a mod 4 * 16 + unat b div 16) #
     b64_char (unat b mod 16 * 4 + unat c div 64) # b64_char (unat c mod 64) # B64Encode r"

text \<open>\<^verbatim>\<open>DecodeString\<close> skips line breaks; the unused bits of the last group are not checked.\<close>

fun b64_groups :: "nat list \<Rightarrow> bytes option" where
  "b64_groups [] = Some []"
| "b64_groups [p] = None"
| "b64_groups [p, q] = Some [of_nat (p * 4 + q div 16)]"
| "b64_groups [p, q, r] = Some [of_nat (p * 4 + q div 16), of_nat (q * 16 + r div 4)]"
| "b64_groups (p # q # r # s # t) =
     map_option (\<lambda>bs. of_nat (p * 4 + q div 16) # of_nat (q * 16 + r div 4) # of_nat (r * 64 + s) # bs)
       (b64_groups t)"

definition B64Decode :: "string \<Rightarrow> bytes option" where
  "B64Decode s =
     (let vs = map b64_val (filter (\<lambda>c. c \<noteq> CHR 0x0A \<and> c \<noteq> CHR 0x0D) s) in
      if None \<in> set vs then None else b64_groups (map the vs))"

section \<open>Round trip\<close>

lemma b64_val_table: "list_all (\<lambda>n. b64_val (b64_alphabet ! n) = Some n \<and>
   b64_alphabet ! n \<noteq> CHR 0x0A \<and> b64_alphabet ! n \<noteq> CHR 0x0D) [0..<64]"
  by code_simp

lemma b64_val_char [simp]:
  "b64_val (b64_char n) = Some (n mod 64)"
  "b64_char n \<noteq> CHR 0x0A" "b64_char n \<noteq> CHR 0x0D"
  using b64_val_table by (simp_all add: b64_char_def list_all_iff del: upt_rec_numeral)

lemma b64_chars_clean: "c \<in> set (B64Encode bs) \<Longrightarrow> \<exists>n. c = b64_char n"
  by (induction bs rule: B64Encode.induct) (auto simp: Let_def)

lemma byte_parts:
  fixes a :: byte
  shows "unat a div 4 < 64" "unat a div 16 < 16" "unat a div 64 < 4"
  using unat_byte_lt [of a] by (simp_all add: less_mult_imp_div_less)

lemma sextets [simp]:
  fixes a b :: byte
  shows "unat a div 4 mod 64 = unat a div 4"
    and "unat a mod 4 * 16 mod 64 = unat a mod 4 * 16"
    and "(unat a mod 4 * 16 + unat b div 16) mod 64 = unat a mod 4 * 16 + unat b div 16"
    and "unat a mod 16 * 4 mod 64 = unat a mod 16 * 4"
    and "(unat a mod 16 * 4 + unat b div 64) mod 64 = unat a mod 16 * 4 + unat b div 64"
proof -
  have "unat a mod 4 \<le> 3" "unat a mod 16 \<le> 15" by simp_all
  with byte_parts [of a] byte_parts [of b] show "unat a div 4 mod 64 = unat a div 4"
    "unat a mod 4 * 16 mod 64 = unat a mod 4 * 16"
    "(unat a mod 4 * 16 + unat b div 16) mod 64 = unat a mod 4 * 16 + unat b div 16"
    "unat a mod 16 * 4 mod 64 = unat a mod 16 * 4"
    "(unat a mod 16 * 4 + unat b div 64) mod 64 = unat a mod 16 * 4 + unat b div 64"
    by (intro mod_less; linarith)+
qed

lemma div_append: "y < k \<Longrightarrow> (x * k + y) div k = (x :: nat)"
  by simp

lemma octet_first: "(of_nat (unat a div 4 * 4 + unat a mod 4) :: byte) = a" for a :: byte
  by (rule of_nat_byte_eq) (simp add: unat_byte_lt)

lemma octet_second:
  "(of_nat ((x * 16 + unat b div 16) * 16 + unat b mod 16) :: byte) = b" for b :: byte
proof (rule of_nat_byte_eq)
  have "(x * 16 + unat b div 16) * 16 + unat b mod 16 = x * 256 + unat b" by simp
  then show "((x * 16 + unat b div 16) * 16 + unat b mod 16) mod 256 = unat b"
    using unat_byte_lt [of b] by simp
qed

lemma octet_third:
  "(of_nat ((x * 4 + unat c div 64) * 64 + unat c mod 64) :: byte) = c" for c :: byte
proof (rule of_nat_byte_eq)
  have "(x * 4 + unat c div 64) * 64 + unat c mod 64 = x * 256 + unat c" by simp
  then show "((x * 4 + unat c div 64) * 64 + unat c mod 64) mod 256 = unat c"
    using unat_byte_lt [of c] by simp
qed

lemma b64_groups_encode: "b64_groups (map (the \<circ> b64_val) (B64Encode bs)) = Some bs"
proof (induction bs rule: B64Encode.induct)
  case (2 a) then show ?case using octet_first [of a] by simp
next
  case (3 a b) then show ?case
    using octet_first [of a] octet_second [of "unat a mod 4" b] byte_parts [of b]
    by (simp add: div_append)
next
  case (4 a b c r) then show ?case
    using octet_first [of a] octet_second [of "unat a mod 4" b] octet_third [of "unat b mod 16" c]
      byte_parts [of b] byte_parts [of c]
    by (simp add: div_append)
qed simp

lemma B64Decode_Encode: "B64Decode (B64Encode bs) = Some bs"
proof -
  have clean: "c \<noteq> CHR 0x0A \<and> c \<noteq> CHR 0x0D \<and> b64_val c \<noteq> None" if "c \<in> set (B64Encode bs)" for c
    using b64_chars_clean [OF that] by auto
  then have "filter (\<lambda>c. c \<noteq> CHR 0x0A \<and> c \<noteq> CHR 0x0D) (B64Encode bs) = B64Encode bs"
    by (auto intro: filter_True)
  moreover have "None \<notin> b64_val ` set (B64Encode bs)"
    using clean by (metis imageE)
  ultimately show ?thesis
    using b64_groups_encode [of bs] by (simp add: B64Decode_def Let_def comp_def)
qed

end
