(* ===== verification/Wire.thy ===== *)
theory Wire
  imports Mesh_Prelude
begin

text \<open>
  The UDP wire format of \<^verbatim>\<open>internal/protocol/protocol.go\<close>: control packets and their hop limit, the
  compact binary keepalive frames, pooled HMAC states, sealed payloads and the nonce sequence of
  the data plane.

  HMAC-SHA-256 is the argument \<open>hm\<close> (key, then message) and ChaCha20-Poly1305 the record
  \<open>aead\<close>; what the code relies on of them is stated where it is used.  The lemmas show that the
  compact codec is a round trip and accepts nothing else, that a pooled HMAC state behaves as a
  fresh one, and how many nonces a sequence yields before it repeats.
\<close>

section \<open>Packets\<close>

text \<open>JSON values that a payload carries; objects keep their members as an association list.\<close>

datatype json = JNull | JBool bool | JInt int | JStr string | JArr "json list"
  | JObj "(string \<times> json) list"

abbreviation DefaultTTL :: int where "DefaultTTL \<equiv> 8"
abbreviation MaxDatagramSize :: nat where "MaxDatagramSize \<equiv> 60000"

record Packet =
  Type :: string
  Source :: string
  Destination :: string
  Payload :: "(string \<times> json) list"
  PacketID :: string
  TTL :: int
  Timestamp :: "64 word"

definition NewPacket ::
    "bytes \<Rightarrow> 64 word \<Rightarrow> string \<Rightarrow> string \<Rightarrow> string \<Rightarrow> (string \<times> json) list \<Rightarrow> Packet" where
  "NewPacket rnd now typ src dst payload =
     \<lparr>Type = typ, Source = src, Destination = dst, Payload = payload,
      PacketID = hex_encode rnd, TTL = DefaultTTL, Timestamp = now\<rparr>"

definition DecTTL :: "Packet \<Rightarrow> Packet go_result" where
  "DecTTL p = (if TTL p \<le> 1 then Inl ''mesh protocol error: TTL expired''
     else Inr (p\<lparr>TTL := TTL p - 1\<rparr>))"

text \<open>\<^verbatim>\<open>value, _ := p.Payload[key].(string)\<close>: absent or of another type gives the empty string.\<close>

definition payloadString :: "Packet \<Rightarrow> string \<Rightarrow> string" where
  "payloadString p key = (case map_of (Payload p) key of Some (JStr s) \<Rightarrow> s | _ \<Rightarrow> [])"

section \<open>Pooled HMAC states\<close>

text \<open>A \<^verbatim>\<open>hash.Hash\<close> built by \<^verbatim>\<open>hmac.New\<close>: its key and what was written since the last reset.\<close>

record PooledMAC =
  mac_key :: bytes
  mac_written :: bytes

definition NewPooledMAC :: "bytes \<Rightarrow> PooledMAC" where
  "NewPooledMAC networkKey = \<lparr>mac_key = networkKey, mac_written = []\<rparr>"

definition mac_Reset :: "PooledMAC \<Rightarrow> PooledMAC" where
  "mac_Reset h = h\<lparr>mac_written := []\<rparr>"

definition mac_Write :: "PooledMAC \<Rightarrow> bytes \<Rightarrow> PooledMAC" where
  "mac_Write h b = h\<lparr>mac_written := mac_written h @ b\<rparr>"

definition mac_Sum :: "(bytes \<Rightarrow> bytes \<Rightarrow> bytes) \<Rightarrow> PooledMAC \<Rightarrow> bytes \<Rightarrow> bytes" where
  "mac_Sum hm h dst = dst @ hm (mac_key h) (mac_written h)"

section \<open>The compact keepalive format\<close>

abbreviation compactMagic :: byte where "compactMagic \<equiv> 0xC1"
abbreviation compactTypePing :: byte where "compactTypePing \<equiv> 1"
abbreviation compactTypePong :: byte where "compactTypePong \<equiv> 2"
abbreviation compactTypeHello :: byte where "compactTypeHello \<equiv> 3"
abbreviation compactTypeHelloAck :: byte where "compactTypeHelloAck \<equiv> 4"
abbreviation compactHMACSize :: nat where "compactHMACSize \<equiv> 16"
abbreviation CompactPingSize :: nat where "CompactPingSize \<equiv> 70"
abbreviation CompactPongSize :: nat where "CompactPongSize \<equiv> 82"

definition IsCompact :: "bytes \<Rightarrow> bool" where
  "IsCompact data \<longleftrightarrow> 2 \<le> length data \<and> data ! 0 = compactMagic"

definition compact_type :: "string \<Rightarrow> byte option" where
  "compact_type t =
     (if t = ''PING'' then Some compactTypePing
      else if t = ''PONG'' then Some compactTypePong
      else if t = ''HELLO'' then Some compactTypeHello
      else if t = ''HELLO_ACK'' then Some compactTypeHelloAck
      else None)"

text \<open>\<^verbatim>\<open>hex.DecodeString\<close> followed by the length check of \<^verbatim>\<open>CompactBody\<close>.\<close>

definition hex_id :: "nat \<Rightarrow> string \<Rightarrow> bytes option" where
  "hex_id n s = (case hex_decode s of
       Some bs \<Rightarrow> if length bs = n then Some bs else None
     | None \<Rightarrow> None)"

definition CompactBody :: "Packet \<Rightarrow> bytes go_result" where
  "CompactBody p =
     (case compact_type (Type p) of
        None \<Rightarrow> Inl ''compact encoding supports only PING/PONG/HELLO/HELLO_ACK''
      | Some typ \<Rightarrow>
     (case hex_id 16 (Source p) of
        None \<Rightarrow> Inl ''source must be a 32-hex node ID''
      | Some src \<Rightarrow>
     (case hex_id 16 (Destination p) of
        None \<Rightarrow> Inl ''destination must be a 32-hex node ID''
      | Some dst \<Rightarrow>
     (case hex_id 12 (PacketID p) of
        None \<Rightarrow> Inl ''packet ID must be a 24-hex value''
      | Some pid \<Rightarrow>
     (let body = [compactMagic, typ] @ src @ dst @ pid @ put_be64 (Timestamp p) in
      if typ = compactTypePong then
        (let pingID = payloadString p ''ping_id'' in
         if 0 < length pingID then
           (case hex_id 12 pingID of
              None \<Rightarrow> Inl ''ping_id must be a 24-hex value''
            | Some raw \<Rightarrow> Inr (body @ raw))
         else Inl ''compact PONG requires ping_id'')
      else if typ = compactTypeHello \<or> typ = compactTypeHelloAck then
        (if payloadString p ''session_id'' \<noteq> []
         then Inl ''compact HELLO/HELLO_ACK cannot carry a session_id''
         else Inr body)
      else Inr body)))))"

definition CompactFramed ::
    "(bytes \<Rightarrow> bytes \<Rightarrow> bytes) \<Rightarrow> PooledMAC \<Rightarrow> bytes \<Rightarrow> bytes \<times> PooledMAC" where
  "CompactFramed hm holder body =
     (let h1 = mac_Reset holder; h2 = mac_Write h1 body; sum = mac_Sum hm h2 body
      in (take (length body + compactHMACSize) sum, h2))"

definition EncodeCompactReuse ::
    "(bytes \<Rightarrow> bytes \<Rightarrow> bytes) \<Rightarrow> Packet \<Rightarrow> PooledMAC \<Rightarrow> bytes go_result \<times> PooledMAC" where
  "EncodeCompactReuse hm p holder =
     (case CompactBody p of
        Inl e \<Rightarrow> (Inl e, holder)
      | Inr body \<Rightarrow> (let (frame, h) = CompactFramed hm holder body in (Inr frame, h)))"

definition EncodeCompact ::
    "(bytes \<Rightarrow> bytes \<Rightarrow> bytes) \<Rightarrow> Packet \<Rightarrow> bytes \<Rightarrow> bytes go_result" where
  "EncodeCompact hm p networkKey = fst (EncodeCompactReuse hm p (NewPooledMAC networkKey))"

text \<open>The \<^verbatim>\<open>switch\<close> of \<^verbatim>\<open>DecodeCompactReuse\<close>: the packet type and the frame size it wants.\<close>

definition compact_kind :: "byte \<Rightarrow> (string \<times> nat) option" where
  "compact_kind t =
     (if t = compactTypePing then Some (''PING'', CompactPingSize)
      else if t = compactTypePong then Some (''PONG'', CompactPongSize)
      else if t = compactTypeHello then Some (''HELLO'', CompactPingSize)
      else if t = compactTypeHelloAck then Some (''HELLO_ACK'', CompactPingSize)
      else None)"

definition DecodeCompactReuse ::
    "(bytes \<Rightarrow> bytes \<Rightarrow> bytes) \<Rightarrow> bytes \<Rightarrow> PooledMAC \<Rightarrow> Packet go_result \<times> PooledMAC" where
  "DecodeCompactReuse hm data holder =
     (if \<not> IsCompact data then (Inl ''not a compact packet'', holder)
      else case compact_kind (data ! 1) of
        None \<Rightarrow> (Inl ''unknown compact type'', holder)
      | Some (kind, want) \<Rightarrow>
     (if length data \<noteq> want then (Inl ''compact packet has the wrong size'', holder)
      else
       (let cut = length data - compactHMACSize;
            h = mac_Write (mac_Reset holder) (take cut data);
            sum = mac_Sum hm h []
        in if take compactHMACSize sum \<noteq> drop cut data
           then (Inl ''compact authentication failed'', h)
           else (Inr \<lparr>Type = kind,
                  Source = hex_encode (slice 2 18 data),
                  Destination = hex_encode (slice 18 34 data),
                  Payload = (if kind = ''PONG''
                    then [(''ping_id'', JStr (hex_encode (slice 54 66 data)))] else []),
                  PacketID = hex_encode (slice 34 46 data),
                  TTL = DefaultTTL,
                  Timestamp = be64 (slice 46 54 data)\<rparr>, h))))"

definition DecodeCompact ::
    "(bytes \<Rightarrow> bytes \<Rightarrow> bytes) \<Rightarrow> bytes \<Rightarrow> bytes \<Rightarrow> Packet go_result" where
  "DecodeCompact hm data networkKey = fst (DecodeCompactReuse hm data (NewPooledMAC networkKey))"


section \<open>Sealed payloads\<close>

text \<open>A \<^verbatim>\<open>cipher.AEAD\<close>: nonce, plaintext and associated data to ciphertext with tag, and back.\<close>

record aead =
  NonceSize :: nat
  Overhead :: nat
  aead_Seal :: "bytes \<Rightarrow> bytes \<Rightarrow> bytes \<Rightarrow> bytes"
  aead_Open :: "bytes \<Rightarrow> bytes \<Rightarrow> bytes \<Rightarrow> bytes option"

text \<open>What the documentation of \<^verbatim>\<open>cipher.AEAD\<close> promises: opening what was sealed with the same nonce
  and associated data returns the plaintext, and the ciphertext is longer by the overhead.\<close>

definition aead_ok :: "aead \<Rightarrow> bool" where
  "aead_ok a \<longleftrightarrow>
     (\<forall>n p d. length n = NonceSize a \<longrightarrow>
        aead_Open a n (aead_Seal a n p d) d = Some p
        \<and> length (aead_Seal a n p d) = length p + Overhead a)"

abbreviation chachaNonceSize :: nat where "chachaNonceSize \<equiv> 12"

record NonceSequence =
  prefix8 :: bytes
  counter :: "64 word"

definition NewNonceSequence :: "bytes \<Rightarrow> NonceSequence" where
  "NewNonceSequence rnd = \<lparr>prefix8 = rnd, counter = of_nat (length rnd) + 1\<rparr>"

text \<open>\<^verbatim>\<open>NextInto\<close> fills a nonce buffer of the given length; the counter advances whenever the buffer
  has the right size, even when the result is an error.\<close>

definition NextInto :: "NonceSequence \<Rightarrow> nat \<Rightarrow> bytes go_result \<times> NonceSequence" where
  "NextInto s buflen =
     (if buflen \<noteq> chachaNonceSize then (Inl ''invalid nonce buffer size'', s)
      else (let count = counter s + 1; s' = s\<lparr>counter := count\<rparr> in
        if count = 0 then (Inl ''nonce sequence exhausted'', s')
        else (Inr (take 8 (prefix8 s) @ put_be32 (ucast count)), s')))"

definition NextNonce :: "NonceSequence \<Rightarrow> bytes go_result \<times> NonceSequence" where
  "NextNonce s = NextInto s chachaNonceSize"

definition SealBytesWithAEAD :: "aead \<Rightarrow> bytes \<Rightarrow> bytes \<Rightarrow> bytes \<Rightarrow> bytes" where
  "SealBytesWithAEAD a nonce plaintext aad = nonce @ aead_Seal a nonce plaintext aad"

definition SealBytesWithSequence ::
    "aead \<Rightarrow> NonceSequence \<Rightarrow> bytes \<Rightarrow> bytes \<Rightarrow> bytes go_result \<times> NonceSequence" where
  "SealBytesWithSequence a sequence plaintext aad =
     (if NonceSize a \<noteq> chachaNonceSize then (Inl ''unsupported nonce size'', sequence)
      else case NextInto sequence chachaNonceSize of
        (Inl e, s') \<Rightarrow> (Inl e, s')
      | (Inr nonce, s') \<Rightarrow> (Inr (nonce @ aead_Seal a nonce plaintext aad), s'))"

definition OpenBytesWithAEAD :: "aead \<Rightarrow> bytes \<Rightarrow> bytes \<Rightarrow> bytes go_result" where
  "OpenBytesWithAEAD a sealed aad =
     (if length sealed < NonceSize a + Overhead a then Inl ''truncated encrypted payload''
      else case aead_Open a (take (NonceSize a) sealed) (drop (NonceSize a) sealed) aad of
        None \<Rightarrow> Inl ''message authentication failed''
      | Some p \<Rightarrow> Inr p)"

text \<open>\<^verbatim>\<open>OpenBytesInto\<close>: the destination slice matters only through its length and capacity.  The
  plaintext is appended to it, so the result is the destination followed by the plaintext.\<close>

definition OpenBytesInto :: "bytes \<Rightarrow> nat \<Rightarrow> aead \<Rightarrow> bytes \<Rightarrow> bytes \<Rightarrow> bytes go_result" where
  "OpenBytesInto dst capacity a sealed aad =
     (if length sealed < NonceSize a + Overhead a then Inl ''truncated encrypted payload''
      else (let need = length sealed - (NonceSize a + Overhead a) in
        if length dst \<noteq> 0 \<or> capacity < need then OpenBytesWithAEAD a sealed aad
        else case aead_Open a (take (NonceSize a) sealed) (drop (NonceSize a) sealed) aad of
          None \<Rightarrow> Inl ''message authentication failed''
        | Some p \<Rightarrow> Inr (dst @ p)))"

section \<open>Lemmas: compact frames\<close>

lemmas mac_defs [go_defs] = NewPooledMAC_def mac_Reset_def mac_Write_def mac_Sum_def

lemma hex_id_Some: "hex_id n s = Some bs \<longleftrightarrow> hex_decode s = Some bs \<and> length bs = n"
  by (auto simp: hex_id_def split: option.splits if_splits)

lemma hex_id_nonempty: "hex_id n s = Some bs \<Longrightarrow> 0 < n \<Longrightarrow> s \<noteq> []"
  using hex_decode_length [of s bs] by (auto simp: hex_id_Some)

lemma hex_id_encode [simp]: "length bs = n \<Longrightarrow> hex_id n (hex_encode bs) = Some bs"
  by (simp add: hex_id_def)

text \<open>Every successful body has the fixed layout; the tail is the echoed ping id of a PONG.\<close>

lemma CompactBody_layout:
  assumes "CompactBody p = Inr body"
  obtains ty src dst pid tail where
    "compact_type (Type p) = Some ty"
    "hex_decode (Source p) = Some src" "length src = 16"
    "hex_decode (Destination p) = Some dst" "length dst = 16"
    "hex_decode (PacketID p) = Some pid" "length pid = 12"
    "body = [compactMagic, ty] @ src @ dst @ pid @ put_be64 (Timestamp p) @ tail"
    "ty = compactTypePong \<longrightarrow>
       hex_decode (payloadString p ''ping_id'') = Some tail \<and> length tail = 12"
    "ty \<noteq> compactTypePong \<longrightarrow> tail = []"
proof -
  obtain ty where t: "compact_type (Type p) = Some ty"
    using assms by (auto simp: CompactBody_def split: option.splits)
  obtain src where s: "hex_id 16 (Source p) = Some src"
    using assms t by (auto simp: CompactBody_def split: option.splits)
  obtain dst where d: "hex_id 16 (Destination p) = Some dst"
    using assms t s by (auto simp: CompactBody_def split: option.splits)
  obtain pid where i: "hex_id 12 (PacketID p) = Some pid"
    using assms t s d by (auto simp: CompactBody_def split: option.splits)
  let ?base = "[compactMagic, ty] @ src @ dst @ pid @ put_be64 (Timestamp p)"
  show thesis
  proof (cases "ty = compactTypePong")
    case True
    then obtain raw where "hex_id 12 (payloadString p ''ping_id'') = Some raw" "body = ?base @ raw"
      using assms t s d i by (auto simp: CompactBody_def Let_def split: option.splits if_splits)
    then show thesis
      using that [of ty src dst pid raw] t s d i True by (simp add: hex_id_Some)
  next
    case False
    then have "body = ?base"
      using assms t s d i by (auto simp: CompactBody_def Let_def split: if_splits)
    then show thesis
      using that [of ty src dst pid "[]"] t s d i False by (simp add: hex_id_Some)
  qed
qed

lemma CompactBody_I:
  assumes "compact_type (Type p) = Some ty" "hex_id 16 (Source p) = Some src"
    "hex_id 16 (Destination p) = Some dst" "hex_id 12 (PacketID p) = Some pid"
  shows "ty = compactTypePong \<Longrightarrow> hex_id 12 (payloadString p ''ping_id'') = Some raw \<Longrightarrow>
      CompactBody p = Inr ([compactMagic, ty] @ src @ dst @ pid @ put_be64 (Timestamp p) @ raw)"
    and "ty \<noteq> compactTypePong \<Longrightarrow> payloadString p ''session_id'' = [] \<Longrightarrow>
      CompactBody p = Inr ([compactMagic, ty] @ src @ dst @ pid @ put_be64 (Timestamp p))"
  using assms hex_id_nonempty [of 12 "payloadString p ''ping_id''" raw]
  by (auto simp: CompactBody_def Let_def)

lemma CompactFramed_frame:
  "fst (CompactFramed hm h body) = body @ take compactHMACSize (hm (mac_key h) body)"
  by (simp add: CompactFramed_def Let_def mac_defs)

lemma EncodeCompact_eq:
  "EncodeCompact hm p k = (case CompactBody p of Inl e \<Rightarrow> Inl e
     | Inr body \<Rightarrow> Inr (body @ take compactHMACSize (hm k body)))"
  using CompactFramed_frame [of hm "NewPooledMAC k"]
  by (auto simp: EncodeCompact_def EncodeCompactReuse_def NewPooledMAC_def
      split: sum.splits prod.splits) (metis fst_conv)

lemma compact_kind_type:
  "compact_kind t = Some (kind, want) \<longleftrightarrow>
     compact_type kind = Some t \<and> want = (if t = compactTypePong then CompactPongSize else CompactPingSize)"
  by (auto simp: compact_kind_def compact_type_def split: if_splits)

lemma DecodeCompact_Inr:
  assumes "DecodeCompact hm data k = Inr p"
  obtains kind want where
    "IsCompact data" "compact_kind (data ! 1) = Some (kind, want)" "length data = want"
    "take compactHMACSize (hm k (take (want - compactHMACSize) data))
       = drop (want - compactHMACSize) data"
    "p = \<lparr>Type = kind, Source = hex_encode (slice 2 18 data),
       Destination = hex_encode (slice 18 34 data),
       Payload = (if kind = ''PONG''
         then [(''ping_id'', JStr (hex_encode (slice 54 66 data)))] else []),
       PacketID = hex_encode (slice 34 46 data), TTL = DefaultTTL,
       Timestamp = be64 (slice 46 54 data)\<rparr>"
  using assms that
  by (auto simp: DecodeCompact_def DecodeCompactReuse_def Let_def mac_defs
      split: if_splits option.splits)

text \<open>The fields of a frame: two header bytes, 16 + 16 + 12 + 8 bytes, the echoed id and the tag.\<close>

lemma compact_slices:
  assumes "length src = 16" "length dst = 16" "length pid = 12" "length ts = 8"
    and data: "data = [m, t] @ src @ dst @ pid @ ts @ rest"
  shows "slice 2 18 data = src" "slice 18 34 data = dst" "slice 34 46 data = pid"
    "slice 46 54 data = ts" "drop 54 data = rest"
  using assms by (simp_all add: slice_def numeral_eq_Suc)

lemma compact_split:
  assumes "54 \<le> length data"
  shows "data = [data ! 0, data ! 1] @ slice 2 18 data @ slice 18 34 data @ slice 34 46 data
    @ slice 46 54 data @ drop 54 data"
proof -
  have two: "take 2 data = [data ! 0, data ! 1]"
    using assms by (intro nth_equalityI) (auto simp: less_Suc_eq numeral_2_eq_2)
  have step: "drop a data = slice a b data @ drop b data" if "a \<le> b" for a b
    using that by (metis append_take_drop_id drop_drop le_add_diff_inverse2 slice_def)
  have "data = take 2 data @ drop 2 data" by simp
  also have "\<dots> = [data ! 0, data ! 1] @ drop 2 data" using two by simp
  also have "drop 2 data = slice 2 18 data @ slice 18 34 data @ slice 34 46 data
    @ slice 46 54 data @ drop 54 data"
    using step [of 2 18] step [of 18 34] step [of 34 46] step [of 46 54] by simp
  finally show ?thesis by simp
qed

definition compact_view :: "Packet \<Rightarrow> Packet" where
  "compact_view p = p\<lparr>TTL := DefaultTTL,
     Payload := (if Type p = ''PONG'' then [(''ping_id'', JStr (payloadString p ''ping_id''))] else [])\<rparr>"

definition lower_ids :: "Packet \<Rightarrow> bool" where
  "lower_ids p \<longleftrightarrow> list_all lower_hex (Source p) \<and> list_all lower_hex (Destination p)
     \<and> list_all lower_hex (PacketID p) \<and> list_all lower_hex (payloadString p ''ping_id'')"

lemma compact_decodes:
  assumes hm: "\<And>k m. length (hm k m) = 32"
    and ids: "lower_ids p"
    and enc: "EncodeCompact hm p key = Inr frame"
  shows "DecodeCompact hm frame key = Inr (compact_view p)"
proof -
  obtain body where body: "CompactBody p = Inr body"
    and frame: "frame = body @ take compactHMACSize (hm key body)"
    using enc by (auto simp: EncodeCompact_eq split: sum.splits)
  from body obtain ty src dst pid tail where
    ty: "compact_type (Type p) = Some ty" and
    src: "hex_decode (Source p) = Some src" "length src = 16" and
    dst: "hex_decode (Destination p) = Some dst" "length dst = 16" and
    pid: "hex_decode (PacketID p) = Some pid" "length pid = 12" and
    eq: "body = [compactMagic, ty] @ src @ dst @ pid @ put_be64 (Timestamp p) @ tail" and
    pong: "ty = compactTypePong \<longrightarrow>
       hex_decode (payloadString p ''ping_id'') = Some tail \<and> length tail = 12" and
    other: "ty \<noteq> compactTypePong \<longrightarrow> tail = []"
    by (rule CompactBody_layout)
  define tag where "tag = take compactHMACSize (hm key body)"
  have len: "length frame = (if ty = compactTypePong then CompactPongSize else CompactPingSize)"
    using pong other src dst pid eq hm by (auto simp: frame)
  have cut: "length frame - compactHMACSize = length body" using hm by (simp add: frame)
  have kind: "compact_kind (frame ! 1) = Some (Type p, length frame)"
    using ty len by (simp add: compact_kind_type frame eq)
  have data: "frame = [compactMagic, ty] @ src @ dst @ pid @ put_be64 (Timestamp p) @ tail @ tag"
    by (simp add: frame eq tag_def)
  note fields = compact_slices [OF src(2) dst(2) pid(2) length_put_be_word(3) data]
  have hx: "hex_encode src = Source p" "hex_encode dst = Destination p" "hex_encode pid = PacketID p"
    using src dst pid ids by (auto simp: lower_ids_def intro: hex_encode_decode)
  have "ty = compactTypePong \<longleftrightarrow> Type p = ''PONG''"
    using ty by (auto simp: compact_type_def split: if_splits)
  then have echo: "hex_encode (slice 54 66 frame) = payloadString p ''ping_id''" if "Type p = ''PONG''"
    using that pong ids fields(5)
    by (auto simp: slice_def lower_ids_def intro!: hex_encode_decode)
  have "IsCompact frame" by (simp add: IsCompact_def frame eq)
  with kind cut fields hx echo show ?thesis
    by (simp add: DecodeCompact_def DecodeCompactReuse_def Let_def mac_defs compact_view_def frame)
qed

text \<open>C25: decoding an encoded keepalive returns the packet that was encoded, up to what the compact
  format does not carry: the hop limit is reset to the default and the payload keeps only the
  echoed ping id of a PONG.\<close>

theorem compact_roundtrip:
  assumes hm: "\<And>k m. length (hm k m) = 32"
    and ids: "lower_ids p"
    and enc: "EncodeCompact hm p key = Inr frame"
  shows "DecodeCompact hm frame key = Inr (compact_view p)"
  using assms by (rule compact_decodes)

text \<open>A sample keepalive and a constant MAC for the witnesses.\<close>

definition sample_hm :: "bytes \<Rightarrow> bytes \<Rightarrow> bytes" where
  "sample_hm k m = replicate 32 7"

definition sample_pong :: Packet where
  "sample_pong = NewPacket (replicate 12 1) 1700000000 ''PONG'' (hex_encode (replicate 16 0xAB))
     (hex_encode (replicate 16 2)) [(''ping_id'', JStr (hex_encode (replicate 12 9)))]"

definition sample_frame :: bytes where
  "sample_frame = [compactMagic, compactTypePong] @ replicate 16 0xAB @ replicate 16 2
     @ replicate 12 1 @ put_be64 1700000000 @ replicate 12 9 @ replicate 16 7"

lemma sample_ids:
  "Type sample_pong = ''PONG''" "Source sample_pong = hex_encode (replicate 16 0xAB)"
  "Destination sample_pong = hex_encode (replicate 16 2)"
  "PacketID sample_pong = hex_encode (replicate 12 1)" "TTL sample_pong = DefaultTTL"
  "Timestamp sample_pong = 1700000000"
  "Payload sample_pong = [(''ping_id'', JStr (hex_encode (replicate 12 9)))]"
  "payloadString sample_pong ''ping_id'' = hex_encode (replicate 12 9)"
  by (simp_all add: sample_pong_def NewPacket_def payloadString_def)

lemma sample_encode: "EncodeCompact sample_hm sample_pong [] = Inr sample_frame"
proof -
  have "CompactBody sample_pong = Inr ([compactMagic, compactTypePong] @ replicate 16 0xAB
      @ replicate 16 2 @ replicate 12 1 @ put_be64 (Timestamp sample_pong) @ replicate 12 9)"
    by (rule CompactBody_I(1)) (simp_all add: sample_ids compact_type_def hex_id_encode
        del: hex_encode.simps)
  then show ?thesis
    by (simp add: EncodeCompact_eq sample_hm_def sample_frame_def sample_ids
)
qed

lemma sample_decode: "DecodeCompact sample_hm sample_frame [] = Inr (compact_view sample_pong)"
proof -
  note fields = compact_slices [where data = sample_frame, OF _ _ _ _ sample_frame_def]
  have "sample_frame ! 1 = compactTypePong" "IsCompact sample_frame" "length sample_frame = 82"
    by (simp_all add: sample_frame_def IsCompact_def)
  moreover have "drop 66 sample_frame = drop 12 (drop 54 sample_frame)" by simp
  ultimately show ?thesis using fields
    by (simp add: DecodeCompact_def DecodeCompactReuse_def compact_kind_def Let_def mac_defs
        sample_hm_def compact_view_def sample_ids slice_def
        del: drop_drop)
qed

theorem compact_roundtrip_witness:
  "DecodeCompact sample_hm sample_frame [] = Inr (compact_view sample_pong)"
proof (rule compact_roundtrip)
  show "length (sample_hm k m) = 32" for k m by (simp add: sample_hm_def)
  show "lower_ids sample_pong" by (simp add: lower_ids_def sample_ids lower_hex_encode)
qed (rule sample_encode)

text \<open>C26: the decoder accepts only frames the encoder produces: whatever it accepts under a key is
  exactly the encoding of the packet it returns, so an accepted frame carries the truncated HMAC
  of all its other bytes and no two frames decode to the same packet.\<close>

theorem compact_canonical:
  assumes "DecodeCompact hm data key = Inr p"
  shows "EncodeCompact hm p key = Inr data"
  using assms
proof (rule DecodeCompact_Inr)
  fix kind want
  assume c: "IsCompact data" "compact_kind (data ! 1) = Some (kind, want)" "length data = want"
    and tag: "take compactHMACSize (hm key (take (want - compactHMACSize) data))
       = drop (want - compactHMACSize) data"
    and p: "p = \<lparr>Type = kind, Source = hex_encode (slice 2 18 data),
       Destination = hex_encode (slice 18 34 data),
       Payload = (if kind = ''PONG''
         then [(''ping_id'', JStr (hex_encode (slice 54 66 data)))] else []),
       PacketID = hex_encode (slice 34 46 data), TTL = DefaultTTL,
       Timestamp = be64 (slice 46 54 data)\<rparr>"
  have kt: "compact_type kind = Some (data ! 1)"
    and want: "want = (if data ! 1 = compactTypePong then CompactPongSize else CompactPingSize)"
    using c(2) by (auto simp: compact_kind_type)
  have pk: "kind = ''PONG'' \<longleftrightarrow> data ! 1 = compactTypePong"
    using kt by (auto simp: compact_type_def split: if_splits)
  have len: "54 \<le> length data" using want c(3) by (auto split: if_splits)
  have m: "data ! 0 = compactMagic" using c(1) by (simp add: IsCompact_def)
  let ?body = "take (want - compactHMACSize) data"
  have "?body = [compactMagic, data ! 1] @ slice 2 18 data @ slice 18 34 data @ slice 34 46 data
      @ slice 46 54 data @ slice 54 (want - compactHMACSize) data"
  proof -
    have "take (want - 16) (a @ b @ c @ d @ e @ f)
        = a @ b @ c @ d @ e @ take (want - 16 - 54) (f :: bytes)"
      if "length a = 2" "length b = 16" "length c = 16" "length d = 12" "length e = 8" for a b c d e f
      using that want by (auto split: if_splits)
    from this [of "[data ! 0, data ! 1]" "slice 2 18 data" "slice 18 34 data" "slice 34 46 data"
        "slice 46 54 data" "drop 54 data"]
    show ?thesis using compact_split [OF len] len m by (simp add: slice_def)
  qed
  then have body: "?body = [compactMagic, data ! 1] @ slice 2 18 data @ slice 18 34 data
      @ slice 34 46 data @ put_be64 (Timestamp p) @ slice 54 (want - compactHMACSize) data"
    using len by (simp add: p put_be_be64)
  have ids: "compact_type (Type p) = Some (data ! 1)" "hex_id 16 (Source p) = Some (slice 2 18 data)"
    "hex_id 16 (Destination p) = Some (slice 18 34 data)"
    "hex_id 12 (PacketID p) = Some (slice 34 46 data)"
    using kt len by (simp_all add: p)
  have "CompactBody p = Inr ?body"
  proof (cases "data ! 1 = compactTypePong")
    case True
    moreover have "hex_id 12 (payloadString p ''ping_id'') = Some (slice 54 66 data)"
      using True pk want c(3) by (simp add: p payloadString_def)
    ultimately show ?thesis
      using CompactBody_I(1) [OF ids] body want by simp
  next
    case False
    moreover have "payloadString p ''session_id'' = []"
      using False pk by (simp add: p payloadString_def)
    moreover have "slice 54 (want - compactHMACSize) data = []"
      using False want by (simp add: slice_def)
    ultimately show ?thesis
      using CompactBody_I(2) [OF ids] body by simp
  qed
  then show ?thesis
    using tag c(3) by (simp add: EncodeCompact_eq)
qed

theorem compact_canonical_witness:
  "EncodeCompact sample_hm (compact_view sample_pong) [] = Inr sample_frame"
  using sample_decode by (rule compact_canonical)

text \<open>A pooled HMAC state behaves as a fresh one.  Whatever an earlier borrower left in the
  state, encoding and decoding with it give what a state built from the same key gives, and the
  state keeps its key.\<close>

lemma pooled_mac_equiv:
  "fst (EncodeCompactReuse hm p h) = EncodeCompact hm p (mac_key h)
   \<and> fst (DecodeCompactReuse hm data h) = DecodeCompact hm data (mac_key h)
   \<and> mac_key (snd (EncodeCompactReuse hm p h)) = mac_key h
   \<and> mac_key (snd (DecodeCompactReuse hm data h)) = mac_key h"
proof -
  have e: "fst (EncodeCompactReuse hm p h) = EncodeCompact hm p (mac_key h)"
    using CompactFramed_frame [of hm h]
    by (auto simp: EncodeCompact_eq EncodeCompactReuse_def split: sum.splits prod.splits)
       (metis fst_conv)
  moreover have "mac_key (snd (EncodeCompactReuse hm p h)) = mac_key h"
    by (auto simp: EncodeCompactReuse_def CompactFramed_def Let_def mac_defs split: sum.splits)
  moreover have "fst (DecodeCompactReuse hm data h) = DecodeCompact hm data (mac_key h)"
    by (auto simp: DecodeCompact_def DecodeCompactReuse_def Let_def mac_defs split: option.splits)
  moreover have "mac_key (snd (DecodeCompactReuse hm data h)) = mac_key h"
    by (auto simp: DecodeCompactReuse_def Let_def mac_defs split: option.splits)
  ultimately show ?thesis by simp
qed

section \<open>Lemmas: nonces and sealed frames\<close>

definition nonce_advance :: "nat \<Rightarrow> NonceSequence \<Rightarrow> NonceSequence" where
  "nonce_advance n = (\<lambda>s. snd (NextNonce s)) ^^ n"

lemma NextNonce_snd: "snd (NextNonce s) = s\<lparr>counter := counter s + 1\<rparr>"
  by (simp add: NextNonce_def NextInto_def Let_def)

lemma nonce_advance_eq: "nonce_advance n s = s\<lparr>counter := counter s + of_nat n\<rparr>"
  by (induction n) (simp_all add: nonce_advance_def NextNonce_snd algebra_simps)

lemma NextNonce_Inr:
  "fst (NextNonce s) = Inr a \<longleftrightarrow>
     counter s + 1 \<noteq> 0 \<and> a = take 8 (prefix8 s) @ put_be32 (ucast (counter s + 1))"
  by (auto simp: NextNonce_def NextInto_def Let_def)

lemma ucast_32_of_nat: "(ucast (of_nat m :: 64 word) :: 32 word) = of_nat m"
proof -
  have m: "m mod 18446744073709551616 mod 4294967296 = m mod 4294967296"
    by (rule mod_mod_cancel) simp
  have "unat (ucast (of_nat m :: 64 word) :: 32 word) = unat (of_nat m :: 32 word)"
    using m by (simp add: unsigned_ucast_eq unat_of_nat take_bit_eq_mod)
  then show ?thesis by (rule unsigned_word_eqI)
qed

lemma ucast_32_of_nat_add:
  "(ucast (c + of_nat n :: 64 word) :: 32 word) = ucast c + of_nat n"
proof -
  have c: "c = of_nat (unat c)" by (simp only: of_nat_unat) simp
  have "(ucast (of_nat (unat c) + of_nat n :: 64 word) :: 32 word) = of_nat (unat c + n)"
    by (simp only: of_nat_add [symmetric] ucast_32_of_nat)
  moreover have "(ucast (of_nat (unat c) :: 64 word) :: 32 word) = of_nat (unat c)"
    by (rule ucast_32_of_nat)
  ultimately show ?thesis using c by simp
qed

lemma of_nat_32_zero: "(of_nat d :: 32 word) = 0 \<Longrightarrow> d mod 2 ^ 32 = 0"
  by (simp add: word_of_nat_eq_0_iff mod_eq_0_iff_dvd)

text \<open>C27: one sequence never hands out the same nonce twice within $2^{32}$ consecutive frames.\<close>

theorem nonce_unique_within_window:
  assumes "i < j" "j - i < 2 ^ 32"
    and a: "fst (NextNonce (nonce_advance i s)) = Inr a"
    and b: "fst (NextNonce (nonce_advance j s)) = Inr b"
  shows "a \<noteq> b"
proof
  assume "a = b"
  obtain d where j: "j = i + d" "0 < d" "d < 2 ^ 32"
    using assms(1,2) by (metis add_diff_inverse_nat less_imp_add_positive not_less_iff_gr_or_eq zero_less_diff)
  let ?c = "counter s + of_nat i + 1"
  have eq: "counter s + of_nat j + 1 = ?c + of_nat d"
    by (simp add: j algebra_simps)
  have "(ucast ?c :: 32 word) = ucast (counter s + of_nat j + 1)"
    using a b \<open>a = b\<close> by (simp add: NextNonce_Inr nonce_advance_eq put_be32_inject)
  also have "\<dots> = ucast ?c + of_nat d"
    unfolding eq by (rule ucast_32_of_nat_add)
  finally have "(of_nat d :: 32 word) = 0" by simp
  then have "d mod 2 ^ 32 = 0"
    by (rule of_nat_32_zero)
  with j show False by simp
qed

theorem nonce_unique_within_window_witness:
  "fst (NextNonce (nonce_advance 3 (NewNonceSequence (replicate 8 5))))
     \<noteq> fst (NextNonce (nonce_advance 4 (NewNonceSequence (replicate 8 5))))"
proof -
  define s where "s = NewNonceSequence (replicate 8 5)"
  let ?n = "\<lambda>i. take 8 (prefix8 s) @ put_be32 (ucast (counter s + of_nat i + 1))"
  have c: "counter s = 9" by (simp add: s_def NewNonceSequence_def)
  have a: "fst (NextNonce (nonce_advance 3 s)) = Inr (?n 3)"
    and b: "fst (NextNonce (nonce_advance 4 s)) = Inr (?n 4)"
    by (auto simp: NextNonce_Inr nonce_advance_eq c)
  show ?thesis
    using nonce_unique_within_window [OF _ _ a b] a b by (simp flip: s_def)
qed

text \<open>The nonces of a fresh sequence do repeat: the counter has 64 bits, only its low 32 go
  into the nonce, and the exhaustion guard watches the 64-bit wrap-around.  Frame number
  $i + 2^{32}$ is sealed, without an error, under the nonce of frame $i$.\<close>

lemma nonce_repeats_after_window:
  assumes "length rnd = 8" "i + 2 ^ 32 + 10 < 2 ^ 64"
  shows "\<exists>a. fst (NextNonce (nonce_advance i (NewNonceSequence rnd))) = Inr a
     \<and> fst (NextNonce (nonce_advance (i + 2 ^ 32) (NewNonceSequence rnd))) = Inr a"
proof -
  let ?s = "NewNonceSequence rnd"
  have nz: "counter (nonce_advance k ?s) + 1 \<noteq> 0" if "k + 10 < 2 ^ 64" for k
  proof -
    have "counter (nonce_advance k ?s) + 1 = of_nat (k + 10)"
      using assms(1) by (simp add: nonce_advance_eq NewNonceSequence_def)
    then show ?thesis
      using that by (simp only: word_of_nat_eq_0_iff) (auto dest: dvd_imp_le)
  qed
  have "(ucast (c + of_nat (2 ^ 32) :: 64 word) :: 32 word) = ucast c" for c
  proof -
    have "(of_nat (2 ^ 32) :: 32 word) = 0" by (simp only: word_of_nat_eq_0_iff) simp
    then show ?thesis by (simp only: ucast_32_of_nat_add) simp
  qed
  from this [of "counter ?s + of_nat i + 1"]
  have "(ucast (counter (nonce_advance (i + 2 ^ 32) ?s) + 1) :: 32 word)
      = ucast (counter (nonce_advance i ?s) + 1)"
    by (simp add: nonce_advance_eq algebra_simps)
  moreover have "prefix8 (nonce_advance k ?s) = rnd" for k
    by (simp add: nonce_advance_eq NewNonceSequence_def)
  ultimately show ?thesis
    using nz [of i] nz [of "i + 2 ^ 32"] assms(2) by (auto simp: NextNonce_Inr)
qed

lemma nonce_repeats_after_window_witness:
  "\<exists>a. fst (NextNonce (nonce_advance 0 (NewNonceSequence (replicate 8 5)))) = Inr a
     \<and> fst (NextNonce (nonce_advance (0 + 2 ^ 32) (NewNonceSequence (replicate 8 5)))) = Inr a"
  by (rule nonce_repeats_after_window) simp_all

text \<open>What the data plane seals it opens.  A frame sealed with a nonce sequence opens to the same
  plaintext through \<^verbatim>\<open>OpenBytesWithAEAD\<close> and through \<^verbatim>\<open>OpenBytesInto\<close> with any empty destination,
  whatever its capacity, and sealing succeeds whenever the counter has not wrapped.\<close>

lemma seal_open_roundtrip:
  assumes "aead_ok a" "NonceSize a = 12" "length (prefix8 s) = 8" "counter s + 1 \<noteq> 0"
  shows "\<exists>frame. fst (SealBytesWithSequence a s pt aad) = Inr frame
     \<and> length frame = length pt + 12 + Overhead a
     \<and> OpenBytesWithAEAD a frame aad = Inr pt
     \<and> OpenBytesInto [] cap a frame aad = Inr pt"
proof -
  let ?n = "prefix8 s @ put_be32 (ucast (counter s + 1))"
  have "aead_Open a ?n (aead_Seal a ?n pt aad) aad = Some pt"
    "length (aead_Seal a ?n pt aad) = length pt + Overhead a"
    using assms by (auto simp: aead_ok_def)
  moreover have "fst (SealBytesWithSequence a s pt aad) = Inr (?n @ aead_Seal a ?n pt aad)"
    using assms by (simp add: SealBytesWithSequence_def NextInto_def Let_def)
  ultimately show ?thesis
    using assms by (auto simp: OpenBytesWithAEAD_def OpenBytesInto_def Let_def)
qed

definition sample_aead :: aead where
  "sample_aead = \<lparr>NonceSize = 12, Overhead = 1, aead_Seal = (\<lambda>n p d. p @ [of_nat (length d)]),
     aead_Open = (\<lambda>n c d. if c \<noteq> [] \<and> last c = of_nat (length d) then Some (butlast c) else None)\<rparr>"

lemma seal_open_roundtrip_witness:
  "\<exists>frame. fst (SealBytesWithSequence sample_aead (NewNonceSequence (replicate 8 5)) [1, 2] [9]) = Inr frame
     \<and> length frame = length [1 :: byte, 2] + 12 + Overhead sample_aead
     \<and> OpenBytesWithAEAD sample_aead frame [9] = Inr [1, 2]
     \<and> OpenBytesInto [] 0 sample_aead frame [9] = Inr [1, 2]"
  by (rule seal_open_roundtrip)
     (simp_all add: sample_aead_def aead_ok_def NewNonceSequence_def)

end
