(* ===== verification/Accounts.thy ===== *)
theory Accounts
  imports Base64 Ip Wire
begin

text \<open>
  Accounts of the coordinator and who may call it (\<^verbatim>\<open>server/auth.go\<close>, \<^verbatim>\<open>server/tokens.go\<close>,
  \<^verbatim>\<open>server/sessions.go\<close>, \<^verbatim>\<open>server/invites.go\<close>): the two attempt limiters, account registration against
  the bootstrap secret or an invitation, login sessions with their CSRF binding, account and node
  tokens, six-character device invites.

  A table of the database is the list of its rows in the order of insertion, with the keys of the
  schema in \<^verbatim>\<open>server_init.go\<close>: an \<^verbatim>\<open>INSERT\<close> that repeats a primary key fails.  Other failures of the
  database are not modelled.  SHA-256 in hexadecimal (\<^verbatim>\<open>tokenDigest\<close>) is the argument \<open>dg\<close>, AES-GCM
  under the server's key the argument \<open>gcm\<close>, bcrypt the arguments \<open>bhash\<close> and \<open>bcmp\<close>; the bytes of
  \<^verbatim>\<open>crypto/rand\<close> are arguments that are \<open>None\<close> when the read fails.  \<open>now\<close> is the Unix time of the
  request in seconds, and the limiters count in nanoseconds.
\<close>

section \<open>Attempt limiters\<close>

type_synonym attempts = "string \<Rightarrow> int list"

abbreviation second :: int where "second \<equiv> 1000000000"

definition invite_host :: "string \<Rightarrow> string" where
  "invite_host remote = (case SplitHostPort remote of None \<Rightarrow> remote | Some (h, _) \<Rightarrow> h)"

definition allowInviteAttempt :: "int \<Rightarrow> string \<Rightarrow> attempts \<Rightarrow> bool \<times> attempts" where
  "allowInviteAttempt now remote att =
     (let host = invite_host remote;
          cutoff = now - 30 * second;
          kept = filter (\<lambda>t. cutoff < t) (att host) in
      if 5 \<le> length kept then (False, att(host := kept))
      else (True, att(host := kept @ [now])))"

definition requestHost :: "string \<Rightarrow> string" where
  "requestHost remote =
     (case SplitHostPort remote of None \<Rightarrow> remote | Some (h, _) \<Rightarrow> if h = [] then remote else h)"

definition allowAccountAttempt :: "int \<Rightarrow> string \<Rightarrow> attempts \<Rightarrow> bool \<times> attempts" where
  "allowAccountAttempt now remote att =
     (let cutoff = now - 5 * 60 * second;
          host = requestHost remote;
          kept = filter (\<lambda>t. cutoff < t) (att host) in
      if 10 \<le> length kept then (False, att(host := kept))
      else (True, att(host := kept @ [now])))"

section \<open>Tables and requests\<close>

record user =
  user_id :: int
  username :: string
  password_hash :: string
  user_created :: int
  last_login_at :: "int option"
  disabled :: bool

record account_token =
  tok_hash :: string
  tok_user :: int
  encrypted_token :: bytes
  tok_created :: int
  tok_revoked :: "int option"

record auth_session =
  ses_hash :: string
  csrf_hash :: string
  ses_user :: int
  ses_created :: int
  ses_expires :: int
  ses_revoked :: "int option"

record account_invite =
  ainv_hash :: string
  ainv_created :: int
  ainv_expires :: int
  ainv_used :: "int option"

record invite =
  inv_token :: string
  inv_created :: int
  inv_expires :: int
  inv_used :: "int option"
  inv_owner :: "int option"

record node_token =
  nt_node :: string
  nt_hash :: string
  nt_created :: int
  nt_revoked :: "int option"

record accounts =
  network_token :: string
  bootstrapToken :: string
  inviteAttempts :: attempts
  accountAttempts :: attempts
  users :: "user list"
  next_user :: int
  account_tokens :: "account_token list"
  auth_sessions :: "auth_session list"
  account_invites :: "account_invite list"
  invites :: "invite list"
  node_tokens :: "node_token list"
  audit_log :: "(int \<times> string \<times> string) list"

record request =
  Method :: string
  Path :: string
  RemoteAddr :: string
  X_Mesh_Token :: string
  X_Mesh_Invite :: string
  X_CSRF_Token :: string
  session_cookie :: "string option"
  csrf_cookie :: "string option"

text \<open>An answer is a status with an error message, or the value that the reply is built from.\<close>

type_synonym 'a reply = "(nat \<times> string) + 'a"

definition audit :: "int \<Rightarrow> string \<Rightarrow> string \<Rightarrow> 'a accounts_scheme \<Rightarrow> 'a accounts_scheme" where
  "audit now event detail s = s\<lparr>audit_log := audit_log s @ [(now, event, detail)]\<rparr>"

section \<open>Credentials\<close>

definition name_char :: "char \<Rightarrow> bool" where
  "name_char c \<longleftrightarrow> (CHR ''a'' \<le> c \<and> c \<le> CHR ''z'') \<or> (CHR ''0'' \<le> c \<and> c \<le> CHR ''9'') \<or>
     c = CHR ''.'' \<or> c = CHR ''_'' \<or> c = CHR ''-''"

definition validUsername :: "string \<Rightarrow> bool" where
  "validUsername u \<longleftrightarrow>
     \<not> (length u < 3 \<or> 64 < length u \<or> ToLower u \<noteq> u) \<and> list_all name_char u"

definition validPassword :: "string \<Rightarrow> bool" where
  "validPassword p \<longleftrightarrow> 12 \<le> length p \<and> length p \<le> 72"

definition string_bytes :: "string \<Rightarrow> bytes" where
  "string_bytes s = map (\<lambda>c. of_nat (of_char c)) s"

definition bytes_string :: "bytes \<Rightarrow> string" where
  "bytes_string bs = map (\<lambda>b. char_of (unat b)) bs"

definition randomToken :: "bytes option \<Rightarrow> string option" where
  "randomToken rnd = map_option B64Encode rnd"

definition encryptAccountToken :: "aead \<Rightarrow> bytes option \<Rightarrow> string \<Rightarrow> bytes option" where
  "encryptAccountToken gcm rnd raw =
     (case rnd of None \<Rightarrow> None
      | Some nonce \<Rightarrow> Some (nonce @ aead_Seal gcm nonce (string_bytes raw) []))"

definition decryptAccountToken :: "aead \<Rightarrow> bytes \<Rightarrow> string go_result" where
  "decryptAccountToken gcm encoded =
     (if length encoded < NonceSize gcm then Inl ''invalid encrypted account token''
      else case aead_Open gcm (take (NonceSize gcm) encoded) (drop (NonceSize gcm) encoded) [] of
        None \<Rightarrow> Inl ''cipher: message authentication failed''
      | Some plain \<Rightarrow> Inr (bytes_string plain))"

text \<open>The prepared statement of \<^verbatim>\<open>prepareRegisterStatements\<close>: the live token of an enabled user.\<close>

definition live_account :: "user list \<Rightarrow> account_token list \<Rightarrow> string \<Rightarrow> int option" where
  "live_account us ts h =
     map_option tok_user (find (\<lambda>t. tok_hash t = h \<and> tok_revoked t = None \<and>
        list_ex (\<lambda>u. user_id u = tok_user t \<and> \<not> disabled u) us) ts)"

definition account_of_token :: "string \<Rightarrow> 'a accounts_scheme \<Rightarrow> int option" where
  "account_of_token h s = live_account (users s) (account_tokens s) h"

definition accountTokenUser :: "(string \<Rightarrow> string) \<Rightarrow> request \<Rightarrow> 'a accounts_scheme \<Rightarrow> int option" where
  "accountTokenUser dg r s =
     (if X_Mesh_Token r = [] then None else account_of_token (dg (X_Mesh_Token r)) s)"

definition networkTokenValid :: "(string \<Rightarrow> string) \<Rightarrow> request \<Rightarrow> 'a accounts_scheme \<Rightarrow> bool" where
  "networkTokenValid dg r s \<longleftrightarrow>
     (X_Mesh_Token r \<noteq> [] \<and> X_Mesh_Token r = network_token s) \<or> accountTokenUser dg r s \<noteq> None"

definition anyNodeTokenValid :: "(string \<Rightarrow> string) \<Rightarrow> request \<Rightarrow> 'a accounts_scheme \<Rightarrow> bool" where
  "anyNodeTokenValid dg r s \<longleftrightarrow>
     X_Mesh_Token r \<noteq> [] \<and>
     list_ex (\<lambda>t. nt_hash t = dg (X_Mesh_Token r) \<and> nt_revoked t = None) (node_tokens s)"

definition sessionUser ::
    "(string \<Rightarrow> string) \<Rightarrow> int \<Rightarrow> request \<Rightarrow> 'a accounts_scheme \<Rightarrow> user option \<times> 'a accounts_scheme" where
  "sessionUser dg now r s =
     (case session_cookie r of
        None \<Rightarrow> (None, s)
      | Some v \<Rightarrow>
        if v = [] then (None, s)
        else (let h = dg v in
          case find (\<lambda>x. ses_hash x = h) (auth_sessions s) of
            None \<Rightarrow> (None, s)
          | Some x \<Rightarrow>
            (case find (\<lambda>u. user_id u = ses_user x \<and> \<not> disabled u) (users s) of
               None \<Rightarrow> (None, s)
             | Some u \<Rightarrow>
               if ses_revoked x \<noteq> None \<or> ses_expires x < now
               then (None, s\<lparr>auth_sessions := filter (\<lambda>y. ses_hash y \<noteq> h) (auth_sessions s)\<rparr>)
               else (Some u, s))))"

definition csrfValid :: "(string \<Rightarrow> string) \<Rightarrow> request \<Rightarrow> 'a accounts_scheme \<Rightarrow> bool" where
  "csrfValid dg r s =
     (case csrf_cookie r of
        None \<Rightarrow> False
      | Some c \<Rightarrow>
        if c = [] then False
        else (let provided = (if X_CSRF_Token r = [] then X_Mesh_Token r else X_CSRF_Token r) in
          if provided = [] \<or> provided \<noteq> c then False
          else case session_cookie r of
            None \<Rightarrow> False
          | Some v \<Rightarrow>
            if v = [] then False
            else case find (\<lambda>x. ses_hash x = dg v \<and> ses_revoked x = None) (auth_sessions s) of
              None \<Rightarrow> False
            | Some x \<Rightarrow> csrf_hash x = dg provided))"

definition adminAuth ::
    "(string \<Rightarrow> string) \<Rightarrow> int \<Rightarrow> request \<Rightarrow> 'a accounts_scheme \<Rightarrow> unit reply \<times> 'a accounts_scheme" where
  "adminAuth dg now r s =
     (if networkTokenValid dg r s then (Inr (), s)
      else case sessionUser dg now r s of
        (None, s1) \<Rightarrow> (Inl (401, ''unauthorized''), s1)
      | (Some u, s1) \<Rightarrow>
        if Method r \<noteq> ''GET'' \<and> Method r \<noteq> ''HEAD'' \<and> \<not> csrfValid dg r s1
        then (Inl (403, ''csrf validation failed''), s1)
        else (Inr (), s1))"

definition accountIDForRequest ::
    "(string \<Rightarrow> string) \<Rightarrow> int \<Rightarrow> request \<Rightarrow> 'a accounts_scheme \<Rightarrow> int option \<times> 'a accounts_scheme" where
  "accountIDForRequest dg now r s =
     (case sessionUser dg now r s of
        (Some u, s1) \<Rightarrow> (Some (user_id u), s1)
      | (None, s1) \<Rightarrow> (accountTokenUser dg r s1, s1))"

section \<open>Handlers\<close>

text \<open>The handlers below take the instant \<open>t\<close> of the request in nanoseconds.\<close>

abbreviation unix :: "int \<Rightarrow> int" where "unix t \<equiv> t div second"

definition inviteRegistrationAuthorized ::
    "int \<Rightarrow> request \<Rightarrow> 'a accounts_scheme \<Rightarrow> bool \<times> 'a accounts_scheme" where
  "inviteRegistrationAuthorized t r s =
     (if Method r \<noteq> ''POST'' \<or> Path r \<noteq> ''/v1/register'' then (False, s)
      else if X_Mesh_Invite r = [] then (False, s)
      else (let (ok, att) = allowInviteAttempt t (RemoteAddr r) (inviteAttempts s);
                s1 = s\<lparr>inviteAttempts := att\<rparr> in
        if \<not> ok then (False, s1)
        else case find (\<lambda>i. inv_token i = X_Mesh_Invite r) (invites s) of
          None \<Rightarrow> (False, s1)
        | Some i \<Rightarrow>
          (case inv_used i of
             None \<Rightarrow> (False, s1)
           | Some used \<Rightarrow> (t - used * second \<le> 10 * 60 * second, s1))))"

definition auth ::
    "(string \<Rightarrow> string) \<Rightarrow> int \<Rightarrow> request \<Rightarrow> 'a accounts_scheme \<Rightarrow> unit reply \<times> 'a accounts_scheme" where
  "auth dg t r s =
     (if networkTokenValid dg r s \<or> anyNodeTokenValid dg r s then (Inr (), s)
      else case inviteRegistrationAuthorized t r s of
        (True, s1) \<Rightarrow> (Inr (), s1)
      | (False, s1) \<Rightarrow> (Inl (401, ''unauthorized''), s1))"

definition consumeInvite :: "int \<Rightarrow> string \<Rightarrow> 'a accounts_scheme \<Rightarrow> bool \<times> 'a accounts_scheme" where
  "consumeInvite t tok s =
     (if length tok \<noteq> 6 then (False, s)
      else (let hit = (\<lambda>i. inv_token i = tok \<and> inv_used i = None \<and> unix t \<le> inv_expires i) in
        (length (filter hit (invites s)) = 1,
         s\<lparr>invites := map (\<lambda>i. if hit i then i\<lparr>inv_used := Some (unix t)\<rparr> else i) (invites s)\<rparr>)))"

definition invite_alphabet :: string where
  "invite_alphabet = ''ABCDEFGHJKLMNPQRSTUVWXYZ23456789''"

definition invite_code :: "bytes \<Rightarrow> string" where
  "invite_code raw = map (\<lambda>b. invite_alphabet ! (unat b mod length invite_alphabet)) raw"

text \<open>The drawing loop of \<^verbatim>\<open>adminInvite\<close>: \<open>draw k\<close> is the result of its \<open>k\<close>-th read of six random bytes.
  The loop ends with the first unused code or the first failing read.\<close>

partial_function (option) draw_invite ::
    "(string \<Rightarrow> bool) \<Rightarrow> (nat \<Rightarrow> bytes option) \<Rightarrow> nat \<Rightarrow> string option option" where
  "draw_invite exists draw k =
     (case draw k of
        None \<Rightarrow> Some None
      | Some raw \<Rightarrow> if exists (invite_code raw) then draw_invite exists draw (Suc k)
                   else Some (Some (invite_code raw)))"

text \<open>Rows that a query orders by creation time, newest first.\<close>

definition newest_first :: "('r \<Rightarrow> int) \<Rightarrow> 'r list \<Rightarrow> 'r list" where
  "newest_first created rows = rev (sort_key created rows)"

datatype 'r invite_answer = Listed "'r list" | Created string int

definition adminInvite ::
    "(string \<Rightarrow> string) \<Rightarrow> int \<Rightarrow> (nat \<Rightarrow> bytes option) \<Rightarrow> request \<Rightarrow> 'a accounts_scheme \<Rightarrow>
     (invite invite_answer reply \<times> 'a accounts_scheme) option" where
  "adminInvite dg t draw r s =
     (case adminAuth dg (unix t) r s of
        (Inl e, s1) \<Rightarrow> Some (Inl e, s1)
      | (Inr _, s1) \<Rightarrow>
        (case accountIDForRequest dg (unix t) r s1 of (owner, s2) \<Rightarrow>
           if Method r = ''GET'' then
             Some (Inr (Listed (newest_first inv_created
                (filter (\<lambda>i. unix t \<le> inv_expires i \<and> (owner = None \<or> inv_owner i = owner)) (invites s2)))), s2)
           else
           (case draw_invite (\<lambda>c. list_ex (\<lambda>i. inv_token i = c) (invites s2)) draw 0 of
              None \<Rightarrow> None
            | Some None \<Rightarrow> Some (Inl (500, ''rand''), s2)
            | Some (Some code) \<Rightarrow>
              (let now = unix t;
                   row = \<lparr>inv_token = code, inv_created = now, inv_expires = now + 60, inv_used = None,
                          inv_owner = owner\<rparr>;
                   s3 = s2\<lparr>invites := invites s2 @ [row]\<rparr> in
               Some (Inr (Created code (now + 60)),
                 audit now ''invite_created'' ''six-digit device invite created'' s3)))))"

definition accountInvite ::
    "(string \<Rightarrow> string) \<Rightarrow> int \<Rightarrow> bytes option \<Rightarrow> request \<Rightarrow> 'a accounts_scheme \<Rightarrow>
     account_invite invite_answer reply \<times> 'a accounts_scheme" where
  "accountInvite dg t rnd r s =
     (case adminAuth dg (unix t) r s of
        (Inl e, s1) \<Rightarrow> (Inl e, s1)
      | (Inr _, s1) \<Rightarrow>
        if Method r = ''GET'' then
          (Inr (Listed (take 50 (newest_first ainv_created
             (filter (\<lambda>i. unix t \<le> ainv_expires i \<or> ainv_used i \<noteq> None) (account_invites s1))))), s1)
        else if Method r \<noteq> ''POST'' then (Inl (405, ''method not allowed''), s1)
        else case randomToken rnd of
          None \<Rightarrow> (Inl (500, ''could not create invitation''), s1)
        | Some tok \<Rightarrow>
          (let now = unix t; expires = now + 24 * 60 * 60;
               row = \<lparr>ainv_hash = dg tok, ainv_created = now, ainv_expires = expires, ainv_used = None\<rparr> in
           if list_ex (\<lambda>i. ainv_hash i = dg tok) (account_invites s1)
           then (Inl (500, ''could not save invitation''), s1)
           else (Inr (Created tok expires), audit now ''account_invite_created'' ''account invitation created''
                   (s1\<lparr>account_invites := account_invites s1 @ [row]\<rparr>))))"

definition user_detail :: "int \<Rightarrow> string" where
  "user_detail i = ''user_id='' @ itoa (nat i)"

record registration =
  reg_username :: string
  reg_password :: string
  reg_invite :: string

text \<open>The transaction of \<^verbatim>\<open>accountRegister\<close> is rolled back on every error path: those paths return the
  state before it.  Unique user names are compared without regard to case, as the schema demands.\<close>

definition register_gate ::
    "(string \<Rightarrow> string) \<Rightarrow> int \<Rightarrow> string \<Rightarrow> 'a accounts_scheme \<Rightarrow> 'a accounts_scheme reply" where
  "register_gate dg now code s =
     (if users s \<noteq> [] then
        (if code = [] then Inl (403, ''registration requires an administrator invitation'')
         else (let hit = (\<lambda>i. ainv_hash i = dg code \<and> ainv_used i = None \<and> now \<le> ainv_expires i) in
           if length (filter hit (account_invites s)) \<noteq> 1 then Inl (403, ''invalid or expired invitation'')
           else Inr (s\<lparr>account_invites :=
                  map (\<lambda>i. if hit i then i\<lparr>ainv_used := Some now\<rparr> else i) (account_invites s)\<rparr>)))
      else (let bootstrap = (if bootstrapToken s = [] then network_token s else bootstrapToken s) in
        if bootstrap = [] \<or> code \<noteq> bootstrap
        then Inl (403, ''first registration requires the coordinator bootstrap token'')
        else Inr s))"

definition accountRegister ::
    "(string \<Rightarrow> string) \<Rightarrow> aead \<Rightarrow> (string \<Rightarrow> string option) \<Rightarrow> int \<Rightarrow> bytes option \<Rightarrow> bytes option \<Rightarrow>
     request \<Rightarrow> registration option \<Rightarrow> 'a accounts_scheme \<Rightarrow> (string \<times> string) reply \<times> 'a accounts_scheme" where
  "accountRegister dg gcm bhash t rnd nonce r body s0 =
     (let (ok, att) = allowAccountAttempt t (RemoteAddr r) (accountAttempts s0);
          s = s0\<lparr>accountAttempts := att\<rparr> in
      if \<not> ok then (Inl (429, ''too many account attempts; try again later''), s)
      else case body of
        None \<Rightarrow> (Inl (400, ''invalid registration request''), s)
      | Some d \<Rightarrow>
        (let name = ToLower (TrimSpace (reg_username d)) in
         if \<not> validUsername name \<or> \<not> validPassword (reg_password d)
         then (Inl (400, ''username or password does not meet the requirements''), s)
         else case bhash (reg_password d) of
           None \<Rightarrow> (Inl (500, ''could not secure password''), s)
         | Some hash \<Rightarrow>
           (case randomToken rnd of
              None \<Rightarrow> (Inl (500, ''could not create account token''), s)
            | Some tok \<Rightarrow>
              (case encryptAccountToken gcm nonce tok of
                 None \<Rightarrow> (Inl (500, ''could not protect account token''), s)
               | Some enc \<Rightarrow>
                 (case register_gate dg (unix t) (reg_invite d) s of
                    Inl e \<Rightarrow> (Inl e, s)
                  | Inr s1 \<Rightarrow>
                    if list_ex (\<lambda>u. ToLower (username u) = name) (users s1)
                    then (Inl (409, ''username is already registered''), s)
                    else if list_ex (\<lambda>x. tok_hash x = dg tok) (account_tokens s1)
                    then (Inl (500, ''could not complete registration''), s)
                    else (Inr (name, tok),
                      audit (unix t) ''account_registered'' (user_detail (next_user s1) @ '' username='' @ name)
                      (s1\<lparr>users := users s1 @ [\<lparr>user_id = next_user s1, username = name,
                             password_hash = hash, user_created = unix t, last_login_at = None,
                             disabled = False\<rparr>],
                          next_user := next_user s1 + 1,
                          account_tokens := account_tokens s1 @ [\<lparr>tok_hash = dg tok,
                             tok_user = next_user s1, encrypted_token = enc, tok_created = unix t,
                             tok_revoked = None\<rparr>]\<rparr>)))))))"


abbreviation sessionLifetime :: int where "sessionLifetime \<equiv> 12 * 60 * 60"

text \<open>Login: the value is the user name, the session secret, the CSRF secret and the expiry; the
  comparison with a dummy hash for unknown names changes nothing but the timing.\<close>

definition accountLogin ::
    "(string \<Rightarrow> string) \<Rightarrow> (string \<Rightarrow> string \<Rightarrow> bool) \<Rightarrow> int \<Rightarrow> bytes option \<Rightarrow> bytes option \<Rightarrow> request \<Rightarrow>
     (string \<times> string) option \<Rightarrow> 'a accounts_scheme \<Rightarrow>
     (string \<times> string \<times> string \<times> int) reply \<times> 'a accounts_scheme" where
  "accountLogin dg bcmp t rnd1 rnd2 r body s0 =
     (let (ok, att) = allowAccountAttempt t (RemoteAddr r) (accountAttempts s0);
          s = s0\<lparr>accountAttempts := att\<rparr> in
      if \<not> ok then (Inl (429, ''too many account attempts; try again later''), s)
      else case body of
        None \<Rightarrow> (Inl (400, ''invalid login request''), s)
      | Some (name0, password) \<Rightarrow>
        (let name = ToLower (TrimSpace name0) in
         case find (\<lambda>u. ToLower (username u) = name) (users s) of
           None \<Rightarrow> (Inl (401, ''invalid username or password''), s)
         | Some u \<Rightarrow>
           if disabled u \<or> \<not> bcmp (password_hash u) password
           then (Inl (401, ''invalid username or password''), s)
           else case randomToken rnd1 of
             None \<Rightarrow> (Inl (500, ''could not create session''), s)
           | Some session \<Rightarrow>
             (case randomToken rnd2 of
                None \<Rightarrow> (Inl (500, ''could not create session''), s)
              | Some csrf \<Rightarrow>
                (let now = unix t; expires = now + sessionLifetime;
                     row = \<lparr>ses_hash = dg session, csrf_hash = dg csrf, ses_user = user_id u,
                            ses_created = now, ses_expires = expires, ses_revoked = None\<rparr> in
                 if list_ex (\<lambda>x. ses_hash x = dg session) (auth_sessions s)
                 then (Inl (500, ''could not save session''), s)
                 else (Inr (username u, session, csrf, expires),
                   s\<lparr>users := map (\<lambda>v. if user_id v = user_id u then v\<lparr>last_login_at := Some now\<rparr> else v)
                        (users s),
                     auth_sessions := filter (\<lambda>x. \<not> (ses_expires x < now \<or> ses_revoked x \<noteq> None))
                        (auth_sessions s @ [row])\<rparr>)))))"

definition accountLogout ::
    "(string \<Rightarrow> string) \<Rightarrow> int \<Rightarrow> request \<Rightarrow> 'a accounts_scheme \<Rightarrow> unit reply \<times> 'a accounts_scheme" where
  "accountLogout dg t r s =
     (case adminAuth dg (unix t) r s of
        (Inl e, s1) \<Rightarrow> (Inl e, s1)
      | (Inr _, s1) \<Rightarrow>
        (case session_cookie r of
           None \<Rightarrow> (Inr (), s1)
         | Some v \<Rightarrow>
           if v = [] then (Inr (), s1)
           else (Inr (), s1\<lparr>auth_sessions :=
                  map (\<lambda>x. if ses_hash x = dg v then x\<lparr>ses_revoked := Some (unix t)\<rparr> else x)
                    (auth_sessions s1)\<rparr>)))"

definition revoke_tokens :: "int \<Rightarrow> int \<Rightarrow> account_token list \<Rightarrow> account_token list" where
  "revoke_tokens now u =
     map (\<lambda>x. if tok_user x = u \<and> tok_revoked x = None then x\<lparr>tok_revoked := Some now\<rparr> else x)"

definition rotateAccountToken ::
    "(string \<Rightarrow> string) \<Rightarrow> aead \<Rightarrow> int \<Rightarrow> bytes option \<Rightarrow> bytes option \<Rightarrow> request \<Rightarrow> 'a accounts_scheme \<Rightarrow>
     (string \<times> int) reply \<times> 'a accounts_scheme" where
  "rotateAccountToken dg gcm t rnd nonce r s =
     (case adminAuth dg (unix t) r s of
        (Inl e, s1) \<Rightarrow> (Inl e, s1)
      | (Inr _, s1) \<Rightarrow>
        (case accountIDForRequest dg (unix t) r s1 of
           (None, s2) \<Rightarrow> (Inl (403, ''only an account can rotate its token''), s2)
         | (Some u, s2) \<Rightarrow>
           (case randomToken rnd of
              None \<Rightarrow> (Inl (500, ''could not create account token''), s2)
            | Some tok \<Rightarrow>
              (case encryptAccountToken gcm nonce tok of
                 None \<Rightarrow> (Inl (500, ''could not protect account token''), s2)
               | Some enc \<Rightarrow>
                 (let now = unix t;
                      row = \<lparr>tok_hash = dg tok, tok_user = u, encrypted_token = enc, tok_created = now,
                             tok_revoked = None\<rparr> in
                  if list_ex (\<lambda>x. tok_hash x = dg tok) (account_tokens s2)
                  then (Inl (500, ''could not rotate account token''), s2)
                  else (Inr (tok, now), audit now ''account_token_rotated'' (user_detail u)
                    (s2\<lparr>account_tokens := revoke_tokens now u (account_tokens s2) @ [row]\<rparr>)))))))"

datatype whoami = SessionOf string | AccountToken int | LegacyToken

definition accountMe ::
    "(string \<Rightarrow> string) \<Rightarrow> int \<Rightarrow> request \<Rightarrow> 'a accounts_scheme \<Rightarrow> whoami reply \<times> 'a accounts_scheme" where
  "accountMe dg t r s =
     (case sessionUser dg (unix t) r s of
        (Some u, s1) \<Rightarrow> (Inr (SessionOf (username u)), s1)
      | (None, s1) \<Rightarrow>
        if networkTokenValid dg r s1 then
          (case accountTokenUser dg r s1 of
             Some u \<Rightarrow> (Inr (AccountToken u), s1)
           | None \<Rightarrow> (Inr LegacyToken, s1))
        else (Inl (401, ''unauthorized''), s1))"

text \<open>An account's current token is decrypted and handed out again; a new one is made only when there
  is none or it cannot be read.\<close>

definition issueAccountToken ::
    "(string \<Rightarrow> string) \<Rightarrow> aead \<Rightarrow> int \<Rightarrow> bytes option \<Rightarrow> bytes option \<Rightarrow> int \<Rightarrow> 'a accounts_scheme \<Rightarrow>
     string option \<times> 'a accounts_scheme" where
  "issueAccountToken dg gcm now rnd nonce u s =
     (let fresh =
        (case randomToken rnd of
           None \<Rightarrow> (None, s)
         | Some tok \<Rightarrow>
           (case encryptAccountToken gcm nonce tok of
              None \<Rightarrow> (None, s)
            | Some enc \<Rightarrow>
              if list_ex (\<lambda>x. tok_hash x = dg tok) (account_tokens s) then (None, s)
              else (Some tok, s\<lparr>account_tokens := account_tokens s @ [\<lparr>tok_hash = dg tok, tok_user = u,
                     encrypted_token = enc, tok_created = now, tok_revoked = None\<rparr>]\<rparr>))) in
      case newest_first tok_created (filter (\<lambda>x. tok_user x = u \<and> tok_revoked x = None) (account_tokens s)) of
        [] \<Rightarrow> fresh
      | x # _ \<Rightarrow>
        if encrypted_token x = [] then fresh
        else case decryptAccountToken gcm (encrypted_token x) of
          Inl _ \<Rightarrow> fresh
        | Inr tok \<Rightarrow> if tok = [] then fresh else (Some tok, s))"

definition issueNodeToken ::
    "(string \<Rightarrow> string) \<Rightarrow> int \<Rightarrow> bytes option \<Rightarrow> string \<Rightarrow> 'a accounts_scheme \<Rightarrow>
     string option \<times> 'a accounts_scheme" where
  "issueNodeToken dg now rnd n s =
     (case randomToken rnd of
        None \<Rightarrow> (None, s)
      | Some tok \<Rightarrow>
        (let row = \<lparr>nt_node = n, nt_hash = dg tok, nt_created = now, nt_revoked = None\<rparr> in
         (Some tok,
          s\<lparr>node_tokens := (if list_ex (\<lambda>x. nt_node x = n) (node_tokens s)
              then map (\<lambda>x. if nt_node x = n then row else x) (node_tokens s)
              else node_tokens s @ [row])\<rparr>)))"

section \<open>The limiters grant a bounded number of attempts per window\<close>

definition recent :: "int \<Rightarrow> int \<Rightarrow> int list \<Rightarrow> int list" where
  "recent w t xs = filter (\<lambda>x. t - w < x) xs"

text \<open>A run of attempts from an empty log: the granted attempts and the final log.\<close>

definition attempt_run ::
    "(int \<Rightarrow> string \<Rightarrow> attempts \<Rightarrow> bool \<times> attempts) \<Rightarrow> (int \<times> string) list \<Rightarrow> (int \<times> string) list \<times> attempts" where
  "attempt_run allow evs =
     foldl (\<lambda>(g, a) (t, r). case allow t r a of (ok, a') \<Rightarrow> (if ok then g @ [(t, r)] else g, a'))
       ([], \<lambda>_. []) evs"

text \<open>The granted attempts of one host.\<close>

definition granted ::
    "(int \<Rightarrow> string \<Rightarrow> attempts \<Rightarrow> bool \<times> attempts) \<Rightarrow> (string \<Rightarrow> string) \<Rightarrow> string \<Rightarrow> (int \<times> string) list \<Rightarrow>
     int list" where
  "granted allow host_of h evs =
     map fst (filter (\<lambda>(t, r). host_of r = h) (fst (attempt_run allow evs)))"

lemma filter_length_mono: "(\<And>x. P x \<Longrightarrow> Q x) \<Longrightarrow> length (filter P xs) \<le> length (filter Q xs)"
  by (induction xs) auto

locale sliding_limiter =
  fixes allow :: "int \<Rightarrow> string \<Rightarrow> attempts \<Rightarrow> bool \<times> attempts"
    and host_of :: "string \<Rightarrow> string"
    and limit :: nat
    and window :: int
  assumes grant: "fst (allow t r a) \<longleftrightarrow> length (recent window t (a (host_of r))) < limit"
    and log_other: "h \<noteq> host_of r \<Longrightarrow> snd (allow t r a) h = a h"
    and log_host: "snd (allow t r a) (host_of r) =
      recent window t (a (host_of r)) @ (if fst (allow t r a) then [t] else [])"
    and window_pos: "0 < window"
begin

lemma run_snoc:
  "attempt_run allow (evs @ [(t, r)]) =
    (fst (attempt_run allow evs) @ (if fst (allow t r (snd (attempt_run allow evs))) then [(t, r)] else []),
     snd (allow t r (snd (attempt_run allow evs))))"
  by (auto simp: attempt_run_def split: prod.splits)

lemma granted_snoc:
  "granted allow host_of h (evs @ [(t, r)]) =
    granted allow host_of h evs @ (if host_of r = h \<and> fst (allow t r (snd (attempt_run allow evs))) then [t] else [])"
  by (simp add: granted_def run_snoc)

lemma recent_recent: "t \<le> y \<Longrightarrow> recent window y (recent window t xs) = recent window y xs"
  by (auto simp: recent_def intro!: filter_cong)

lemma recent_append: "recent w y (xs @ zs) = recent w y xs @ recent w y zs"
  by (simp add: recent_def)

text \<open>From the last attempt on, the log of a host and its granted attempts agree on every window.\<close>

lemma log_is_granted:
  assumes "sorted (map fst evs)" "\<forall>e \<in> set evs. fst e \<le> y"
  shows "recent window y (snd (attempt_run allow evs) h) = recent window y (granted allow host_of h evs)"
  using assms
proof (induction evs rule: rev_induct)
  case Nil
  show ?case by (simp add: attempt_run_def granted_def)
next
  case (snoc e evs)
  obtain t r where e: "e = (t, r)" by force
  have IH: "recent window y (snd (attempt_run allow evs) h) = recent window y (granted allow host_of h evs)"
    using snoc by (simp add: sorted_append)
  have ty: "t \<le> y" using snoc.prems e by simp
  show ?case
  proof (cases "host_of r = h")
    case True
    then show ?thesis using IH ty log_host [of t r "snd (attempt_run allow evs)"]
      by (simp add: e run_snoc granted_snoc recent_append recent_recent)
  next
    case False
    then show ?thesis using IH log_other [of h r t "snd (attempt_run allow evs)"]
      by (simp add: e run_snoc granted_snoc)
  qed
qed

lemma granted_times: "x \<in> set (granted allow host_of h evs) \<Longrightarrow> x \<in> fst ` set evs"
proof (induction evs rule: rev_induct)
  case (snoc e evs)
  obtain t r where "e = (t, r)" by force
  with snoc show ?case by (auto simp: granted_snoc split: if_splits)
qed (simp add: granted_def attempt_run_def)

theorem at_most_limit:
  assumes "sorted (map fst evs)"
  shows "length (filter (\<lambda>t. x - window < t \<and> t \<le> x) (granted allow host_of h evs)) \<le> limit"
  using assms
proof (induction evs rule: rev_induct)
  case Nil
  show ?case by (simp add: granted_def attempt_run_def)
next
  case (snoc e evs)
  obtain t r where e: "e = (t, r)" by force
  have sorted: "sorted (map fst evs)" and before: "\<forall>e \<in> set evs. fst e \<le> t"
    using snoc.prems e by (auto simp: sorted_append)
  note IH = snoc.IH [OF sorted]
  let ?a = "snd (attempt_run allow evs)"
  show ?case
  proof (cases "host_of r = h \<and> fst (allow t r ?a) \<and> x - window < t \<and> t \<le> x")
    case False
    then show ?thesis using IH by (auto simp: e granted_snoc)
  next
    case True
    have "length (filter (\<lambda>t. x - window < t \<and> t \<le> x) (granted allow host_of h evs)) \<le> length (recent window t (granted allow host_of h evs))"
      using True by (auto simp: recent_def intro!: filter_length_mono)
    also have "\<dots> = length (recent window t (?a h))"
      by (simp only: log_is_granted [OF sorted before])
    also have "\<dots> < limit" using True grant [of t r ?a] by auto
    finally show ?thesis using True by (simp add: e granted_snoc)
  qed
qed

end

interpretation invite_limit: sliding_limiter allowInviteAttempt invite_host 5 "30 * second"
  by unfold_locales (simp_all add: allowInviteAttempt_def recent_def Let_def not_le)

interpretation account_limit: sliding_limiter allowAccountAttempt requestHost 10 "5 * 60 * second"
  by unfold_locales (simp_all add: allowAccountAttempt_def recent_def Let_def not_le)

text \<open>Whatever the sequence of attempts, no host is granted more than five invite attempts in any
  thirty seconds or more than ten account attempts in any five minutes.\<close>

lemma attempts_bounded:
  assumes "sorted (map fst evs)"
  shows "length (filter (\<lambda>t. x - 30 * second < t \<and> t \<le> x) (granted allowInviteAttempt invite_host h evs)) \<le> 5
    \<and> length (filter (\<lambda>t. x - 5 * 60 * second < t \<and> t \<le> x) (granted allowAccountAttempt requestHost h evs)) \<le> 10"
  using invite_limit.at_most_limit [OF assms] account_limit.at_most_limit [OF assms] by blast

lemma attempts_bounded_witness:
  "sorted (map fst [(1 :: int, ''10.0.0.1:7''), (2, ''10.0.0.1:9'')]) \<and>
   length (filter (\<lambda>t. 5 - 30 * second < t \<and> t \<le> 5)
     (granted allowInviteAttempt invite_host ''10.0.0.1'' [(1, ''10.0.0.1:7''), (2, ''10.0.0.1:9'')])) \<le> 5"
  using attempts_bounded [of "[(1, ''10.0.0.1:7''), (2, ''10.0.0.1:9'')]" 5 "''10.0.0.1''"] by simp

section \<open>What authentication reads and writes\<close>

lemma sessionUser_tables:
  "sessionUser dg now r s = (u, s') \<Longrightarrow>
     users s' = users s \<and> account_tokens s' = account_tokens s \<and> account_invites s' = account_invites s"
  by (auto simp: sessionUser_def Let_def split: option.splits if_splits)

lemma sessionUser_cases:
  assumes "sessionUser dg now r s = (Some u, s')"
  obtains v x where "session_cookie r = Some v" "v \<noteq> []"
    "find (\<lambda>x. ses_hash x = dg v) (auth_sessions s) = Some x"
    "find (\<lambda>u. user_id u = ses_user x \<and> \<not> disabled u) (users s) = Some u"
    "ses_revoked x = None" "now \<le> ses_expires x" "s' = s"
proof (cases "session_cookie r")
  case None
  then show ?thesis using assms by (simp add: sessionUser_def)
next
  case v: (Some v)
  show ?thesis
  proof (cases "find (\<lambda>x. ses_hash x = dg v) (auth_sessions s)")
    case None
    then show ?thesis using assms v by (simp add: sessionUser_def split: if_splits)
  next
    case x: (Some x)
    show ?thesis
    proof (cases "find (\<lambda>u. user_id u = ses_user x \<and> \<not> disabled u) (users s)")
      case None
      then show ?thesis using assms v x by (simp add: sessionUser_def Let_def split: if_splits)
    next
      case (Some w)
      then show ?thesis using that [OF v _ x] assms v x
        by (simp add: sessionUser_def Let_def split: if_splits)
    qed
  qed
qed

lemma sessionUser_Some:
  assumes "sessionUser dg now r s = (Some u, s')"
  shows "s' = s \<and> u \<in> set (users s) \<and> \<not> disabled u"
  using assms by (rule sessionUser_cases) (auto dest: find_SomeD)

lemma account_of_token_Some:
  assumes "account_of_token h s = Some u"
  shows "\<exists>v \<in> set (users s). user_id v = u \<and> \<not> disabled v"
  using assms by (auto simp: account_of_token_def live_account_def list_ex_iff dest!: find_SomeD)

lemma adminAuth_tables:
  "adminAuth dg now r s = (a, s') \<Longrightarrow> users s' = users s \<and> account_tokens s' = account_tokens s"
  by (auto simp: adminAuth_def dest: sessionUser_tables split: if_splits prod.splits option.splits)

lemma accountIDForRequest_tables:
  "accountIDForRequest dg now r s = (a, s') \<Longrightarrow> users s' = users s \<and> account_tokens s' = account_tokens s"
  by (auto simp: accountIDForRequest_def dest: sessionUser_tables split: prod.splits option.splits)

lemma accountIDForRequest_enabled:
  assumes "accountIDForRequest dg now r s = (Some u, s')"
  shows "\<exists>v \<in> set (users s). user_id v = u \<and> \<not> disabled v"
proof (cases "sessionUser dg now r s")
  case (Pair a s1)
  show ?thesis
  proof (cases a)
    case None
    have "users s1 = users s" using sessionUser_tables [OF Pair] by simp
    moreover have "accountTokenUser dg r s1 = Some u"
      using assms unfolding accountIDForRequest_def Pair None by auto
    ultimately show ?thesis
      using account_of_token_Some [of "dg (X_Mesh_Token r)" s1 u]
      by (simp add: accountTokenUser_def split: if_splits)
  next
    case (Some w)
    then show ?thesis
      using assms Pair sessionUser_Some [of dg now r s w s1] by (auto simp: accountIDForRequest_def)
  qed
qed

lemma live_account_append:
  "live_account us (xs @ ys) h = (case live_account us xs h of None \<Rightarrow> live_account us ys h | Some v \<Rightarrow> Some v)"
  by (induction xs) (auto simp: live_account_def)

lemma live_account_revoked: "live_account us (revoke_tokens now u ts) h \<noteq> Some u"
  by (auto simp: live_account_def revoke_tokens_def find_Some_iff split: if_splits)

lemma live_account_others:
  "live_account us ts h \<noteq> Some u \<Longrightarrow> live_account us (revoke_tokens now u ts) h = live_account us ts h"
  by (induction ts) (auto simp: live_account_def revoke_tokens_def split: if_splits)

lemma live_account_unknown: "\<not> list_ex (\<lambda>x. tok_hash x = h) ts \<Longrightarrow> live_account us ts h = None"
  by (auto simp: live_account_def find_None_iff list_ex_iff)

lemma revoke_hashes [simp]:
  "list_ex (\<lambda>x. tok_hash x = h) (revoke_tokens now u ts) \<longleftrightarrow> list_ex (\<lambda>x. tok_hash x = h) ts"
  by (induction ts) (auto simp: revoke_tokens_def)

lemma live_account_single:
  "live_account us [x] h =
    (if tok_hash x = h \<and> tok_revoked x = None \<and> list_ex (\<lambda>u. user_id u = tok_user x \<and> \<not> disabled u) us
     then Some (tok_user x) else None)"
  by (simp add: live_account_def)

text \<open>A rotation leaves the account exactly one working token, the new one: every token that
  authenticated the account before is dead, and the tokens of other accounts work as before.\<close>

lemma rotation_leaves_one_token:
  assumes rot: "rotateAccountToken dg gcm t rnd nonce r s = (Inr (tok, now), s')"
  shows "\<exists>u. (\<forall>h. account_of_token h s' = Some u \<longleftrightarrow> h = dg tok) \<and>
    (\<forall>h. h \<noteq> dg tok \<longrightarrow> account_of_token h s \<noteq> Some u \<longrightarrow> account_of_token h s' = account_of_token h s)"
proof -
  obtain s1 u s2 enc where a: "adminAuth dg (unix t) r s = (Inr (), s1)"
    and i: "accountIDForRequest dg (unix t) r s1 = (Some u, s2)"
    and tok: "\<not> list_ex (\<lambda>x. tok_hash x = dg tok) (account_tokens s2)"
    and s': "s' = audit (unix t) ''account_token_rotated'' (user_detail u)
      (s2\<lparr>account_tokens := revoke_tokens (unix t) u (account_tokens s2) @
        [\<lparr>tok_hash = dg tok, tok_user = u, encrypted_token = enc, tok_created = unix t, tok_revoked = None\<rparr>]\<rparr>)"
    using rot by (auto simp: rotateAccountToken_def Let_def split: sum.splits prod.splits option.splits if_splits)
  have same: "users s2 = users s" "account_tokens s2 = account_tokens s"
    using adminAuth_tables [OF a] accountIDForRequest_tables [OF i] by auto
  have en: "list_ex (\<lambda>v. user_id v = u \<and> \<not> disabled v) (users s)"
    using accountIDForRequest_enabled [OF i] adminAuth_tables [OF a] by (auto simp: list_ex_iff)
  let ?old = "live_account (users s) (revoke_tokens (unix t) u (account_tokens s))"
  have look: "account_of_token h s' = (case ?old h of Some v \<Rightarrow> Some v
      | None \<Rightarrow> if h = dg tok then Some u else None)" for h
    using en by (simp add: s' audit_def account_of_token_def same live_account_append live_account_single
        split: option.split)
  have fresh: "?old (dg tok) = None"
    using tok same by (intro live_account_unknown) simp
  have "account_of_token h s' = Some u \<longleftrightarrow> h = dg tok" for h
    using fresh live_account_revoked [of "users s" "unix t" u "account_tokens s" h]
    by (auto simp: look split: option.splits if_splits)
  moreover have "account_of_token h s' = account_of_token h s"
    if h: "h \<noteq> dg tok" "account_of_token h s \<noteq> Some u" for h
  proof -
    have "?old h = account_of_token h s"
      using h by (simp add: account_of_token_def live_account_others)
    then show ?thesis using h look [of h] by (simp split: option.splits)
  qed
  ultimately show ?thesis by blast
qed

definition sample_digest :: "string \<Rightarrow> string" where
  "sample_digest s = CHR ''#'' # s"

definition sample_request :: request where
  "sample_request = \<lparr>Method = ''POST'', Path = ''/v1/account/token'', RemoteAddr = ''10.0.0.1:7'',
     X_Mesh_Token = ''AQ'', X_Mesh_Invite = [], X_CSRF_Token = [], session_cookie = None, csrf_cookie = None\<rparr>"

definition sample_accounts :: accounts where
  "sample_accounts = \<lparr>network_token = ''net'', bootstrapToken = ''boot'', inviteAttempts = (\<lambda>_. []),
     accountAttempts = (\<lambda>_. []),
     users = [\<lparr>user_id = 1, username = ''root'', password_hash = ''secret'', user_created = 0,
       last_login_at = None, disabled = False\<rparr>],
     next_user = 2,
     account_tokens = [\<lparr>tok_hash = ''#AQ'', tok_user = 1, encrypted_token = [], tok_created = 0,
       tok_revoked = None\<rparr>],
     auth_sessions = [],
     account_invites = [\<lparr>ainv_hash = ''#code'', ainv_created = 0, ainv_expires = 90, ainv_used = None\<rparr>],
     invites = [], node_tokens = [], audit_log = []\<rparr>"

lemma rotation_leaves_one_token_witness:
  "\<exists>s' u. rotateAccountToken sample_digest sample_aead 5000000000 (Some [2]) (Some (replicate 12 0))
     sample_request sample_accounts = (Inr (''Ag'', 5), s') \<and>
   (\<forall>h. account_of_token h s' = Some u \<longleftrightarrow> h = sample_digest ''Ag'')"
proof -
  have "\<exists>s'. rotateAccountToken sample_digest sample_aead 5000000000 (Some [2]) (Some (replicate 12 0))
     sample_request sample_accounts = (Inr (''Ag'', 5), s')"
    by (simp add: rotateAccountToken_def adminAuth_def networkTokenValid_def accountTokenUser_def
        account_of_token_def live_account_def sample_request_def sample_accounts_def sample_digest_def
        accountIDForRequest_def sessionUser_def randomToken_def b64_char_def b64_alphabet_def
        encryptAccountToken_def)
  then show ?thesis using rotation_leaves_one_token by blast
qed

section \<open>Registration of accounts\<close>

lemma register_gate_later:
  assumes "register_gate dg now code s = Inr s1" "users s \<noteq> []" "now \<le> now'" "users s' \<noteq> []"
    "account_invites s' = account_invites s1"
  shows "register_gate dg now' code s' = Inl (403, ''invalid or expired invitation'')"
proof -
  let ?hit = "\<lambda>i. ainv_hash i = dg code \<and> ainv_used i = None \<and> now \<le> ainv_expires i"
  have code: "code \<noteq> []"
    and s1: "account_invites s1 = map (\<lambda>i. if ?hit i then i\<lparr>ainv_used := Some now\<rparr> else i) (account_invites s)"
    using assms(1,2) by (auto simp: register_gate_def Let_def split: if_splits)
  have "filter (\<lambda>i. ainv_hash i = dg code \<and> ainv_used i = None \<and> now' \<le> ainv_expires i) (account_invites s1) = []"
    using assms(3) by (auto simp: s1 filter_empty_conv)
  then show ?thesis using code assms(4,5) by (simp add: register_gate_def)
qed

lemma accountRegister_cases:
  assumes "accountRegister dg gcm bhash t rnd nonce r body s = (Inr v, s')"
  obtains d s0 s1 where "body = Some d" "validUsername (fst v)" "validPassword (reg_password d)"
    "s0 = s\<lparr>accountAttempts := snd (allowAccountAttempt t (RemoteAddr r) (accountAttempts s))\<rparr>"
    "register_gate dg (unix t) (reg_invite d) s0 = Inr s1"
    "\<not> list_ex (\<lambda>u. ToLower (username u) = fst v) (users s1)"
    "users s' \<noteq> []" "account_invites s' = account_invites s1"
  using assms by (auto simp: accountRegister_def audit_def Let_def split: prod.splits if_splits option.splits sum.splits)

text \<open>C34: an account is created only with the bootstrap secret, while there is no account, or with an
  unused, unexpired invitation, and an invitation that created an account never creates another.\<close>

theorem registration_gated:
  assumes reg: "accountRegister dg gcm bhash t rnd nonce r (Some d) s = (Inr v, s')"
  shows "if users s = []
    then reg_invite d \<noteq> [] \<and> reg_invite d = (if bootstrapToken s = [] then network_token s else bootstrapToken s)
    else (\<exists>i \<in> set (account_invites s). ainv_hash i = dg (reg_invite d) \<and> ainv_used i = None \<and>
             unix t \<le> ainv_expires i) \<and>
         (\<forall>gcm bhash t' rnd nonce r d'. unix t \<le> unix t' \<and> reg_invite d' = reg_invite d \<longrightarrow>
            (\<forall>w. fst (accountRegister dg gcm bhash t' rnd nonce r (Some d') s') \<noteq> Inr w))"
proof -
  obtain s0 s1 where s0: "s0 = s\<lparr>accountAttempts := snd (allowAccountAttempt t (RemoteAddr r) (accountAttempts s))\<rparr>"
    and gate: "register_gate dg (unix t) (reg_invite d) s0 = Inr s1"
    and s': "users s' \<noteq> []" "account_invites s' = account_invites s1"
    using reg by (rule accountRegister_cases) auto
  show ?thesis
  proof (cases "users s = []")
    case True
    then show ?thesis using gate s0 by (auto simp: register_gate_def Let_def split: if_splits)
  next
    case False
    then have n: "users s0 \<noteq> []" using s0 by simp
    have "filter (\<lambda>i. ainv_hash i = dg (reg_invite d) \<and> ainv_used i = None \<and> unix t \<le> ainv_expires i)
      (account_invites s) \<noteq> []"
      using gate n s0 by (auto simp: register_gate_def Let_def split: if_splits)
    moreover have "fst (accountRegister dg gcm' bhash' t' rnd' nonce' r' (Some d') s') \<noteq> Inr w"
      if later: "unix t \<le> unix t'" "reg_invite d' = reg_invite d" for gcm' bhash' t' rnd' nonce' r' d' w
    proof
      assume "fst (accountRegister dg gcm' bhash' t' rnd' nonce' r' (Some d') s') = Inr w"
      then obtain s'' where "accountRegister dg gcm' bhash' t' rnd' nonce' r' (Some d') s' = (Inr w, s'')"
        by (metis prod.collapse)
      then obtain s2 s3 where "s2 = s'\<lparr>accountAttempts := snd (allowAccountAttempt t' (RemoteAddr r') (accountAttempts s'))\<rparr>"
        "register_gate dg (unix t') (reg_invite d') s2 = Inr s3"
        by (rule accountRegister_cases) auto
      then show False
        using register_gate_later [OF gate n later(1), of s2] later(2) s' by simp
    qed
    ultimately show ?thesis using False by (auto simp: filter_empty_conv)
  qed
qed

definition sample_registration :: registration where
  "sample_registration = \<lparr>reg_username = '' ann'', reg_password = ''correct horse'', reg_invite = ''code''\<rparr>"

theorem registration_gated_witness:
  "\<exists>s'. accountRegister sample_digest sample_aead Some 5000000000 (Some [2]) (Some (replicate 12 0))
     sample_request (Some sample_registration) sample_accounts = (Inr (''ann'', ''Ag''), s') \<and>
   (\<forall>w. fst (accountRegister sample_digest sample_aead Some 9000000000 (Some [3]) (Some (replicate 12 0))
     sample_request (Some sample_registration) s') \<noteq> Inr w)"
proof -
  have "\<exists>s'. accountRegister sample_digest sample_aead Some 5000000000 (Some [2]) (Some (replicate 12 0))
     sample_request (Some sample_registration) sample_accounts = (Inr (''ann'', ''Ag''), s')"
    by (simp add: accountRegister_def allowAccountAttempt_def sample_request_def sample_accounts_def
        sample_registration_def sample_digest_def randomToken_def b64_char_def b64_alphabet_def
        encryptAccountToken_def register_gate_def validUsername_def validPassword_def ToLower_def
        to_lower_char_def TrimSpace_def is_space_def name_char_def less_eq_char_def Let_def)
  then obtain s' where s': "accountRegister sample_digest sample_aead Some 5000000000 (Some [2])
     (Some (replicate 12 0)) sample_request (Some sample_registration) sample_accounts = (Inr (''ann'', ''Ag''), s')"
    by blast
  have "users sample_accounts \<noteq> []" by (simp add: sample_accounts_def)
  then show ?thesis using s' registration_gated [OF s'] by auto
qed

section \<open>Sessions\<close>

lemma accountLogin_cases:
  assumes "accountLogin dg bcmp t rnd1 rnd2 r body s = (Inr (name, session, csrf, expires), s')"
  obtains u where "u \<in> set (users s)" "\<not> disabled u"
    "\<not> list_ex (\<lambda>x. ses_hash x = dg session) (auth_sessions s)" "expires = unix t + sessionLifetime"
    "users s' = map (\<lambda>v. if user_id v = user_id u then v\<lparr>last_login_at := Some (unix t)\<rparr> else v) (users s)"
    "auth_sessions s' = filter (\<lambda>x. \<not> (ses_expires x < unix t \<or> ses_revoked x \<noteq> None)) (auth_sessions s) @
       [\<lparr>ses_hash = dg session, csrf_hash = dg csrf, ses_user = user_id u, ses_created = unix t,
         ses_expires = expires, ses_revoked = None\<rparr>]"
  using assms by (auto simp: accountLogin_def Let_def split: prod.splits if_splits option.splits dest!: find_SomeD)

lemma find_filter_none: "\<not> list_ex P xs \<Longrightarrow> find (\<lambda>x. P x \<and> R x) (filter Q xs) = None"
  by (auto simp: find_None_iff list_ex_iff)

lemma login_session_row:
  assumes "accountLogin dg bcmp t rnd1 rnd2 r body s = (Inr (name, session, csrf, expires), s')"
  obtains u x where "find (\<lambda>x. ses_hash x = dg session) (auth_sessions s') = Some x"
    "find (\<lambda>x. ses_hash x = dg session \<and> ses_revoked x = None) (auth_sessions s') = Some x"
    "csrf_hash x = dg csrf" "ses_revoked x = None" "ses_expires x = expires"
    "find (\<lambda>v. user_id v = ses_user x \<and> \<not> disabled v) (users s') = Some u"
proof -
  obtain u where u: "u \<in> set (users s)" "\<not> disabled u"
    and new: "\<not> list_ex (\<lambda>x. ses_hash x = dg session) (auth_sessions s)"
    and s': "users s' = map (\<lambda>v. if user_id v = user_id u then v\<lparr>last_login_at := Some (unix t)\<rparr> else v) (users s)"
    "auth_sessions s' = filter (\<lambda>x. \<not> (ses_expires x < unix t \<or> ses_revoked x \<noteq> None)) (auth_sessions s) @
       [\<lparr>ses_hash = dg session, csrf_hash = dg csrf, ses_user = user_id u, ses_created = unix t,
         ses_expires = expires, ses_revoked = None\<rparr>]"
    using assms by (rule accountLogin_cases)
  let ?old = "filter (\<lambda>x. \<not> (ses_expires x < unix t \<or> ses_revoked x \<noteq> None)) (auth_sessions s)"
  let ?x = "\<lparr>ses_hash = dg session, csrf_hash = dg csrf, ses_user = user_id u, ses_created = unix t,
         ses_expires = expires, ses_revoked = None\<rparr>"
  have "find (\<lambda>x. ses_hash x = dg session \<and> ses_revoked x = None) ?old = None"
    using find_filter_none [OF new] .
  moreover have "find (\<lambda>x. ses_hash x = dg session) ?old = None"
    using find_filter_none [OF new, of "\<lambda>_. True"] by simp
  moreover have "find (\<lambda>v. user_id v = user_id u \<and> \<not> disabled v) (users s') \<noteq> None"
  proof -
    have "u\<lparr>last_login_at := Some (unix t)\<rparr> \<in> set (users s')"
      using u unfolding s'(1) set_map by (intro rev_image_eqI [of u]) simp_all
    then show ?thesis using u(2) unfolding find_None_iff by fastforce
  qed
  ultimately show ?thesis
    by (intro that [of ?x "the (find (\<lambda>v. user_id v = user_id u \<and> \<not> disabled v) (users s'))"])
      (auto simp: s'(2) find_append)
qed

lemma logout_sessions:
  assumes "accountLogout dg t q s = (Inr (), s')" "session_cookie q = Some v" "v \<noteq> []"
  shows "x \<in> set (auth_sessions s') \<Longrightarrow> ses_hash x = dg v \<Longrightarrow> ses_revoked x \<noteq> None"
  using assms by (auto simp: accountLogout_def split: prod.splits sum.splits if_splits)

text \<open>The secrets that a login hands out pass the admin check for every method until the session
  expires; a logout with them ends the session at once.\<close>

lemma login_until_logout:
  assumes login: "accountLogin dg bcmp t rnd1 rnd2 r body s = (Inr (name, session, csrf, expires), s')"
    and q: "session_cookie q = Some session" "csrf_cookie q = Some csrf" "X_CSRF_Token q = csrf"
      "session \<noteq> []" "csrf \<noteq> []"
  shows "(\<forall>now. now \<le> expires \<longrightarrow> fst (adminAuth dg now q s') = Inr ()) \<and>
    (\<forall>t' s'' now. accountLogout dg t' q s' = (Inr (), s'') \<longrightarrow> \<not> networkTokenValid dg q s'' \<longrightarrow>
       fst (adminAuth dg now q s'') = Inl (401, ''unauthorized''))"
proof (intro conjI allI impI)
  obtain u x where row: "find (\<lambda>x. ses_hash x = dg session) (auth_sessions s') = Some x"
    "find (\<lambda>x. ses_hash x = dg session \<and> ses_revoked x = None) (auth_sessions s') = Some x"
    "csrf_hash x = dg csrf" "ses_revoked x = None" "ses_expires x = expires"
    "find (\<lambda>v. user_id v = ses_user x \<and> \<not> disabled v) (users s') = Some u"
    using login by (rule login_session_row)
  fix now assume "now \<le> expires"
  then have "sessionUser dg now q s' = (Some u, s')"
    using row q by (simp add: sessionUser_def)
  moreover have "csrfValid dg q s'" using row q by (simp add: csrfValid_def)
  ultimately show "fst (adminAuth dg now q s') = Inr ()" by (simp add: adminAuth_def)
next
  fix t' s'' now
  assume out: "accountLogout dg t' q s' = (Inr (), s'')" and no: "\<not> networkTokenValid dg q s''"
  have "fst (sessionUser dg now q s'') = None"
  proof (rule ccontr)
    assume "fst (sessionUser dg now q s'') \<noteq> None"
    then obtain u s3 where "sessionUser dg now q s'' = (Some u, s3)" by (metis option.exhaust prod.collapse)
    then show False
    proof (rule sessionUser_cases)
      fix v x assume v: "session_cookie q = Some v"
        and x: "find (\<lambda>x. ses_hash x = dg v) (auth_sessions s'') = Some x" "ses_revoked x = None"
      show False using logout_sessions [OF out q(1,4), of x] v q(1) x find_SomeD [OF x(1)] by simp
    qed
  qed
  then show "fst (adminAuth dg now q s'') = Inl (401, ''unauthorized'')"
    using no by (auto simp: adminAuth_def split: prod.splits option.splits)
qed

definition sample_login :: request where
  "sample_login = \<lparr>Method = ''POST'', Path = ''/v1/admin/config'', RemoteAddr = ''10.0.0.1:7'',
     X_Mesh_Token = [], X_Mesh_Invite = [], X_CSRF_Token = ''Aw'', session_cookie = Some ''Ag'',
     csrf_cookie = Some ''Aw''\<rparr>"

lemma login_until_logout_witness:
  "\<exists>s'. accountLogin sample_digest (=) 5000000000 (Some [2]) (Some [3]) sample_request
     (Some (''root'', ''secret'')) sample_accounts = (Inr (''root'', ''Ag'', ''Aw'', 43205), s') \<and>
   fst (adminAuth sample_digest 100 sample_login s') = Inr ()"
proof -
  have "\<exists>s'. accountLogin sample_digest (=) 5000000000 (Some [2]) (Some [3]) sample_request
     (Some (''root'', ''secret'')) sample_accounts = (Inr (''root'', ''Ag'', ''Aw'', 43205), s')"
    by (simp add: accountLogin_def allowAccountAttempt_def sample_request_def sample_accounts_def
        sample_digest_def randomToken_def b64_char_def b64_alphabet_def ToLower_def to_lower_char_def
        TrimSpace_def is_space_def Let_def)
  then obtain s' where s': "accountLogin sample_digest (=) 5000000000 (Some [2]) (Some [3]) sample_request
     (Some (''root'', ''secret'')) sample_accounts = (Inr (''root'', ''Ag'', ''Aw'', 43205), s')" by blast
  have "fst (adminAuth sample_digest 100 sample_login s') = Inr ()"
    using login_until_logout [OF s', of sample_login] by (simp add: sample_login_def)
  with s' show ?thesis by blast
qed

section \<open>Other credentials\<close>

text \<open>A consumed device invite cannot be consumed again.\<close>

lemma consumed_rows:
  fixes n m :: int
  assumes "n \<le> m"
  shows "filter (\<lambda>i. inv_token i = tok \<and> inv_used i = None \<and> m \<le> inv_expires i)
    (map (\<lambda>i. if inv_token i = tok \<and> inv_used i = None \<and> n \<le> inv_expires i
       then i\<lparr>inv_used := Some n\<rparr> else i) rows) = []"
  using assms by (induction rows) (simp_all, meson order_trans)

lemma consumeInvite_once:
  assumes use: "consumeInvite t tok s = (True, s')" and later: "unix t \<le> unix t'"
  shows "fst (consumeInvite t' tok s') = False"
proof (cases "length tok = 6")
  case True
  then show ?thesis
    using use consumed_rows [OF later, of tok "invites s"] unfolding consumeInvite_def Let_def by auto
next
  case False
  then show ?thesis using use by (simp add: consumeInvite_def)
qed

text \<open>The drawing loop returns as soon as one draw is an unused code or fails, and the code is unused.\<close>

lemma draw_invite_returns:
  assumes "\<And>j. j < d \<Longrightarrow> \<exists>raw. draw (k + j) = Some raw \<and> used (invite_code raw)"
    and "draw (k + d) = None \<or> (\<exists>raw. draw (k + d) = Some raw \<and> \<not> used (invite_code raw))"
  shows "draw_invite used draw k = Some (map_option invite_code (draw (k + d)))"
  using assms
proof (induction d arbitrary: k)
  case 0
  then show ?case by (subst draw_invite.simps) (auto split: option.splits)
next
  case (Suc d)
  obtain raw where "draw k = Some raw" "used (invite_code raw)" using Suc.prems(1) [of 0] by auto
  moreover have "draw_invite used draw (Suc k) = Some (map_option invite_code (draw (Suc k + d)))"
  proof (rule Suc.IH)
    show "\<exists>raw. draw (Suc k + j) = Some raw \<and> used (invite_code raw)" if "j < d" for j
      using Suc.prems(1) [of "Suc j"] that by simp
    show "draw (Suc k + d) = None \<or> (\<exists>raw. draw (Suc k + d) = Some raw \<and> \<not> used (invite_code raw))"
      using Suc.prems(2) by simp
  qed
  ultimately show ?case by (subst draw_invite.simps) simp
qed

end
