(* ===== verification/Backoff.thy ===== *)
theory Backoff
  imports Mesh_Prelude
begin

text \<open>
  Retry delays of the node.  Failed symmetric bursts toward one relay
  (\<^verbatim>\<open>symmetricBurstFailed\<close>, \<^verbatim>\<open>mesh-node/symmetric.go\<close>) and failed network recoveries
  (\<^verbatim>\<open>deferRecovery\<close>, \<^verbatim>\<open>mesh-node/recovery.go\<close>) both compute a delay by doubling a base in a loop
  that stops at a cap.  The locale \<open>capped_backoff\<close> states what such a schedule promises; it is
  interpreted on the two loops of the code.

  Durations and instants are milliseconds; the instant 0 is Go's zero time.
\<close>

type_synonym time = int

section \<open>The code\<close>

text \<open>\<^verbatim>\<open>for i := i0; i < fails && delay < max; i++ { delay *= 2 }\<close>\<close>

function doubling :: "nat \<Rightarrow> nat \<Rightarrow> int \<Rightarrow> int \<Rightarrow> int" where
  "doubling i fails cap delay =
     (if i < fails \<and> delay < cap then doubling (i + 1) fails cap (delay * 2) else delay)"
  by pat_completeness auto
termination by (relation "measure (\<lambda>(i, fails, cap, delay). fails - i)") auto

declare doubling.simps [simp del]

abbreviation symmetricRetryDelay :: int where "symmetricRetryDelay \<equiv> 2000"
abbreviation symmetricBurstBackoffMax :: int where "symmetricBurstBackoffMax \<equiv> 90000"
abbreviation recoveryMinBackoff :: int where "recoveryMinBackoff \<equiv> 10000"
abbreviation recoveryMaxBackoff :: int where "recoveryMaxBackoff \<equiv> 300000"

record burst_backoff =
  symmetricFailures :: "string \<rightharpoonup> nat"
  symmetricBackoff :: "string \<rightharpoonup> time"

definition burst_delay :: "nat \<Rightarrow> int" where
  "burst_delay fails =
     (let delay = doubling 1 fails symmetricBurstBackoffMax symmetricRetryDelay
      in if symmetricBurstBackoffMax < delay then symmetricBurstBackoffMax else delay)"

definition symmetricBackoffWait :: "burst_backoff \<Rightarrow> time \<Rightarrow> string \<Rightarrow> int" where
  "symmetricBackoffWait s now relayID =
     (case symmetricBackoff s relayID of
        None \<Rightarrow> 0
      | Some due \<Rightarrow> (if 0 < due - now then due - now else 0))"

definition symmetricBurstFailed :: "burst_backoff \<Rightarrow> time \<Rightarrow> string \<Rightarrow> burst_backoff" where
  "symmetricBurstFailed s now relayID =
     (let fails = (case symmetricFailures s relayID of None \<Rightarrow> 1 | Some k \<Rightarrow> k + 1)
      in s\<lparr>symmetricFailures := (symmetricFailures s)(relayID \<mapsto> fails),
           symmetricBackoff := (symmetricBackoff s)(relayID \<mapsto> now + burst_delay fails)\<rparr>)"

definition symmetricBurstSucceeded :: "burst_backoff \<Rightarrow> string \<Rightarrow> burst_backoff" where
  "symmetricBurstSucceeded s relayID =
     s\<lparr>symmetricFailures := (symmetricFailures s)(relayID := None),
       symmetricBackoff := (symmetricBackoff s)(relayID := None)\<rparr>"

record recovery_state =
  recoveryFails :: nat
  recoveryNext :: time

definition recovery_delay :: "nat \<Rightarrow> int" where
  "recovery_delay fails =
     (let backoff = doubling 1 fails recoveryMaxBackoff recoveryMinBackoff
      in if recoveryMaxBackoff < backoff then recoveryMaxBackoff else backoff)"

definition deferRecovery :: "recovery_state \<Rightarrow> time \<Rightarrow> recovery_state" where
  "deferRecovery s now =
     (let fails = recoveryFails s + 1
      in s\<lparr>recoveryFails := fails, recoveryNext := now + recovery_delay fails\<rparr>)"

section \<open>Capped doubling schedules\<close>

locale capped_backoff =
  fixes base cap :: int and delay :: "nat \<Rightarrow> int"
  assumes base_pos: "0 < base" and base_cap: "base \<le> cap"
    and delay_first: "delay 1 = base"
    and delay_next: "1 \<le> k \<Longrightarrow> delay (Suc k) = min cap (2 * delay k)"
begin

lemma delay_closed: "delay (Suc k) = min cap (base * 2 ^ k)"
proof (induction k)
  case 0
  then show ?case using delay_first base_cap by simp
next
  case (Suc k)
  then show ?case using delay_next [of "Suc k"] base_pos base_cap by (auto simp: min_def)
qed

lemma delay_bounds: "1 \<le> k \<Longrightarrow> base \<le> delay k \<and> delay k \<le> cap"
proof -
  assume "1 \<le> k"
  then obtain j where "k = Suc j" by (cases k) auto
  moreover have "base \<le> base * 2 ^ j" using base_pos by simp
  ultimately show ?thesis using base_cap by (simp add: delay_closed)
qed

lemma delay_mono: "1 \<le> j \<Longrightarrow> j \<le> k \<Longrightarrow> delay j \<le> delay k"
proof -
  assume "1 \<le> j" "j \<le> k"
  then obtain a b where ab: "j = Suc a" "k = Suc b" "a \<le> b"
    by (metis Suc_le_D One_nat_def Suc_le_mono le_trans)
  have "base * 2 ^ a \<le> base * 2 ^ b"
    using ab(3) base_pos by (intro mult_left_mono power_increasing) auto
  then show ?thesis by (auto simp: ab delay_closed min_def)
qed

lemma delay_saturates: "cap \<le> base * 2 ^ k \<Longrightarrow> k < n \<Longrightarrow> delay n = cap"
proof -
  assume c: "cap \<le> base * 2 ^ k" and "k < n"
  then obtain m where n: "n = Suc m" "k \<le> m" by (cases n) auto
  have "base * 2 ^ k \<le> base * 2 ^ m"
    using n(2) base_pos by (intro mult_left_mono power_increasing) auto
  then show ?thesis using c by (simp add: n delay_closed min_def)
qed

end

lemma doubling_stop: "cap \<le> d \<Longrightarrow> doubling i n cap d = d" "n \<le> i \<Longrightarrow> doubling i n cap d = d"
  by (subst doubling.simps; simp)+

lemma min_doubling:
  assumes "0 < d"
  shows "min cap (doubling i (i + m) cap d) = min cap (d * 2 ^ m)"
  using assms
proof (induction m arbitrary: i d)
  case 0
  then show ?case by (simp add: doubling_stop)
next
  case (Suc m)
  show ?case
  proof (cases "d < cap")
    case True
    then have "doubling i (i + Suc m) cap d = doubling (i + 1) (i + 1 + m) cap (d * 2)"
      by (subst doubling.simps) simp
    then show ?thesis using Suc.IH [of "d * 2" "i + 1"] Suc.prems by (simp add: mult.assoc)
  next
    case False
    have "d * 1 \<le> d * 2 ^ Suc m"
      using Suc.prems by (intro mult_left_mono one_le_power) auto
    with False show ?thesis by (simp add: doubling_stop not_less min_def)
  qed
qed

lemma capped_doubling:
  assumes "0 < base" "base \<le> cap" "\<And>n. delay n = min cap (doubling 1 n cap base)"
  shows "capped_backoff base cap delay"
proof
  have eq: "delay (Suc k) = min cap (base * 2 ^ k)" for k
    using assms(3) [of "Suc k"] min_doubling [OF assms(1), of cap 1 k] by simp
  show "delay 1 = base" using eq [of 0] assms(2) by simp
  fix k :: nat assume "1 \<le> k"
  then obtain j where "k = Suc j" by (cases k) auto
  then show "delay (Suc k) = min cap (2 * delay k)"
    using assms(1,2) by (auto simp: eq min_def)
qed (use assms in auto)

interpretation burst: capped_backoff symmetricRetryDelay symmetricBurstBackoffMax burst_delay
  by (rule capped_doubling) (simp_all add: burst_delay_def Let_def min_def)

interpretation recovery: capped_backoff recoveryMinBackoff recoveryMaxBackoff recovery_delay
  by (rule capped_doubling) (simp_all add: recovery_delay_def Let_def min_def)

text \<open>Consecutive failures of bursts toward one relay, at the given instants.\<close>

definition burst_failures :: "time list \<Rightarrow> string \<Rightarrow> burst_backoff \<Rightarrow> burst_backoff" where
  "burst_failures ts relayID s = fold (\<lambda>t s. symmetricBurstFailed s t relayID) ts s"

lemma burst_failures_count:
  "symmetricFailures s relayID = None \<Longrightarrow>
   symmetricFailures (burst_failures ts relayID s) relayID
     = (if ts = [] then None else Some (length ts))"
proof (induction ts rule: rev_induct)
  case (snoc t ts)
  then show ?case by (simp add: burst_failures_def symmetricBurstFailed_def Let_def)
qed (simp add: burst_failures_def)

text \<open>After \<open>k\<close> consecutive failed bursts toward a relay, the last at time \<open>t\<close>, the relay has to wait
  $\min(90\,s, 2\,s \cdot 2^{k-1})$, so at least two seconds, at most ninety, and exactly ninety from
  the seventh failure on; a success clears the wait, and neither touches another relay.\<close>

lemma burst_backoff_schedule:
  assumes "symmetricFailures s r = None"
  shows "symmetricBackoffWait (burst_failures (ts @ [t]) r s) t r = min 90000 (2000 * 2 ^ length ts)
    \<and> (6 \<le> length ts \<longrightarrow> symmetricBackoffWait (burst_failures (ts @ [t]) r s) t r = 90000)
    \<and> symmetricBackoffWait (symmetricBurstSucceeded s' r) t' r = 0
    \<and> (r' \<noteq> r \<longrightarrow> symmetricBackoffWait (symmetricBurstFailed s' t r) t' r' = symmetricBackoffWait s' t' r'
        \<and> symmetricBackoffWait (symmetricBurstSucceeded s' r) t' r' = symmetricBackoffWait s' t' r')"
proof -
  have "(case symmetricFailures (burst_failures ts r s) r of None \<Rightarrow> 1 | Some k \<Rightarrow> k + 1) = Suc (length ts)"
    using burst_failures_count [OF assms, of ts] by simp
  then have "symmetricBackoff (burst_failures (ts @ [t]) r s) r = Some (t + burst_delay (Suc (length ts)))"
    by (simp add: burst_failures_def symmetricBurstFailed_def Let_def)
  then have w: "symmetricBackoffWait (burst_failures (ts @ [t]) r s) t r = burst_delay (Suc (length ts))"
    using burst.delay_bounds [of "Suc (length ts)"] by (simp add: symmetricBackoffWait_def)
  moreover have "burst_delay (Suc (length ts)) = 90000" if "6 \<le> length ts"
    using that by (intro burst.delay_saturates [of 6]) auto
  ultimately show ?thesis
    by (auto simp: burst.delay_closed symmetricBackoffWait_def symmetricBurstFailed_def
        symmetricBurstSucceeded_def Let_def)
qed

lemma burst_backoff_schedule_witness:
  "symmetricBackoffWait (burst_failures ([5, 9] @ [20]) ''r''
      \<lparr>symmetricFailures = Map.empty, symmetricBackoff = Map.empty\<rparr>) 20 ''r'' = 8000"
  using burst_backoff_schedule [of "\<lparr>symmetricFailures = Map.empty, symmetricBackoff = Map.empty\<rparr>"
      "''r''" "[5, 9]" 20 "\<lparr>symmetricFailures = Map.empty, symmetricBackoff = Map.empty\<rparr>" 0 "''q''"]
  by simp

end
