(* ===== verification/Peers.thy ===== *)
theory Peers
  imports Complex_Main Ip Wire Backoff "HOL-Library.AList"
begin

text \<open>
  What a node knows of its neighbours and how received traffic changes it (\<^verbatim>\<open>mesh-node/main.go\<close>,
  \<^verbatim>\<open>mesh-node/tun_forward.go\<close>, \<^verbatim>\<open>mesh-node/dataplane.go\<close>, \<^verbatim>\<open>mesh-node/transport.go\<close>): classification of a
  datagram's source as LAN or internet, the send target with its LAN hysteresis, keepalive probes,
  smoothed round-trip time and loss, and the change detection of telemetry reports.

  Go maps that the code iterates are association lists, the others are maps.  Floating-point
  estimates are exact rationals.  \<^verbatim>\<open>net.ResolveUDPAddr\<close>, which may ask a name server, is the argument
  \<open>resolve\<close>; a UDP address is an IPv4 address and a port.
\<close>

section \<open>State\<close>

type_synonym udp_addr = "ipv4 \<times> nat"

text \<open>\<^verbatim>\<open>peer.last\<close> is an interface value that \<^verbatim>\<open>touch\<close> compares with the pointer \<^verbatim>\<open>peer.lastLAN\<close>: it is nil,
  that very pointer, or an address of its own.\<close>

datatype last_addr = NoAddr | LastLAN | OwnAddr udp_addr

record peer =
  ID :: string
  Public :: string
  NAT :: string
  Role :: string
  Endpoint :: string
  Capacity :: int
  MeshIP :: string
  Name :: string
  Routes :: "(string \<times> string) list"
  LANAddrs :: "string list"
  last_target :: last_addr
  lastRX :: time
  lastLAN :: "udp_addr option"
  lastLANRX :: time
  lastPathLAN :: bool
  lastLANProbe :: time
  compactHelloUntil :: time
  discovered :: time
  up :: bool
  rttMS :: rat
  lossEMA :: rat

record pingProbe =
  sent :: time
  peerID :: string

record peer_table =
  self_id :: string
  self_endpoint :: string
  neighbors :: "(string \<times> peer) list"
  pings :: "(string \<times> pingProbe) list"
  localSubnets :: "prefix list"

definition neighbor :: "peer_table \<Rightarrow> string \<Rightarrow> peer option" where
  "neighbor n k = map_of (neighbors n) k"

definition update_neighbor :: "string \<Rightarrow> (peer \<Rightarrow> peer) \<Rightarrow> peer_table \<Rightarrow> peer_table" where
  "update_neighbor k f n =
     n\<lparr>neighbors := map (\<lambda>(j, p). if j = k then (j, f p) else (j, p)) (neighbors n)\<rparr>"

definition send_target :: "peer \<Rightarrow> udp_addr option" where
  "send_target p = (case last_target p of NoAddr \<Rightarrow> None | LastLAN \<Rightarrow> lastLAN p | OwnAddr a \<Rightarrow> Some a)"

section \<open>Liveness\<close>

abbreviation linkTimeout :: int where "linkTimeout \<equiv> 30000"
abbreviation linkGrace :: int where "linkGrace \<equiv> 20000"
abbreviation lanHoldTimeout :: int where "lanHoldTimeout \<equiv> 30000"

definition usable :: "time \<Rightarrow> peer option \<Rightarrow> bool" where
  "usable now p = (case p of None \<Rightarrow> False | Some p \<Rightarrow> lastRX p \<noteq> 0 \<and> now - lastRX p < linkTimeout)"

definition freshLAN :: "peer option \<Rightarrow> time \<Rightarrow> bool" where
  "freshLAN p now = (case p of None \<Rightarrow> False
     | Some p \<Rightarrow> lastLAN p \<noteq> None \<and> now - lastLANRX p < lanHoldTimeout)"

section \<open>LAN or internet\<close>

definition endpointIP :: "string \<Rightarrow> string" where
  "endpointIP endpoint =
     (case SplitHostPort endpoint of
        None \<Rightarrow> ToLower (TrimSpace endpoint)
      | Some (host, _) \<Rightarrow>
          (case ParseAddr host of
             Some ip \<Rightarrow> Addr_String ip
           | None \<Rightarrow> ToLower (TrimSpace host)))"

definition endpointIPChanged :: "string \<Rightarrow> string \<Rightarrow> bool" where
  "endpointIPChanged previous next \<longleftrightarrow> previous = [] \<or> endpointIP previous \<noteq> endpointIP next"

definition endpointIPMatches :: "string \<Rightarrow> ipv4 \<Rightarrow> bool" where
  "endpointIPMatches endpoint other =
     (if endpoint = [] then False
      else case ParseAddr (endpointIP endpoint) of None \<Rightarrow> False | Some resolved \<Rightarrow> resolved = other)"

fun lanAddrListMatchesIP :: "(string \<Rightarrow> udp_addr option) \<Rightarrow> string list \<Rightarrow> ipv4 \<Rightarrow> bool" where
  "lanAddrListMatchesIP resolve [] other = False"
| "lanAddrListMatchesIP resolve (raw # lans) other =
     (case resolve raw of
        None \<Rightarrow> lanAddrListMatchesIP resolve lans other
      | Some (ip, _) \<Rightarrow> ip = other \<or> lanAddrListMatchesIP resolve lans other)"

definition lanCandidateBlockedIP :: "ipv4 \<Rightarrow> string list \<Rightarrow> bool" where
  "lanCandidateBlockedIP ip endpoints = list_ex (\<lambda>e. endpointIPMatches e ip) endpoints"

definition localSource :: "(string \<Rightarrow> udp_addr option) \<Rightarrow> peer_table \<Rightarrow> string \<Rightarrow> ipv4 \<Rightarrow> bool" where
  "localSource resolve n k addr =
     (let (published, external) = (case neighbor n k of
            None \<Rightarrow> (False, False)
          | Some entry \<Rightarrow> (lanAddrListMatchesIP resolve (LANAddrs entry) addr,
                           endpointIPMatches (Endpoint entry) addr));
          selfHole = endpointIPMatches (self_endpoint n) addr
      in if published then True
         else if external \<or> selfHole then False
         else if IsPrivate addr \<or> IsLinkLocalUnicast addr \<or> IsLoopback addr then True
         else list_ex (\<lambda>subnet. prefix_Contains subnet addr) (localSubnets n))"

definition sameNAT :: "peer_table \<Rightarrow> peer option \<Rightarrow> bool" where
  "sameNAT n p = (case p of None \<Rightarrow> False | Some p \<Rightarrow>
     if Endpoint p = [] \<or> self_endpoint n = [] then False
     else (let peerIP = endpointIP (Endpoint p) in peerIP \<noteq> [] \<and> peerIP = endpointIP (self_endpoint n)))"

section \<open>Receiving\<close>

text \<open>The update of the peer inside \<^verbatim>\<open>touch\<close>; \<open>lan\<close> is the classification of the source.\<close>

definition touch_peer :: "time \<Rightarrow> bool \<Rightarrow> udp_addr \<Rightarrow> peer \<Rightarrow> peer" where
  "touch_peer now lan a p =
     (let p1 = (if lan then p\<lparr>lastLAN := Some a, lastLANRX := now, last_target := LastLAN\<rparr>
                else if \<not> freshLAN (Some p) now \<or> last_target p \<noteq> LastLAN
                then p\<lparr>last_target := OwnAddr a\<rparr> else p)
      in p1\<lparr>lastPathLAN := lan, lastRX := now, up := True\<rparr>)"

definition touch ::
    "(string \<Rightarrow> udp_addr option) \<Rightarrow> time \<Rightarrow> string \<Rightarrow> udp_addr \<Rightarrow> peer_table \<Rightarrow> peer_table" where
  "touch resolve now k a n =
     (let lanSource = localSource resolve n k (fst a)
      in update_neighbor k (touch_peer now lanSource a) n)"

definition confirmsDirectPath :: "string \<Rightarrow> int \<Rightarrow> bool" where
  "confirmsDirectPath packetType ttl =
     (if ttl \<noteq> DefaultTTL then False
      else packetType = ''HELLO'' \<or> packetType = ''HELLO_ACK'' \<or> packetType = ''PING''
        \<or> packetType = ''PONG'')"

section \<open>Probes\<close>

definition pong_sample :: "time \<Rightarrow> pingProbe \<Rightarrow> peer \<Rightarrow> peer" where
  "pong_sample now probe p =
     (let sample = of_int (now - sent probe)
      in p\<lparr>rttMS := (if rttMS p = 0 \<or> 60000 < rttMS p then sample
                     else rttMS p * (7 / 10) + sample * (1 - 7 / 10)),
           lossEMA := lossEMA p * (9 / 10)\<rparr>)"

definition handlePong :: "time \<Rightarrow> Packet \<Rightarrow> peer_table \<Rightarrow> peer_table" where
  "handlePong now packet n =
     (case map_of (Payload packet) ''ping_id'' of
        Some (JStr pid) \<Rightarrow>
          (if TTL packet \<noteq> DefaultTTL then n
           else case map_of (pings n) pid of
             None \<Rightarrow> n
           | Some probe \<Rightarrow>
               (if peerID probe \<noteq> Source packet then n
                else (let n1 = n\<lparr>pings := AList.delete pid (pings n)\<rparr>
                      in if sent probe = 0 then n1
                         else update_neighbor (Source packet) (pong_sample now probe) n1)))
      | _ \<Rightarrow> n)"

definition prunePings :: "(string \<times> pingProbe) list \<Rightarrow> time \<Rightarrow> (string \<times> pingProbe) list \<times> string list" where
  "prunePings ps before =
     (filter (\<lambda>(_, probe). \<not> sent probe < before) ps,
      map (\<lambda>(_, probe). peerID probe) (filter (\<lambda>(_, probe). sent probe < before) ps))"

definition lost_probe :: "peer \<Rightarrow> peer" where
  "lost_probe p = p\<lparr>lossEMA := lossEMA p * (9 / 10) + 1 / 10\<rparr>"

definition noteLostProbes :: "string list \<Rightarrow> peer_table \<Rightarrow> peer_table" where
  "noteLostProbes ids n = fold (\<lambda>k. update_neighbor k lost_probe) ids n"

section \<open>Telemetry\<close>

record LinkMeasurement =
  PeerID :: string
  RTTMS :: rat
  Up :: bool
  Loss :: rat
  ViaLAN :: bool

definition currentLinks :: "time \<Rightarrow> peer_table \<Rightarrow> LinkMeasurement list" where
  "currentLinks now n =
     map (\<lambda>(k, p). \<lparr>PeerID = k, RTTMS = rttMS p, Up = (lastRX p \<noteq> 0 \<and> now - lastRX p < linkTimeout),
                    Loss = lossEMA p, ViaLAN = lastPathLAN p\<rparr>) (neighbors n)"

definition lossDrifted :: "rat \<Rightarrow> rat \<Rightarrow> bool" where
  "lossDrifted prev next \<longleftrightarrow> \<bar>prev - next\<bar> \<ge> 1 / 10"

definition rttDrifted :: "rat \<Rightarrow> rat \<Rightarrow> bool" where
  "rttDrifted prev next =
     (if prev = 0 \<or> next = 0 then prev \<noteq> next
      else (let diff = \<bar>prev - next\<bar> in 3 < diff \<and> 3 / 10 * max prev next < diff))"

definition telemetryChanged :: "LinkMeasurement list \<Rightarrow> LinkMeasurement list \<Rightarrow> bool" where
  "telemetryChanged old links =
     (if length old \<noteq> length links then True
      else (let previous = map_of (rev (map (\<lambda>l. (PeerID l, l)) old))
            in list_ex (\<lambda>l. case previous (PeerID l) of
                  None \<Rightarrow> True
                | Some o' \<Rightarrow> Up o' \<noteq> Up l \<or> ViaLAN o' \<noteq> ViaLAN l \<or> lossDrifted (Loss o') (Loss l)
                    \<or> rttDrifted (RTTMS o') (RTTMS l)) links))"

record telemetry_sent =
  lastTelemetryLinks :: "LinkMeasurement list"
  lastTelemetrySent :: time

text \<open>\<^verbatim>\<open>reportTelemetry\<close> up to the request it then posts: the links to send, if any.\<close>

definition reportTelemetry ::
    "int \<Rightarrow> time \<Rightarrow> peer_table \<Rightarrow> telemetry_sent \<Rightarrow> LinkMeasurement list option \<times> telemetry_sent" where
  "reportTelemetry telemetryKeepalive now n t =
     (let links = currentLinks now n;
          send = (telemetryChanged (lastTelemetryLinks t) links
            \<or> now - lastTelemetrySent t \<ge> telemetryKeepalive)
      in if send then (Some links, t\<lparr>lastTelemetryLinks := links, lastTelemetrySent := now\<rparr>)
         else (None, t))"

section \<open>Lemmas\<close>

lemma map_of_update:
  "map_of (map (\<lambda>(j, p). if j = k then (j, f p) else (j, p)) xs) i
     = (if i = k then map_option f (map_of xs k) else map_of xs i)"
  by (induction xs) auto

lemma neighbor_update [simp]:
  "neighbor (update_neighbor k f n) i = (if i = k then map_option f (neighbor n k) else neighbor n i)"
  by (simp add: neighbor_def update_neighbor_def map_of_update)

lemma update_neighbor_frame [simp]:
  "self_endpoint (update_neighbor k f n) = self_endpoint n"
  "localSubnets (update_neighbor k f n) = localSubnets n"
  "pings (update_neighbor k f n) = pings n"
  "map fst (neighbors (update_neighbor k f n)) = map fst (neighbors n)"
  by (auto simp: update_neighbor_def case_prod_unfold)

lemma touch_peer_frame [simp]:
  "LANAddrs (touch_peer now lan a p) = LANAddrs p" "Endpoint (touch_peer now lan a p) = Endpoint p"
  by (auto simp: touch_peer_def Let_def)

lemma localSource_touch [simp]:
  "localSource resolve (touch resolve now j a n) k ip = localSource resolve n k ip"
  by (auto simp: localSource_def touch_def Let_def split: option.splits)

text \<open>A sequence of received datagrams: arrival time and source address.\<close>

definition touch_all ::
    "(string \<Rightarrow> udp_addr option) \<Rightarrow> string \<Rightarrow> (time \<times> udp_addr) list \<Rightarrow> peer_table \<Rightarrow> peer_table" where
  "touch_all resolve k ds n = fold (\<lambda>(t, a). touch resolve t k a) ds n"

lemma touch_public_held:
  assumes "neighbor n k = Some p" "lastLAN p = Some a" "lastLANRX p = t0" "last_target p = LastLAN"
    "\<not> localSource resolve n k (fst b)" "t - t0 < lanHoldTimeout"
  shows "\<exists>q. neighbor (touch resolve t k b n) k = Some q \<and> lastLAN q = Some a \<and> lastLANRX q = t0
    \<and> last_target q = LastLAN"
  using assms by (simp add: touch_def Let_def touch_peer_def freshLAN_def)

lemma touch_all_public_held:
  assumes "neighbor n k = Some p" "lastLAN p = Some a" "lastLANRX p = t0" "last_target p = LastLAN"
    "\<forall>(t, b) \<in> set ds. \<not> localSource resolve n k (fst b) \<and> t - t0 < lanHoldTimeout"
  shows "\<exists>q. neighbor (touch_all resolve k ds n) k = Some q \<and> lastLAN q = Some a
    \<and> lastLANRX q = t0 \<and> last_target q = LastLAN"
  using assms
proof (induction ds arbitrary: n p)
  case Nil
  then show ?case by (simp add: touch_all_def)
next
  case (Cons d ds)
  obtain t b where d: "d = (t, b)" by (cases d)
  obtain q where q: "neighbor (touch resolve t k b n) k = Some q" "lastLAN q = Some a"
    "lastLANRX q = t0" "last_target q = LastLAN"
    using touch_public_held [OF Cons.prems(1-4), of resolve b t] Cons.prems(5) d by auto
  have "\<forall>(t', b') \<in> set ds. \<not> localSource resolve (touch resolve t k b n) k (fst b')
      \<and> t' - t0 < lanHoldTimeout"
    using Cons.prems(5) by auto
  from Cons.IH [OF q this] show ?case by (simp add: touch_all_def d)
qed

lemma localSource_touch_all [simp]:
  "localSource resolve (touch_all resolve j xs m) k ip = localSource resolve m k ip"
proof (induction xs arbitrary: m)
  case (Cons d xs)
  obtain t b where "d = (t, b)" by (cases d)
  then show ?case using Cons [of "touch resolve t j b m"] by (simp add: touch_all_def)
qed (simp add: touch_all_def)

text \<open>LAN hysteresis of the send target.  Once a datagram from a LAN source arrived at time \<open>t0\<close>, the
  node keeps sending to that LAN address however many public (hairpinned) datagrams of the peer
  arrive within the next thirty seconds; the first public datagram after that window becomes the
  new target.\<close>

lemma lan_target_hysteresis:
  assumes "neighbor n k = Some p" "localSource resolve n k (fst a)"
    and public: "\<forall>(t, b) \<in> set ds. \<not> localSource resolve n k (fst b) \<and> t < t0 + lanHoldTimeout"
    and late: "\<not> localSource resolve n k (fst c)" "t0 + lanHoldTimeout \<le> t1"
  shows "map_option send_target (neighbor (touch_all resolve k ((t0, a) # ds) n) k) = Some (Some a)
    \<and> map_option send_target
        (neighbor (touch resolve t1 k c (touch_all resolve k ((t0, a) # ds) n)) k) = Some (Some c)"
proof -
  let ?n0 = "touch resolve t0 k a n"
  have "neighbor ?n0 k = Some (touch_peer t0 True a p)"
    using assms(1,2) by (simp add: touch_def Let_def)
  moreover have "lastLAN (touch_peer t0 True a p) = Some a" "lastLANRX (touch_peer t0 True a p) = t0"
    "last_target (touch_peer t0 True a p) = LastLAN"
    by (simp_all add: touch_peer_def Let_def)
  moreover have "\<forall>(t, b) \<in> set ds. \<not> localSource resolve ?n0 k (fst b) \<and> t - t0 < lanHoldTimeout"
    using public by auto
  ultimately obtain q where q: "neighbor (touch_all resolve k ds ?n0) k = Some q" "lastLAN q = Some a"
    "lastLANRX q = t0" "last_target q = LastLAN"
    using touch_all_public_held by blast
  have eq: "touch_all resolve k ((t0, a) # ds) n = touch_all resolve k ds ?n0"
    by (simp add: touch_all_def)
  show ?thesis
    unfolding eq using q late
    by (simp add: touch_def [of _ t1] Let_def touch_peer_def freshLAN_def send_target_def)
qed

definition sample_peer :: peer where
  "sample_peer = \<lparr>ID = ''p'', Public = [], NAT = ''cone'', Role = ''peer'', Endpoint = [],
     Capacity = 1, MeshIP = ''10.44.0.2'', Name = [], Routes = [], LANAddrs = [], last_target = NoAddr,
     lastRX = 0, lastLAN = None, lastLANRX = 0, lastPathLAN = False, lastLANProbe = 0,
     compactHelloUntil = 0, discovered = 0, up = False, rttMS = 0, lossEMA = 0\<rparr>"

definition sample_table :: peer_table where
  "sample_table = \<lparr>self_id = ''s'', self_endpoint = [], neighbors = [(''p'', sample_peer)],
     pings = [(''x'', \<lparr>sent = 1000, peerID = ''p''\<rparr>)], localSubnets = []\<rparr>"

lemma sample_sources:
  "localSource (\<lambda>_. None) sample_table ''p'' 0xC0A80105"
  "\<not> localSource (\<lambda>_. None) sample_table ''p'' 0xCB007109"
  by (simp_all add: sample_table_def sample_peer_def localSource_def neighbor_def endpointIPMatches_def
      IsPrivate_def IsLinkLocalUnicast_def IsLoopback_def drop_bit_word_numeral)

lemma lan_target_hysteresis_witness:
  "map_option send_target (neighbor (touch_all (\<lambda>_. None) ''p''
      ((5000, 0xC0A80105, 4000) # [(9000, 0xCB007109, 4001)]) sample_table) ''p'')
     = Some (Some (0xC0A80105, 4000))"
proof -
  have p: "neighbor sample_table ''p'' = Some sample_peer"
    by (simp add: sample_table_def neighbor_def)
  show ?thesis
    using lan_target_hysteresis [OF p, of "\<lambda>_. None" "(0xC0A80105, 4000)"
        "[(9000, 0xCB007109, 4001)]" 5000 "(0xCB007109, 4001)" 35000] sample_sources
    by simp
qed

definition loss_ok :: "peer_table \<Rightarrow> bool" where
  "loss_ok n \<longleftrightarrow> list_all (\<lambda>(_, p). 0 \<le> lossEMA p \<and> lossEMA p \<le> 1) (neighbors n)"

lemma loss_ok_update:
  assumes "loss_ok n" "\<And>p. 0 \<le> lossEMA p \<Longrightarrow> lossEMA p \<le> 1 \<Longrightarrow> 0 \<le> lossEMA (f p) \<and> lossEMA (f p) \<le> 1"
  shows "loss_ok (update_neighbor k f n)"
proof -
  have "0 \<le> lossEMA (f p) \<and> lossEMA (f p) \<le> 1" if "(j, p) \<in> set (neighbors n)" for j p
    using assms(1) that by (intro assms(2)) (auto simp: loss_ok_def list_all_iff)
  then show ?thesis
    using assms(1) by (auto simp: loss_ok_def update_neighbor_def list_all_iff split: if_splits)
qed

lemma loss_ok_notes: "loss_ok n \<Longrightarrow> loss_ok (noteLostProbes ids n)"
proof (induction ids arbitrary: n)
  case (Cons i ids)
  have "loss_ok (update_neighbor i lost_probe n)"
    using Cons.prems by (rule loss_ok_update) (auto simp: lost_probe_def)
  from Cons.IH [OF this] show ?case by (simp add: noteLostProbes_def)
qed (simp add: noteLostProbes_def)

lemma loss_ok_pong: "loss_ok n \<Longrightarrow> loss_ok (handlePong now packet n)"
proof -
  assume n: "loss_ok n"
  then have "loss_ok (n\<lparr>pings := ps\<rparr>)" for ps by (simp add: loss_ok_def)
  moreover have "loss_ok m \<Longrightarrow> loss_ok (update_neighbor k (pong_sample now probe) m)" for k probe m
    by (rule loss_ok_update) (auto simp: pong_sample_def Let_def)
  ultimately show ?thesis using n
    by (auto simp: handlePong_def Let_def split: option.splits json.splits)
qed

lemma lost_in_a_row:
  "neighbor n k = Some p \<Longrightarrow> map_option lossEMA (neighbor (noteLostProbes (replicate m k) n) k)
     = Some (1 - (9 / 10) ^ m * (1 - lossEMA p))"
proof (induction m arbitrary: n p)
  case 0
  then show ?case by (simp add: noteLostProbes_def)
next
  case (Suc m)
  have "neighbor (update_neighbor k lost_probe n) k = Some (lost_probe p)" using Suc.prems by simp
  from Suc.IH [OF this] have "map_option lossEMA (neighbor (noteLostProbes (replicate (Suc m) k) n) k)
      = Some (1 - (9 / 10) ^ m * (1 - lossEMA (lost_probe p)))"
    by (simp add: noteLostProbes_def)
  also have "1 - lossEMA (lost_probe p) = 9 / 10 * (1 - lossEMA p)"
    by (simp add: lost_probe_def algebra_simps)
  finally show ?case by (simp only: power_Suc mult_ac)
qed

text \<open>The smoothed loss of every neighbour stays a probability under any PONG and any batch of lost
  probes, and after \<open>m\<close> lost probes in a row it is $1 - 0.9^m (1 - l)$, so a clean link passes one
  half only with the seventh consecutive loss.\<close>

lemma loss_estimate_bounded:
  assumes "loss_ok n" "neighbor n k = Some p"
  shows "loss_ok (handlePong now packet n) \<and> loss_ok (noteLostProbes ids n)
    \<and> map_option lossEMA (neighbor (noteLostProbes (replicate m k) n) k)
        = Some (1 - (9 / 10) ^ m * (1 - lossEMA p))"
  using assms loss_ok_pong loss_ok_notes lost_in_a_row by simp

lemma loss_estimate_bounded_witness:
  "map_option lossEMA (neighbor (noteLostProbes (replicate 2 ''p'') sample_table) ''p'') = Some (19 / 100)"
proof -
  have p: "neighbor sample_table ''p'' = Some sample_peer" "loss_ok sample_table"
    by (simp_all add: sample_table_def neighbor_def loss_ok_def sample_peer_def)
  show ?thesis
    using loss_estimate_bounded [OF p(2,1), of 0 "NewPacket [] 0 ''PONG'' ''p'' ''s'' []" "[]" 2] by (simp add: sample_peer_def power2_eq_square)
qed

text \<open>A probe is answered at most once and only by the peer it was sent to.  A replayed PONG changes
  nothing, and neither does a PONG of another node or one that was relayed (its hop limit is no
  longer the initial one).\<close>

lemma pong_counts_once:
  "handlePong t2 pk (handlePong t1 pk n) = handlePong t1 pk n
    \<and> (\<forall>pid probe. map_of (Payload pk) ''ping_id'' = Some (JStr pid) \<and> map_of (pings n) pid = Some probe
         \<and> Source pk \<noteq> peerID probe \<longrightarrow> handlePong t1 pk n = n)
    \<and> (TTL pk \<noteq> DefaultTTL \<longrightarrow> handlePong t1 pk n = n)"
proof -
  have "handlePong t2 pk (handlePong t1 pk n) = handlePong t1 pk n"
  proof (cases "map_of (Payload pk) ''ping_id''")
    case None
    then show ?thesis by (simp add: handlePong_def)
  next
    case (Some v)
    then show ?thesis
      by (cases v) (auto simp: handlePong_def Let_def delete_conv' split: option.splits)
  qed
  moreover have "TTL pk \<noteq> DefaultTTL \<Longrightarrow> handlePong t1 pk n = n"
    by (auto simp: handlePong_def split: option.splits json.splits)
  ultimately show ?thesis by (auto simp: handlePong_def)
qed

lemma pong_counts_once_witness:
  "handlePong 1500 (NewPacket [] 0 ''PONG'' ''q'' ''s'' [(''ping_id'', JStr ''x'')]) sample_table = sample_table
   \<and> handlePong 1500 ((NewPacket [] 0 ''PONG'' ''p'' ''s'' [(''ping_id'', JStr ''x'')])\<lparr>TTL := 7\<rparr>) sample_table
      = sample_table"
  using pong_counts_once [of 0 "NewPacket [] 0 ''PONG'' ''q'' ''s'' [(''ping_id'', JStr ''x'')]" 1500 sample_table]
    pong_counts_once [of 0 "(NewPacket [] 0 ''PONG'' ''p'' ''s'' [(''ping_id'', JStr ''x'')])\<lparr>TTL := 7\<rparr>" 1500
      sample_table]
  by (simp add: NewPacket_def sample_table_def)

end
