(* ===== verification/Server_State.thy ===== *)
theory Server_State
  imports Accounts Peers "HOL-Library.Product_Lexorder"
begin

text \<open>
  The coordinator's own data (\<^verbatim>\<open>server/types.go\<close>, \<^verbatim>\<open>server/helpers.go\<close>): registered nodes, links of the
  mesh graph, link metrics, the topology settings and the server record that the handlers of the
  later theories pass along.  The fields of a node are the columns of the table \<^verbatim>\<open>nodes\<close>; the
  enrichment that only the admin pages show is left out.  Costs, round-trip times and loss rates,
  floating-point numbers in the code, are exact rationals.
\<close>

section \<open>Data\<close>

record node =
  node_id :: string
  public_key :: string
  nat_type :: string
  role :: string
  endpoint :: string
  capacity :: int
  mesh_ip :: string
  goarch :: string
  requested_role :: string
  relay_capable :: bool
  last_seen :: int
  created_at :: int
  connected_at :: int
  lan_addrs :: "string list"
  owner_id :: "int option"

record link =
  link_a :: string
  link_b :: string
  cost :: rat
  rtt_ms :: rat
  link_loss :: rat
  status :: string
  via_lan :: bool

text \<open>\<open>Seen\<close> is \<open>None\<close> for Go's zero time, in a metric that no report has set.\<close>

record linkMetric =
  m_rtt :: rat
  LossRate :: rat
  m_up :: bool
  m_lan :: bool
  Seen :: "int option"

record topologySettings =
  TTL :: int
  AutoSuperpeers :: int
  BackboneDegree :: int
  ClientLinks :: int
  SymmetricLinks :: int
  DNSUpstream :: string

record cachedLinks =
  entry_epoch :: nat
  entry_links :: "link list"

record service =
  svc_node :: string
  svc_name :: string
  svc_host :: string
  svc_port :: int
  svc_allowed :: string

record portForward =
  pf_id :: int
  pf_source :: string
  pf_listen_host :: string
  pf_listen_port :: int
  pf_target :: string
  pf_target_host :: string
  pf_target_port :: int

record firewallConfig =
  fw_mode :: string
  fw_ports :: "string list"

text \<open>A route advertisement is a LAN prefix with the virtual prefix that stands for it.  The JSON texts that
  hold routes and ports in the database are kept decoded.\<close>

record routeAdvertisement =
  route_lan :: string
  route_virtual :: string

record network_row =
  net_node :: string
  net_name :: string
  net_routes :: "routeAdvertisement list"

record dns_row =
  dns_node :: string
  dns_name :: string
  dns_lan_ip :: string

text \<open>\<open>linkCache\<close> is \<open>None\<close> for the nil map.\<close>

record server = accounts +
  nodes :: "node list"
  role_overrides :: "string \<rightharpoonup> string"
  revoked_nodes :: "string \<rightharpoonup> string \<times> int"
  graph_links :: "(string \<times> string \<times> rat) list"
  graph_blocks :: "(string \<times> string) list"
  config :: topologySettings
  network :: prefix
  metrics :: "string \<rightharpoonup> linkMetric"
  metricStamp :: nat
  linkCache :: "(string \<times> cachedLinks) list option"
  cacheEpoch :: nat
  services :: "service list"
  port_forwards :: "portForward list"
  next_forward :: int
  node_firewall :: "string \<rightharpoonup> firewallConfig"
  node_network :: "network_row list"
  dns_records :: "dns_row list"

definition new_link :: "string \<Rightarrow> string \<Rightarrow> rat \<Rightarrow> link" where
  "new_link a b c =
     \<lparr>link_a = a, link_b = b, cost = c, rtt_ms = 0, link_loss = 0, status = [], via_lan = False\<rparr>"

definition no_metric :: linkMetric where
  "no_metric = \<lparr>m_rtt = 0, LossRate = 0, m_up = False, m_lan = False, Seen = None\<rparr>"

definition edgeKey :: "string \<Rightarrow> string \<Rightarrow> string" where
  "edgeKey a b = (if a > b then b @ '':'' @ a else a @ '':'' @ b)"

definition metricKey :: "string \<Rightarrow> string \<Rightarrow> string" where
  "metricKey from dest = from @ [CHR 0x00] @ dest"

definition metric :: "server \<Rightarrow> string \<Rightarrow> string \<Rightarrow> linkMetric" where
  "metric s from dest = (case metrics s (metricKey from dest) of None \<Rightarrow> no_metric | Some m \<Rightarrow> m)"

text \<open>A metric counts for 45 seconds; instants are nanoseconds.\<close>

definition fresh_metric :: "int \<Rightarrow> linkMetric \<Rightarrow> bool" where
  "fresh_metric t m = (case Seen m of None \<Rightarrow> False | Some x \<Rightarrow> t - x < 45 * second)"

definition validSettings :: "topologySettings \<Rightarrow> unit go_result" where
  "validSettings c =
     (if TTL c < 10 \<or> 3600 < TTL c then Inl ''node_ttl_seconds must be between 10 and 3600''
      else if AutoSuperpeers c < 0 \<or> 10000 < AutoSuperpeers c
      then Inl ''auto_superpeers must be between 0 and 10000''
      else if BackboneDegree c < 1 \<or> 128 < BackboneDegree c
      then Inl ''backbone_degree must be between 1 and 128''
      else if ClientLinks c < 1 \<or> 32 < ClientLinks c \<or> SymmetricLinks c < 1 \<or> 32 < SymmetricLinks c
      then Inl ''client_links and symmetric_links must be between 1 and 32''
      else Inr ())"

definition invalidateLinkCache :: "server \<Rightarrow> server" where
  "invalidateLinkCache s = s\<lparr>cacheEpoch := cacheEpoch s + 1, linkCache := None\<rparr>"

section \<open>Lemmas\<close>

lemma edgeKey_commute: "edgeKey a b = edgeKey b a"
  by (auto simp: edgeKey_def)

end
