(* ===== verification/Mesh_Graph.thy ===== *)
theory Mesh_Graph
  imports Server_State
begin

text \<open>
  The forwarding graph of the coordinator (\<^verbatim>\<open>server/broadcasts.go\<close>, \<^verbatim>\<open>server/topology.go\<close>,
  \<^verbatim>\<open>server/telemetry.go\<close>): link metrics and the costs derived from them, the superpeer ring with its
  chords, attachment of clients, blocked pairs, the union-find repair that bridges components, and
  the cache in front of it.

  SHA-256 is the argument \<open>sha\<close>; \<open>t\<close> is the instant of the call in nanoseconds.  A set of blocked
  pairs is the list of their keys.  A loop that might run forever has type option, and the theorems
  show that it returns.
\<close>

section \<open>Metrics\<close>

abbreviation rttCostReferenceMS :: rat where "rttCostReferenceMS \<equiv> 100"
abbreviation maxRTTCostFactor :: rat where "maxRTTCostFactor \<equiv> 6"
abbreviation maxLossCostFactor :: rat where "maxLossCostFactor \<equiv> 5"
abbreviation lanCostFactor :: rat where "lanCostFactor \<equiv> 1 / 2"
abbreviation lossCostStep :: rat where "lossCostStep \<equiv> 15 / 100"

definition loss_band :: "linkMetric \<Rightarrow> int" where
  "loss_band m = \<lfloor>LossRate m / lossCostStep\<rfloor>"

definition fold_rtt :: "rat \<Rightarrow> linkMetric \<Rightarrow> linkMetric" where
  "fold_rtt x m =
     (if 0 < x \<and> x < 60000
      then (if m_rtt m = 0 then m\<lparr>m_rtt := x\<rparr> else m\<lparr>m_rtt := m_rtt m * (7 / 10) + x * (3 / 10)\<rparr>)
      else m)"

definition fold_loss :: "rat \<Rightarrow> linkMetric \<Rightarrow> linkMetric" where
  "fold_loss x m =
     (if 0 < x then (if LossRate m = 0 then m\<lparr>LossRate := x\<rparr>
                     else m\<lparr>LossRate := LossRate m * (1 / 2) + x * (1 / 2)\<rparr>)
      else if 0 < LossRate m then m\<lparr>LossRate := LossRate m * (1 / 2)\<rparr>
      else m)"

fun fold_links :: "int \<Rightarrow> string \<Rightarrow> LinkMeasurement list \<Rightarrow> bool \<Rightarrow> server \<Rightarrow> bool \<times> server" where
  "fold_links t n [] changed s = (changed, s)"
| "fold_links t n (x # xs) changed s =
     (if PeerID x = [] \<or> PeerID x = n then fold_links t n xs changed s
      else (let old = metric s n (PeerID x);
                m = fold_loss (Loss x) (fold_rtt (RTTMS x) old);
                changed' = (changed \<or> loss_band m \<noteq> loss_band old \<or> Seen old = None \<or>
                            m_up old \<noteq> Up x \<or> m_lan old \<noteq> ViaLAN x);
                m' = m\<lparr>m_up := Up x, m_lan := ViaLAN x, Seen := Some t\<rparr> in
            fold_links t n xs changed' (s\<lparr>metrics := (metrics s)(metricKey n (PeerID x) \<mapsto> m')\<rparr>)))"

definition updateLinkMetrics :: "int \<Rightarrow> string \<Rightarrow> LinkMeasurement list \<Rightarrow> server \<Rightarrow> bool \<times> server" where
  "updateLinkMetrics t n xs s = fold_links t n xs False s"

section \<open>Order of preference\<close>

definition rendezvousScore :: "(string \<Rightarrow> bytes) \<Rightarrow> string \<Rightarrow> string \<Rightarrow> int \<Rightarrow> 64 word" where
  "rendezvousScore sha client peer cap =
     be64 (take 8 (sha (client @ '':'' @ peer))) div of_int (if cap < 1 then 1 else cap)"

definition weightedPeerOrder :: "(string \<Rightarrow> bytes) \<Rightarrow> node \<Rightarrow> node list \<Rightarrow> node list" where
  "weightedPeerOrder sha client peers =
     sort_key (\<lambda>p. (rendezvousScore sha (node_id client) (node_id p) (capacity p), node_id p)) peers"

text \<open>Confirmed links come first, then links without a fresh report, then links reported down.\<close>

definition link_state :: "int \<Rightarrow> linkMetric \<Rightarrow> int" where
  "link_state t m = (if \<not> fresh_metric t m then 1 else if m_up m then 2 else 0)"

definition telemetryPeerOrder :: "(string \<Rightarrow> bytes) \<Rightarrow> int \<Rightarrow> server \<Rightarrow> node \<Rightarrow> node list \<Rightarrow> node list" where
  "telemetryPeerOrder sha t s client peers =
     sort_key (\<lambda>p. (- link_state t (metric s (node_id client) (node_id p)),
                    rendezvousScore sha (node_id client) (node_id p) (capacity p), node_id p)) peers"

section \<open>Costs\<close>

definition uptime_of :: "int \<Rightarrow> node list \<Rightarrow> string \<Rightarrow> int option" where
  "uptime_of t ns x =
     map_of (rev (map (\<lambda>n. (node_id n, max 0 (unix t - last_seen n))) ns)) x"

definition uptime_factor :: "(string \<Rightarrow> int option) \<Rightarrow> link \<Rightarrow> rat" where
  "uptime_factor uptm l =
     (case (uptm (link_a l), uptm (link_b l)) of
        (Some ua, Some ub) \<Rightarrow> 1 + 1 / (1 + of_int (min ua ub) / 3600)
      | _ \<Rightarrow> 1)"

definition decorate_link :: "int \<Rightarrow> server \<Rightarrow> (string \<Rightarrow> int option) \<Rightarrow> link \<Rightarrow> link" where
  "decorate_link t s uptm l =
     (let forward = metric s (link_a l) (link_b l);
          reverse = metric s (link_b l) (link_a l);
          ff = fresh_metric t forward; fr = fresh_metric t reverse;
          rtt0 = (if ff then m_rtt forward else 0);
          rtt = (if \<not> fr then rtt0 else if rtt0 = 0 then m_rtt reverse
                 else if 0 < m_rtt reverse then (rtt0 + m_rtt reverse) / 2 else rtt0);
          loss0 = (if ff then LossRate forward else 0);
          loss = (if fr then max loss0 (LossRate reverse) else loss0);
          base = (if cost l \<le> 0 then 1 else cost l);
          c1 = (if 0 < rtt then base * min (1 + rtt / rttCostReferenceMS) maxRTTCostFactor else base);
          l1 = (if 0 < rtt then l\<lparr>rtt_ms := rtt\<rparr> else l);
          c2 = (if 0 < loss then c1 * min (1 / (1 - min loss (95 / 100))) maxLossCostFactor else c1);
          l2 = (if 0 < loss then l1\<lparr>link_loss := loss\<rparr> else l1);
          c3 = c2 * uptime_factor uptm l;
          (st, c4) = (if ff \<and> fr \<and> m_up forward \<and> m_up reverse then (''up'', c3)
                      else if (ff \<and> \<not> m_up forward) \<or> (fr \<and> \<not> m_up reverse) then (''down'', c3 * 4)
                      else (''unknown'', c3 * 2));
          lan = (if ff \<and> fr then m_lan forward \<and> m_lan reverse
                 else if ff then m_lan forward else if fr then m_lan reverse else False);
          c5 = (if ff \<and> fr \<and> lan then c4 * lanCostFactor else c4) in
      l2\<lparr>cost := c5, status := st, via_lan := lan\<rparr>)"

definition decorateLinks :: "int \<Rightarrow> server \<Rightarrow> link list \<Rightarrow> node list option \<Rightarrow> link list" where
  "decorateLinks t s ls ns =
     map (decorate_link t s (case ns of None \<Rightarrow> (\<lambda>_. None) | Some xs \<Rightarrow> uptime_of t xs)) ls"

section \<open>Edges\<close>

definition superpeerNodes :: "node list \<Rightarrow> node list" where
  "superpeerNodes ns = filter (\<lambda>n. role n = ''superpeer'') ns"

definition manualLinks :: "server \<Rightarrow> link list" where
  "manualLinks s = map (\<lambda>(a, b, c). new_link a b c) (sort_key (\<lambda>(a, b, c). (a, b)) (graph_links s))"

definition allowed :: "node list \<Rightarrow> link \<Rightarrow> bool" where
  "allowed ns e \<longleftrightarrow> link_a e \<in> node_id ` set ns \<and> link_b e \<in> node_id ` set ns"

definition manualLinksForNodes :: "server \<Rightarrow> node list \<Rightarrow> link list" where
  "manualLinksForNodes s ns = filter (allowed ns) (manualLinks s)"

definition blockedLinks :: "server \<Rightarrow> link list" where
  "blockedLinks s = map (\<lambda>(a, b). new_link a b 1) (sort_key (\<lambda>x. x) (graph_blocks s))"

definition blockedLinksForNodes :: "server \<Rightarrow> node list \<Rightarrow> link list" where
  "blockedLinksForNodes s ns = filter (allowed ns) (blockedLinks s)"

definition blockedEdgeSet :: "server \<Rightarrow> node list \<Rightarrow> string list" where
  "blockedEdgeSet s ns = map (\<lambda>e. edgeKey (link_a e) (link_b e)) (blockedLinksForNodes s ns)"

definition removeBlockedEdges :: "link list \<Rightarrow> string list \<Rightarrow> link list" where
  "removeBlockedEdges es blocked =
     (if blocked = [] then es
      else filter (\<lambda>e. edgeKey (link_a e) (link_b e) \<notin> set blocked) es)"

text \<open>The closure \<^verbatim>\<open>add\<close> of \<^verbatim>\<open>backboneLinks\<close>: keys seen and links made so far.\<close>

definition add_edge :: "string \<times> string \<Rightarrow> string list \<times> link list \<Rightarrow> string list \<times> link list" where
  "add_edge p st =
     (let (seen, out) = st; a = min (fst p) (snd p); b = max (fst p) (snd p); k = a @ '':'' @ b in
      if a = b then st
      else if k \<in> set seen then st
      else (k # seen, out @ [new_link a b 1]))"

definition backbone_pairs :: "string list \<Rightarrow> nat \<Rightarrow> (string \<times> string) list" where
  "backbone_pairs ids degree =
     (let n = length ids in
      map (\<lambda>i. (ids ! i, ids ! ((i + 1) mod n))) [0..<n] @
      concat (map (\<lambda>step. map (\<lambda>i. (ids ! i, ids ! ((i + step) mod n))) [0..<n]) [2..<degree div 2 + 1]) @
      (if odd degree then map (\<lambda>i. (ids ! i, ids ! (i + n div 2))) [0..<n div 2] else []))"

definition backboneLinks :: "node list \<Rightarrow> nat \<Rightarrow> link list" where
  "backboneLinks superpeers degree =
     (let n = length superpeers in
      if n < 2 then []
      else (let d1 = (if degree < 2 then 2 else degree); d2 = (if n - 1 < d1 then n - 1 else d1) in
        snd (fold add_edge (backbone_pairs (map node_id superpeers) d2) ([], []))))"

text \<open>The inner loop of \<^verbatim>\<open>addAutomaticClientLinks\<close> over the peers in order of preference.\<close>

fun attach :: "string \<Rightarrow> string list \<Rightarrow> int \<Rightarrow> node list \<Rightarrow> string list \<Rightarrow> int \<Rightarrow> link list \<Rightarrow> link list" where
  "attach c blocked want [] linked count out = out"
| "attach c blocked want (p # ps) linked count out =
     (if count \<ge> want then out
      else if node_id p = c \<or> node_id p \<in> set linked \<or> edgeKey c (node_id p) \<in> set blocked
      then attach c blocked want ps linked count out
      else attach c blocked want ps (node_id p # linked) (count + 1)
             (out @ [new_link c (node_id p) (1 + of_int count / 10)]))"

definition client_links ::
    "(string \<Rightarrow> bytes) \<Rightarrow> int \<Rightarrow> server \<Rightarrow> node list \<Rightarrow> string list \<Rightarrow> node \<Rightarrow> link list \<Rightarrow> link list" where
  "client_links sha t s peers blocked client out =
     (if role client \<noteq> ''client'' then out
      else (let c = node_id client;
                want0 = (if nat_type client = ''symmetric'' then SymmetricLinks (config s) else ClientLinks (config s));
                want = (if want0 < 1 then 1 else want0);
                linked = concat (map (\<lambda>e. (if link_a e = c then [link_b e] else []) @
                                              (if link_b e = c then [link_a e] else [])) out);
                count = int (length (filter (\<lambda>p. node_id p \<noteq> c \<and> node_id p \<in> set linked) peers)) in
        attach c blocked want (telemetryPeerOrder sha t s client peers) linked count out))"

definition addAutomaticClientLinks ::
    "(string \<Rightarrow> bytes) \<Rightarrow> int \<Rightarrow> server \<Rightarrow> link list \<Rightarrow> node list \<Rightarrow> node list \<Rightarrow> string list \<Rightarrow> link list" where
  "addAutomaticClientLinks sha t s out ns peers blocked =
     (if peers = [] then out else fold (client_links sha t s peers blocked) ns out)"

section \<open>Repair of the graph\<close>

text \<open>The closure \<^verbatim>\<open>find\<close> of \<^verbatim>\<open>ensureConnected\<close>: it halves the path it walks.\<close>

partial_function (option) uf_find :: "(string \<Rightarrow> string) \<Rightarrow> string \<Rightarrow> (string \<times> (string \<Rightarrow> string)) option" where
  "uf_find parent x =
     (if parent x = x then Some (x, parent)
      else (let parent' = parent(x := parent (parent x)) in uf_find parent' (parent' x)))"

fun uf_unions :: "string list \<Rightarrow> link list \<Rightarrow> (string \<Rightarrow> string) \<Rightarrow> (string \<Rightarrow> string) option" where
  "uf_unions ids [] parent = Some parent"
| "uf_unions ids (e # es) parent =
     (if link_a e \<notin> set ids then uf_unions ids es parent
      else if link_b e \<notin> set ids then uf_unions ids es parent
      else case uf_find parent (link_a e) of
        None \<Rightarrow> None
      | Some (ra, p1) \<Rightarrow>
        (case uf_find p1 (link_b e) of
           None \<Rightarrow> None
         | Some (rb, p2) \<Rightarrow> uf_unions ids es (if ra \<noteq> rb then p2(ra := rb) else p2)))"

text \<open>The map \<^verbatim>\<open>components\<close>, as the list of nodes with their roots.\<close>

fun uf_components :: "node list \<Rightarrow> (string \<Rightarrow> string) \<Rightarrow> (string \<times> node) list option" where
  "uf_components [] parent = Some []"
| "uf_components (n # ns) parent =
     (case uf_find parent (node_id n) of
        None \<Rightarrow> None
      | Some (rt, p1) \<Rightarrow> map_option (\<lambda>cs. (rt, n) # cs) (uf_components ns p1))"

definition tier :: "node \<Rightarrow> nat" where
  "tier n = (if role n = ''superpeer'' then 0 else 1)"

type_synonym bridge = "node \<times> node \<times> nat \<times> 64 word"

definition better_bridge :: "(string \<Rightarrow> bytes) \<Rightarrow> string list \<Rightarrow> node \<Rightarrow> node \<Rightarrow> bridge option \<Rightarrow> bridge option" where
  "better_bridge sha blocked x y best =
     (if edgeKey (node_id x) (node_id y) \<in> set blocked then best
      else (let t = tier x + tier y;
                s1 = rendezvousScore sha (node_id x) (node_id y) (capacity x);
                s2 = rendezvousScore sha (node_id y) (node_id x) (capacity y);
                lo = (if s2 < s1 then s2 else s1) in
        case best of
          None \<Rightarrow> Some (x, y, t, lo)
        | Some (bestA, bestB, bestTier, bestScore) \<Rightarrow>
          if t < bestTier \<or> (t = bestTier \<and> (lo < bestScore \<or> (lo = bestScore \<and>
               node_id x @ [CHR 0x00] @ node_id y < node_id bestA @ [CHR 0x00] @ node_id bestB)))
          then Some (x, y, t, lo) else best))"

definition bridgeNodes :: "(string \<Rightarrow> bytes) \<Rightarrow> node list \<Rightarrow> node list \<Rightarrow> string list \<Rightarrow> (node \<times> node) option" where
  "bridgeNodes sha xs ys blocked =
     map_option (\<lambda>(a, b, _). (a, b))
       (fold (\<lambda>x. fold (\<lambda>y. better_bridge sha blocked x y) ys) xs None)"

definition component :: "(string \<times> node) list \<Rightarrow> string \<Rightarrow> node list" where
  "component cs rt = map snd (filter (\<lambda>(r, n). r = rt) cs)"

definition bridges :: "(string \<Rightarrow> bytes) \<Rightarrow> (string \<times> node) list \<Rightarrow> string list \<Rightarrow> link list" where
  "bridges sha cs blocked =
     (let roots = sort (remdups (map fst cs)) in
      concat (map (\<lambda>(r, r'). case bridgeNodes sha (component cs r) (component cs r') blocked of
                        None \<Rightarrow> []
                      | Some (a, b) \<Rightarrow> [new_link (node_id a) (node_id b) (5 / 4)])
        (zip roots (tl roots))))"

definition ensureConnected :: "(string \<Rightarrow> bytes) \<Rightarrow> link list \<Rightarrow> node list \<Rightarrow> string list \<Rightarrow> link list option" where
  "ensureConnected sha edges ns blocked =
     (if length ns < 2 then Some edges
      else case uf_unions (map node_id ns) edges (\<lambda>x. x) of
        None \<Rightarrow> None
      | Some parent \<Rightarrow>
        (case uf_components ns parent of
           None \<Rightarrow> None
         | Some cs \<Rightarrow>
           if length (remdups (map fst cs)) \<le> 1 then Some edges
           else Some (edges @ bridges sha cs blocked)))"

definition links :: "(string \<Rightarrow> bytes) \<Rightarrow> int \<Rightarrow> server \<Rightarrow> node list \<Rightarrow> link list option" where
  "links sha t s ns =
     (let blocked = blockedEdgeSet s ns; manual = manualLinksForNodes s ns in
      if manual \<noteq> [] then
        (let out = removeBlockedEdges manual blocked;
             out' = addAutomaticClientLinks sha t s out ns (superpeerNodes ns) blocked in
         map_option (\<lambda>es. decorateLinks t s es (Some ns))
           (ensureConnected sha (removeBlockedEdges out' blocked) ns blocked))
      else
        (let superpeers = superpeerNodes ns;
             out = (if 1 < length superpeers then backboneLinks superpeers (nat (BackboneDegree (config s))) else []);
             peers = (if superpeers = [] then ns else superpeers);
             out' = addAutomaticClientLinks sha t s out ns peers blocked in
         map_option (\<lambda>es. decorateLinks t s es (Some ns))
           (ensureConnected sha (removeBlockedEdges out' blocked) ns blocked)))"

section \<open>The union-find terminates and joins only linked nodes\<close>

definition conn :: "link list \<Rightarrow> string rel" where
  "conn es = (\<Union>e \<in> set es. {(link_a e, link_b e), (link_b e, link_a e)})\<^sup>*"

definition up_rel :: "string set \<Rightarrow> (string \<Rightarrow> string) \<Rightarrow> string rel" where
  "up_rel ids p = {(x, p x) | x. x \<in> ids \<and> p x \<noteq> x}"

definition uf_ok :: "string set \<Rightarrow> string rel \<Rightarrow> (string \<Rightarrow> string) \<Rightarrow> bool" where
  "uf_ok ids C p \<longleftrightarrow> (\<forall>x \<in> ids. p x \<in> ids \<and> (x, p x) \<in> C) \<and> acyclic (up_rel ids p)"

lemma finite_up_rel: "finite ids \<Longrightarrow> finite (up_rel ids p)"
  by (rule finite_subset [of _ "(\<lambda>x. (x, p x)) ` ids"]) (auto simp: up_rel_def)

lemma acyclic_trancl: "acyclic R \<Longrightarrow> acyclic (R\<^sup>+)"
  by (simp add: acyclic_def)

lemma up_rel_halve:
  assumes "\<forall>x \<in> ids. p x \<in> ids" "x \<in> ids" "p x \<noteq> x"
  shows "up_rel ids (p(x := p (p x))) \<subseteq> (up_rel ids p)\<^sup>+"
proof
  fix e assume "e \<in> up_rel ids (p(x := p (p x)))"
  then obtain y where y: "y \<in> ids" "e = (y, (p(x := p (p x))) y)" "(p(x := p (p x))) y \<noteq> y"
    by (auto simp: up_rel_def)
  show "e \<in> (up_rel ids p)\<^sup>+"
  proof (cases "y = x")
    case True
    have "(x, p x) \<in> (up_rel ids p)\<^sup>+" using assms by (auto simp: up_rel_def)
    moreover have "p (p x) = p x \<or> (p x, p (p x)) \<in> up_rel ids p"
      using assms by (auto simp: up_rel_def)
    ultimately have "(x, p (p x)) \<in> (up_rel ids p)\<^sup>+" by (metis trancl_into_trancl)
    then show ?thesis using y True by simp
  next
    case False
    then have "e \<in> up_rel ids p" using y by (auto simp: up_rel_def)
    then show ?thesis by (rule r_into_trancl')
  qed
qed

lemma uf_find_aux:
  assumes R: "finite R" "acyclic R" and C: "trans C" and x: "x \<in> ids"
    and p: "\<forall>x \<in> ids. p x \<in> ids \<and> (x, p x) \<in> C" "up_rel ids p \<subseteq> R\<^sup>+"
  shows "\<exists>r p'. uf_find p x = Some (r, p') \<and> r \<in> ids \<and> p' r = r \<and> (x = r \<or> (x, r) \<in> C) \<and>
    (\<forall>x \<in> ids. p' x \<in> ids \<and> (x, p' x) \<in> C) \<and> up_rel ids p' \<subseteq> R\<^sup>+ \<and> (\<forall>y. p y = y \<longrightarrow> p' y = y)"
proof -
  have "wf ((R\<^sup>+)\<inverse>)"
    using R by (metis finite_acyclic_wf_converse trancl_converse wf_trancl)
  then show ?thesis using x p
  proof (induction x arbitrary: p rule: wf_induct_rule)
    case (less x)
    show ?case
    proof (cases "p x = x")
      case True
      then have "uf_find p x = Some (x, p)" by (simp add: uf_find.simps)
      then show ?thesis using True less.prems by blast
    next
      case False
      let ?p = "p(x := p (p x))"
      have step: "uf_find p x = uf_find ?p (p (p x))"
        using False by (subst uf_find.simps) (simp add: Let_def)
      have edge: "(x, p x) \<in> up_rel ids p" using False less.prems by (auto simp: up_rel_def)
      have px: "p x \<in> ids" "p (p x) \<in> ids" "(x, p x) \<in> C" "(p x, p (p x)) \<in> C"
        using less.prems by auto
      then have xx: "(x, p (p x)) \<in> C" using C by (meson transD)
      have "p (p x) = p x \<or> (p x, p (p x)) \<in> up_rel ids p" using px by (auto simp: up_rel_def)
      then have "(x, p (p x)) \<in> R\<^sup>+"
        using edge less.prems(3) by (metis subsetD trancl_trans)
      moreover have "\<forall>x \<in> ids. ?p x \<in> ids \<and> (x, ?p x) \<in> C" using less.prems px xx by simp
      moreover have "up_rel ids ?p \<subseteq> R\<^sup>+"
      proof -
        have "up_rel ids ?p \<subseteq> (up_rel ids p)\<^sup>+"
          using less.prems False by (intro up_rel_halve) auto
        also have "\<dots> \<subseteq> (R\<^sup>+)\<^sup>+" using less.prems(3) by (blast intro: trancl_mono)
        finally show ?thesis by simp
      qed
      ultimately obtain r p' where r: "uf_find ?p (p (p x)) = Some (r, p')" "r \<in> ids" "p' r = r"
        "p (p x) = r \<or> (p (p x), r) \<in> C" "\<forall>x \<in> ids. p' x \<in> ids \<and> (x, p' x) \<in> C"
        "up_rel ids p' \<subseteq> R\<^sup>+" "\<forall>y. ?p y = y \<longrightarrow> p' y = y"
        using less.IH [of "p (p x)" ?p] px by blast
      have "p' y = y" if "p y = y" for y
        using r(7) [rule_format, of y] that False by (cases "y = x") simp_all
      moreover have "(x, r) \<in> C" using r(4) xx C by (metis transD)
      ultimately show ?thesis using r step by auto
    qed
  qed
qed

lemma uf_find_ok:
  assumes "finite ids" "trans C" "uf_ok ids C p" "x \<in> ids"
  shows "\<exists>r p'. uf_find p x = Some (r, p') \<and> r \<in> ids \<and> p' r = r \<and> (x = r \<or> (x, r) \<in> C) \<and>
    uf_ok ids C p' \<and> (\<forall>y. p y = y \<longrightarrow> p' y = y)"
proof -
  have R: "finite (up_rel ids p)" "acyclic (up_rel ids p)"
    using assms by (auto simp: uf_ok_def finite_up_rel)
  have p: "\<forall>x \<in> ids. p x \<in> ids \<and> (x, p x) \<in> C" using assms by (simp add: uf_ok_def)
  obtain r p' where r: "uf_find p x = Some (r, p')" "r \<in> ids" "p' r = r" "x = r \<or> (x, r) \<in> C"
    "\<forall>x \<in> ids. p' x \<in> ids \<and> (x, p' x) \<in> C" "up_rel ids p' \<subseteq> (up_rel ids p)\<^sup>+" "\<forall>y. p y = y \<longrightarrow> p' y = y"
    using uf_find_aux [OF R assms(2,4) p] r_into_trancl' by blast
  moreover have "acyclic (up_rel ids p')"
    using acyclic_subset [OF acyclic_trancl [OF R(2)] r(6)] .
  ultimately show ?thesis by (auto simp: uf_ok_def)
qed

lemma uf_union_ok:
  assumes p: "uf_ok ids C p" and r: "ra \<in> ids" "rb \<in> ids" "p ra = ra" "p rb = rb" "ra \<noteq> rb" "(ra, rb) \<in> C"
  shows "uf_ok ids C (p(ra := rb))"
proof -
  have "up_rel ids (p(ra := rb)) \<subseteq> insert (ra, rb) (up_rel ids p)"
    by (auto simp: up_rel_def)
  moreover have "acyclic (insert (ra, rb) (up_rel ids p))"
  proof -
    have "(rb, ra) \<notin> (up_rel ids p)\<^sup>*"
    proof
      assume "(rb, ra) \<in> (up_rel ids p)\<^sup>*"
      then show False using r by (cases rule: converse_rtranclE) (auto simp: up_rel_def)
    qed
    then show ?thesis using p by (simp add: acyclic_insert uf_ok_def)
  qed
  ultimately have "acyclic (up_rel ids (p(ra := rb)))" by (metis acyclic_subset)
  then show ?thesis using p r by (simp add: uf_ok_def)
qed

lemma uf_unions_ok:
  assumes "trans C" "sym C" "uf_ok (set ids) C p"
    and "\<forall>e \<in> set es. (link_a e, link_b e) \<in> C"
  shows "\<exists>p'. uf_unions ids es p = Some p' \<and> uf_ok (set ids) C p'"
  using assms(3,4)
proof (induction es arbitrary: p)
  case (Cons e es)
  show ?case
  proof (cases "link_a e \<in> set ids \<and> link_b e \<in> set ids")
    case False
    then show ?thesis using Cons by auto
  next
    case True
    obtain ra p1 where a: "uf_find p (link_a e) = Some (ra, p1)" "ra \<in> set ids" "p1 ra = ra"
      "link_a e = ra \<or> (link_a e, ra) \<in> C" "uf_ok (set ids) C p1"
      using uf_find_ok [OF _ assms(1) Cons.prems(1)] True by blast
    obtain rb p2 where b: "uf_find p1 (link_b e) = Some (rb, p2)" "rb \<in> set ids" "p2 rb = rb"
      "link_b e = rb \<or> (link_b e, rb) \<in> C" "uf_ok (set ids) C p2" "p2 ra = ra"
      using uf_find_ok [OF _ assms(1) a(5)] True a(3) by blast
    have "(link_a e, link_b e) \<in> C" using Cons.prems by simp
    then have "(ra, rb) \<in> C" using a(4) b(4) assms(1,2) by (metis symD transD)
    then have "uf_ok (set ids) C (if ra \<noteq> rb then p2(ra := rb) else p2)"
      using uf_union_ok [OF b(5) a(2) b(2) b(6) b(3)] b(5) by simp
    then show ?thesis using Cons True a(1) b(1) by auto
  qed
qed simp

lemma uf_components_ok:
  assumes "trans C" "uf_ok ids C p" "finite ids" "node_id ` set ns \<subseteq> ids"
  shows "\<exists>cs. uf_components ns p = Some cs \<and> map snd cs = ns \<and>
    (\<forall>(r, n) \<in> set cs. node_id n = r \<or> (node_id n, r) \<in> C)"
  using assms(2,4)
proof (induction ns arbitrary: p)
  case (Cons n ns)
  obtain r p1 where r: "uf_find p (node_id n) = Some (r, p1)" "node_id n = r \<or> (node_id n, r) \<in> C" "uf_ok ids C p1"
    using uf_find_ok [OF assms(3,1) Cons.prems(1)] Cons.prems(2) by (metis image_subset_iff list.set_intros(1))
  obtain cs where "uf_components ns p1 = Some cs" "map snd cs = ns"
    "\<forall>(r, n) \<in> set cs. node_id n = r \<or> (node_id n, r) \<in> C"
    using Cons.IH [OF r(3)] Cons.prems(2) by auto
  then show ?case using r by auto
qed simp

section \<open>Bridges\<close>

lemma better_bridge_Some:
  "edgeKey (node_id x) (node_id y) \<notin> set blocked \<Longrightarrow> better_bridge sha blocked x y best \<noteq> None"
  by (auto simp: better_bridge_def Let_def split: option.splits)

lemma better_bridge_keeps: "best \<noteq> None \<Longrightarrow> better_bridge sha blocked x y best \<noteq> None"
  by (auto simp: better_bridge_def Let_def split: option.splits)

definition bridge_ok :: "node list \<Rightarrow> node list \<Rightarrow> string list \<Rightarrow> bridge option \<Rightarrow> bool" where
  "bridge_ok xs ys blocked best \<longleftrightarrow>
     (\<forall>a b t s. best = Some (a, b, t, s) \<longrightarrow> a \<in> set xs \<and> b \<in> set ys \<and> edgeKey (node_id a) (node_id b) \<notin> set blocked)"

lemma better_bridge_ok:
  "bridge_ok xs ys blocked best \<Longrightarrow> x \<in> set xs \<Longrightarrow> y \<in> set ys \<Longrightarrow> bridge_ok xs ys blocked (better_bridge sha blocked x y best)"
  by (auto simp: bridge_ok_def better_bridge_def Let_def split: option.splits if_splits)

lemma fold_invariant: "P a \<Longrightarrow> (\<And>x b. x \<in> set xs \<Longrightarrow> P b \<Longrightarrow> P (f x b)) \<Longrightarrow> P (fold f xs a)"
  by (induction xs arbitrary: a) auto

lemma bridgeNodes_sound:
  assumes "bridgeNodes sha xs ys blocked = Some (a, b)"
  shows "a \<in> set xs \<and> b \<in> set ys \<and> edgeKey (node_id a) (node_id b) \<notin> set blocked"
proof -
  have "bridge_ok xs ys blocked (fold (\<lambda>x. fold (\<lambda>y. better_bridge sha blocked x y) ys) xs None)"
    by (intro fold_invariant [where P = "bridge_ok xs ys blocked"] better_bridge_ok) (simp add: bridge_ok_def)
  then show ?thesis using assms by (auto simp: bridgeNodes_def bridge_ok_def)
qed

lemma fold_becomes:
  assumes "x \<in> set xs" "\<And>b. Q (f x b)" "\<And>y b. y \<in> set xs \<Longrightarrow> Q b \<Longrightarrow> Q (f y b)"
  shows "Q (fold f xs a)"
  using assms
proof (induction xs arbitrary: a)
  case (Cons y ys)
  show ?case
  proof (cases "y = x")
    case True
    then show ?thesis using Cons.prems by (auto intro: fold_invariant)
  next
    case False
    then show ?thesis using Cons by auto
  qed
qed simp

lemma bridgeNodes_complete:
  assumes "x \<in> set xs" "y \<in> set ys" "edgeKey (node_id x) (node_id y) \<notin> set blocked"
  shows "bridgeNodes sha xs ys blocked \<noteq> None"
proof -
  have "fold (\<lambda>x. fold (\<lambda>y. better_bridge sha blocked x y) ys) xs None \<noteq> None"
    using assms
    by (intro fold_becomes [where Q = "\<lambda>b. b \<noteq> None" and x = x] fold_becomes [where Q = "\<lambda>b. b \<noteq> None" and x = y]
        fold_invariant [where P = "\<lambda>b. b \<noteq> None"] better_bridge_Some better_bridge_keeps) auto
  then show ?thesis by (auto simp: bridgeNodes_def)
qed

section \<open>Connectivity\<close>

lemma conn_refl [simp]: "(x, x) \<in> conn es"
  by (simp add: conn_def)

lemma trans_conn: "trans (conn es)"
  by (simp add: conn_def trans_rtrancl)

lemma sym_conn: "sym (conn es)"
  unfolding conn_def by (rule sym_rtrancl) (auto simp: sym_def)

lemma conn_link: "e \<in> set es \<Longrightarrow> (link_a e, link_b e) \<in> conn es"
  by (auto simp: conn_def)

lemma conn_mono: "set es \<subseteq> set es' \<Longrightarrow> conn es \<subseteq> conn es'"
  unfolding conn_def by (rule rtrancl_mono) blast

lemma zip_tl_nth: "p \<in> set (zip rs (tl rs)) \<longleftrightarrow> (\<exists>i. Suc i < length rs \<and> p = (rs ! i, rs ! Suc i))"
  by (cases rs) (auto simp: set_zip nth_tl)

lemma chain_connects:
  assumes D: "trans D" "sym D" "\<And>x. (x, x) \<in> D"
    and step: "\<And>r r'. (r, r') \<in> set (zip rs (tl rs)) \<Longrightarrow> (r, r') \<in> D"
    and xy: "x \<in> set rs" "y \<in> set rs"
  shows "(x, y) \<in> D"
proof -
  have hd: "(rs ! 0, rs ! i) \<in> D" if "i < length rs" for i
    using that
  proof (induction i)
    case (Suc i)
    then show ?case using step [of "rs ! i" "rs ! Suc i"] D(1) by (auto simp: zip_tl_nth dest: transD)
  qed (simp add: D(3))
  obtain i j where "i < length rs" "j < length rs" "x = rs ! i" "y = rs ! j"
    using xy by (metis in_set_conv_nth)
  then show ?thesis using hd [of i] hd [of j] D(1,2) by (meson symD transD)
qed

lemma component_member: "x \<in> set (component cs r) \<longleftrightarrow> (r, x) \<in> set cs"
  by (force simp: component_def)

lemma set_case_pair:
  "e \<in> set (case x of None \<Rightarrow> [] | Some (a, b) \<Rightarrow> [g a b]) \<longleftrightarrow> (\<exists>a b. x = Some (a, b) \<and> e = g a b)"
  by (cases x) auto

lemma bridges_member:
  "e \<in> set (bridges sha cs blocked) \<longleftrightarrow>
    (\<exists>r r' a b. (r, r') \<in> set (zip (sort (remdups (map fst cs))) (tl (sort (remdups (map fst cs))))) \<and>
      bridgeNodes sha (component cs r) (component cs r') blocked = Some (a, b) \<and>
      e = new_link (node_id a) (node_id b) (5 / 4))"
  by (simp add: bridges_def Let_def case_prod_beta' Bex_def set_case_pair [unfolded case_prod_beta']) metis

lemma bridges_sound:
  assumes "e \<in> set (bridges sha cs blocked)"
  shows "edgeKey (link_a e) (link_b e) \<notin> set blocked \<and> allowed (map snd cs) e"
proof -
  obtain r r' a b where e: "e = new_link (node_id a) (node_id b) (5 / 4)"
    and br: "bridgeNodes sha (component cs r) (component cs r') blocked = Some (a, b)"
    using assms unfolding bridges_member by blast
  have "a \<in> snd ` set cs" "b \<in> snd ` set cs" "edgeKey (node_id a) (node_id b) \<notin> set blocked"
    using bridgeNodes_sound [OF br] by (force simp: component_member)+
  then show ?thesis by (auto simp: e new_link_def allowed_def)
qed

lemma bridges_join:
  assumes near: "\<forall>(r, n) \<in> set cs. node_id n = r \<or> (node_id n, r) \<in> conn es"
    and rr: "(r, r') \<in> set (zip (sort (remdups (map fst cs))) (tl (sort (remdups (map fst cs)))))"
  shows "(r, r') \<in> conn (es @ bridges sha cs [])"
proof -
  let ?D = "conn (es @ bridges sha cs [])"
  have "r \<in> set (map fst cs)" "r' \<in> set (map fst cs)"
    using rr nth_mem [of _ "sort (remdups (map fst cs))"] unfolding zip_tl_nth
    by (auto simp del: nth_mem)
  then obtain x y where "x \<in> set (component cs r)" "y \<in> set (component cs r')"
    by (auto simp: component_member)
  then have "bridgeNodes sha (component cs r) (component cs r') [] \<noteq> None"
    by (intro bridgeNodes_complete [of x _ y]) auto
  then obtain a b where ab: "bridgeNodes sha (component cs r) (component cs r') [] = Some (a, b)" by auto
  then have mem: "(r, a) \<in> set cs" "(r', b) \<in> set cs"
    using bridgeNodes_sound [OF ab] by (auto simp: component_member)
  have "new_link (node_id a) (node_id b) (5 / 4) \<in> set (bridges sha cs [])"
    unfolding bridges_member using rr ab by blast
  then have "(node_id a, node_id b) \<in> ?D"
    using conn_link [of "new_link (node_id a) (node_id b) (5 / 4)" "es @ bridges sha cs []"] by (simp add: new_link_def)
  moreover have "(node_id n, r) \<in> ?D" if "(r, n) \<in> set cs" for r n
    using near that conn_mono [of es "es @ bridges sha cs []"] by fastforce
  ultimately show ?thesis using mem trans_conn sym_conn by (meson symD transD)
qed

lemma ensureConnected_ok:
  "\<exists>out. ensureConnected sha es ns blocked = Some out \<and> set es \<subseteq> set out \<and>
    (\<forall>e \<in> set out - set es. edgeKey (link_a e) (link_b e) \<notin> set blocked \<and> allowed ns e) \<and>
    (blocked = [] \<longrightarrow> (\<forall>x \<in> set ns. \<forall>y \<in> set ns. (node_id x, node_id y) \<in> conn out))"
proof (cases "length ns < 2")
  case True
  then have "(node_id x, node_id y) \<in> conn es" if "x \<in> set ns" "y \<in> set ns" for x y
    using that by (cases ns) (auto simp: neq_Nil_conv length_Suc_conv)
  then show ?thesis using True by (auto simp: ensureConnected_def)
next
  case False
  let ?ids = "set (map node_id ns)"
  have "up_rel ?ids (\<lambda>x. x) = {}" by (auto simp: up_rel_def)
  then have "uf_ok ?ids (conn es) (\<lambda>x. x)" by (simp add: uf_ok_def acyclic_def)
  then obtain p where p: "uf_unions (map node_id ns) es (\<lambda>x. x) = Some p" "uf_ok ?ids (conn es) p"
    using uf_unions_ok [OF trans_conn sym_conn] conn_link by blast
  obtain cs where cs: "uf_components ns p = Some cs" "map snd cs = ns"
    "\<forall>(r, n) \<in> set cs. node_id n = r \<or> (node_id n, r) \<in> conn es"
    using uf_components_ok [OF trans_conn p(2), of ns] by auto
  have near: "\<exists>r \<in> fst ` set cs. (node_id n, r) \<in> conn es" if "n \<in> set ns" for n
  proof -
    have "n \<in> snd ` set cs" using that cs(2) by (metis set_map)
    then show ?thesis using cs(3) by force
  qed
  let ?rs = "sort (remdups (map fst cs))"
  show ?thesis
  proof (cases "length (remdups (map fst cs)) \<le> 1")
    case True
    have "r = r'" if "r \<in> fst ` set cs" "r' \<in> fst ` set cs" for r r'
    proof -
      have "r \<in> set (remdups (map fst cs))" "r' \<in> set (remdups (map fst cs))" using that by auto
      then show ?thesis using True by (cases "remdups (map fst cs)") auto
    qed
    then have "(node_id x, node_id y) \<in> conn es" if "x \<in> set ns" "y \<in> set ns" for x y
      using near [OF that(1)] near [OF that(2)] trans_conn sym_conn by (metis symD transD)
    then show ?thesis using False p cs True by (auto simp: ensureConnected_def)
  next
    case many: False
    let ?out = "es @ bridges sha cs blocked"
    have "ensureConnected sha es ns blocked = Some ?out"
      using False p cs many by (simp add: ensureConnected_def)
    moreover have "(node_id x, node_id y) \<in> conn ?out" if b: "blocked = []" and xy: "x \<in> set ns" "y \<in> set ns" for x y
    proof -
      obtain r where r: "r \<in> fst ` set cs" "(node_id x, r) \<in> conn es" using near [OF xy(1)] by (rule bexE)
      obtain r' where r': "r' \<in> fst ` set cs" "(node_id y, r') \<in> conn es" using near [OF xy(2)] by (rule bexE)
      have "(r, r') \<in> conn ?out" unfolding b
        by (rule chain_connects [OF trans_conn sym_conn conn_refl, where rs = ?rs])
          (use bridges_join [OF cs(3)] r r' in auto)
      moreover have "conn es \<subseteq> conn ?out" by (rule conn_mono) simp
      then have "(node_id x, r) \<in> conn ?out" "(r', node_id y) \<in> conn ?out"
        using r r' symD [OF sym_conn] by blast+
      ultimately show ?thesis using transD [OF trans_conn] by metis
    qed
    moreover have "edgeKey (link_a e) (link_b e) \<notin> set blocked \<and> allowed ns e" if "e \<in> set ?out - set es" for e
      using that bridges_sound [of e sha cs blocked] cs(2) by auto
    ultimately show ?thesis by (intro exI [of _ ?out]) auto
  qed
qed

section \<open>The graph\<close>

lemma decorate_ends [simp]:
  "link_a (decorate_link t s uptm l) = link_a l" "link_b (decorate_link t s uptm l) = link_b l"
  by (simp_all add: decorate_link_def Let_def)

lemma conn_decorate: "conn (decorateLinks t s es ns) = conn es"
  by (simp add: conn_def decorateLinks_def)

lemma removeBlocked_member:
  "e \<in> set (removeBlockedEdges es blocked) \<longleftrightarrow> e \<in> set es \<and> edgeKey (link_a e) (link_b e) \<notin> set blocked"
  by (auto simp: removeBlockedEdges_def)

lemma links_repaired:
  "\<exists>es. links sha t s ns = map_option (\<lambda>es. decorateLinks t s es (Some ns))
     (ensureConnected sha (removeBlockedEdges es (blockedEdgeSet s ns)) ns (blockedEdgeSet s ns))"
  unfolding links_def Let_def by metis

text \<open>C22: the graph computation always returns, and no link of the graph joins a blocked pair.\<close>

theorem links_returns_unblocked:
  "\<exists>out. links sha t s ns = Some out \<and>
     (\<forall>e \<in> set out. edgeKey (link_a e) (link_b e) \<notin> set (blockedEdgeSet s ns))"
proof -
  obtain es where l: "links sha t s ns = map_option (\<lambda>es. decorateLinks t s es (Some ns))
     (ensureConnected sha (removeBlockedEdges es (blockedEdgeSet s ns)) ns (blockedEdgeSet s ns))"
    using links_repaired by blast
  obtain out where out: "ensureConnected sha (removeBlockedEdges es (blockedEdgeSet s ns)) ns (blockedEdgeSet s ns) = Some out"
    "\<forall>e \<in> set out - set (removeBlockedEdges es (blockedEdgeSet s ns)).
       edgeKey (link_a e) (link_b e) \<notin> set (blockedEdgeSet s ns) \<and> allowed ns e"
    using ensureConnected_ok by blast
  have "edgeKey (link_a e) (link_b e) \<notin> set (blockedEdgeSet s ns)" if "e \<in> set out" for e
    using that out(2) removeBlocked_member [of e es] by blast
  then show ?thesis using l out(1) by (simp add: decorateLinks_def)
qed

text \<open>C19: when no pair of the online nodes is blocked, the graph connects all of them, whatever the manual
  links, roles and metrics are.\<close>

theorem links_connected:
  assumes "blockedEdgeSet s ns = []"
  shows "\<exists>out. links sha t s ns = Some out \<and>
    (\<forall>x \<in> set ns. \<forall>y \<in> set ns. (node_id x, node_id y) \<in> conn out)"
proof -
  obtain es where l: "links sha t s ns = map_option (\<lambda>es. decorateLinks t s es (Some ns))
     (ensureConnected sha (removeBlockedEdges es []) ns [])"
    using links_repaired [of sha t s ns] assms by auto
  obtain out where "ensureConnected sha (removeBlockedEdges es []) ns [] = Some out"
    "\<forall>x \<in> set ns. \<forall>y \<in> set ns. (node_id x, node_id y) \<in> conn out"
    using ensureConnected_ok [of sha "removeBlockedEdges es []" ns "[]"] by auto
  then show ?thesis using l by (simp add: conn_decorate)
qed

definition sample_node_row :: "string \<Rightarrow> node" where
  "sample_node_row i = \<lparr>node_id = i, public_key = ''k'', nat_type = ''cone'', role = ''superpeer'',
     endpoint = ''1.2.3.4:5'', capacity = 1, mesh_ip = [], goarch = [], requested_role = ''superpeer'',
     relay_capable = True, last_seen = 100, created_at = 1, connected_at = 1, lan_addrs = [], owner_id = None\<rparr>"

definition sample_server :: server where
  "sample_server = accounts.extend sample_accounts
     (server.fields [] (\<lambda>_. None) (\<lambda>_. None) [(''C'', ''D'', 1)] []
       \<lparr>TTL = 60, AutoSuperpeers = 0, BackboneDegree = 2, ClientLinks = 2, SymmetricLinks = 3, DNSUpstream = []\<rparr>
       \<lparr>Addr = 0x0A420000, Bits = 24\<rparr> (\<lambda>_. None) 0 None 0 [] [] 1 (\<lambda>_. None) [] [])"

theorem links_connected_witness:
  "blockedEdgeSet sample_server (map sample_node_row [''A'', ''B'', ''C'']) = [] \<and>
   (\<exists>out. links (\<lambda>_. replicate 32 0) 0 sample_server (map sample_node_row [''A'', ''B'', ''C'']) = Some out \<and>
     (''A'', ''C'') \<in> conn out)"
proof -
  have b: "blockedEdgeSet sample_server (map sample_node_row [''A'', ''B'', ''C'']) = []"
    by (simp add: blockedEdgeSet_def blockedLinksForNodes_def blockedLinks_def sample_server_def server.defs accounts.defs)
  show ?thesis
    using links_connected [OF b, of "\<lambda>_. replicate 32 0" 0] b
    by (auto simp: sample_node_row_def)
qed

theorem links_returns_unblocked_witness:
  "\<exists>out. links (\<lambda>_. replicate 32 0) 0 sample_server (map sample_node_row [''A'', ''B'']) = Some out \<and>
     (\<forall>e \<in> set out. edgeKey (link_a e) (link_b e) \<notin> set (blockedEdgeSet sample_server (map sample_node_row [''A'', ''B''])))"
  by (rule links_returns_unblocked)

lemma links_total: "\<exists>out. links sha t s ns = Some out"
proof -
  obtain es where "links sha t s ns = map_option (\<lambda>es. decorateLinks t s es (Some ns))
     (ensureConnected sha (removeBlockedEdges es (blockedEdgeSet s ns)) ns (blockedEdgeSet s ns))"
    using links_repaired by blast
  then show ?thesis using ensureConnected_ok by (metis option.simps(9))
qed

section \<open>What the repair leaves out\<close>

lemma conn_closed:
  assumes "(x, y) \<in> conn es" "x \<in> A" "\<And>e. e \<in> set es \<Longrightarrow> link_a e \<in> A \<longleftrightarrow> link_b e \<in> A"
  shows "y \<in> A"
  using assms(1) unfolding conn_def
  by (induction rule: rtrancl_induct) (use assms(2,3) in auto)

text \<open>The repair bridges only components that are neighbours in the order of their roots.  With \<open>A\<close>
  and \<open>B\<close> blocked from each other and \<open>C\<close> linked to \<open>D\<close>, it leaves \<open>A\<close> alone although \<open>A\<close> and \<open>C\<close> may be
  linked.\<close>

lemma repair_gap:
  "\<exists>out. ensureConnected (\<lambda>_. replicate 32 0) [new_link ''C'' ''D'' 1]
      (map sample_node_row [''A'', ''B'', ''C'', ''D'']) [edgeKey ''A'' ''B''] = Some out \<and>
    edgeKey ''A'' ''C'' \<notin> {edgeKey ''A'' ''B''} \<and> (''A'', ''C'') \<notin> conn out"
proof -
  let ?ns = "map sample_node_row [''A'', ''B'', ''C'', ''D'']"
  let ?p = "(\<lambda>x. x)(''C'' := ''D'')"
  have f: "uf_find (\<lambda>x. x) x = Some (x, \<lambda>x. x)" for x by (simp add: uf_find.simps)
  have g: "uf_find ?p x = Some (if x = ''C'' then ''D'' else x, ?p)" for x
    by (subst uf_find.simps) (auto simp: Let_def uf_find.simps fun_upd_def)
  have u: "uf_unions (map node_id ?ns) [new_link ''C'' ''D'' 1] (\<lambda>x. x) = Some ?p"
    by (simp add: f new_link_def sample_node_row_def)
  have c: "uf_components ?ns ?p = Some [(''A'', sample_node_row ''A''), (''B'', sample_node_row ''B''),
      (''D'', sample_node_row ''C''), (''D'', sample_node_row ''D'')]"
    by (simp add: g sample_node_row_def)
  let ?cs = "[(''A'', sample_node_row ''A''), (''B'', sample_node_row ''B''),
      (''D'', sample_node_row ''C''), (''D'', sample_node_row ''D'')]"
  let ?out = "[new_link ''C'' ''D'' 1] @ bridges (\<lambda>_. replicate 32 0) ?cs [edgeKey ''A'' ''B'']"
  have out: "ensureConnected (\<lambda>_. replicate 32 0) [new_link ''C'' ''D'' 1] ?ns [edgeKey ''A'' ''B''] = Some ?out"
    using u c by (simp add: ensureConnected_def)
  have rs: "sort (remdups (map fst ?cs)) = [''A'', ''B'', ''D'']"
    by (simp add: less_char_def less_eq_char_def)
  have "link_a e \<noteq> ''A'' \<and> link_b e \<noteq> ''A''" if "e \<in> set ?out" for e
  proof (cases "e = new_link ''C'' ''D'' 1")
    case True
    then show ?thesis by (simp add: new_link_def)
  next
    case False
    then have br: "e \<in> set (bridges (\<lambda>_. replicate 32 0) ?cs [edgeKey ''A'' ''B''])" using that by simp
    obtain r r' a b where e: "(r, r') \<in> {(''A'', ''B''), (''B'', ''D'')}"
      "bridgeNodes (\<lambda>_. replicate 32 0) (component ?cs r) (component ?cs r') [edgeKey ''A'' ''B''] = Some (a, b)"
      "e = new_link (node_id a) (node_id b) (5 / 4)"
      using br unfolding bridges_member rs by auto
    have "(r, a) \<in> set ?cs" "(r', b) \<in> set ?cs" "edgeKey (node_id a) (node_id b) \<noteq> edgeKey ''A'' ''B''"
      using bridgeNodes_sound [OF e(2)] by (simp_all add: component_member)
    then show ?thesis using e(1,3) by (auto simp: new_link_def sample_node_row_def)
  qed
  then have "(''A'', ''C'') \<notin> conn ?out"
    using conn_closed [of "''A''" "''C''" ?out "{''A''}"] by auto
  then show ?thesis using out by (simp add: edgeKey_def)
qed

text \<open>Telemetry cannot outlive a lease: the uptime factor of a link between two nodes seen within the last
  hour stays at or above three halves.\<close>

lemma uptime_factor_bound:
  assumes "uptm (link_a l) = Some ua" "uptm (link_b l) = Some ub" "0 \<le> ua" "0 \<le> ub" "ua \<le> 3600"
  shows "3 / 2 \<le> uptime_factor uptm l \<and> uptime_factor uptm l \<le> 2"
proof -
  define h :: rat where "h = of_int (min ua ub) / 3600"
  have h: "0 \<le> h" "h \<le> 1" using assms by (auto simp: h_def)
  then have "1 / 2 \<le> 1 / (1 + h)" "1 / (1 + h) \<le> 1" by (auto simp: field_simps)
  then show ?thesis using assms(1,2) by (simp add: uptime_factor_def h_def)
qed

section \<open>The cache\<close>

definition itoa_int :: "int \<Rightarrow> string" where
  "itoa_int i = (if i < 0 then CHR ''-'' # itoa (nat (- i)) else itoa (nat i))"

definition topologyVersion :: "(string \<Rightarrow> bytes) \<Rightarrow> node list \<Rightarrow> string" where
  "topologyVersion sha ns =
     take 16 (hex_encode (sha (join_with ''|'' (map (\<lambda>n. join_with '':''
       [node_id n, public_key n, nat_type n, role n, endpoint n, mesh_ip n, itoa_int (capacity n)]) ns))))"

text \<open>The value \<open>Inl\<close> is a panic: the write to a nil map.  The deferred unlock runs, so the state it leaves
  is the one with the nil cache.\<close>

definition cachedTopologyLinks ::
    "(string \<Rightarrow> bytes) \<Rightarrow> int \<Rightarrow> node list \<Rightarrow> server \<Rightarrow> ((string + link list) \<times> server) option" where
  "cachedTopologyLinks sha t ns s =
     (let key = topologyVersion sha ns @ ''#'' @ itoa (metricStamp s);
          cache = (case linkCache s of None \<Rightarrow> [] | Some c \<Rightarrow> c);
          compute = (case links sha t s ns of
             None \<Rightarrow> None
           | Some ls \<Rightarrow>
             if 64 < length cache
             then Some (Inl ''assignment to entry in nil map'', s\<lparr>linkCache := None\<rparr>)
             else Some (Inr ls, s\<lparr>linkCache :=
                    Some (AList.update key \<lparr>entry_epoch = cacheEpoch s, entry_links = ls\<rparr> cache)\<rparr>)) in
      case map_of cache key of
        None \<Rightarrow> compute
      | Some entry \<Rightarrow>
        if entry_epoch entry = cacheEpoch s then Some (Inr (entry_links entry), s) else compute)"

definition cache_size :: "server \<Rightarrow> nat" where
  "cache_size s = (case linkCache s of None \<Rightarrow> 0 | Some c \<Rightarrow> length c)"

definition cache_hit :: "(string \<Rightarrow> bytes) \<Rightarrow> node list \<Rightarrow> server \<Rightarrow> bool" where
  "cache_hit sha ns s \<longleftrightarrow>
     (\<exists>c entry. linkCache s = Some c \<and>
        map_of c (topologyVersion sha ns @ ''#'' @ itoa (metricStamp s)) = Some entry \<and>
        entry_epoch entry = cacheEpoch s)"

text \<open>The cache never holds more than 65 entries, and a lookup that misses while it holds 65 panics:
  the code drops the full map and then writes into the nil map.\<close>

lemma cache_overflow_panics:
  assumes "cache_size s \<le> 65"
  shows "\<exists>r s'. cachedTopologyLinks sha t ns s = Some (r, s') \<and> cache_size s' \<le> 65 \<and>
    (r = Inl ''assignment to entry in nil map'' \<longleftrightarrow> \<not> cache_hit sha ns s \<and> cache_size s = 65)"
proof -
  obtain ls where ls: "links sha t s ns = Some ls" using links_total by blast
  let ?key = "topologyVersion sha ns @ ''#'' @ itoa (metricStamp s)"
  let ?cache = "case linkCache s of None \<Rightarrow> [] | Some c \<Rightarrow> c"
  have size: "cache_size s = length ?cache" by (simp add: cache_size_def split: option.split)
  have hit: "cache_hit sha ns s \<longleftrightarrow> (\<exists>entry. map_of ?cache ?key = Some entry \<and> entry_epoch entry = cacheEpoch s)"
    by (auto simp: cache_hit_def split: option.splits)
  show ?thesis
  proof (cases "cache_hit sha ns s")
    case True
    then obtain entry where "map_of ?cache ?key = Some entry" "entry_epoch entry = cacheEpoch s"
      unfolding hit by blast
    then have "cachedTopologyLinks sha t ns s = Some (Inr (entry_links entry), s)"
      by (simp add: cachedTopologyLinks_def Let_def)
    then show ?thesis using True assms by simp
  next
    case False
    then have miss: "cachedTopologyLinks sha t ns s =
       (if 64 < length ?cache then Some (Inl ''assignment to entry in nil map'', s\<lparr>linkCache := None\<rparr>)
        else Some (Inr ls, s\<lparr>linkCache := Some (AList.update ?key \<lparr>entry_epoch = cacheEpoch s, entry_links = ls\<rparr> ?cache)\<rparr>))"
      unfolding hit by (simp add: cachedTopologyLinks_def Let_def ls split: option.split)
    show ?thesis
    proof (cases "64 < length ?cache")
      case True
      then show ?thesis using False miss assms size by (simp add: cache_size_def)
    next
      case small: False
      have "length (AList.update ?key \<lparr>entry_epoch = cacheEpoch s, entry_links = ls\<rparr> ?cache) \<le> 65"
        using small by (intro le_trans [OF length_update_le]) simp
      then show ?thesis using False miss size small by (simp add: cache_size_def)
    qed
  qed
qed

definition full_cache_server :: server where
  "full_cache_server = sample_server\<lparr>linkCache := Some (map (\<lambda>i. (replicate i CHR ''x'',
     \<lparr>entry_epoch = 1, entry_links = []\<rparr>)) [0..<65])\<rparr>"

lemma cache_overflow_panics_witness:
  "cache_size full_cache_server \<le> 65 \<and> cache_size full_cache_server = 65 \<and>
   (\<exists>s'. cachedTopologyLinks (\<lambda>_. replicate 32 0) 0 [] full_cache_server
      = Some (Inl ''assignment to entry in nil map'', s'))"
proof -
  have size: "cache_size full_cache_server = 65" by (simp add: cache_size_def full_cache_server_def)
  have miss: "\<not> cache_hit (\<lambda>_. replicate 32 0) [] full_cache_server"
    by (auto simp: cache_hit_def full_cache_server_def sample_server_def server.defs accounts.defs
        dest!: map_of_SomeD simp del: upt_rec_numeral)
  show ?thesis
    using cache_overflow_panics [of full_cache_server "\<lambda>_. replicate 32 0" 0 "[]"] size miss by auto
qed

end
