(* ===== verification/Registry.thy ===== *)
theory Registry
  imports Mesh_Graph
begin

text \<open>
  Registration of nodes with the coordinator (\<^verbatim>\<open>server/nodes.go\<close>, \<^verbatim>\<open>server/roles.go\<close>,
  \<^verbatim>\<open>server/telemetry.go\<close>, \<^verbatim>\<open>server/admin_ui.go\<close>): role balancing, allocation of mesh addresses, the
  registration handler that is also the heartbeat, removal and banning of nodes, manual roles, the
  manual graph and telemetry reports.

  \<^verbatim>\<open>register\<close> reads the node's row before it takes \<^verbatim>\<open>registerMu\<close>; the model keeps the part before the lock,
  the locked part and the part after it as three steps, so that two registrations can interleave
  where the code lets them.  The notifications \<^verbatim>\<open>broadcast\<close> and \<^verbatim>\<open>pushTopologies\<close> send to browsers and
  connected nodes and change none of this state.
\<close>

section \<open>Roles\<close>

function sqrt_up :: "nat \<Rightarrow> nat \<Rightarrow> nat" where
  "sqrt_up r n = (if r * r < n then sqrt_up (r + 1) n else r)"
  by pat_completeness auto
termination
proof (relation "measure (\<lambda>(r, n). n - r)")
  fix r n :: nat assume "r * r < n"
  then have "r < n" by (metis le_square less_le_trans not_le)
  then show "((r + 1, n), (r, n)) \<in> measure (\<lambda>(r, n). n - r)" by simp
qed simp

declare sqrt_up.simps [simp del]

definition intSqrtCeil :: "nat \<Rightarrow> nat" where
  "intSqrtCeil n = (if n \<le> 1 then n else sqrt_up 1 n)"

definition online_nodes :: "int \<Rightarrow> int option \<Rightarrow> server \<Rightarrow> node list" where
  "online_nodes now owner s =
     filter (\<lambda>n. now - TTL (config s) \<le> last_seen n \<and> (owner = None \<or> owner_id n = owner)) (nodes s)"

definition role_candidate :: "node \<Rightarrow> bool" where
  "role_candidate n \<longleftrightarrow> requested_role n = ''auto'' \<and> nat_type n = ''cone'' \<and> relay_capable n"

text \<open>Higher capacity first, then the older node, then the smaller id.\<close>

definition candidate_key :: "node \<Rightarrow> int \<times> int \<times> string" where
  "candidate_key n = (- capacity n, created_at n, node_id n)"

definition superpeer_ids :: "topologySettings \<Rightarrow> node list \<Rightarrow> string list" where
  "superpeer_ids c ns =
     (let manual = filter (\<lambda>n. requested_role n = ''superpeer'') ns;
          candidates = filter role_candidate ns;
          target0 = (if AutoSuperpeers c = 0 then int (intSqrtCeil (length candidates)) else AutoSuperpeers c);
          target = nat (max 0 (target0 - int (length manual))) in
      map node_id manual @ map node_id (take (min target (length candidates)) (sort_key candidate_key candidates)))"

definition set_role :: "string \<Rightarrow> string \<Rightarrow> server \<Rightarrow> server" where
  "set_role i rl s = s\<lparr>nodes := map (\<lambda>n. if node_id n = i then n\<lparr>role := rl\<rparr> else n) (nodes s)\<rparr>"

definition wanted_role :: "string list \<Rightarrow> node \<Rightarrow> string" where
  "wanted_role super n = (if node_id n \<in> set super then ''superpeer'' else ''client'')"

fun apply_roles :: "string list \<Rightarrow> node list \<Rightarrow> bool \<Rightarrow> server \<Rightarrow> bool \<times> server" where
  "apply_roles super [] changed s = (changed, s)"
| "apply_roles super (n # ns) changed s =
     (if role n = wanted_role super n then apply_roles super ns changed s
      else apply_roles super ns True (set_role (node_id n) (wanted_role super n) s))"

definition rebalanceRolesFor :: "int \<Rightarrow> int option \<Rightarrow> server \<Rightarrow> bool \<times> server" where
  "rebalanceRolesFor now owner s =
     (let ns = online_nodes now owner s in apply_roles (superpeer_ids (config s) ns) ns False s)"

definition rebalanceRoles :: "int \<Rightarrow> server \<Rightarrow> bool \<times> server" where
  "rebalanceRoles now s = rebalanceRolesFor now None s"

text \<open>The role that \<^verbatim>\<open>assign\<close> predicts for one node; \<^verbatim>\<open>created\<close> is its stored creation time or the present.\<close>

definition assign :: "string \<Rightarrow> string \<Rightarrow> string \<Rightarrow> bool \<Rightarrow> int \<Rightarrow> int \<Rightarrow> server \<Rightarrow> string" where
  "assign i requested nat0 relay cap now s =
     (if requested = ''superpeer'' then ''superpeer''
      else if requested = ''iot'' then ''client''
      else if requested = ''client'' \<or> nat0 \<noteq> ''cone'' \<or> \<not> relay then ''client''
      else (let others = filter (\<lambda>n. now - TTL (config s) \<le> last_seen n \<and> node_id n \<noteq> i) (nodes s);
                manual = length (filter (\<lambda>n. requested_role n = ''superpeer'') others);
                c = filter role_candidate others;
                target = (if AutoSuperpeers (config s) = 0 then int (intSqrtCeil (length c))
                          else AutoSuperpeers (config s));
                slots = target - int manual in
        if slots \<le> 0 then ''client''
        else (let created = (case find (\<lambda>n. node_id n = i) (nodes s) of None \<Rightarrow> now | Some n \<Rightarrow> created_at n);
                  keys = map candidate_key c @ [(- cap, created, i)] in
          if i \<in> set (map (\<lambda>(_, _, x). x) (take (min (nat slots) (length keys)) (sort keys)))
          then ''superpeer'' else ''client'')))"

section \<open>Addresses\<close>

text \<open>\<^verbatim>\<open>inc\<close> on a four-byte address is addition of one with wrap-around.\<close>

definition inc :: "ipv4 \<Rightarrow> ipv4" where
  "inc a = a + 1"

partial_function (option) scan_pool :: "prefix \<Rightarrow> string list \<Rightarrow> ipv4 \<Rightarrow> string option option" where
  "scan_pool net used ip =
     (if \<not> prefix_Contains net ip then Some None
      else if Addr_String ip \<notin> set used then Some (Some (Addr_String ip))
      else scan_pool net used (inc ip))"

definition allocate :: "server \<Rightarrow> string option option" where
  "allocate s = scan_pool (network s) (map mesh_ip (nodes s)) (inc (Addr (Masked (network s))))"

definition Atoi :: "string \<Rightarrow> int option" where
  "Atoi s = (case s of
       [] \<Rightarrow> None
     | c # cs \<Rightarrow> if c = CHR ''+'' then map_option int (atoi cs)
                else if c = CHR ''-'' then map_option (\<lambda>n. - int n) (atoi cs)
                else map_option int (atoi s))"

definition lan_entry :: "string \<Rightarrow> string option" where
  "lan_entry raw =
     (case SplitHostPort (TrimSpace raw) of
        None \<Rightarrow> None
      | Some (host, port) \<Rightarrow>
        (case ParseAddr host of
           None \<Rightarrow> None
         | Some ip \<Rightarrow>
           if IsLoopback ip then None
           else (case Atoi port of
             None \<Rightarrow> None
           | Some p \<Rightarrow> if p < 1 \<or> 65535 < p then None else Some (JoinHostPort (Addr_String ip) port))))"

fun sanitize_from :: "string list \<Rightarrow> string list \<Rightarrow> string list" where
  "sanitize_from [] out = out"
| "sanitize_from (raw # rest) out =
     (case lan_entry raw of
        None \<Rightarrow> sanitize_from rest out
      | Some e \<Rightarrow> (let out' = out @ [e] in if 8 \<le> length out' then out' else sanitize_from rest out'))"

definition sanitizeLanAddrs :: "string list \<Rightarrow> string list" where
  "sanitizeLanAddrs addrs = sanitize_from addrs []"

definition isLowerAlnum :: "string \<Rightarrow> bool" where
  "isLowerAlnum v \<longleftrightarrow> list_all (\<lambda>r. (CHR ''a'' \<le> r \<and> r \<le> CHR ''z'') \<or> (CHR ''0'' \<le> r \<and> r \<le> CHR ''9'')) v"

definition validGoArch :: "string \<Rightarrow> bool" where
  "validGoArch v =
     (if v = [] then True
      else if 32 < length v then False
      else (let goos = takeWhile (\<lambda>c. c \<noteq> CHR ''/'') v; rest = dropWhile (\<lambda>c. c \<noteq> CHR ''/'') v in
        if rest = [] \<or> goos = [] \<or> tl rest = [] then False
        else isLowerAlnum goos \<and> isLowerAlnum (tl rest)))"

definition NodeID :: "(string \<Rightarrow> bytes) \<Rightarrow> bytes \<Rightarrow> string" where
  "NodeID sha publicDER = hex_encode (take 16 (sha (bytes_string publicDER)))"

section \<open>Registration\<close>

record register_body =
  d_id :: string
  d_public :: string
  d_nat :: string
  d_role :: string
  d_endpoint :: string
  d_mesh_ip :: string
  d_capacity :: int
  d_relay :: "bool option"
  d_links :: "LinkMeasurement list"
  d_goarch :: string
  d_lan :: "string list"

text \<open>What the part before the lock hands to the locked part.\<close>

record register_plan =
  plan_body :: register_body
  plan_account :: "int option"
  plan_previous :: "node option"
  plan_relay :: bool

definition invited_owner :: "string \<Rightarrow> server \<Rightarrow> int option" where
  "invited_owner tok s =
     (if tok = [] then None
      else case find (\<lambda>i. inv_token i = tok \<and> inv_used i \<noteq> None) (invites s) of
        None \<Rightarrow> None
      | Some i \<Rightarrow> inv_owner i)"

definition registeredNode :: "string \<Rightarrow> server \<Rightarrow> node option" where
  "registeredNode i s = find (\<lambda>n. node_id n = i) (nodes s)"

definition valid_body :: "register_body \<Rightarrow> bool" where
  "valid_body d \<longleftrightarrow> \<not> (d_id d = [] \<or> 128 < length (d_id d) \<or> d_public d = [] \<or> 256 < length (d_public d) \<or>
     d_endpoint d = [] \<or> 256 < length (d_endpoint d) \<or> d_nat d \<notin> {''cone'', ''symmetric''} \<or>
     d_role d \<notin> {''auto'', ''iot'', ''client'', ''superpeer''})"

definition clamp_capacity :: "int \<Rightarrow> int" where
  "clamp_capacity c = (let c1 = (if c < 1 then 1 else c) in if 1000 < c1 then 1000 else c1)"

definition nodeRevoked :: "string \<Rightarrow> server \<Rightarrow> bool" where
  "nodeRevoked i s \<longleftrightarrow> revoked_nodes s i \<noteq> None"

definition overridden :: "server \<Rightarrow> register_body \<Rightarrow> register_body" where
  "overridden s d =
     (case (registeredNode (d_id d) s, role_overrides s (d_id d)) of
        (Some _, Some rl) \<Rightarrow> d\<lparr>d_role := rl\<rparr>
      | _ \<Rightarrow> d)"

definition plan_registration ::
    "(string \<Rightarrow> bytes) \<Rightarrow> int option \<Rightarrow> register_body \<Rightarrow> server \<Rightarrow> register_plan reply" where
  "plan_registration sha acc d s =
     (if \<not> valid_body d then Inl (400, ''missing or invalid required fields'')
      else if \<not> validGoArch (d_goarch d) then Inl (400, ''invalid goarch'')
      else if SplitHostPort (d_endpoint d) = None then Inl (400, ''invalid endpoint'')
      else if map_option (NodeID sha) (B64Decode (d_public d)) \<noteq> Some (d_id d)
      then Inl (400, ''node_id does not match public_key'')
      else if nodeRevoked (d_id d) s then Inl (403, ''node revoked by coordinator'')
      else (let previous = registeredNode (d_id d) s;
                existing = (case previous of None \<Rightarrow> None | Some n \<Rightarrow> owner_id n);
                d1 = overridden s d in
        if acc \<noteq> None \<and> existing \<noteq> None \<and> existing \<noteq> acc
        then Inl (403, ''node belongs to another account'')
        else if d_role d1 = ''superpeer'' \<and> d_nat d1 \<noteq> ''cone''
        then Inl (400, ''only cone nodes may be superpeers'')
        else if d_mesh_ip d1 \<noteq> [] \<and> ParseAddr (d_mesh_ip d1) = None then Inl (400, ''invalid mesh_ip'')
        else Inr \<lparr>plan_body = d1\<lparr>d_capacity := clamp_capacity (d_capacity d1)\<rparr>, plan_account = acc,
                  plan_previous = previous,
                  plan_relay = (case d_relay d1 of None \<Rightarrow> True | Some b \<Rightarrow> b)\<rparr>))"

definition register_check ::
    "(string \<Rightarrow> string) \<Rightarrow> (string \<Rightarrow> bytes) \<Rightarrow> int \<Rightarrow> request \<Rightarrow> register_body option \<Rightarrow> server \<Rightarrow>
     register_plan reply \<times> server" where
  "register_check dg sha t r body s0 =
     (case auth dg t r s0 of
        (Inl e, s1) \<Rightarrow> (Inl e, s1)
      | (Inr _, s1) \<Rightarrow>
        (case accountIDForRequest dg (unix t) r s1 of (acc0, s) \<Rightarrow>
         (let acc = (case acc0 of None \<Rightarrow> invited_owner (X_Mesh_Invite r) s | Some a \<Rightarrow> Some a) in
          case body of
            None \<Rightarrow> (Inl (400, ''missing or invalid required fields''), s)
          | Some d \<Rightarrow> (plan_registration sha acc d s, s))))"

definition reclaim :: "string \<Rightarrow> server \<Rightarrow> server" where
  "reclaim i s = s\<lparr>nodes := map (\<lambda>n. if node_id n = i then n\<lparr>mesh_ip := []\<rparr> else n) (nodes s)\<rparr>"

text \<open>The prepared statements of \<^verbatim>\<open>prepareRegisterStatements\<close>.\<close>

definition insert_row :: "int \<Rightarrow> string \<Rightarrow> string \<Rightarrow> register_plan \<Rightarrow> node" where
  "insert_row now rl ip pl =
     (let d = plan_body pl in
      \<lparr>node_id = d_id d, public_key = d_public d, nat_type = d_nat d, role = rl, endpoint = d_endpoint d,
       capacity = d_capacity d, mesh_ip = ip, goarch = d_goarch d, requested_role = d_role d,
       relay_capable = plan_relay pl, last_seen = now, created_at = now, connected_at = now,
       lan_addrs = sanitizeLanAddrs (d_lan d), owner_id = plan_account pl\<rparr>)"

definition update_row :: "int \<Rightarrow> int \<Rightarrow> string \<Rightarrow> string \<Rightarrow> register_plan \<Rightarrow> node \<Rightarrow> node" where
  "update_row now ttl rl ip pl n =
     (let d = plan_body pl in
      n\<lparr>public_key := d_public d, nat_type := d_nat d, role := rl, endpoint := d_endpoint d,
        requested_role := d_role d, relay_capable := plan_relay pl, capacity := d_capacity d,
        last_seen := now, connected_at := (if last_seen n < now - ttl then now else connected_at n),
        mesh_ip := ip, goarch := (if d_goarch d = [] then goarch n else d_goarch d),
        lan_addrs := sanitizeLanAddrs (d_lan d),
        owner_id := (case owner_id n of None \<Rightarrow> plan_account pl | Some a \<Rightarrow> Some a)\<rparr>)"

definition initial_role :: "register_plan \<Rightarrow> string" where
  "initial_role pl =
     (case plan_previous pl of
        Some n \<Rightarrow> role n
      | None \<Rightarrow> if d_role (plan_body pl) = ''superpeer'' then ''superpeer'' else ''client'')"

definition write_row :: "int \<Rightarrow> string \<Rightarrow> register_plan \<Rightarrow> server \<Rightarrow> string reply \<times> server" where
  "write_row now ip pl s =
     (let i = d_id (plan_body pl); rl = initial_role pl in
      case plan_previous pl of
        None \<Rightarrow>
          if list_ex (\<lambda>n. node_id n = i) (nodes s) then (Inl (500, ''UNIQUE constraint failed: nodes.node_id''), s)
          else (Inr ip, s\<lparr>nodes := nodes s @ [insert_row now rl ip pl]\<rparr>)
      | Some _ \<Rightarrow>
          (Inr ip, s\<lparr>nodes := map (\<lambda>n. if node_id n = i then update_row now (TTL (config s)) rl ip pl n else n)
                     (nodes s)\<rparr>))"

text \<open>The locked part: the mesh address of the node, the conflict check and the write.\<close>

definition claim_ip :: "int \<Rightarrow> string \<Rightarrow> register_plan \<Rightarrow> server \<Rightarrow> string reply \<times> server" where
  "claim_ip now ip pl s =
     (let i = d_id (plan_body pl) in
      if plan_previous pl = None \<or> ip \<noteq> mesh_ip (the (plan_previous pl)) then
        (case find (\<lambda>n. mesh_ip n = ip \<and> node_id n \<noteq> i) (nodes s) of
           None \<Rightarrow> write_row now ip pl s
         | Some other \<Rightarrow>
           if node_id other = [] then write_row now ip pl s
           else if now - TTL (config s) \<le> last_seen other then (Inl (409, ''mesh_ip is already assigned''), s)
           else write_row now ip pl (reclaim (node_id other) s))
      else write_row now ip pl s)"

definition register_commit :: "int \<Rightarrow> register_plan \<Rightarrow> server \<Rightarrow> (string reply \<times> server) option" where
  "register_commit now pl s =
     (let ip0 = d_mesh_ip (plan_body pl);
          ip1 = (if ip0 = [] then (case plan_previous pl of None \<Rightarrow> [] | Some n \<Rightarrow> mesh_ip n) else ip0) in
      if ip1 \<noteq> [] then Some (claim_ip now ip1 pl s)
      else case allocate s of
        None \<Rightarrow> None
      | Some None \<Rightarrow> Some (Inl (500, ''mesh address pool is exhausted''), s)
      | Some (Some ip) \<Rightarrow> Some (claim_ip now ip pl s))"

definition registrationChangesTopology :: "node option \<Rightarrow> int \<Rightarrow> node \<Rightarrow> bool" where
  "registrationChangesTopology previous onlineAfter nxt =
     (case previous of
        None \<Rightarrow> True
      | Some p \<Rightarrow>
        if last_seen p < onlineAfter then True
        else public_key p \<noteq> public_key nxt \<or> nat_type p \<noteq> nat_type nxt \<or> role p \<noteq> role nxt \<or>
             endpoint p \<noteq> endpoint nxt \<or> requested_role p \<noteq> requested_role nxt \<or>
             relay_capable p \<noteq> relay_capable nxt \<or> capacity p \<noteq> capacity nxt \<or> mesh_ip p \<noteq> mesh_ip nxt)"

record register_answer =
  ans_ip :: string
  ans_role :: string
  ans_changed :: bool
  ans_token :: "string option"

definition needs_rebalance :: "int \<Rightarrow> int \<Rightarrow> register_plan \<Rightarrow> bool" where
  "needs_rebalance now ttl pl =
     (let d = plan_body pl in
      case plan_previous pl of
        None \<Rightarrow> True
      | Some p \<Rightarrow> last_seen p < now - ttl \<or> nat_type p \<noteq> d_nat d \<or> requested_role p \<noteq> d_role d \<or>
                  relay_capable p \<noteq> plan_relay pl \<or> capacity p \<noteq> d_capacity d \<or>
                  (plan_account pl \<noteq> None \<and> owner_id p = None))"

definition heartbeat_links :: "int \<Rightarrow> string \<Rightarrow> LinkMeasurement list \<Rightarrow> server \<Rightarrow> server" where
  "heartbeat_links t i xs s =
     (if xs = [] then s
      else case updateLinkMetrics t i xs s of
        (ch, s') \<Rightarrow> if ch then s'\<lparr>metricStamp := metricStamp s' + 1\<rparr> else s')"

definition rebalance_after :: "int \<Rightarrow> int \<Rightarrow> register_plan \<Rightarrow> server \<Rightarrow> server" where
  "rebalance_after now ttl pl s =
     (if needs_rebalance now ttl pl
      then (case rebalanceRolesFor now (plan_account pl) s of
        (ch, s') \<Rightarrow> if ch then invalidateLinkCache s' else s')
      else s)"

text \<open>The part after the lock; without an invite header no token is issued.\<close>

definition register_finish ::
    "(string \<Rightarrow> string) \<Rightarrow> int \<Rightarrow> bytes option \<Rightarrow> request \<Rightarrow> string \<Rightarrow> register_plan \<Rightarrow> server \<Rightarrow>
     register_answer reply \<times> server" where
  "register_finish dg t rnd r ip pl s =
     (let d = plan_body pl; now = unix t; ttl = TTL (config s); s1 = heartbeat_links t (d_id d) (d_links d) s in
      case (if X_Mesh_Invite r = [] then (Some [], s1) else issueNodeToken dg now rnd (d_id d) s1) of
        (None, s2) \<Rightarrow> (Inl (500, ''could not issue node token''), s2)
      | (Some tk, s2) \<Rightarrow>
        (let s3 = rebalance_after now ttl pl s2;
             rl = (if needs_rebalance now ttl pl
                   then (case registeredNode (d_id d) s3 of None \<Rightarrow> initial_role pl | Some n \<Rightarrow> role n)
                   else initial_role pl) in
         (Inr \<lparr>ans_ip = ip, ans_role = rl,
               ans_changed = registrationChangesTopology (plan_previous pl) (now - ttl) (insert_row now rl ip pl),
               ans_token = (if tk = [] then None else Some tk)\<rparr>, s3)))"

definition register ::
    "(string \<Rightarrow> string) \<Rightarrow> (string \<Rightarrow> bytes) \<Rightarrow> int \<Rightarrow> bytes option \<Rightarrow> request \<Rightarrow> register_body option \<Rightarrow> server \<Rightarrow>
     (register_answer reply \<times> server) option" where
  "register dg sha t rnd r body s =
     (case register_check dg sha t r body s of
        (Inl e, s1) \<Rightarrow> Some (Inl e, s1)
      | (Inr pl, s1) \<Rightarrow>
        (case register_commit (unix t) pl s1 of
           None \<Rightarrow> None
         | Some (Inl e, s2) \<Rightarrow> Some (Inl e, s2)
         | Some (Inr ip, s2) \<Rightarrow> Some (register_finish dg t rnd r ip pl s2)))"

section \<open>Administration of nodes\<close>

definition nodeOwnedByAccount :: "string \<Rightarrow> int \<Rightarrow> server \<Rightarrow> bool" where
  "nodeOwnedByAccount i acc s =
     (case registeredNode i s of None \<Rightarrow> False | Some n \<Rightarrow> owner_id n = Some acc)"

definition requireNodeAccess ::
    "(string \<Rightarrow> string) \<Rightarrow> int \<Rightarrow> request \<Rightarrow> string \<Rightarrow> server \<Rightarrow> unit reply \<times> server" where
  "requireNodeAccess dg now r i s =
     (case accountIDForRequest dg now r s of
        (None, s1) \<Rightarrow> (Inr (), s1)
      | (Some acc, s1) \<Rightarrow>
        if nodeOwnedByAccount i acc s1 then (Inr (), s1) else (Inl (404, ''node not found''), s1))"

text \<open>\<^verbatim>\<open>adminAuth\<close> followed by \<^verbatim>\<open>requireNodeAccess\<close>, the opening of every handler for one node.\<close>

definition node_access ::
    "(string \<Rightarrow> string) \<Rightarrow> int \<Rightarrow> request \<Rightarrow> string \<Rightarrow> server \<Rightarrow> unit reply \<times> server" where
  "node_access dg now r i s =
     (case adminAuth dg now r s of
        (Inl e, s1) \<Rightarrow> (Inl e, s1)
      | (Inr _, s1) \<Rightarrow> requireNodeAccess dg now r i s1)"

text \<open>Deleting a node's row also deletes its port forwards, by the foreign keys of the schema.\<close>

definition drop_node :: "string \<Rightarrow> server \<Rightarrow> server" where
  "drop_node i s =
     s\<lparr>nodes := filter (\<lambda>n. node_id n \<noteq> i) (nodes s),
       port_forwards := filter (\<lambda>f. pf_source f \<noteq> i \<and> pf_target f \<noteq> i) (port_forwards s),
       services := filter (\<lambda>x. svc_node x \<noteq> i) (services s),
       role_overrides := (role_overrides s)(i := None),
       node_network := filter (\<lambda>x. net_node x \<noteq> i) (node_network s),
       dns_records := filter (\<lambda>x. dns_node x \<noteq> i) (dns_records s),
       node_firewall := (node_firewall s)(i := None),
       node_tokens := filter (\<lambda>x. nt_node x \<noteq> i) (node_tokens s)\<rparr>"

definition adminNode :: "(string \<Rightarrow> string) \<Rightarrow> int \<Rightarrow> request \<Rightarrow> string \<Rightarrow> server \<Rightarrow> unit reply \<times> server" where
  "adminNode dg now r i s0 =
     (case node_access dg now r i s0 of
        (Inl e, s) \<Rightarrow> (Inl e, s)
      | (Inr _, s) \<Rightarrow>
        if i = [] then (Inl (400, ''missing node_id''), s)
        else if registeredNode i s = None then (Inl (404, ''node not found''), s)
        else (Inr (), audit now ''node_revoked'' i (audit now ''node_deleted'' i
               ((drop_node i s)\<lparr>revoked_nodes := (revoked_nodes s)(i \<mapsto> (''removed via admin panel'', now))\<rparr>))))"

definition adminUnban :: "(string \<Rightarrow> string) \<Rightarrow> int \<Rightarrow> request \<Rightarrow> string \<Rightarrow> server \<Rightarrow> unit reply \<times> server" where
  "adminUnban dg now r i s0 =
     (case adminAuth dg now r s0 of
        (Inl e, s) \<Rightarrow> (Inl e, s)
      | (Inr _, s) \<Rightarrow>
        if revoked_nodes s i = None then (Inl (404, ''node is not banned''), s)
        else (Inr (), audit now ''node_unbanned'' i (s\<lparr>revoked_nodes := (revoked_nodes s)(i := None)\<rparr>)))"

definition override_role :: "(string \<Rightarrow> string) \<Rightarrow> int \<Rightarrow> request \<Rightarrow> string \<Rightarrow> string \<Rightarrow> server \<Rightarrow> server" where
  "override_role dg now r i rl s =
     (let s1 = s\<lparr>role_overrides := (role_overrides s)(i \<mapsto> rl),
                 nodes := map (\<lambda>n. if node_id n = i then n\<lparr>requested_role := rl\<rparr> else n) (nodes s)\<rparr>;
          (acc, s2) = accountIDForRequest dg now r s1 in
      audit now ''role_changed'' (i @ '':'' @ rl) (snd (rebalanceRolesFor now acc s2)))"

definition adminNodeRole ::
    "(string \<Rightarrow> string) \<Rightarrow> int \<Rightarrow> request \<Rightarrow> string \<Rightarrow> string option \<Rightarrow> server \<Rightarrow> string reply \<times> server" where
  "adminNodeRole dg now r i body s0 =
     (case node_access dg now r i s0 of
        (Inl e, s) \<Rightarrow> (Inl e, s)
      | (Inr _, s) \<Rightarrow>
        (case body of
           None \<Rightarrow> (Inl (400, ''role must be auto, iot, client or superpeer''), s)
         | Some rl \<Rightarrow>
           if rl \<notin> {''auto'', ''iot'', ''client'', ''superpeer''}
           then (Inl (400, ''role must be auto, iot, client or superpeer''), s)
           else case registeredNode i s of
             None \<Rightarrow> (Inl (404, ''node not found''), s)
           | Some n \<Rightarrow>
             if rl = ''superpeer'' \<and> nat_type n \<noteq> ''cone''
             then (Inl (409, ''only cone NAT nodes can be superpeers''), s)
             else (Inr rl, override_role dg now r i rl s)))"

definition telemetry ::
    "(string \<Rightarrow> string) \<Rightarrow> int \<Rightarrow> request \<Rightarrow> (string \<times> LinkMeasurement list) option \<Rightarrow> server \<Rightarrow>
     unit reply \<times> server" where
  "telemetry dg t r body s0 =
     (case auth dg t r s0 of
        (Inl e, s) \<Rightarrow> (Inl e, s)
      | (Inr _, s) \<Rightarrow>
        (case body of
           None \<Rightarrow> (Inl (400, ''invalid telemetry''), s)
         | Some (n, xs) \<Rightarrow>
           if n = [] then (Inl (400, ''invalid telemetry''), s)
           else case requireNodeAccess dg (unix t) r n s of
             (Inl e, s1) \<Rightarrow> (Inl e, s1)
           | (Inr _, s1) \<Rightarrow>
             (case updateLinkMetrics t n xs s1 of
                (ch, s2) \<Rightarrow> (Inr (), if ch then s2\<lparr>metricStamp := metricStamp s2 + 1\<rparr> else s2))))"

text \<open>The manual graph: links are stored with their ends in order, a repeated link replaces its cost.\<close>

definition put_graph_link :: "string \<times> string \<times> rat \<Rightarrow> (string \<times> string \<times> rat) list \<Rightarrow> (string \<times> string \<times> rat) list" where
  "put_graph_link e g =
     (let (x, y, c) = e; a = min x y; b = max x y in
      filter (\<lambda>(a', b', _). \<not> (a' = a \<and> b' = b)) g @ [(a, b, c)])"

definition put_graph_block :: "string \<times> string \<Rightarrow> (string \<times> string) list \<Rightarrow> (string \<times> string) list" where
  "put_graph_block e g =
     (let a = min (fst e) (snd e); b = max (fst e) (snd e) in if (a, b) \<in> set g then g else g @ [(a, b)])"

definition owned_pair :: "int option \<Rightarrow> server \<Rightarrow> string \<Rightarrow> string \<Rightarrow> bool" where
  "owned_pair acc s a b =
     (case acc of None \<Rightarrow> True | Some x \<Rightarrow> nodeOwnedByAccount a x s \<and> nodeOwnedByAccount b x s)"

fun check_links :: "int option \<Rightarrow> server \<Rightarrow> (string \<times> string \<times> rat) list \<Rightarrow> (nat \<times> string) option" where
  "check_links acc s [] = None"
| "check_links acc s ((a, b, c) # es) =
     (if a = [] \<or> b = [] \<or> a = b \<or> c \<le> 0 \<or> 1000 < c then Some (400, ''invalid graph link'')
      else if \<not> owned_pair acc s a b then Some (404, ''node not found'')
      else check_links acc s es)"

definition check_blocks :: "int option \<Rightarrow> server \<Rightarrow> (string \<times> string) list \<Rightarrow> (nat \<times> string) option" where
  "check_blocks acc s es =
     (if list_ex (\<lambda>(a, b). a = [] \<or> b = [] \<or> a = b \<or> \<not> owned_pair acc s a b) es
      then Some (400, ''invalid blocked graph link'') else None)"

definition adminGraph ::
    "(string \<Rightarrow> string) \<Rightarrow> int \<Rightarrow> request \<Rightarrow> ((string \<times> string \<times> rat) list \<times> (string \<times> string) list) option \<Rightarrow>
     server \<Rightarrow> ((string \<times> string \<times> rat) list \<times> (string \<times> string) list) reply \<times> server" where
  "adminGraph dg now r body s0 =
     (case adminAuth dg now r s0 of
        (Inl e, s) \<Rightarrow> (Inl e, s)
      | (Inr _, s1) \<Rightarrow>
        (case accountIDForRequest dg now r s1 of (acc, s) \<Rightarrow>
         (let mine = (\<lambda>a b. owned_pair acc s a b) in
          if Method r = ''GET'' then
            (Inr (filter (\<lambda>(a, b, _). mine a b) (sort_key (\<lambda>(a, b, _). (a, b)) (graph_links s)),
                  filter (\<lambda>(a, b). mine a b) (sort_key (\<lambda>x. x) (graph_blocks s))), s)
          else case body of
            None \<Rightarrow> (Inl (400, ''invalid JSON''), s)
          | Some (ls, bs) \<Rightarrow>
            (case check_links acc s ls of
               Some e \<Rightarrow> (Inl e, s)
             | None \<Rightarrow>
               (case check_blocks acc s bs of
                  Some e \<Rightarrow> (Inl e, s)
                | None \<Rightarrow>
                  (let g0 = filter (\<lambda>(a, b, _). \<not> mine a b) (graph_links s);
                       b0 = filter (\<lambda>(a, b). \<not> mine a b) (graph_blocks s) in
                   (Inr (ls, bs), invalidateLinkCache
                     (s\<lparr>graph_links := fold put_graph_link ls g0, graph_blocks := fold put_graph_block bs b0\<rparr>))))))))"

definition normalizeDNSUpstream :: "(string \<Rightarrow> bool) \<Rightarrow> string \<Rightarrow> string go_result" where
  "normalizeDNSUpstream is_ip v0 =
     (let v = TrimSpace v0 in
      if v = [] then Inr []
      else case SplitHostPort v of
        Some (h, port) \<Rightarrow>
          (case Atoi port of
             None \<Rightarrow> Inl ''invalid dns address''
           | Some p \<Rightarrow> if h = [] \<or> p < 1 \<or> 65535 < p then Inl ''invalid dns address''
                       else Inr (JoinHostPort h (itoa (nat p))))
      | None \<Rightarrow>
        if is_ip v then Inr (JoinHostPort v ''53'')
        else if list_ex (\<lambda>c. c = CHR '' '' \<or> c = CHR ''/'' \<or> c = CHR 0x5C) v then Inl ''invalid dns address''
        else Inr (JoinHostPort v ''53''))"

definition adminConfig ::
    "(string \<Rightarrow> string) \<Rightarrow> (string \<Rightarrow> bool) \<Rightarrow> int \<Rightarrow> request \<Rightarrow> topologySettings option \<Rightarrow> server \<Rightarrow>
     topologySettings reply \<times> server" where
  "adminConfig dg is_ip now r body s0 =
     (case adminAuth dg now r s0 of
        (Inl e, s) \<Rightarrow> (Inl e, s)
      | (Inr _, s) \<Rightarrow>
        if Method r = ''GET'' then (Inr (config s), s)
        else case body of
          None \<Rightarrow> (Inl (400, ''invalid JSON''), s)
        | Some c \<Rightarrow>
          (case validSettings c of
             Inl e \<Rightarrow> (Inl (400, e), s)
           | Inr _ \<Rightarrow>
             (case normalizeDNSUpstream is_ip (DNSUpstream c) of
                Inl e \<Rightarrow> (Inl (400, e), s)
              | Inr u \<Rightarrow>
                (let c' = c\<lparr>DNSUpstream := u\<rparr>;
                     (_, s1) = rebalanceRoles now (invalidateLinkCache (s\<lparr>config := c'\<rparr>)) in
                 (Inr c', s1)))))"

section \<open>Who holds which address\<close>

definition ip_view :: "server \<Rightarrow> (string \<times> string) list" where
  "ip_view s = map (\<lambda>n. (node_id n, mesh_ip n)) (nodes s)"

definition unique_view :: "(string \<times> string) list \<Rightarrow> bool" where
  "unique_view v \<longleftrightarrow> distinct (map fst v) \<and> [] \<notin> fst ` set v \<and>
     (\<forall>i j x. (i, x) \<in> set v \<longrightarrow> (j, x) \<in> set v \<longrightarrow> x \<noteq> [] \<longrightarrow> i = j)"

definition put_ip :: "string \<Rightarrow> string \<Rightarrow> (string \<times> string) list \<Rightarrow> (string \<times> string) list" where
  "put_ip i ip v = map (\<lambda>(j, x). if j = i then (j, ip) else (j, x)) v"

text \<open>The invariant of the registry: no two nodes hold the same mesh address, no two rows have the same id,
  and no banned identity has a row.\<close>

definition registry_ok :: "server \<Rightarrow> bool" where
  "registry_ok s \<longleftrightarrow> unique_view (ip_view s) \<and> (\<forall>i \<in> fst ` set (ip_view s). revoked_nodes s i = None)"

lemma map_fst_put [simp]: "map fst (put_ip i ip v) = map fst v"
  by (induction v) (auto simp: put_ip_def)

lemma fst_set_put [simp]: "fst ` set (put_ip i ip v) = fst ` set v"
  by (metis list.set_map map_fst_put)

lemma put_ip_member: "(j, y) \<in> set (put_ip i ip v) \<longleftrightarrow> (if j = i then y = ip \<and> i \<in> fst ` set v else (j, y) \<in> set v)"
  by (induction v) (auto simp: put_ip_def split: if_splits)

lemma unique_put:
  assumes "unique_view v" "ip = [] \<or> (\<forall>j. (j, ip) \<in> set v \<longrightarrow> j = i)"
  shows "unique_view (put_ip i ip v)"
  using assms by (auto simp: unique_view_def put_ip_member split: if_splits)

lemma unique_append:
  assumes "unique_view v" "i \<notin> fst ` set v" "i \<noteq> []" "\<And>j. (j, ip) \<notin> set v"
  shows "unique_view (v @ [(i, ip)])"
  using assms by (auto simp: unique_view_def)

lemma unique_filter: "unique_view v \<Longrightarrow> unique_view (filter P v)"
  by (auto simp: unique_view_def distinct_map_filter)

lemma ip_view_reclaim: "ip_view (reclaim i s) = put_ip i [] (ip_view s)"
  by (simp add: ip_view_def reclaim_def put_ip_def)

lemma ip_view_update:
  "ip_view (s\<lparr>nodes := map (\<lambda>n. if node_id n = i then update_row now ttl rl ip pl n else n) (nodes s)\<rparr>) =
     put_ip i ip (ip_view s)"
  by (simp add: ip_view_def put_ip_def update_row_def Let_def)

lemma ip_view_insert:
  "ip_view (s\<lparr>nodes := nodes s @ [insert_row now rl ip pl]\<rparr>) = ip_view s @ [(d_id (plan_body pl), ip)]"
  by (simp add: ip_view_def insert_row_def Let_def)

lemma registered_view: "(\<exists>n. registeredNode i s = Some n \<and> mesh_ip n = x) \<Longrightarrow> (i, x) \<in> set (ip_view s)"
  by (auto simp: registeredNode_def ip_view_def dest!: find_SomeD)

lemma unregistered_view: "registeredNode i s = None \<longleftrightarrow> i \<notin> fst ` set (ip_view s)"
  by (force simp: registeredNode_def ip_view_def find_None_iff)

text \<open>A plan is current when it holds the node's row as it is now.\<close>

definition plan_current :: "register_plan \<Rightarrow> server \<Rightarrow> bool" where
  "plan_current pl s \<longleftrightarrow> plan_previous pl = registeredNode (d_id (plan_body pl)) s"

lemma write_row_ok:
  assumes s: "unique_view (ip_view s)" and pl: "d_id (plan_body pl) \<noteq> []"
    and free: "\<And>j. (j, ip) \<in> set (ip_view s) \<Longrightarrow> j = d_id (plan_body pl)"
    and w: "write_row now ip pl s = (r, s')"
  shows "unique_view (ip_view s') \<and> fst ` set (ip_view s') \<subseteq> insert (d_id (plan_body pl)) (fst ` set (ip_view s)) \<and>
    revoked_nodes s' = revoked_nodes s"
proof -
  let ?i = "d_id (plan_body pl)"
  have view: "list_ex (\<lambda>n. node_id n = ?i) (nodes s) \<longleftrightarrow> ?i \<in> fst ` set (ip_view s)"
    by (force simp: list_ex_iff ip_view_def)
  consider (err) "s' = s" | (new) "?i \<notin> fst ` set (ip_view s)" "ip_view s' = ip_view s @ [(?i, ip)]" "revoked_nodes s' = revoked_nodes s"
    | (old) "ip_view s' = put_ip ?i ip (ip_view s)" "revoked_nodes s' = revoked_nodes s"
  proof (cases "plan_previous pl")
    case None
    show ?thesis
    proof (cases "?i \<in> fst ` set (ip_view s)")
      case True
      then show ?thesis using w err None view by (simp add: write_row_def Let_def)
    next
      case False
      then have "s' = s\<lparr>nodes := nodes s @ [insert_row now (initial_role pl) ip pl]\<rparr>"
        using w None view by (simp add: write_row_def Let_def)
      then show ?thesis using new False by (simp add: ip_view_insert)
    qed
  next
    case (Some a)
    then have "s' = s\<lparr>nodes := map (\<lambda>n. if node_id n = ?i then update_row now (TTL (config s)) (initial_role pl) ip pl n else n) (nodes s)\<rparr>"
      using w by (simp add: write_row_def Let_def)
    then show ?thesis using old by (simp add: ip_view_update)
  qed
  then show ?thesis
  proof cases
    case new
    then have "(j, ip) \<notin> set (ip_view s)" for j using free [of j] by force
    then show ?thesis using new unique_append [OF s new(1) pl] by auto
  qed (use s unique_put [OF s] free in auto)
qed

lemma claim_ip_ok:
  assumes s: "unique_view (ip_view s)" and pl: "d_id (plan_body pl) \<noteq> []" "plan_current pl s" and ip: "ip \<noteq> []"
    and c: "claim_ip now ip pl s = (r, s')"
  shows "unique_view (ip_view s') \<and> fst ` set (ip_view s') \<subseteq> insert (d_id (plan_body pl)) (fst ` set (ip_view s)) \<and>
    revoked_nodes s' = revoked_nodes s"
proof -
  let ?i = "d_id (plan_body pl)"
  show ?thesis
  proof (cases "plan_previous pl = None \<or> ip \<noteq> mesh_ip (the (plan_previous pl))")
    case False
    then have "(?i, ip) \<in> set (ip_view s)"
      using pl(2) by (intro registered_view) (auto simp: plan_current_def)
    then have "j = ?i" if "(j, ip) \<in> set (ip_view s)" for j
      using that s ip by (auto simp: unique_view_def)
    moreover have "write_row now ip pl s = (r, s')" using c False by (simp add: claim_ip_def Let_def)
    ultimately show ?thesis by (rule write_row_ok [OF s pl(1)])
  next
    case True
    show ?thesis
    proof (cases "find (\<lambda>n. mesh_ip n = ip \<and> node_id n \<noteq> ?i) (nodes s)")
      case None
      then have "j = ?i" if "(j, ip) \<in> set (ip_view s)" for j
        using that by (auto simp: ip_view_def find_None_iff)
      moreover have "write_row now ip pl s = (r, s')" using c True None by (simp add: claim_ip_def Let_def)
      ultimately show ?thesis by (rule write_row_ok [OF s pl(1)])
    next
      case (Some other)
      then have o: "(node_id other, ip) \<in> set (ip_view s)" "node_id other \<noteq> ?i"
        by (auto simp: ip_view_def dest!: find_SomeD)
      have "node_id other \<noteq> []" using s o(1) by (force simp: unique_view_def)
      then consider "s' = s" | "write_row now ip pl (reclaim (node_id other) s) = (r, s')"
        using c True Some by (auto simp: claim_ip_def Let_def split: if_splits)
      then show ?thesis
      proof cases
        case 2
        have u: "unique_view (ip_view (reclaim (node_id other) s))"
          unfolding ip_view_reclaim by (rule unique_put [OF s]) simp
        have "j = ?i" if "(j, ip) \<in> set (ip_view (reclaim (node_id other) s))" for j
          using that s o(1) ip by (auto simp: ip_view_reclaim put_ip_member unique_view_def split: if_splits)
        then have "unique_view (ip_view s') \<and>
            fst ` set (ip_view s') \<subseteq> insert ?i (fst ` set (ip_view (reclaim (node_id other) s))) \<and>
            revoked_nodes s' = revoked_nodes (reclaim (node_id other) s)"
          by (rule write_row_ok [OF u pl(1) _ 2])
        then show ?thesis by (simp add: ip_view_reclaim) (simp add: reclaim_def)
      qed (use s in auto)
    qed
  qed
qed

lemma Addr_String_inj: "Addr_String a = Addr_String b \<longleftrightarrow> a = b"
  by (metis ParseAddr_String option.inject)

lemma Addr_String_nonempty: "Addr_String a \<noteq> []"
proof
  assume "Addr_String a = []"
  then have "ParseAddr [] = Some a" by (metis ParseAddr_String)
  then show False by (simp add: ParseAddr_def)
qed

lemma scan_pool_result:
  assumes "scan_pool net used ip = Some y"
  shows "\<forall>x. y = Some x \<longrightarrow> x \<noteq> [] \<and> x \<notin> set used \<and> (\<exists>a. x = Addr_String a \<and> prefix_Contains net a)"
  by (rule scan_pool.raw_induct [where P = "\<lambda>net used ip y. \<forall>x. y = Some x \<longrightarrow> x \<noteq> [] \<and> x \<notin> set used \<and>
      (\<exists>a. x = Addr_String a \<and> prefix_Contains net a)", OF _ assms])
    (fastforce simp: Addr_String_nonempty split: if_splits)

lemma scan_pool_sound:
  "scan_pool net used ip = Some (Some x) \<Longrightarrow> x \<noteq> [] \<and> x \<notin> set used \<and> (\<exists>a. x = Addr_String a \<and> prefix_Contains net a)"
  using scan_pool_result by blast

lemma scan_pool_stops:
  assumes "Addr_String (ip + of_nat k) \<notin> set used"
  shows "scan_pool net used ip \<noteq> None"
  using assms
proof (induction k arbitrary: ip)
  case 0
  then show ?case by (subst scan_pool.simps) simp
next
  case (Suc k)
  have "scan_pool net used (inc ip) \<noteq> None"
    using Suc.prems by (intro Suc.IH) (simp add: inc_def ac_simps)
  then show ?case by (subst scan_pool.simps) simp
qed

lemma unused_address:
  assumes "length used < 4294967296"
  shows "\<exists>k. Addr_String ((ip :: ipv4) + of_nat k) \<notin> set used"
proof (rule ccontr)
  let ?f = "\<lambda>k. Addr_String (ip + of_nat k)"
  assume "\<not> ?thesis"
  then have sub: "?f ` {..length used} \<subseteq> set used" by auto
  have "inj_on ?f {..length used}"
  proof
    fix x y assume "x \<in> {..length used}" "y \<in> {..length used}" "?f x = ?f y"
    then have "(of_nat x :: ipv4) = of_nat y" "x < 4294967296" "y < 4294967296"
      using assms by (auto simp: Addr_String_inj)
    then have "unat (of_nat x :: ipv4) = unat (of_nat y :: ipv4)" by simp
    then show "x = y" using \<open>x < 4294967296\<close> \<open>y < 4294967296\<close> by (simp add: unat_of_nat)
  qed
  then have "card (?f ` {..length used}) = Suc (length used)" by (simp add: card_image)
  then show False using card_mono [OF finite_set sub] card_length [of used] by linarith
qed

text \<open>The search for a free mesh address ends, and an address it returns is inside the mesh network and
  held by no node.\<close>

lemma allocate_returns_free:
  assumes "length (nodes s) < 4294967296"
  shows "\<exists>r. allocate s = Some r \<and>
    (\<forall>ip. r = Some ip \<longrightarrow> ip \<notin> mesh_ip ` set (nodes s) \<and>
       (\<exists>a. ParseAddr ip = Some a \<and> prefix_Contains (network s) a))"
proof -
  have "scan_pool (network s) (map mesh_ip (nodes s)) (inc (Addr (Masked (network s)))) \<noteq> None"
    using unused_address [of "map mesh_ip (nodes s)"] assms scan_pool_stops by (metis length_map)
  then obtain r where "allocate s = Some r" by (auto simp: allocate_def)
  then show ?thesis using scan_pool_sound [of "network s" "map mesh_ip (nodes s)"] by (fastforce simp: allocate_def)
qed

lemma allocate_returns_free_witness:
  "\<exists>r. allocate sample_server = Some r"
  using allocate_returns_free [of sample_server] by (auto simp: sample_server_def server.defs accounts.defs)

lemma register_commit_ok:
  assumes s: "unique_view (ip_view s)" and pl: "d_id (plan_body pl) \<noteq> []" "plan_current pl s"
    and c: "register_commit now pl s = Some (r, s')"
  shows "unique_view (ip_view s') \<and> fst ` set (ip_view s') \<subseteq> insert (d_id (plan_body pl)) (fst ` set (ip_view s)) \<and>
    revoked_nodes s' = revoked_nodes s"
proof -
  consider "s' = s" | ip where "ip \<noteq> []" "claim_ip now ip pl s = (r, s')"
    using c scan_pool_sound [of "network s" "map mesh_ip (nodes s)"]
    by (auto simp: register_commit_def Let_def allocate_def split: if_splits option.splits)
  then show ?thesis
  proof cases
    case (2 ip)
    then show ?thesis by (intro claim_ip_ok [OF s pl])
  qed (use s in auto)
qed

section \<open>Steps that leave the addresses alone\<close>

text \<open>A step keeps the rows when it changes no node, no ban, no network table and no port forward.\<close>

definition same_rows :: "server \<Rightarrow> server \<Rightarrow> bool" where
  "same_rows s s' \<longleftrightarrow> nodes s' = nodes s \<and> revoked_nodes s' = revoked_nodes s
     \<and> network s' = network s \<and> node_network s' = node_network s \<and> dns_records s' = dns_records s
     \<and> port_forwards s' = port_forwards s \<and> next_forward s' = next_forward s"

lemma same_rows_refl [simp]: "same_rows s s" by (simp add: same_rows_def)

lemma same_rows_trans: "same_rows a b \<Longrightarrow> same_rows b c \<Longrightarrow> same_rows a c" by (simp add: same_rows_def)

lemma sessionUser_rows: "same_rows s (snd (sessionUser dg now r s))"
  by (auto simp: sessionUser_def same_rows_def Let_def split: option.splits)

lemma accountIDForRequest_rows: "same_rows s (snd (accountIDForRequest dg now r s))"
  using sessionUser_rows [of s dg now r] by (auto simp: accountIDForRequest_def split: prod.splits option.splits)

lemma adminAuth_rows: "same_rows s (snd (adminAuth dg now r s))"
  using sessionUser_rows [of s dg now r] by (auto simp: adminAuth_def split: prod.splits option.splits)

lemma auth_rows: "same_rows s (snd (auth dg t r s))"
  by (auto simp: auth_def inviteRegistrationAuthorized_def same_rows_def Let_def split: prod.splits option.splits bool.splits)

lemma requireNodeAccess_rows: "same_rows s (snd (requireNodeAccess dg now r i s))"
  using accountIDForRequest_rows [of s dg now r] by (auto simp: requireNodeAccess_def split: prod.splits option.splits)

lemma node_access_rows: "same_rows s (snd (node_access dg now r i s))"
proof (cases "adminAuth dg now r s")
  case (Pair a s1)
  then have "same_rows s s1" using adminAuth_rows [of s dg now r] by simp
  then show ?thesis using same_rows_trans [OF _ requireNodeAccess_rows] by (simp add: node_access_def Pair split: sum.split)
qed

lemma fold_links_rows: "same_rows s (snd (fold_links t n xs ch s))"
  by (induction t n xs ch s rule: fold_links.induct) (auto simp: same_rows_def Let_def)

lemma issueNodeToken_rows: "same_rows s (snd (issueNodeToken dg now rnd i s))"
  by (auto simp: issueNodeToken_def same_rows_def Let_def split: option.splits)

text \<open>A step keeps the view when it changes no id, no address, no ban, no network table and no port forward.\<close>

definition same_view :: "server \<Rightarrow> server \<Rightarrow> bool" where
  "same_view s s' \<longleftrightarrow> ip_view s' = ip_view s \<and> revoked_nodes s' = revoked_nodes s
     \<and> network s' = network s \<and> node_network s' = node_network s \<and> dns_records s' = dns_records s
     \<and> port_forwards s' = port_forwards s \<and> next_forward s' = next_forward s"

lemma same_rows_view: "same_rows s s' \<Longrightarrow> same_view s s'"
  by (simp add: same_rows_def same_view_def ip_view_def)

lemma same_view_trans: "same_view a b \<Longrightarrow> same_view b c \<Longrightarrow> same_view a c"
  by (simp add: same_view_def)

lemma same_view_ok: "same_view s s' \<Longrightarrow> registry_ok s \<Longrightarrow> registry_ok s'"
  by (simp add: same_view_def registry_ok_def)

lemma set_role_view: "same_view s (set_role i rl s)"
  by (auto simp: same_view_def ip_view_def set_role_def)

lemma apply_roles_view: "same_view s (snd (apply_roles super ns ch s))"
proof (induction super ns ch s rule: apply_roles.induct)
  case (2 super n ns changed s)
  then show ?case by (auto intro: same_view_trans [OF set_role_view])
qed (simp add: same_view_def)

lemma rebalance_view: "same_view s (snd (rebalanceRolesFor now owner s))"
  by (simp add: rebalanceRolesFor_def Let_def apply_roles_view)

section \<open>The registry invariant\<close>

lemma overridden_id [simp]: "d_id (overridden s d) = d_id d"
  by (simp add: overridden_def split: option.split)

lemma if_split_Inr_E: "(if b then Inl e else x) = Inr y \<Longrightarrow> (\<not> b \<Longrightarrow> x = Inr y \<Longrightarrow> P) \<Longrightarrow> P"
  by (cases b) auto

lemma plan_registration_Inr:
  assumes "plan_registration sha acc d s = Inr pl"
  shows "plan_current pl s \<and> d_id (plan_body pl) = d_id d \<and> d_id d \<noteq> [] \<and> revoked_nodes s (d_id d) = None"
proof -
  have ok: "valid_body d \<and> \<not> nodeRevoked (d_id d) s"
    using assms unfolding plan_registration_def Let_def
    by (elim if_split_Inr_E) (simp only: not_not simp_thms)
  have "plan_previous pl = registeredNode (d_id d) s \<and> d_id (plan_body pl) = d_id (overridden s d)"
    using assms unfolding plan_registration_def Let_def
    by (elim if_split_Inr_E) (drule sym, simp only: sum.inject, simp)
  moreover have "d_id d \<noteq> []" using ok unfolding valid_body_def by blast
  moreover have "revoked_nodes s (d_id d) = None" using ok unfolding nodeRevoked_def by blast
  ultimately show ?thesis by (simp add: plan_current_def)
qed

lemma register_check_cases:
  assumes "register_check dg sha t r body s = (res, s')"
  shows "same_rows s s' \<and> (\<forall>pl. res = Inr pl \<longrightarrow> plan_current pl s' \<and> d_id (plan_body pl) \<noteq> [] \<and>
    revoked_nodes s' (d_id (plan_body pl)) = None \<and> (\<exists>d. body = Some d \<and> d_id d = d_id (plan_body pl)))"
proof (cases "auth dg t r s")
  case (Pair a s1)
  have s1: "same_rows s s1" using auth_rows [of s dg t r] Pair by simp
  show ?thesis
  proof (cases a)
    case (Inl e)
    then show ?thesis using assms Pair s1 by (auto simp: register_check_def)
  next
    case (Inr u)
    obtain acc s2 where a2: "accountIDForRequest dg (unix t) r s1 = (acc, s2)" by force
    have s2: "same_rows s s2"
      using same_rows_trans [OF s1] accountIDForRequest_rows [of s1 dg "unix t" r] a2 by simp
    show ?thesis
    proof (cases body)
      case None
      then have "res = Inl (400, ''missing or invalid required fields'') \<and> s' = s2"
        using assms unfolding register_check_def Pair Inr Let_def by (simp add: a2)
      then show ?thesis using s2 by simp
    next
      case (Some d)
      let ?acc = "case acc of None \<Rightarrow> invited_owner (X_Mesh_Invite r) s2 | Some a \<Rightarrow> Some a"
      have "(plan_registration sha ?acc d s2, s2) = (res, s')"
        using assms Some unfolding register_check_def Pair Inr Let_def by (auto simp: a2)
      then have p: "plan_registration sha ?acc d s2 = res" "s' = s2" by (metis prod.inject)+
      show ?thesis
      proof (intro conjI allI impI)
        show "same_rows s s'" using s2 p by simp
        fix pl assume "res = Inr pl"
        then have "plan_current pl s2 \<and> d_id (plan_body pl) = d_id d \<and> d_id d \<noteq> [] \<and> revoked_nodes s2 (d_id d) = None"
          using plan_registration_Inr p by blast
        then show "plan_current pl s'" "d_id (plan_body pl) \<noteq> []" "revoked_nodes s' (d_id (plan_body pl)) = None"
          "\<exists>d. body = Some d \<and> d_id d = d_id (plan_body pl)" using p Some by simp_all
      qed
    qed
  qed
qed

lemma heartbeat_links_view: "same_view s (heartbeat_links t i xs s)"
proof (cases "updateLinkMetrics t i xs s")
  case (Pair ch s')
  then have "same_rows s s'" using fold_links_rows [of s t i xs False] by (simp add: updateLinkMetrics_def)
  then show ?thesis using Pair by (auto simp: heartbeat_links_def same_rows_def same_view_def ip_view_def)
qed

lemma rebalance_after_view: "same_view s (rebalance_after now ttl pl s)"
  using rebalance_view [of s now "plan_account pl"]
  by (auto simp: rebalance_after_def invalidateLinkCache_def same_view_def ip_view_def split: prod.splits)

lemma register_finish_view: "same_view s (snd (register_finish dg t rnd r ip pl s))"
proof -
  let ?s1 = "heartbeat_links t (d_id (plan_body pl)) (d_links (plan_body pl)) s"
  obtain tk s2 where tk: "(if X_Mesh_Invite r = [] then (Some [], ?s1)
      else issueNodeToken dg (unix t) rnd (d_id (plan_body pl)) ?s1) = (tk, s2)" by force
  have "same_view ?s1 s2"
    using tk same_rows_view [OF issueNodeToken_rows [of ?s1 dg "unix t" rnd "d_id (plan_body pl)"]]
    by (auto simp: same_view_def split: if_splits)
  then have "same_view s s2" by (rule same_view_trans [OF heartbeat_links_view])
  then show ?thesis
    using same_view_trans [OF _ rebalance_after_view] unfolding register_finish_def Let_def tk
    by (simp split: option.split)
qed

lemma registration_ok:
  assumes s: "registry_ok s" and reg: "register dg sha t rnd r body s = Some (res, s')"
  shows "registry_ok s'"
proof -
  obtain c s1 where c: "register_check dg sha t r body s = (c, s1)" by force
  have v1: "same_view s s1" and
    plan: "\<And>pl. c = Inr pl \<Longrightarrow> plan_current pl s1 \<and> d_id (plan_body pl) \<noteq> [] \<and> revoked_nodes s1 (d_id (plan_body pl)) = None"
    using register_check_cases [OF c] same_rows_view by auto
  have ok1: "registry_ok s1" by (rule same_view_ok [OF v1 s])
  show ?thesis
  proof (cases c)
    case (Inl e)
    then show ?thesis using reg c ok1 by (simp add: register_def)
  next
    case (Inr pl)
    obtain k s2 where k: "register_commit (unix t) pl s1 = Some (k, s2)"
      using reg c Inr by (auto simp: register_def split: option.splits)
    have ok2: "registry_ok s2"
    proof -
      have u: "unique_view (ip_view s1)" using ok1 unfolding registry_ok_def by blast
      have b: "\<forall>i \<in> fst ` set (ip_view s1). revoked_nodes s1 i = None"
        using ok1 unfolding registry_ok_def by (rule conjunct2)
      have "unique_view (ip_view s2)" "revoked_nodes s2 = revoked_nodes s1"
        "fst ` set (ip_view s2) \<subseteq> insert (d_id (plan_body pl)) (fst ` set (ip_view s1))"
        using register_commit_ok [OF u _ _ k] plan [OF Inr] by simp_all
      then show ?thesis unfolding registry_ok_def using b plan [OF Inr] by fastforce
    qed
    show ?thesis
    proof (cases k)
      case (Inl e)
      then show ?thesis using reg c Inr k ok2 by (simp add: register_def)
    next
      case k': (Inr ip)
      then have "s' = snd (register_finish dg t rnd r ip pl s2)"
        using reg c Inr k by (simp add: register_def)
      then show ?thesis using same_view_ok [OF register_finish_view ok2] by simp
    qed
  qed
qed

lemma drop_node_view: "ip_view (drop_node i s) = filter (\<lambda>(j, x). j \<noteq> i) (ip_view s)"
  by (simp add: ip_view_def drop_node_def filter_map comp_def)

lemma audit_rows: "same_rows s (audit now ev d s)"
  by (simp add: same_rows_def audit_def)

lemma adminNode_ok:
  assumes s: "registry_ok s" and a: "adminNode dg now r i s = (res, s')"
  shows "registry_ok s'"
proof -
  obtain c s1 where c: "node_access dg now r i s = (c, s1)" by force
  have ok1: "registry_ok s1"
    using same_view_ok [OF same_rows_view [OF node_access_rows [of s dg now r i]] s] c by simp
  let ?s2 = "(drop_node i s1)\<lparr>revoked_nodes := (revoked_nodes s1)(i \<mapsto> (''removed via admin panel'', now))\<rparr>"
  have view: "ip_view ?s2 = filter (\<lambda>(j, x). j \<noteq> i) (ip_view s1)"
    using drop_node_view [of i s1] by (simp add: ip_view_def)
  have "registry_ok ?s2"
    using ok1 unique_filter unfolding registry_ok_def view by auto
  then have "registry_ok (audit now ''node_revoked'' i (audit now ''node_deleted'' i ?s2))"
    by (intro same_view_ok [OF same_rows_view [OF audit_rows]])
  then show ?thesis using a c ok1 unfolding adminNode_def by (auto split: sum.splits if_splits)
qed

lemma adminUnban_ok:
  assumes s: "registry_ok s" and a: "adminUnban dg now r i s = (res, s')"
  shows "registry_ok s'"
proof -
  obtain c s1 where c: "adminAuth dg now r s = (c, s1)" by force
  have ok1: "registry_ok s1"
    using same_view_ok [OF same_rows_view [OF adminAuth_rows [of s dg now r]] s] c by simp
  then have "registry_ok (s1\<lparr>revoked_nodes := (revoked_nodes s1)(i := None)\<rparr>)"
    by (auto simp: registry_ok_def ip_view_def)
  then have "registry_ok (audit now ''node_unbanned'' i (s1\<lparr>revoked_nodes := (revoked_nodes s1)(i := None)\<rparr>))"
    by (intro same_view_ok [OF same_rows_view [OF audit_rows]])
  then show ?thesis using a c ok1 unfolding adminUnban_def by (auto split: sum.splits if_splits)
qed

lemma override_role_view: "same_view s (override_role dg now r i rl s)"
proof -
  let ?s1 = "s\<lparr>role_overrides := (role_overrides s)(i \<mapsto> rl),
    nodes := map (\<lambda>n. if node_id n = i then n\<lparr>requested_role := rl\<rparr> else n) (nodes s)\<rparr>"
  obtain acc s2 where a: "accountIDForRequest dg now r ?s1 = (acc, s2)" by force
  have "same_view s ?s1" by (auto simp: same_view_def ip_view_def)
  moreover have "same_view ?s1 s2"
    using same_rows_view [OF accountIDForRequest_rows [of ?s1 dg now r]] unfolding a by simp
  ultimately have "same_view s (snd (rebalanceRolesFor now acc s2))"
    using same_view_trans rebalance_view by blast
  then have "same_view s (audit now ''role_changed'' (i @ '':'' @ rl) (snd (rebalanceRolesFor now acc s2)))"
    by (rule same_view_trans [OF _ same_rows_view [OF audit_rows]])
  then show ?thesis unfolding override_role_def Let_def a by simp
qed

lemma adminNodeRole_view: "same_view s (snd (adminNodeRole dg now r i body s))"
proof -
  obtain c s1 where c: "node_access dg now r i s = (c, s1)" by force
  have v1: "same_view s s1" using same_rows_view [OF node_access_rows [of s dg now r i]] c by simp
  have "snd (adminNodeRole dg now r i body s) = s1 \<or>
    (\<exists>rl. snd (adminNodeRole dg now r i body s) = override_role dg now r i rl s1)"
    unfolding adminNodeRole_def c by (simp split: sum.split option.split) blast
  then show ?thesis using v1 same_view_trans override_role_view by metis
qed

lemma telemetry_view: "same_view s (snd (telemetry dg t r body s))"
proof -
  obtain c s1 where c: "auth dg t r s = (c, s1)" by force
  have v1: "same_rows s s1" using auth_rows [of s dg t r] c by simp
  show ?thesis
  proof (cases "body")
    case None
    then show ?thesis using v1 same_rows_view by (auto simp: telemetry_def c split: sum.split)
  next
    case (Some b)
    obtain n xs where b: "b = (n, xs)" by force
    obtain k s2 where k: "requireNodeAccess dg (unix t) r n s1 = (k, s2)" by force
    have v2: "same_rows s s2"
      using same_rows_trans [OF v1] requireNodeAccess_rows [of s1 dg "unix t" r n] k by simp
    obtain ch s3 where u: "updateLinkMetrics t n xs s2 = (ch, s3)" by force
    have "same_rows s2 s3" using fold_links_rows [of s2 t n xs False] u by (simp add: updateLinkMetrics_def)
    then have v3: "same_rows s s3" using v2 same_rows_trans by blast
    then have "same_rows s (s3\<lparr>metricStamp := metricStamp s3 + 1\<rparr>)" by (simp add: same_rows_def)
    then show ?thesis using v1 v2 v3 same_rows_view by (auto simp: telemetry_def c Some b k u split: sum.split)
  qed
qed

lemma adminConfig_view: "same_view s (snd (adminConfig dg is_ip now r body s))"
proof -
  obtain c s1 where c: "adminAuth dg now r s = (c, s1)" by force
  have v1: "same_view s s1" using same_rows_view [OF adminAuth_rows [of s dg now r]] c by simp
  have "same_view s (snd (rebalanceRoles now (invalidateLinkCache (s1\<lparr>config := x\<rparr>))))" for x
  proof -
    have "same_view s1 (invalidateLinkCache (s1\<lparr>config := x\<rparr>))"
      by (simp add: same_view_def ip_view_def invalidateLinkCache_def)
    then show ?thesis
      using v1 rebalance_view [of "invalidateLinkCache (s1\<lparr>config := x\<rparr>)" now None] same_view_trans
      unfolding rebalanceRoles_def by blast
  qed
  then show ?thesis using v1
    by (auto simp: adminConfig_def c Let_def split: sum.split option.split prod.split) (metis snd_conv)+
qed

lemma adminGraph_view: "same_view s (snd (adminGraph dg now r body s))"
proof -
  obtain c s1 where c: "adminAuth dg now r s = (c, s1)" by force
  obtain acc s2 where a: "accountIDForRequest dg now r s1 = (acc, s2)" by force
  have v1: "same_rows s s1" using adminAuth_rows [of s dg now r] c by simp
  then have v2: "same_rows s s2"
    using same_rows_trans accountIDForRequest_rows [of s1 dg now r] a by (metis snd_conv)
  have "same_view s (invalidateLinkCache (s2\<lparr>graph_links := x, graph_blocks := y\<rparr>))" for x y
    using v2 by (simp add: same_rows_def same_view_def ip_view_def invalidateLinkCache_def)
  then show ?thesis using same_rows_view [OF v1] same_rows_view [OF v2]
    by (auto simp: adminGraph_def c a Let_def split: sum.split option.split)
qed

section \<open>Reachable registries\<close>

inductive registry_step :: "(string \<Rightarrow> string) \<Rightarrow> (string \<Rightarrow> bytes) \<Rightarrow> (string \<Rightarrow> bool) \<Rightarrow> server \<Rightarrow> server \<Rightarrow> bool"
  for dg sha is_ip where
  Register: "register dg sha t rnd r body s = Some (res, s') \<Longrightarrow> registry_step dg sha is_ip s s'"
| AdminNode: "adminNode dg now r i s = (res, s') \<Longrightarrow> registry_step dg sha is_ip s s'"
| AdminUnban: "adminUnban dg now r i s = (res, s') \<Longrightarrow> registry_step dg sha is_ip s s'"
| AdminNodeRole: "adminNodeRole dg now r i rl s = (res', s') \<Longrightarrow> registry_step dg sha is_ip s s'"
| Telemetry: "telemetry dg t r report s = (res, s') \<Longrightarrow> registry_step dg sha is_ip s s'"
| AdminGraph: "adminGraph dg now r graph s = (res'', s') \<Longrightarrow> registry_step dg sha is_ip s s'"
| AdminConfig: "adminConfig dg is_ip now r cfg s = (res''', s') \<Longrightarrow> registry_step dg sha is_ip s s'"

inductive_cases registry_stepE: "registry_step dg sha is_ip s s'"

inductive registry_reach :: "(string \<Rightarrow> string) \<Rightarrow> (string \<Rightarrow> bytes) \<Rightarrow> (string \<Rightarrow> bool) \<Rightarrow> server \<Rightarrow> server \<Rightarrow> bool"
  for dg sha is_ip s0 where
  Start: "registry_reach dg sha is_ip s0 s0"
| Step: "registry_reach dg sha is_ip s0 s \<Longrightarrow> registry_step dg sha is_ip s s' \<Longrightarrow> registry_reach dg sha is_ip s0 s'"

lemma registry_step_ok:
  assumes "registry_step dg sha is_ip s s'" "registry_ok s"
  shows "registry_ok s'"
  using assms(1)
proof cases
  case Register
  then show ?thesis using registration_ok assms(2) by blast
next
  case AdminNode
  then show ?thesis using adminNode_ok assms(2) by blast
next
  case AdminUnban
  then show ?thesis using adminUnban_ok assms(2) by blast
next
  case AdminNodeRole
  then show ?thesis using adminNodeRole_view same_view_ok assms(2) by (metis snd_conv)
next
  case Telemetry
  then show ?thesis using telemetry_view same_view_ok assms(2) by (metis snd_conv)
next
  case AdminGraph
  then show ?thesis using adminGraph_view same_view_ok assms(2) by (metis snd_conv)
next
  case AdminConfig
  then show ?thesis using adminConfig_view same_view_ok assms(2) by (metis snd_conv)
qed


lemma sample_server_ok: "registry_ok sample_server"
  by (simp add: registry_ok_def ip_view_def unique_view_def sample_server_def server.defs accounts.defs)


section \<open>Interleaved registrations\<close>

text \<open>Two registrations that overlap can leave two nodes with one mesh address.  A node \<open>A\<close> whose lease has
  run out starts to register and reads its row; before it takes the lock a new node \<open>B\<close> claims the
  address of \<open>A\<close>, which is reclaimed.  \<open>A\<close> then writes the address it read, without a conflict check.\<close>

lemma register_race:
  assumes A: "plan_previous plA = Some a" "registeredNode (d_id (plan_body plA)) s = Some a"
      "mesh_ip a \<noteq> []" "last_seen a < now - TTL (config s)" "d_mesh_ip (plan_body plA) = []"
    and B: "plan_previous plB = None" "registeredNode (d_id (plan_body plB)) s = None"
      "d_mesh_ip (plan_body plB) = mesh_ip a" "d_id (plan_body plB) \<noteq> d_id (plan_body plA)"
    and s: "registry_ok s"
  shows "\<exists>s1 s2. register_commit now plB s = Some (Inr (mesh_ip a), s1) \<and>
    register_commit now plA s1 = Some (Inr (mesh_ip a), s2) \<and>
    (d_id (plan_body plA), mesh_ip a) \<in> set (ip_view s2) \<and> (d_id (plan_body plB), mesh_ip a) \<in> set (ip_view s2)"
proof -
  let ?i = "d_id (plan_body plA)" and ?j = "d_id (plan_body plB)"
  have u: "unique_view (ip_view s)" using s unfolding registry_ok_def by (rule conjunct1)
  have a: "a \<in> set (nodes s)" "node_id a = ?i"
    using A(2) find_SomeD unfolding registeredNode_def by fast+
  have nj: "node_id n \<noteq> ?j" if "n \<in> set (nodes s)" for n
    using B(2) that unfolding registeredNode_def find_None_iff by blast
  have only: "n = a" if "n \<in> set (nodes s)" "mesh_ip n = mesh_ip a" for n
  proof -
    have "(node_id n, mesh_ip a) \<in> set (ip_view s)" "(node_id a, mesh_ip a) \<in> set (ip_view s)"
      using that(1) a(1) by (auto simp: ip_view_def that(2) [symmetric])
    then have "node_id n = node_id a" using u A(3) unfolding unique_view_def by blast
    moreover have "distinct (map node_id (nodes s))"
      using u unfolding unique_view_def ip_view_def by (simp add: comp_def)
    ultimately show ?thesis using that(1) a(1) by (metis distinct_map inj_onD)
  qed
  have f: "find (\<lambda>n. mesh_ip n = mesh_ip a \<and> node_id n \<noteq> ?j) (nodes s) = Some a"
  proof (cases "find (\<lambda>n. mesh_ip n = mesh_ip a \<and> node_id n \<noteq> ?j) (nodes s)")
    case None
    then show ?thesis using a(1) nj unfolding find_None_iff by blast
  next
    case (Some n)
    then show ?thesis using only find_SomeD [OF Some] by blast
  qed
  have "(node_id a, mesh_ip a) \<in> set (ip_view s)" using a(1) by (auto simp: ip_view_def)
  then have ne: "node_id a \<noteq> []" using u unfolding unique_view_def by force
  let ?s = "reclaim (node_id a) s"
  have nj': "\<not> list_ex (\<lambda>n. node_id n = ?j) (nodes ?s)"
    using nj by (auto simp: list_ex_iff reclaim_def)
  let ?s1 = "?s\<lparr>nodes := nodes ?s @ [insert_row now (initial_role plB) (mesh_ip a) plB]\<rparr>"
  have 1: "register_commit now plB s = Some (Inr (mesh_ip a), ?s1)"
    using B A(3,4) f ne nj' by (simp add: register_commit_def claim_ip_def write_row_def Let_def)
  let ?s2 = "?s1\<lparr>nodes := map (\<lambda>n. if node_id n = ?i then update_row now (TTL (config ?s1)) (initial_role plA) (mesh_ip a) plA n else n) (nodes ?s1)\<rparr>"
  have 2: "register_commit now plA ?s1 = Some (Inr (mesh_ip a), ?s2)"
    using A(1,3,5) by (simp add: register_commit_def claim_ip_def write_row_def Let_def)
  have v: "ip_view ?s2 = put_ip ?i (mesh_ip a) (put_ip (node_id a) [] (ip_view s) @ [(?j, mesh_ip a)])"
    by (simp only: ip_view_update ip_view_insert ip_view_reclaim)
  have "?i \<in> fst ` set (ip_view s)" using a by (force simp: ip_view_def)
  then have "(?i, mesh_ip a) \<in> set (ip_view ?s2)" "(?j, mesh_ip a) \<in> set (ip_view ?s2)"
    unfolding v put_ip_member using B(4) by auto
  then show ?thesis using 1 2 by blast
qed

definition stale_node :: node where
  "stale_node = (sample_node_row ''A'')\<lparr>mesh_ip := ''10.66.0.2'', last_seen := 0\<rparr>"

definition sample_body :: "string \<Rightarrow> string \<Rightarrow> register_body" where
  "sample_body i ip = \<lparr>d_id = i, d_public = ''k'', d_nat = ''cone'', d_role = ''auto'', d_endpoint = ''1.2.3.4:5'',
     d_mesh_ip = ip, d_capacity = 1, d_relay = None, d_links = [], d_goarch = [], d_lan = []\<rparr>"

lemma register_race_witness:
  "\<exists>s1 s2. register_commit 1000 \<lparr>plan_body = sample_body ''B'' ''10.66.0.2'', plan_account = None, plan_previous = None, plan_relay = True\<rparr>
      (sample_server\<lparr>nodes := [stale_node]\<rparr>) = Some (Inr ''10.66.0.2'', s1) \<and>
    register_commit 1000 \<lparr>plan_body = sample_body ''A'' [], plan_account = None, plan_previous = Some stale_node, plan_relay = True\<rparr> s1
      = Some (Inr ''10.66.0.2'', s2) \<and>
    (''A'', ''10.66.0.2'') \<in> set (ip_view s2) \<and> (''B'', ''10.66.0.2'') \<in> set (ip_view s2)"
  using register_race [of "\<lparr>plan_body = sample_body ''A'' [], plan_account = None, plan_previous = Some stale_node, plan_relay = True\<rparr>"
      stale_node "sample_server\<lparr>nodes := [stale_node]\<rparr>" 1000
      "\<lparr>plan_body = sample_body ''B'' ''10.66.0.2'', plan_account = None, plan_previous = None, plan_relay = True\<rparr>"]
  by (simp add: registeredNode_def stale_node_def sample_node_row_def sample_body_def sample_server_def
      server.defs accounts.defs registry_ok_def ip_view_def unique_view_def)

section \<open>Roles\<close>

definition assign_roles :: "string list \<Rightarrow> string set \<Rightarrow> node list \<Rightarrow> node list" where
  "assign_roles super ids ns =
     map (\<lambda>n. if node_id n \<in> ids then n\<lparr>role := wanted_role super n\<rparr> else n) ns"

lemma wanted_role_update [simp]: "wanted_role super (n\<lparr>role := x\<rparr>) = wanted_role super n"
  by (simp add: wanted_role_def)

lemma assign_roles_step:
  assumes "m \<in> set ns" "distinct (map node_id ns)" "node_id m \<notin> ids"
  shows "assign_roles super ids (map (\<lambda>n. if node_id n = node_id m then n\<lparr>role := wanted_role super m\<rparr> else n) ns)
    = assign_roles super (insert (node_id m) ids) ns"
  using assms by (auto simp: assign_roles_def wanted_role_def)

lemma assign_roles_skip:
  assumes "m \<in> set ns" "distinct (map node_id ns)" "role m = wanted_role super m"
  shows "assign_roles super (insert (node_id m) ids) ns = assign_roles super ids ns"
proof -
  have "n\<lparr>role := wanted_role super n\<rparr> = n" if "n \<in> set ns" "node_id n = node_id m" for n
  proof -
    have "n = m" using that assms(1,2) by (metis distinct_map inj_onD)
    then show ?thesis using assms(3) by simp
  qed
  then show ?thesis by (auto simp: assign_roles_def)
qed

lemma apply_roles_spec:
  assumes "distinct (map node_id ms)" "distinct (map node_id (nodes s))" "set ms \<subseteq> set (nodes s)"
  shows "apply_roles super ms ch s =
    (ch \<or> (\<exists>m \<in> set ms. role m \<noteq> wanted_role super m), s\<lparr>nodes := assign_roles super (node_id ` set ms) (nodes s)\<rparr>)"
  using assms
proof (induction ms arbitrary: ch s)
  case Nil
  then show ?case by (simp add: assign_roles_def)
next
  case (Cons m ms)
  have m: "m \<in> set (nodes s)" "node_id m \<notin> node_id ` set ms" using Cons.prems by auto
  show ?case
  proof (cases "role m = wanted_role super m")
    case True
    then show ?thesis
      using Cons.IH [of s ch] Cons.prems assign_roles_skip [OF m(1) Cons.prems(2) True] by auto
  next
    case False
    let ?s = "set_role (node_id m) (wanted_role super m) s"
    have n: "nodes ?s = map (\<lambda>n. if node_id n = node_id m then n\<lparr>role := wanted_role super m\<rparr> else n) (nodes s)"
      by (simp add: set_role_def)
    have d: "distinct (map node_id (nodes ?s))"
    proof -
      have "map node_id (nodes ?s) = map node_id (nodes s)" unfolding n by (simp add: comp_def if_distrib cong: if_cong)
      then show ?thesis using Cons.prems(2) by simp
    qed
    have "set ms \<subseteq> set (nodes ?s)"
    proof
      fix x assume x: "x \<in> set ms"
      then have "x \<in> set (nodes s)" using Cons.prems by auto
      moreover have "node_id x \<noteq> node_id m" using m(2) x by (metis imageI)
      ultimately show "x \<in> set (nodes ?s)" unfolding n by force
    qed
    then have "apply_roles super ms True ?s = (True, ?s\<lparr>nodes := assign_roles super (node_id ` set ms) (nodes ?s)\<rparr>)"
      using Cons.IH [of ?s True] Cons.prems d by simp
    moreover have "?s\<lparr>nodes := assign_roles super (node_id ` set ms) (nodes ?s)\<rparr> =
        s\<lparr>nodes := assign_roles super (node_id ` set (m # ms)) (nodes s)\<rparr>"
      unfolding n assign_roles_step [OF m(1) Cons.prems(2) m(2)] by (simp add: set_role_def)
    ultimately show ?thesis using False by simp
  qed
qed

lemma distinct_filter_ids: "distinct (map node_id ns) \<Longrightarrow> distinct (map node_id (filter P ns))"
  by (rule distinct_map_filter)

definition online :: "int \<Rightarrow> int option \<Rightarrow> server \<Rightarrow> node \<Rightarrow> bool" where
  "online now owner s n \<longleftrightarrow> now - TTL (config s) \<le> last_seen n \<and> (owner = None \<or> owner_id n = owner)"

lemma online_nodes_filter: "online_nodes now owner s = filter (online now owner s) (nodes s)"
  unfolding online_nodes_def online_def ..

lemma filter_map_hit:
  assumes "\<And>n. n \<in> A \<longleftrightarrow> n \<in> set ns \<and> P n" "\<And>n. P (f n) = P n"
  shows "filter P (map (\<lambda>n. if n \<in> A then f n else n) ns) = map f (filter P ns)"
proof -
  have "filter P (map (\<lambda>n. if n \<in> A then f n else n) ms) = map f (filter P ms)" if "set ms \<subseteq> set ns" for ms
    using that
  proof (induction ms)
    case (Cons m ms)
    then show ?case using assms(1) [of m] assms(2) [of m] by (cases "P m") simp_all
  qed simp
  then show ?thesis by blast
qed

lemma role_candidate_role [simp]: "role_candidate (n\<lparr>role := x\<rparr>) = role_candidate n"
  by (simp add: role_candidate_def)

lemma insort_key_map: "insort_key k (f x) (map f xs) = map f (insort_key (\<lambda>x. k (f x)) x xs)"
  by (induction xs) auto

lemma sort_key_map: "sort_key k (map f xs) = map f (sort_key (\<lambda>x. k (f x)) xs)"
  by (induction xs) (simp_all add: insort_key_map)

lemma superpeer_ids_map:
  "superpeer_ids c (map (\<lambda>n. n\<lparr>role := g n\<rparr>) ns) = superpeer_ids c ns"
proof -
  have m: "filter (\<lambda>n. requested_role n = ''superpeer'') (map (\<lambda>n. n\<lparr>role := g n\<rparr>) ns) =
      map (\<lambda>n. n\<lparr>role := g n\<rparr>) (filter (\<lambda>n. requested_role n = ''superpeer'') ns)"
    by (simp add: filter_map comp_def)
  have c: "filter role_candidate (map (\<lambda>n. n\<lparr>role := g n\<rparr>) ns) = map (\<lambda>n. n\<lparr>role := g n\<rparr>) (filter role_candidate ns)"
    by (simp add: filter_map comp_def)
  have k: "(\<lambda>n. candidate_key (n\<lparr>role := g n\<rparr>)) = candidate_key"
    by (simp add: fun_eq_iff candidate_key_def)
  show ?thesis unfolding superpeer_ids_def Let_def m c sort_key_map k by (simp add: take_map comp_def)
qed

lemma apply_roles_done: "(\<And>n. n \<in> set ns \<Longrightarrow> role n = wanted_role super n) \<Longrightarrow> apply_roles super ns ch s = (ch, s)"
  by (induction ns) auto

text \<open>C30: a rebalance sets the role of every online node of its scope at once: superpeer for the nodes asked
  to be one by hand and for the best candidates up to the target, client for the rest; other rows keep
  their roles, the result says whether any role changed, and a second rebalance changes nothing.\<close>

theorem rebalance_exact:
  assumes d: "distinct (map node_id (nodes s))"
  shows "\<exists>s'. rebalanceRolesFor now owner s =
      (list_ex (\<lambda>n. role n \<noteq> wanted_role (superpeer_ids (config s) (online_nodes now owner s)) n) (online_nodes now owner s), s') \<and>
    nodes s' = map (\<lambda>n. if n \<in> set (online_nodes now owner s)
      then n\<lparr>role := wanted_role (superpeer_ids (config s) (online_nodes now owner s)) n\<rparr> else n) (nodes s) \<and>
    rebalanceRolesFor now owner s' = (False, s')"
proof -
  let ?on = "online_nodes now owner s" and ?super = "superpeer_ids (config s) (online_nodes now owner s)"
  let ?f = "\<lambda>n. n\<lparr>role := wanted_role ?super n\<rparr>"
  let ?s' = "s\<lparr>nodes := assign_roles ?super (node_id ` set ?on) (nodes s)\<rparr>"
  have on: "set ?on \<subseteq> set (nodes s)" "distinct (map node_id ?on)"
    using d by (auto simp: online_nodes_def distinct_map_filter)
  have first: "rebalanceRolesFor now owner s = (list_ex (\<lambda>n. role n \<noteq> wanted_role ?super n) ?on, ?s')"
    unfolding rebalanceRolesFor_def Let_def apply_roles_spec [OF on(2) d on(1)] by (simp add: list_ex_iff)
  have same: "node_id n \<in> node_id ` set ?on \<longleftrightarrow> n \<in> set ?on" if "n \<in> set (nodes s)" for n
  proof
    assume "node_id n \<in> node_id ` set ?on"
    then obtain m where m: "m \<in> set ?on" "node_id n = node_id m" by blast
    then have "n = m" using that on(1) inj_onD [of node_id "set (nodes s)" n m] d by (auto simp: distinct_map)
    then show "n \<in> set ?on" using m by simp
  qed simp
  have rows: "nodes ?s' = map (\<lambda>n. if n \<in> set ?on then ?f n else n) (nodes s)"
    using same by (simp add: assign_roles_def)
  have on': "online_nodes now owner ?s' = map ?f ?on"
  proof -
    have "online_nodes now owner ?s' = filter (online now owner s) (map (\<lambda>n. if n \<in> set ?on then ?f n else n) (nodes s))"
    proof -
      have "online now owner ?s' = online now owner s" by (simp add: fun_eq_iff online_def)
      then show ?thesis by (simp only: online_nodes_filter [of now owner ?s'] rows)
    qed
    also have "\<dots> = map ?f (filter (online now owner s) (nodes s))"
      by (rule filter_map_hit) (auto simp: online_nodes_filter online_def)
    finally show ?thesis by (simp add: online_nodes_filter)
  qed
  have super': "superpeer_ids (config ?s') (online_nodes now owner ?s') = ?super"
    unfolding on' by (simp add: superpeer_ids_map)
  have "rebalanceRolesFor now owner ?s' = (False, ?s')"
    unfolding rebalanceRolesFor_def Let_def super' unfolding on' by (rule apply_roles_done) (auto simp: wanted_role_def)
  then show ?thesis using first rows by blast
qed

definition sample_peers :: server where
  "sample_peers = sample_server\<lparr>nodes := [(sample_node_row ''A'')\<lparr>requested_role := ''auto'', role := ''client''\<rparr>]\<rparr>"

theorem rebalance_exact_witness:
  "distinct (map node_id (nodes sample_peers)) \<and>
   (\<exists>b s'. rebalanceRolesFor 100 None sample_peers = (b, s') \<and> rebalanceRolesFor 100 None s' = (False, s'))"
proof -
  have "distinct (map node_id (nodes sample_peers))" by (simp add: sample_peers_def)
  then show ?thesis using rebalance_exact [of sample_peers 100 None] by blast
qed

end
