(* ===== verification/Virtual_Nets.thy ===== *)
theory Virtual_Nets
  imports Registry
begin

text \<open>
  The virtual networks of the coordinator (\<^verbatim>\<open>server/routes.go\<close>, \<^verbatim>\<open>server/topology.go\<close>, the handler
  \<^verbatim>\<open>adminNodeNetwork\<close> of \<^verbatim>\<open>server/broadcasts.go\<close>): LAN routes and the virtual prefixes allocated for them out of
  10.77.0.0/16, node names and names of LAN objects, and the invariant that all handlers of the coordinator
  keep.  Allocation is a partial function over 32-bit arithmetic; that it returns is proved for the prefix
  lengths that the handlers admit.
\<close>

section \<open>Prefixes and translation\<close>

text \<open>\<^verbatim>\<open>translatedIP\<close> with the empty string for an address that no route covers.\<close>

fun translate_by :: "bool \<Rightarrow> ipv4 \<Rightarrow> routeAdvertisement list \<Rightarrow> string" where
  "translate_by toVirtual ip [] = []"
| "translate_by toVirtual ip (r # rs) =
     (case (ParsePrefix (route_lan r), ParsePrefix (route_virtual r)) of
        (Some lan, Some virt) \<Rightarrow>
          (let (src, dst) = (if toVirtual then (lan, virt) else (virt, lan)) in
           if prefix_Contains src ip then Addr_String (Addr dst + (ip - Addr src)) else translate_by toVirtual ip rs)
      | _ \<Rightarrow> translate_by toVirtual ip rs)"

definition translatedIP :: "string \<Rightarrow> routeAdvertisement list \<Rightarrow> bool \<Rightarrow> string" where
  "translatedIP raw routes toVirtual =
     (case ParseAddr raw of None \<Rightarrow> [] | Some ip \<Rightarrow> translate_by toVirtual ip routes)"

definition parseLANRoute :: "string \<Rightarrow> (string \<times> prefix) go_result" where
  "parseLANRoute raw =
     (case ParsePrefix (TrimSpace raw) of
        None \<Rightarrow> Inl ''route must be an IPv4 CIDR''
      | Some p0 \<Rightarrow>
          (let p = Masked p0 in
           if Bits p < 16 \<or> 30 < Bits p then Inl ''LAN route prefix must be between /16 and /30''
           else Inr (Prefix_String p, p)))"

definition validDNSName :: "string \<Rightarrow> bool" where
  "validDNSName s =
     (s = [] \<or> length s \<le> 63 \<and> hd s \<noteq> CHR ''-'' \<and> last s \<noteq> CHR ''-''
        \<and> list_all (\<lambda>c. CHR ''a'' \<le> c \<and> c \<le> CHR ''z'' \<or> CHR ''0'' \<le> c \<and> c \<le> CHR ''9'' \<or> c = CHR ''-'') s)"

definition prefixOverlapsAny :: "prefix \<Rightarrow> prefix list \<Rightarrow> bool" where
  "prefixOverlapsAny p used = list_ex (prefix_Overlaps p) used"

text \<open>The pool 10.77.0.0/16 and the loop over it, in 32-bit arithmetic.  With a step of zero the loop would not
  end; the callers pass 16 to 30 bits.\<close>

abbreviation pool_base :: ipv4 where "pool_base \<equiv> 0x0A4D0000"

partial_function (option) virtual_scan :: "ipv4 \<Rightarrow> nat \<Rightarrow> prefix list \<Rightarrow> ipv4 \<Rightarrow> string option" where
  "virtual_scan step bits used value =
     (if value + step - 1 \<le> pool_base + 65535
      then (let p = \<lparr>Addr = value, Bits = bits\<rparr> in
        if \<not> prefixOverlapsAny p used then Some (Prefix_String p)
        else virtual_scan step bits used (value + step))
      else Some [])"

declare virtual_scan.simps [code]

definition allocateVirtual :: "nat \<Rightarrow> prefix list \<Rightarrow> string option" where
  "allocateVirtual bits used = virtual_scan (push_bit (32 - bits) 1) bits used pool_base"

section \<open>Handlers\<close>

definition virtual_prefixes :: "routeAdvertisement list \<Rightarrow> prefix list" where
  "virtual_prefixes routes = List.map_filter (\<lambda>a. ParsePrefix (route_virtual a)) routes"

definition net_row :: "string \<Rightarrow> server \<Rightarrow> network_row option" where
  "net_row i s = find (\<lambda>x. net_node x = i) (node_network s)"

definition stored_routes :: "string \<Rightarrow> server \<Rightarrow> routeAdvertisement list" where
  "stored_routes i s = (case net_row i s of None \<Rightarrow> [] | Some x \<Rightarrow> net_routes x)"

text \<open>The upserts of \<^verbatim>\<open>node_network\<close>.\<close>

definition put_routes :: "string \<Rightarrow> routeAdvertisement list \<Rightarrow> server \<Rightarrow> server" where
  "put_routes i routes s =
     s\<lparr>node_network :=
        (if net_row i s = None then node_network s @ [\<lparr>net_node = i, net_name = [], net_routes = routes\<rparr>]
         else map (\<lambda>x. if net_node x = i then x\<lparr>net_routes := routes\<rparr> else x) (node_network s))\<rparr>"

definition put_network :: "string \<Rightarrow> string \<Rightarrow> routeAdvertisement list \<Rightarrow> server \<Rightarrow> server" where
  "put_network i name routes s =
     s\<lparr>node_network :=
        (if net_row i s = None then node_network s @ [\<lparr>net_node = i, net_name = name, net_routes = routes\<rparr>]
         else map (\<lambda>x. if net_node x = i then x\<lparr>net_name := name, net_routes := routes\<rparr> else x) (node_network s))\<rparr>"

definition add_route ::
    "int \<Rightarrow> string \<Rightarrow> string \<Rightarrow> server \<Rightarrow> (routeAdvertisement reply \<times> server) option" where
  "add_route now i raw s =
     (case parseLANRoute raw of
        Inl e \<Rightarrow> Some (Inl (400, e), s)
      | Inr (lan, p) \<Rightarrow>
        if registeredNode i s = None then Some (Inl (404, ''unknown node''), s)
        else if list_ex (\<lambda>a. route_lan a = lan) (stored_routes i s)
        then Some (Inl (409, ''route already advertised''), s)
        else (let used = concat (map (\<lambda>x. virtual_prefixes (net_routes x)) (node_network s)) @ [network s] in
          case allocateVirtual (Bits p) used of
            None \<Rightarrow> None
          | Some virt \<Rightarrow>
            if virt = [] then Some (Inl (409, ''10.77.0.0/16 virtual address pool is exhausted''), s)
            else (let a = \<lparr>route_lan = lan, route_virtual = virt\<rparr> in
              Some (Inr a, audit now ''node_route_added'' (''node='' @ i @ '' route='' @ lan @ '' virtual='' @ virt)
                (put_routes i (stored_routes i s @ [a]) s)))))"

definition adminAddNodeRoute ::
    "(string \<Rightarrow> string) \<Rightarrow> int \<Rightarrow> request \<Rightarrow> string \<Rightarrow> string option \<Rightarrow> server \<Rightarrow>
     (routeAdvertisement reply \<times> server) option" where
  "adminAddNodeRoute dg now r i body s0 =
     (case node_access dg now r i s0 of
        (Inl e, s) \<Rightarrow> Some (Inl e, s)
      | (Inr _, s) \<Rightarrow>
        (case body of
           None \<Rightarrow> Some (Inl (400, ''invalid route request''), s)
         | Some raw \<Rightarrow> add_route now i raw s))"

text \<open>The clean-up of the names deletes with \<^verbatim>\<open>db.Exec\<close> while the rows of its query are open.  The pool has one
  connection (\<^verbatim>\<open>SetMaxOpenConns(1)\<close>), which the rows hold: the first stale name blocks the handler for ever,
  which is the value \<open>None\<close>.\<close>

definition remove_route ::
    "int \<Rightarrow> string \<Rightarrow> string \<Rightarrow> server \<Rightarrow> (routeAdvertisement list reply \<times> server) option" where
  "remove_route now i raw s =
     (case parseLANRoute raw of
        Inl e \<Rightarrow> Some (Inl (400, e), s)
      | Inr (lan, _) \<Rightarrow>
        (case net_row i s of
           None \<Rightarrow> Some (Inl (404, ''node has no advertised routes''), s)
         | Some x \<Rightarrow>
           (let remaining = filter (\<lambda>a. route_lan a \<noteq> lan) (net_routes x) in
            if \<not> list_ex (\<lambda>a. route_lan a = lan) (net_routes x)
            then Some (Inl (404, ''route is not advertised''), s)
            else if list_ex (\<lambda>d. dns_node d = i \<and> translatedIP (dns_lan_ip d) remaining True = []) (dns_records s)
            then None
            else Some (Inr remaining, audit now ''node_route_removed'' (''node='' @ i @ '' route='' @ lan)
                   (put_routes i remaining s)))))"

definition adminRemoveNodeRoute ::
    "(string \<Rightarrow> string) \<Rightarrow> int \<Rightarrow> request \<Rightarrow> string \<Rightarrow> string option \<Rightarrow> server \<Rightarrow>
     (routeAdvertisement list reply \<times> server) option" where
  "adminRemoveNodeRoute dg now r i body s0 =
     (case node_access dg now r i s0 of
        (Inl e, s) \<Rightarrow> Some (Inl e, s)
      | (Inr _, s) \<Rightarrow>
        (case body of
           None \<Rightarrow> Some (Inl (400, ''invalid route request''), s)
         | Some raw \<Rightarrow> remove_route now i raw s))"

record network_body =
  nb_name :: string
  nb_routes :: "string list"
  nb_dns :: "(string \<times> string) list"

fun check_routes :: "string list \<Rightarrow> string list \<Rightarrow> string list reply" where
  "check_routes seen [] = Inr seen"
| "check_routes seen (raw # rs) =
     (case ParsePrefix (TrimSpace raw) of
        None \<Rightarrow> Inl (400, ''routes must be IPv4 CIDRs'')
      | Some p0 \<Rightarrow>
          (let p = Masked p0; lan = Prefix_String p in
           if Bits p < 16 \<or> 30 < Bits p then Inl (400, ''LAN routes must have prefixes between /16 and /30'')
           else if lan \<in> set seen then Inl (400, ''duplicate route'')
           else check_routes (seen @ [lan]) rs))"

text \<open>The last entry of a repeated LAN in the old routes wins, as in the map that the code fills.\<close>

definition old_virtual :: "routeAdvertisement list \<Rightarrow> string \<Rightarrow> string" where
  "old_virtual old lan =
     (case find (\<lambda>a. route_lan a = lan) (rev old) of None \<Rightarrow> [] | Some a \<Rightarrow> route_virtual a)"

fun assign_virtuals ::
    "routeAdvertisement list \<Rightarrow> prefix list \<Rightarrow> string list \<Rightarrow> (routeAdvertisement list reply) option" where
  "assign_virtuals old used [] = Some (Inr [])"
| "assign_virtuals old used (lan # lans) =
     (let kept = (case ParsePrefix (old_virtual old lan) of
                    None \<Rightarrow> []
                  | Some p \<Rightarrow> if prefixOverlapsAny p used then [] else old_virtual old lan);
          bits = (case ParsePrefix lan of None \<Rightarrow> 0 | Some p \<Rightarrow> Bits p) in
      case (if kept = [] then allocateVirtual bits used else Some kept) of
        None \<Rightarrow> None
      | Some virt \<Rightarrow>
          if virt = [] then Some (Inl (409, ''10.77.0.0/16 virtual address pool is exhausted''))
          else (let used' = used @ (case ParsePrefix virt of None \<Rightarrow> [] | Some p \<Rightarrow> [p]) in
            map_option (map_sum id (\<lambda>rs. \<lparr>route_lan = lan, route_virtual = virt\<rparr> # rs))
              (assign_virtuals old used' lans)))"

definition name_taken :: "string \<Rightarrow> string \<Rightarrow> server \<Rightarrow> bool" where
  "name_taken i name s = list_ex (\<lambda>x. net_name x = name \<and> net_node x \<noteq> i) (node_network s)"

text \<open>The query of a name without its node returns the first row.\<close>

definition name_owned_elsewhere :: "string \<Rightarrow> string \<Rightarrow> server \<Rightarrow> bool" where
  "name_owned_elsewhere i name s =
     (case find (\<lambda>x. net_name x = name) (node_network s) of None \<Rightarrow> False | Some x \<Rightarrow> net_node x \<noteq> i)"

definition dns_taken :: "string \<Rightarrow> string \<Rightarrow> server \<Rightarrow> bool" where
  "dns_taken i name s = list_ex (\<lambda>d. dns_name d = name \<and> dns_node d \<noteq> i) (dns_records s)"

fun check_dns ::
    "string \<Rightarrow> string \<Rightarrow> routeAdvertisement list \<Rightarrow> server \<Rightarrow> string list \<Rightarrow> (string \<times> string) list \<Rightarrow> dns_row list reply" where
  "check_dns i name allocated s names [] = Inr []"
| "check_dns i name allocated s names ((n0, ip0) # ds) =
     (let n = ToLower (TrimSpace n0); ip = TrimSpace ip0 in
      if \<not> validDNSName n \<or> n = [] \<or> n \<in> set names \<or> n = name then Inl (400, ''invalid or duplicate DNS object name'')
      else if translatedIP ip allocated True = []
      then Inl (400, ''DNS object '' @ n @ '' is outside advertised LAN routes'')
      else if dns_taken i n s \<or> name_owned_elsewhere i n s then Inl (409, ''DNS name already used'')
      else map_sum id (\<lambda>rs. \<lparr>dns_node = i, dns_name = n, dns_lan_ip = ip\<rparr> # rs)
             (check_dns i name allocated s (names @ [n]) ds))"

definition routes_json :: "routeAdvertisement list \<Rightarrow> string" where
  "routes_json rs =
     ''['' @ join_with '','' (map (\<lambda>a. ''{'' @ [CHR 0x22] @ ''lan_cidr'' @ [CHR 0x22] @ '':'' @ [CHR 0x22] @ route_lan a @ [CHR 0x22]
        @ '','' @ [CHR 0x22] @ ''virtual_cidr'' @ [CHR 0x22] @ '':'' @ [CHR 0x22] @ route_virtual a @ [CHR 0x22] @ ''}'') rs) @ '']''"

text \<open>The transaction: an insert that breaks the uniqueness of \<^verbatim>\<open>dns_records.name\<close> rolls it back.\<close>

definition write_network ::
    "int \<Rightarrow> string \<Rightarrow> string \<Rightarrow> routeAdvertisement list \<Rightarrow> dns_row list \<Rightarrow> server \<Rightarrow>
     (string \<times> routeAdvertisement list \<times> dns_row list) reply \<times> server" where
  "write_network now i name allocated ds s =
     (let s1 = put_network i name allocated s; kept = filter (\<lambda>d. dns_node d \<noteq> i) (dns_records s1) in
      if distinct (map dns_name (kept @ ds))
      then (Inr (name, allocated, ds), audit now ''node_network'' (''node='' @ i @ '' name='' @ name @ '' routes='' @ routes_json allocated)
             (s1\<lparr>dns_records := kept @ ds\<rparr>))
      else (Inl (409, ''UNIQUE constraint failed: dns_records.name''), s))"

definition set_network ::
    "int \<Rightarrow> string \<Rightarrow> network_body \<Rightarrow> server \<Rightarrow>
     ((string \<times> routeAdvertisement list \<times> dns_row list) reply \<times> server) option" where
  "set_network now i b s =
     (let name = ToLower (TrimSpace (nb_name b)) in
      if \<not> validDNSName name
      then Some (Inl (400, ''name must contain only lowercase letters, digits and hyphens''), s)
      else case check_routes [] (nb_routes b) of
        Inl e \<Rightarrow> Some (Inl e, s)
      | Inr lans \<Rightarrow>
        (let used = concat (map (\<lambda>x. if net_node x = i then [] else virtual_prefixes (net_routes x)) (node_network s))
               @ [network s] in
         case assign_virtuals (stored_routes i s) used lans of
           None \<Rightarrow> None
         | Some (Inl e) \<Rightarrow> Some (Inl e, s)
         | Some (Inr allocated) \<Rightarrow>
           if registeredNode i s = None then Some (Inl (404, ''unknown node''), s)
           else if name \<noteq> [] \<and> name_taken i name s then Some (Inl (409, ''name already used''), s)
           else if name \<noteq> [] \<and> dns_taken i name s then Some (Inl (409, ''name already used by a LAN object''), s)
           else case check_dns i name allocated s [] (nb_dns b) of
             Inl e \<Rightarrow> Some (Inl e, s)
           | Inr ds \<Rightarrow> Some (write_network now i name allocated ds s)))"

definition adminNodeNetwork ::
    "(string \<Rightarrow> string) \<Rightarrow> int \<Rightarrow> request \<Rightarrow> string \<Rightarrow> network_body option \<Rightarrow> server \<Rightarrow>
     ((string \<times> routeAdvertisement list \<times> dns_row list) reply \<times> server) option" where
  "adminNodeNetwork dg now r i body s0 =
     (case node_access dg now r i s0 of
        (Inl e, s) \<Rightarrow> Some (Inl e, s)
      | (Inr _, s) \<Rightarrow>
        (case body of
           None \<Rightarrow> Some (Inl (400, ''invalid network settings''), s)
         | Some b \<Rightarrow> set_network now i b s))"

section \<open>Allocation\<close>

lemma ParsePrefix_String [simp]:
  assumes "Bits p \<le> 32"
  shows "ParsePrefix (Prefix_String p) = Some p"
proof -
  have d: "CHR ''/'' \<notin> set (itoa n)" for n by (rule itoa_no_char) (simp add: is_digit_def)
  obtain w x y z where b: "put_be32 (Addr p) = [w, x, y, z]" using put_be32_four by blast
  have "CHR ''/'' \<notin> set (Addr_String (Addr p))" using d by (simp add: Addr_String_def b)
  then have "split_on (CHR ''/'') (Prefix_String p) = [Addr_String (Addr p), itoa (Bits p)]"
    using d by (simp add: Prefix_String_def split_on_append split_on_none)
  moreover have "length (itoa (Bits p)) \<le> 2 \<and> (1 < length (itoa (Bits p)) \<longrightarrow> hd (itoa (Bits p)) \<noteq> CHR ''0'')"
  proof (cases "Bits p < 10")
    case True
    then show ?thesis by (simp add: itoa.simps)
  next
    case False
    then have "Bits p div 10 < 10" "Bits p div 10 \<noteq> 0" using assms by auto
    then show ?thesis using itoa_small [of "Bits p"] assms False by (simp add: itoa.simps)
  qed
  ultimately show ?thesis using assms by (simp add: ParsePrefix_def)
qed

lemma Prefix_String_nonempty [simp]: "Prefix_String p \<noteq> []"
  by (simp add: Prefix_String_def)

lemma aligned_masked:
  assumes "(2 :: nat) ^ (32 - b) dvd unat a"
  shows "Masked \<lparr>Addr = a, Bits = b\<rparr> = \<lparr>Addr = a, Bits = b\<rparr>"
proof -
  have "unat (push_bit k (drop_bit k a)) = 2 ^ k * (unat a div 2 ^ k)" for k
  proof -
    have "unat a div 2 ^ k * 2 ^ k \<le> unat a" by simp
    then have "unat a div 2 ^ k * 2 ^ k < 4294967296" using unat_32_lt [of a] by linarith
    then show ?thesis
      unfolding unsigned_push_bit_eq by (simp add: take_bit_eq_mod push_bit_eq_mult unat_drop_bit)
  qed
  then have "push_bit (32 - b) (drop_bit (32 - b) a) = a"
    using assms by (metis dvd_mult_div_cancel word_unat_eq_iff)
  then show ?thesis by (simp add: Masked_def)
qed

lemma allocate_steps:
  assumes bits: "16 \<le> bits" "bits \<le> 30" and k: "k \<le> 2 ^ (bits - 16)"
    and v: "unat value = unat pool_base + k * 2 ^ (32 - bits)"
  shows "\<exists>r. virtual_scan (push_bit (32 - bits) 1) bits used value = Some r \<and>
    (r = [] \<or> (\<exists>p. r = Prefix_String p \<and> Bits p = bits \<and> Masked p = p \<and> \<not> prefixOverlapsAny p used))"
  using k v
proof (induction "2 ^ (bits - 16) - k" arbitrary: k "value" rule: less_induct)
  case less
  let ?s = "push_bit (32 - bits) (1 :: ipv4)" and ?m = "(2 :: nat) ^ (32 - bits)"
  have two: "2 ^ (bits - 16) * ?m = 65536" using bits by (simp add: power_add [symmetric])
  have m: "1 \<le> ?m" "?m \<le> 2 ^ 16" using bits by (simp, intro power_increasing) auto
  have s: "unat ?s = ?m" using m(2) unfolding unsigned_push_bit_eq by (simp add: take_bit_eq_mod push_bit_eq_mult)
  have km: "k * ?m \<le> 65536" using less.prems(1) two by (metis mult_le_mono1)
  have vs: "unat (value + ?s) = unat value + ?m"
    using less.prems(2) km m s by (subst unat_add_lem [THEN iffD1]) auto
  have "1 \<le> unat value + ?m" using m(1) by linarith
  then have "1 \<le> value + ?s" unfolding word_le_nat_alt vs by (simp only: unsigned_1)
  then have "unat (value + ?s - 1) = unat value + ?m - 1" using unat_sub vs by (metis unsigned_1)
  then have cond: "value + ?s - 1 \<le> pool_base + 65535 \<longleftrightarrow> k * ?m + ?m \<le> 65536"
    using less.prems(2) m by (simp add: word_le_nat_alt)
  have "?m dvd 65536" using two by (metis dvd_triv_right)
  then have al: "Masked \<lparr>Addr = value, Bits = bits\<rparr> = \<lparr>Addr = value, Bits = bits\<rparr>"
    using less.prems(2) by (intro aligned_masked) (auto intro!: dvd_add elim: dvd_trans)
  show ?case
  proof (cases "k * ?m + ?m \<le> 65536")
    case False
    then show ?thesis using cond by (subst virtual_scan.simps) simp
  next
    case True
    then have "Suc k * ?m \<le> 2 ^ (bits - 16) * ?m" unfolding two mult_Suc by (simp only: add.commute)
    then have k1: "Suc k \<le> 2 ^ (bits - 16)" by (subst (asm) mult_le_cancel2) simp
    show ?thesis
    proof (cases "prefixOverlapsAny \<lparr>Addr = value, Bits = bits\<rparr> used")
      case ov: True
      have "\<exists>r. virtual_scan ?s bits used (value + ?s) = Some r \<and>
          (r = [] \<or> (\<exists>p. r = Prefix_String p \<and> Bits p = bits \<and> Masked p = p \<and> \<not> prefixOverlapsAny p used))"
        using k1 vs less.prems(2) by (intro less.hyps [of "Suc k"]) auto
      then show ?thesis using ov cond True by (subst virtual_scan.simps) (simp add: Let_def)
    next
      case False
      then show ?thesis using cond True al by (subst virtual_scan.simps) (auto simp: Let_def)
    qed
  qed
qed

lemma allocateVirtual_result:
  assumes "16 \<le> bits" "bits \<le> 30"
  shows "\<exists>r. allocateVirtual bits used = Some r \<and>
    (r = [] \<or> (\<exists>p. r = Prefix_String p \<and> Bits p = bits \<and> Masked p = p \<and> \<not> prefixOverlapsAny p used))"
  using allocate_steps [OF assms, of 0] by (simp add: allocateVirtual_def)

lemma allocateVirtual_Some:
  assumes "allocateVirtual bits used = Some r" "16 \<le> bits" "bits \<le> 30" "r \<noteq> []"
  obtains p where "r = Prefix_String p" "Bits p = bits" "Masked p = p" "\<not> prefixOverlapsAny p used"
  using allocateVirtual_result [OF assms(2,3), of used] assms(1,4) by auto

section \<open>The invariant\<close>

text \<open>A route that the coordinator may hand out: a LAN of 16 to 30 bits in canonical form with a virtual prefix of
  the same size that lies apart from the mesh network.\<close>

definition route_good :: "prefix \<Rightarrow> routeAdvertisement \<Rightarrow> bool" where
  "route_good net a = (\<exists>l v. ParsePrefix (route_lan a) = Some l \<and> ParsePrefix (route_virtual a) = Some v
     \<and> Masked l = l \<and> Masked v = v \<and> Bits v = Bits l \<and> 16 \<le> Bits l \<and> Bits l \<le> 30 \<and> \<not> prefix_Overlaps v net)"

definition apart :: "prefix list \<Rightarrow> prefix list \<Rightarrow> bool" where
  "apart ps qs = (\<forall>p \<in> set ps. \<forall>q \<in> set qs. \<not> prefix_Overlaps p q)"

definition routes_good :: "prefix \<Rightarrow> routeAdvertisement list \<Rightarrow> bool" where
  "routes_good net rs = (list_all (route_good net) rs \<and> distinct (map route_lan rs)
     \<and> sorted_wrt (\<lambda>p q. \<not> prefix_Overlaps p q) (virtual_prefixes rs))"

definition nets_ok :: "prefix \<Rightarrow> network_row list \<Rightarrow> bool" where
  "nets_ok net rows = (distinct (map net_node rows) \<and> (\<forall>x \<in> set rows. routes_good net (net_routes x))
     \<and> (\<forall>x \<in> set rows. \<forall>y \<in> set rows. net_node x \<noteq> net_node y \<longrightarrow>
          apart (virtual_prefixes (net_routes x)) (virtual_prefixes (net_routes y))))"

text \<open>Names of nodes and of LAN objects are unique across both tables.\<close>

definition names_ok :: "network_row list \<Rightarrow> dns_row list \<Rightarrow> bool" where
  "names_ok rows ds = ((\<forall>x \<in> set rows. \<forall>y \<in> set rows. net_name x = net_name y \<and> net_name x \<noteq> [] \<longrightarrow> net_node x = net_node y)
     \<and> distinct (map dns_name ds) \<and> (\<forall>x \<in> set rows. \<forall>d \<in> set ds. net_name x \<noteq> [] \<longrightarrow> net_name x \<noteq> dns_name d))"

lemma virtual_prefixes_simps [simp]:
  "virtual_prefixes [] = []"
  "virtual_prefixes (a # rs) = (case ParsePrefix (route_virtual a) of None \<Rightarrow> [] | Some p \<Rightarrow> [p]) @ virtual_prefixes rs"
  "virtual_prefixes (rs @ ss) = virtual_prefixes rs @ virtual_prefixes ss"
  by (auto simp: virtual_prefixes_def List.map_filter_def split: option.splits)

lemma set_virtual_prefixes: "set (virtual_prefixes rs) = {p. \<exists>a \<in> set rs. ParsePrefix (route_virtual a) = Some p}"
  by (induction rs) (auto split: option.splits)

lemma apart_sym: "apart ps qs \<Longrightarrow> apart qs ps"
  using prefix_Overlaps_sym by (auto simp: apart_def)

lemma prefixOverlapsAny_iff: "prefixOverlapsAny p used \<longleftrightarrow> (\<exists>q \<in> set used. prefix_Overlaps p q)"
  by (auto simp: prefixOverlapsAny_def list_ex_iff)

lemma stored_routes_in: "stored_routes i s = [] \<or> (\<exists>x \<in> set (node_network s). net_node x = i \<and> net_routes x = stored_routes i s)"
  using find_SomeD by (fastforce simp: stored_routes_def net_row_def split: option.splits)

text \<open>Replacing the routes of one node keeps the invariant when the new ones are good and apart from all others.\<close>

lemma nets_ok_replace:
  assumes "nets_ok net rows" "routes_good net rs" "\<And>x. net_node (g x) = net_node x" "\<And>x. net_routes (g x) = rs"
    and "\<forall>y \<in> set rows. net_node y \<noteq> i \<longrightarrow> apart (virtual_prefixes rs) (virtual_prefixes (net_routes y))"
  shows "nets_ok net (map (\<lambda>x. if net_node x = i then g x else x) rows)"
proof -
  let ?f = "\<lambda>x. if net_node x = i then g x else x"
  have id: "net_node (?f x) = net_node x" for x using assms(3) by simp
  have m: "map net_node (map ?f rows) = map net_node rows" using id by simp
  have ap: "apart (virtual_prefixes (net_routes (?f x))) (virtual_prefixes (net_routes (?f y)))"
    if "x \<in> set rows" "y \<in> set rows" "net_node x \<noteq> net_node y" for x y
    using that assms(1,4,5) apart_sym by (auto simp: nets_ok_def)
  have rg: "routes_good net (net_routes (?f x))" if "x \<in> set rows" for x
    using that assms(1,2,4) by (auto simp: nets_ok_def)
  have "distinct (map net_node rows)" using assms(1) by (simp add: nets_ok_def)
  then show ?thesis unfolding nets_ok_def m set_map ball_simps(9) id using ap rg by blast
qed

lemma nets_ok_append:
  assumes "nets_ok net rows" "routes_good net (net_routes r)" "net_node r \<notin> net_node ` set rows"
    and "\<forall>y \<in> set rows. apart (virtual_prefixes (net_routes r)) (virtual_prefixes (net_routes y))"
  shows "nets_ok net (rows @ [r])"
  using assms apart_sym by (auto simp: nets_ok_def)

lemma net_row_None: "net_row i s = None \<longleftrightarrow> i \<notin> net_node ` set (node_network s)"
  by (auto simp: net_row_def find_None_iff)

lemma put_nets_ok:
  assumes "nets_ok (network s) (node_network s)" "routes_good (network s) rs"
    and "\<forall>y \<in> set (node_network s). net_node y \<noteq> i \<longrightarrow> apart (virtual_prefixes rs) (virtual_prefixes (net_routes y))"
  shows "nets_ok (network s) (node_network (put_routes i rs s))"
    "nets_ok (network s) (node_network (put_network i name rs s))"
proof -
  have fresh: "nets_ok (network s) (node_network s @ [\<lparr>net_node = i, net_name = n, net_routes = rs\<rparr>])"
    if "net_row i s = None" for n
    using that assms by (intro nets_ok_append) (auto simp: net_row_None)
  have "nets_ok (network s) (map (\<lambda>x. if net_node x = i then x\<lparr>net_routes := rs\<rparr> else x) (node_network s))"
    "nets_ok (network s) (map (\<lambda>x. if net_node x = i then x\<lparr>net_name := name, net_routes := rs\<rparr> else x) (node_network s))"
    using assms by (intro nets_ok_replace; simp)+
  then show "nets_ok (network s) (node_network (put_routes i rs s))"
    "nets_ok (network s) (node_network (put_network i name rs s))"
    using fresh by (simp_all add: put_routes_def put_network_def)
qed

lemma stored_good: "nets_ok net (node_network s) \<Longrightarrow> routes_good net (stored_routes i s)"
  using stored_routes_in [of i s] by (auto simp: nets_ok_def routes_good_def)

lemma stored_apart:
  assumes "nets_ok net (node_network s)" "y \<in> set (node_network s)" "net_node y \<noteq> i"
  shows "apart (virtual_prefixes (stored_routes i s)) (virtual_prefixes (net_routes y))"
  using stored_routes_in [of i s] assms by (auto simp: nets_ok_def apart_def)

lemma parseLANRoute_Inr:
  "parseLANRoute raw = Inr (lan, p) \<Longrightarrow> Masked p = p \<and> 16 \<le> Bits p \<and> Bits p \<le> 30 \<and> lan = Prefix_String p"
  by (auto simp: parseLANRoute_def Let_def split: option.splits if_splits)

lemma add_route_ok:
  assumes ok: "nets_ok (network s) (node_network s)" and a: "add_route now i raw s = Some (res, s')"
  shows "network s' = network s \<and> dns_records s' = dns_records s \<and> nets_ok (network s) (node_network s')
    \<and> (node_network s' = node_network s \<or> (\<exists>rs. node_network s' = node_network (put_routes i rs s)))"
proof (cases "\<exists>lan p virt. parseLANRoute raw = Inr (lan, p) \<and>
    s' = audit now ''node_route_added'' (''node='' @ i @ '' route='' @ lan @ '' virtual='' @ virt)
           (put_routes i (stored_routes i s @ [\<lparr>route_lan = lan, route_virtual = virt\<rparr>]) s) \<and>
    \<not> list_ex (\<lambda>a. route_lan a = lan) (stored_routes i s) \<and> virt \<noteq> [] \<and>
    allocateVirtual (Bits p) (concat (map (\<lambda>x. virtual_prefixes (net_routes x)) (node_network s)) @ [network s]) = Some virt")
  case False
  then have "s' = s" using a by (auto simp: add_route_def Let_def split: sum.splits if_splits option.splits prod.splits)
  then show ?thesis using ok by simp
next
  case True
  then obtain lan p virt where h: "parseLANRoute raw = Inr (lan, p)"
    and s': "s' = audit now ''node_route_added'' (''node='' @ i @ '' route='' @ lan @ '' virtual='' @ virt)
           (put_routes i (stored_routes i s @ [\<lparr>route_lan = lan, route_virtual = virt\<rparr>]) s)"
    and new: "\<not> list_ex (\<lambda>a. route_lan a = lan) (stored_routes i s)" "virt \<noteq> []"
    and al: "allocateVirtual (Bits p) (concat (map (\<lambda>x. virtual_prefixes (net_routes x)) (node_network s)) @ [network s]) = Some virt"
    by blast
  note p = parseLANRoute_Inr [OF h]
  obtain v where v: "virt = Prefix_String v" "Bits v = Bits p" "Masked v = v"
    "\<not> prefixOverlapsAny v (concat (map (\<lambda>x. virtual_prefixes (net_routes x)) (node_network s)) @ [network s])"
    using allocateVirtual_Some [OF al _ _ new(2)] p by blast
  have far: "\<not> prefix_Overlaps v (network s)" "\<forall>x \<in> set (node_network s). \<forall>q \<in> set (virtual_prefixes (net_routes x)). \<not> prefix_Overlaps v q"
    using v(4) by (auto simp: prefixOverlapsAny_iff)
  have own: "\<forall>q \<in> set (virtual_prefixes (stored_routes i s)). \<not> prefix_Overlaps v q"
    using far(2) stored_routes_in [of i s] by auto
  let ?a = "\<lparr>route_lan = lan, route_virtual = virt\<rparr>"
  have good: "routes_good (network s) (stored_routes i s @ [?a])"
    using stored_good [OF ok, of i] new(1) far(1) p v own prefix_Overlaps_sym
    by (auto simp: routes_good_def route_good_def list_ex_iff sorted_wrt_append)
  have "nets_ok (network s) (node_network (put_routes i (stored_routes i s @ [?a]) s))"
    using stored_apart [OF ok] far(2) p v by (intro put_nets_ok(1) [OF ok good]) (auto simp: apart_def)
  then show ?thesis using s' by (auto simp: audit_def put_routes_def)
qed

lemma virtual_prefixes_filter:
  "set (virtual_prefixes (filter P rs)) \<subseteq> set (virtual_prefixes rs)"
  "sorted_wrt R (virtual_prefixes rs) \<Longrightarrow> sorted_wrt R (virtual_prefixes (filter P rs))"
proof -
  show sub: "set (virtual_prefixes (filter P rs)) \<subseteq> set (virtual_prefixes rs)" for rs
    by (auto simp: set_virtual_prefixes)
  show "sorted_wrt R (virtual_prefixes (filter P rs))" if "sorted_wrt R (virtual_prefixes rs)"
    using that
  proof (induction rs)
    case (Cons a rs)
    then show ?case using sub [of rs] by (auto simp: sorted_wrt_append split: option.splits)
  qed simp
qed

lemma routes_good_filter: "routes_good net rs \<Longrightarrow> routes_good net (filter P rs)"
  using virtual_prefixes_filter(2) by (auto simp: routes_good_def list_all_iff distinct_map_filter)

lemma remove_route_ok:
  assumes ok: "nets_ok (network s) (node_network s)" and r: "remove_route now i raw s = Some (res, s')"
  shows "network s' = network s \<and> dns_records s' = dns_records s \<and> nets_ok (network s) (node_network s')
    \<and> (node_network s' = node_network s \<or> (\<exists>rs. node_network s' = node_network (put_routes i rs s)))"
proof (cases "\<exists>lan x d. net_row i s = Some x \<and>
    s' = audit now ''node_route_removed'' d (put_routes i (filter (\<lambda>a. route_lan a \<noteq> lan) (net_routes x)) s)")
  case False
  then have "s' = s" using r by (auto simp: remove_route_def Let_def split: sum.splits if_splits option.splits prod.splits)
  then show ?thesis using ok by simp
next
  case True
  then obtain lan x d where x: "net_row i s = Some x"
    and s': "s' = audit now ''node_route_removed'' d (put_routes i (filter (\<lambda>a. route_lan a \<noteq> lan) (net_routes x)) s)"
    by blast
  have st: "stored_routes i s = net_routes x" using x by (simp add: stored_routes_def)
  let ?rs = "filter (\<lambda>a. route_lan a \<noteq> lan) (net_routes x)"
  have "routes_good (network s) ?rs" using stored_good [OF ok, of i] st routes_good_filter by simp
  moreover have "\<forall>y \<in> set (node_network s). net_node y \<noteq> i \<longrightarrow> apart (virtual_prefixes ?rs) (virtual_prefixes (net_routes y))"
    using stored_apart [OF ok, of _ i] st virtual_prefixes_filter(1) [of _ "net_routes x"] by (fastforce simp: apart_def)
  ultimately have "nets_ok (network s) (node_network (put_routes i ?rs s))" using put_nets_ok(1) ok by blast
  then show ?thesis using s' by (auto simp: audit_def put_routes_def)
qed

definition lan_good :: "string \<Rightarrow> bool" where
  "lan_good l = (\<exists>p. ParsePrefix l = Some p \<and> Masked p = p \<and> 16 \<le> Bits p \<and> Bits p \<le> 30)"

lemma check_routes_Inr:
  assumes "check_routes seen rs = Inr lans" "distinct seen" "\<forall>l \<in> set seen. lan_good l"
  shows "distinct lans \<and> (\<forall>l \<in> set lans. lan_good l)"
  using assms
proof (induction seen rs rule: check_routes.induct)
  case (2 seen raw rs)
  obtain p0 where p: "ParsePrefix (TrimSpace raw) = Some p0" using 2(2) by (auto split: option.splits)
  let ?p = "Masked p0"
  have c: "16 \<le> Bits ?p" "Bits ?p \<le> 30" "Prefix_String ?p \<notin> set seen" "check_routes (seen @ [Prefix_String ?p]) rs = Inr lans"
    using 2(2) p by (auto simp: Let_def split: if_splits)
  have "lan_good (Prefix_String ?p)" using c(1,2) by (auto simp: lan_good_def)
  then show ?case using 2(1) [OF p refl refl] c 2(3,4) by auto
qed simp

lemma assign_virtuals_spec:
  assumes "\<forall>l \<in> set lans. lan_good l" "\<forall>a \<in> set old. route_good net a" "net \<in> set used"
  shows "\<exists>res. assign_virtuals old used lans = Some res \<and> (\<forall>rs. res = Inr rs \<longrightarrow>
    map route_lan rs = lans \<and> list_all (route_good net) rs \<and> apart (virtual_prefixes rs) used
    \<and> sorted_wrt (\<lambda>p q. \<not> prefix_Overlaps p q) (virtual_prefixes rs))"
  using assms(1,3)
proof (induction lans arbitrary: used)
  case (Cons lan lans)
  obtain l where l: "ParsePrefix lan = Some l" "Masked l = l" "16 \<le> Bits l" "Bits l \<le> 30"
    using Cons.prems(1) by (auto simp: lan_good_def)
  let ?kept = "case ParsePrefix (old_virtual old lan) of
                    None \<Rightarrow> []
                  | Some p \<Rightarrow> if prefixOverlapsAny p used then [] else old_virtual old lan"
  have kept: "\<exists>v. ParsePrefix ?kept = Some v \<and> Bits v = Bits l \<and> Masked v = v \<and> \<not> prefixOverlapsAny v used" if k: "?kept \<noteq> []"
  proof -
    obtain v where v: "ParsePrefix (old_virtual old lan) = Some v" "\<not> prefixOverlapsAny v used" "?kept = old_virtual old lan"
      using k by (cases "ParsePrefix (old_virtual old lan)") (auto split: if_splits)
    obtain a where "a \<in> set old" "route_lan a = lan" "route_virtual a = old_virtual old lan"
      using k v(3) find_SomeD [of _ "rev old"] by (force simp: old_virtual_def split: option.splits)
    then have "Bits v = Bits l \<and> Masked v = v" using assms(2) v(1) l(1) by (fastforce simp: route_good_def)
    then show ?thesis using v by metis
  qed
  obtain virt where virt: "(if ?kept = [] then allocateVirtual (Bits l) used else Some ?kept) = Some virt"
    using allocateVirtual_result [OF l(3,4), of used] by (cases "?kept = []") auto
  show ?case
  proof (cases "virt = []")
    case True
    then have "assign_virtuals old used (lan # lans) = Some (Inl (409, ''10.77.0.0/16 virtual address pool is exhausted''))"
      using virt l(1) by (simp add: Let_def)
    then show ?thesis by blast
  next
    case False
    have "\<exists>v. ParsePrefix virt = Some v \<and> Bits v = Bits l \<and> Masked v = v \<and> \<not> prefixOverlapsAny v used"
    proof (cases "?kept = []")
      case True
      then have "allocateVirtual (Bits l) used = Some virt" using virt by simp
      then obtain v where v: "virt = Prefix_String v" "Bits v = Bits l" "Masked v = v" "\<not> prefixOverlapsAny v used"
        using allocateVirtual_Some [OF _ l(3,4) False] by blast
      then have "ParsePrefix virt = Some v" using l(4) by simp
      then show ?thesis using v by blast
    next
      case k: False
      then show ?thesis using kept [OF k] virt by simp
    qed
    then obtain v where v: "ParsePrefix virt = Some v" "Bits v = Bits l" "Masked v = v" "\<not> prefixOverlapsAny v used" by blast
    obtain res where res: "assign_virtuals old (used @ [v]) lans = Some res" and
      spec: "\<And>rs. res = Inr rs \<Longrightarrow> map route_lan rs = lans \<and> list_all (route_good net) rs \<and> apart (virtual_prefixes rs) (used @ [v])
        \<and> sorted_wrt (\<lambda>p q. \<not> prefix_Overlaps p q) (virtual_prefixes rs)"
      using Cons.IH [of "used @ [v]"] Cons.prems by auto
    have eq: "assign_virtuals old used (lan # lans)
        = Some (map_sum id (\<lambda>rs. \<lparr>route_lan = lan, route_virtual = virt\<rparr> # rs) res)"
      using virt False v(1) res l(1) by (simp add: Let_def)
    have far: "\<forall>q \<in> set used. \<not> prefix_Overlaps v q" using v(4) by (auto simp: prefixOverlapsAny_iff)
    have "route_good net \<lparr>route_lan = lan, route_virtual = virt\<rparr>"
      using l v far Cons.prems(2) by (auto simp: route_good_def)
    then show ?thesis unfolding eq using spec v(1) far prefix_Overlaps_sym
      by (cases res) (auto simp: apart_def)
  qed
qed (simp add: apart_def)

lemma check_dns_Inr:
  assumes "check_dns i name al s names xs = Inr ds"
  shows "distinct (map dns_name ds) \<and> set (map dns_name ds) \<inter> set names = {} \<and>
    (\<forall>d \<in> set ds. dns_node d = i \<and> dns_name d \<noteq> name \<and> dns_name d \<noteq> [] \<and> \<not> dns_taken i (dns_name d) s
       \<and> \<not> name_owned_elsewhere i (dns_name d) s)"
  using assms
proof (induction i name al s names xs arbitrary: ds rule: check_dns.induct)
  case (2 i name al s names n0 ip0 xs)
  let ?n = "ToLower (TrimSpace n0)" and ?ip = "TrimSpace ip0"
  obtain ds' where ds': "check_dns i name al s (names @ [?n]) xs = Inr ds'" "ds = \<lparr>dns_node = i, dns_name = ?n, dns_lan_ip = ?ip\<rparr> # ds'"
    using 2(2) by (cases "check_dns i name al s (names @ [?n]) xs") (auto simp: Let_def split: if_splits)
  have c: "?n \<noteq> []" "?n \<notin> set names" "?n \<noteq> name" "\<not> dns_taken i ?n s" "\<not> name_owned_elsewhere i ?n s"
    "\<not> (\<not> validDNSName ?n \<or> ?n = [] \<or> ?n \<in> set names \<or> ?n = name)" "translatedIP ?ip al True \<noteq> []"
    "\<not> (dns_taken i ?n s \<or> name_owned_elsewhere i ?n s)"
    using 2(2) by (auto simp: Let_def split: if_splits)
  show ?case using 2(1) [OF refl refl c(6) _ c(8) ds'(1)] c ds' by auto
qed simp

lemma not_taken: "\<not> dns_taken i n s \<longleftrightarrow> (\<forall>d \<in> set (dns_records s). dns_name d = n \<longrightarrow> dns_node d = i)"
  "\<not> name_taken i n s \<longleftrightarrow> (\<forall>x \<in> set (node_network s). net_name x = n \<longrightarrow> net_node x = i)"
  by (auto simp: dns_taken_def name_taken_def list_ex_iff)

lemma not_owned_elsewhere:
  assumes "names_ok (node_network s) ds" "n \<noteq> []" "\<not> name_owned_elsewhere i n s"
  shows "\<forall>x \<in> set (node_network s). net_name x = n \<longrightarrow> net_node x = i"
proof (intro ballI impI)
  fix x assume x: "x \<in> set (node_network s)" "net_name x = n"
  then have "find (\<lambda>x. net_name x = n) (node_network s) \<noteq> None" by (auto simp: find_None_iff)
  then obtain y where f: "find (\<lambda>x. net_name x = n) (node_network s) = Some y" by blast
  have y: "y \<in> set (node_network s)" "net_name y = n" using find_SomeD [OF f] by blast+
  have own: "net_node y = i" using assms(3) unfolding name_owned_elsewhere_def f by simp
  have all: "\<forall>x \<in> set (node_network s). \<forall>y \<in> set (node_network s). net_name x = net_name y \<and> net_name x \<noteq> [] \<longrightarrow> net_node x = net_node y"
    using assms(1) unfolding names_ok_def by (rule conjunct1)
  have "net_name x = net_name y \<and> net_name x \<noteq> []" unfolding x(2) y(2) using assms(2) by blast
  then have "net_node x = net_node y" using all x(1) y(1) by blast
  then show "net_node x = i" unfolding own .
qed

lemma put_network_rows:
  "set (node_network (put_network i name rs s)) \<subseteq>
     {x \<in> set (node_network s). net_node x \<noteq> i} \<union> {x. net_node x = i \<and> net_name x = name \<and> net_routes x = rs}"
  by (auto simp: put_network_def net_row_None split: if_splits)

lemma put_routes_rows:
  "y \<in> set (node_network (put_routes i rs s)) \<Longrightarrow>
     net_name y = [] \<or> (\<exists>x \<in> set (node_network s). net_node y = net_node x \<and> net_name y = net_name x)"
  by (auto simp: put_routes_def split: if_splits)

lemma names_ok_put_routes:
  assumes "names_ok (node_network s) ds"
  shows "names_ok (node_network (put_routes i rs s)) ds"
  using assms put_routes_rows [of _ i rs s] unfolding names_ok_def by metis

lemma names_ok_write:
  assumes ok: "names_ok (node_network s) (dns_records s)"
    and name: "name \<noteq> [] \<Longrightarrow> \<not> name_taken i name s \<and> \<not> dns_taken i name s"
    and ds: "\<forall>d \<in> set ds. dns_node d = i \<and> dns_name d \<noteq> name \<and> dns_name d \<noteq> [] \<and> \<not> name_owned_elsewhere i (dns_name d) s"
    and dist: "distinct (map dns_name (filter (\<lambda>d. dns_node d \<noteq> i) (dns_records s) @ ds))"
  shows "names_ok (node_network (put_network i name rs s)) (filter (\<lambda>d. dns_node d \<noteq> i) (dns_records s) @ ds)"
proof -
  let ?rows = "node_network (put_network i name rs s)"
  have rows: "x \<in> set (node_network s) \<and> net_node x \<noteq> i \<or> net_node x = i \<and> net_name x = name" if "x \<in> set ?rows" for x
    using put_network_rows [of i name rs s] that by auto
  have free: "\<forall>x \<in> set (node_network s). net_name x = name \<and> name \<noteq> [] \<longrightarrow> net_node x = i"
    "\<forall>d \<in> set (dns_records s). dns_name d = name \<and> name \<noteq> [] \<longrightarrow> dns_node d = i"
    using name not_taken by blast+
  have own: "\<forall>d \<in> set ds. \<forall>x \<in> set (node_network s). net_name x = dns_name d \<longrightarrow> net_node x = i"
    using ds not_owned_elsewhere [OF ok] by blast
  have 1: "net_node x = net_node y" if "x \<in> set ?rows" "y \<in> set ?rows" "net_name x = net_name y" "net_name x \<noteq> []" for x y
    using rows [OF that(1)] rows [OF that(2)] that(3,4) free(1) ok unfolding names_ok_def by metis
  have 2: "net_name x \<noteq> dns_name d"
    if "x \<in> set ?rows" "d \<in> set (filter (\<lambda>d. dns_node d \<noteq> i) (dns_records s) @ ds)" "net_name x \<noteq> []" for x d
  proof (cases "d \<in> set ds")
    case True
    then show ?thesis using rows [OF that(1)] own ds by metis
  next
    case False
    then have "d \<in> set (dns_records s)" "dns_node d \<noteq> i" using that(2) by auto
    then show ?thesis using rows [OF that(1)] that(3) free(2) ok unfolding names_ok_def by metis
  qed
  show ?thesis unfolding names_ok_def using 1 2 dist by blast
qed

lemma set_network_cases:
  assumes "set_network now i b s = Some (res, s')"
  shows "s' = s \<or> (\<exists>name lans allocated ds d. (name \<noteq> [] \<longrightarrow> \<not> name_taken i name s \<and> \<not> dns_taken i name s) \<and>
    check_routes [] (nb_routes b) = Inr lans \<and>
    assign_virtuals (stored_routes i s) (concat (map (\<lambda>x. if net_node x = i then [] else virtual_prefixes (net_routes x)) (node_network s))
               @ [network s]) lans = Some (Inr allocated) \<and>
    check_dns i name allocated s [] (nb_dns b) = Inr ds \<and>
    distinct (map dns_name (filter (\<lambda>d. dns_node d \<noteq> i) (dns_records s) @ ds)) \<and>
    s' = audit now ''node_network'' d ((put_network i name allocated s)
           \<lparr>dns_records := filter (\<lambda>d. dns_node d \<noteq> i) (dns_records s) @ ds\<rparr>))"
proof (cases "s' = s")
  case False
  let ?name = "ToLower (TrimSpace (nb_name b))"
  have dr: "dns_records (put_network i n rs s) = dns_records s" for n rs by (simp add: put_network_def)
  obtain lans where l: "check_routes [] (nb_routes b) = Inr lans"
    using assms False by (cases "check_routes [] (nb_routes b)") (auto simp: set_network_def Let_def split: if_splits)
  let ?used = "concat (map (\<lambda>x. if net_node x = i then [] else virtual_prefixes (net_routes x)) (node_network s)) @ [network s]"
  obtain al where al: "assign_virtuals (stored_routes i s) ?used lans = Some (Inr al)"
    using assms False l by (auto simp: set_network_def Let_def split: if_splits option.splits sum.splits)
  have nm: "\<not> (?name \<noteq> [] \<and> name_taken i ?name s)" "\<not> (?name \<noteq> [] \<and> dns_taken i ?name s)"
    using assms False l al by (auto simp: set_network_def Let_def split: if_splits)
  obtain ds where ds: "check_dns i ?name al s [] (nb_dns b) = Inr ds"
    using assms False l al nm by (cases "check_dns i ?name al s [] (nb_dns b)") (auto simp: set_network_def Let_def split: if_splits)
  have "write_network now i ?name al ds s = (res, s')"
    using assms False l al nm ds by (auto simp: set_network_def Let_def split: if_splits)
  then have "distinct (map dns_name (filter (\<lambda>d. dns_node d \<noteq> i) (dns_records s) @ ds))"
    "s' = audit now ''node_network'' (''node='' @ i @ '' name='' @ ?name @ '' routes='' @ routes_json al) ((put_network i ?name al s)
           \<lparr>dns_records := filter (\<lambda>d. dns_node d \<noteq> i) (dns_records s) @ ds\<rparr>)"
    using False unfolding write_network_def Let_def dr by (auto split: if_splits)
  then show ?thesis using l al ds nm by blast
qed simp

lemma set_network_ok:
  assumes ok: "nets_ok (network s) (node_network s)" "names_ok (node_network s) (dns_records s)"
    and a: "set_network now i b s = Some (res, s')"
  shows "network s' = network s \<and> nets_ok (network s) (node_network s') \<and> names_ok (node_network s') (dns_records s')"
proof (cases "s' = s")
  case False
  let ?used = "concat (map (\<lambda>x. if net_node x = i then [] else virtual_prefixes (net_routes x)) (node_network s)) @ [network s]"
  obtain name lans al ds d where c: "name \<noteq> [] \<longrightarrow> \<not> name_taken i name s \<and> \<not> dns_taken i name s"
    "check_routes [] (nb_routes b) = Inr lans" "assign_virtuals (stored_routes i s) ?used lans = Some (Inr al)"
    "check_dns i name al s [] (nb_dns b) = Inr ds"
    "distinct (map dns_name (filter (\<lambda>d. dns_node d \<noteq> i) (dns_records s) @ ds))"
    and s': "s' = audit now ''node_network'' d ((put_network i name al s)
           \<lparr>dns_records := filter (\<lambda>d. dns_node d \<noteq> i) (dns_records s) @ ds\<rparr>)"
    using set_network_cases [OF a] False by blast
  have lans: "distinct lans" "\<forall>l \<in> set lans. lan_good l" using check_routes_Inr [OF c(2)] by simp_all
  have old: "\<forall>a \<in> set (stored_routes i s). route_good (network s) a"
    using stored_good [OF ok(1), of i] by (simp add: routes_good_def list_all_iff)
  have rs: "map route_lan al = lans" "list_all (route_good (network s)) al" "apart (virtual_prefixes al) ?used"
    "sorted_wrt (\<lambda>p q. \<not> prefix_Overlaps p q) (virtual_prefixes al)"
    using assign_virtuals_spec [OF lans(2) old, of ?used] c(3) by auto
  have good: "routes_good (network s) al" using rs lans(1) by (simp add: routes_good_def)
  have "nets_ok (network s) (node_network (put_network i name al s))"
    using rs(3) by (intro put_nets_ok(2) [OF ok(1) good]) (auto simp: apart_def split: if_splits)
  moreover have "names_ok (node_network (put_network i name al s)) (filter (\<lambda>d. dns_node d \<noteq> i) (dns_records s) @ ds)"
    using c(1) check_dns_Inr [OF c(4)] by (intro names_ok_write [OF ok(2) _ _ c(5)]) auto
  ultimately show ?thesis using s' by (simp add: audit_def put_network_def)
qed (use ok in simp)

section \<open>All handlers together\<close>

text \<open>The other handlers keep the network tables, or delete the rows of a removed node.\<close>

definition nets_shrink :: "server \<Rightarrow> server \<Rightarrow> bool" where
  "nets_shrink s s' = (network s' = network s \<and> (\<exists>P. node_network s' = filter P (node_network s))
     \<and> (\<exists>Q. dns_records s' = filter Q (dns_records s)))"

lemma filter_all: "filter (\<lambda>_. True) xs = xs"
  by simp

lemma same_nets_shrink:
  assumes "network s' = network s" "node_network s' = node_network s" "dns_records s' = dns_records s"
  shows "nets_shrink s s'"
  unfolding nets_shrink_def using assms filter_all by metis

lemma same_view_shrink: "same_view s s' \<Longrightarrow> nets_shrink s s'"
  by (intro same_nets_shrink) (simp_all add: same_view_def)

lemma register_commit_nets:
  assumes "register_commit now pl s = Some (r, s')"
  shows "network s' = network s \<and> node_network s' = node_network s \<and> dns_records s' = dns_records s"
proof -
  have "network s2 = network s1 \<and> node_network s2 = node_network s1 \<and> dns_records s2 = dns_records s1"
    if "write_row now ip pl s1 = (r, s2)" for ip s1 s2
    using that by (auto simp: write_row_def Let_def split: option.splits if_splits)
  then show ?thesis using assms
    by (fastforce simp: register_commit_def claim_ip_def reclaim_def Let_def split: option.splits if_splits)
qed

lemma register_nets:
  assumes "register dg sha t rnd r body s = Some (res, s')"
  shows "network s' = network s \<and> node_network s' = node_network s \<and> dns_records s' = dns_records s"
proof -
  obtain c s1 where c: "register_check dg sha t r body s = (c, s1)" by force
  have v1: "same_rows s s1" using register_check_cases [OF c] by blast
  show ?thesis
  proof (cases c)
    case (Inl e)
    then show ?thesis using assms c v1 by (simp add: register_def same_rows_def)
  next
    case (Inr pl)
    obtain k s2 where k: "register_commit (unix t) pl s1 = Some (k, s2)"
      using assms c Inr by (auto simp: register_def split: option.splits)
    note n2 = register_commit_nets [OF k]
    show ?thesis
    proof (cases k)
      case (Inl e)
      then show ?thesis using assms c Inr k n2 v1 by (simp add: register_def same_rows_def)
    next
      case k': (Inr ip)
      then have "s' = snd (register_finish dg t rnd r ip pl s2)" using assms c Inr k by (simp add: register_def)
      then show ?thesis using register_finish_view [of s2 dg t rnd r ip pl] n2 v1 by (simp add: same_view_def same_rows_def)
    qed
  qed
qed

lemma adminNode_shrink:
  assumes "adminNode dg now r i s = (res, s')"
  shows "nets_shrink s s'"
proof -
  obtain c s1 where c: "node_access dg now r i s = (c, s1)" by force
  have v1: "same_rows s s1" using node_access_rows [of s dg now r i] c by simp
  have "nets_shrink s s1" using v1 by (intro same_nets_shrink) (simp_all add: same_rows_def)
  moreover have "nets_shrink s (audit now e d (audit now e' d' ((drop_node i s1)\<lparr>revoked_nodes := x\<rparr>)))" for e d e' d' x
    using v1 unfolding nets_shrink_def same_rows_def by (auto simp: audit_def drop_node_def)
  ultimately show ?thesis using assms by (auto simp: adminNode_def c split: sum.splits if_splits)
qed

lemma adminUnban_shrink:
  assumes "adminUnban dg now r i s = (res, s')"
  shows "nets_shrink s s'"
proof -
  obtain c s1 where c: "adminAuth dg now r s = (c, s1)" by force
  have v1: "same_rows s s1" using adminAuth_rows [of s dg now r] c by simp
  then have "nets_shrink s (audit now e d (s1\<lparr>revoked_nodes := x\<rparr>))" "nets_shrink s s1" for e d x
    by (intro same_nets_shrink; simp add: same_rows_def audit_def)+
  then show ?thesis using assms by (auto simp: adminUnban_def c split: sum.splits if_splits)
qed

lemma registry_step_shrink:
  assumes "registry_step dg sha is_ip s s'"
  shows "nets_shrink s s'"
  using assms
proof cases
  case Register
  then show ?thesis using register_nets same_nets_shrink by blast
next
  case AdminNode
  then show ?thesis by (rule adminNode_shrink)
next
  case AdminUnban
  then show ?thesis by (rule adminUnban_shrink)
next
  case AdminNodeRole
  then show ?thesis using adminNodeRole_view same_view_shrink by (metis snd_conv)
next
  case Telemetry
  then show ?thesis using telemetry_view same_view_shrink by (metis snd_conv)
next
  case AdminGraph
  then show ?thesis using adminGraph_view same_view_shrink by (metis snd_conv)
next
  case AdminConfig
  then show ?thesis using adminConfig_view same_view_shrink by (metis snd_conv)
qed

inductive net_step :: "(string \<Rightarrow> string) \<Rightarrow> (string \<Rightarrow> bytes) \<Rightarrow> (string \<Rightarrow> bool) \<Rightarrow> server \<Rightarrow> server \<Rightarrow> bool"
  for dg sha is_ip where
  Registry: "registry_step dg sha is_ip s s' \<Longrightarrow> net_step dg sha is_ip s s'"
| AddRoute: "adminAddNodeRoute dg now r i raw s = Some (res, s') \<Longrightarrow> net_step dg sha is_ip s s'"
| RemoveRoute: "adminRemoveNodeRoute dg now r i raw s = Some (res', s') \<Longrightarrow> net_step dg sha is_ip s s'"
| SetNetwork: "adminNodeNetwork dg now r i body s = Some (res'', s') \<Longrightarrow> net_step dg sha is_ip s s'"

definition networks_ok :: "server \<Rightarrow> bool" where
  "networks_ok s = (nets_ok (network s) (node_network s) \<and> names_ok (node_network s) (dns_records s))"

lemma nets_ok_filter: "nets_ok net rows \<Longrightarrow> nets_ok net (filter P rows)"
  by (simp add: nets_ok_def distinct_map_filter)

lemma names_ok_filter:
  assumes "names_ok rows ds"
  shows "names_ok (filter P rows) (filter Q ds)"
proof -
  have "distinct (map dns_name (filter Q ds))" using assms unfolding names_ok_def by (metis distinct_map_filter)
  then show ?thesis using assms unfolding names_ok_def set_filter by blast
qed

lemma shrink_ok:
  assumes "nets_shrink s s'" "networks_ok s"
  shows "networks_ok s'"
proof -
  obtain P Q where "network s' = network s" "node_network s' = filter P (node_network s)" "dns_records s' = filter Q (dns_records s)"
    using assms(1) unfolding nets_shrink_def by blast
  then show ?thesis using assms(2) by (simp add: networks_ok_def nets_ok_filter names_ok_filter)
qed

text \<open>Every handler of a node's network starts with the access check, which changes no network table.\<close>

lemma access_ok:
  assumes "networks_ok s" "node_access dg now r i s = (c, s1)"
  shows "networks_ok s1"
  using shrink_ok [OF same_nets_shrink assms(1)] node_access_rows [of s dg now r i] assms(2) by (simp add: same_rows_def)

lemma net_step_ok:
  assumes "net_step dg sha is_ip s s'" "networks_ok s"
  shows "networks_ok s'"
  using assms(1)
proof cases
  case Registry
  then show ?thesis using registry_step_shrink shrink_ok assms(2) by blast
next
  case (AddRoute now r i raw res)
  obtain c s1 where c: "node_access dg now r i s = (c, s1)" by force
  note ok1 = access_ok [OF assms(2) c]
  consider "s' = s1" | w where "add_route now i w s1 = Some (res, s')"
    using AddRoute by (auto simp: adminAddNodeRoute_def c split: sum.splits option.splits)
  then show ?thesis
  proof cases
    case 2
    then show ?thesis using add_route_ok [OF _ 2] ok1 names_ok_put_routes unfolding networks_ok_def by metis
  qed (use ok1 in simp)
next
  case (RemoveRoute now r i raw res)
  obtain c s1 where c: "node_access dg now r i s = (c, s1)" by force
  note ok1 = access_ok [OF assms(2) c]
  consider "s' = s1" | w where "remove_route now i w s1 = Some (res, s')"
    using RemoveRoute by (auto simp: adminRemoveNodeRoute_def c split: sum.splits option.splits)
  then show ?thesis
  proof cases
    case 2
    then show ?thesis using remove_route_ok [OF _ 2] ok1 names_ok_put_routes unfolding networks_ok_def by metis
  qed (use ok1 in simp)
next
  case (SetNetwork now r i body res)
  obtain c s1 where c: "node_access dg now r i s = (c, s1)" by force
  note ok1 = access_ok [OF assms(2) c]
  consider "s' = s1" | b where "set_network now i b s1 = Some (res, s')"
    using SetNetwork by (auto simp: adminNodeNetwork_def c split: sum.splits option.splits)
  then show ?thesis
  proof cases
    case (2 b)
    then show ?thesis using set_network_ok [OF _ _ 2] ok1 unfolding networks_ok_def by metis
  qed (use ok1 in simp)
qed

text \<open>The routes that the coordinator advertises, with the nodes that own them.\<close>

definition advertised :: "server \<Rightarrow> (string \<times> routeAdvertisement) set" where
  "advertised s = {(net_node x, a) |x a. x \<in> set (node_network s) \<and> a \<in> set (net_routes x)}"

lemma sorted_wrt_virtuals:
  assumes "sorted_wrt (\<lambda>p q. \<not> prefix_Overlaps p q) (virtual_prefixes rs)" "a \<in> set rs" "b \<in> set rs"
    "ParsePrefix (route_virtual a) = Some p" "ParsePrefix (route_virtual b) = Some q" "prefix_Overlaps p q"
  shows "a = b"
  using assms(1-3)
proof (induction rs)
  case (Cons c rs)
  have ov: "prefix_Overlaps q p" using assms(6) by (simp add: prefix_Overlaps_iff) blast
  have tail: "sorted_wrt (\<lambda>p q. \<not> prefix_Overlaps p q) (virtual_prefixes rs)"
    "\<And>d r r'. ParsePrefix (route_virtual c) = Some r \<Longrightarrow> d \<in> set rs \<Longrightarrow> ParsePrefix (route_virtual d) = Some r' \<Longrightarrow>
       \<not> prefix_Overlaps r r'"
    using Cons.prems(1) by (auto simp: sorted_wrt_append set_virtual_prefixes split: option.splits)
  consider "a = c" "b = c" | "a = c" "b \<in> set rs" | "b = c" "a \<in> set rs" | "a \<in> set rs" "b \<in> set rs"
    using Cons.prems(2,3) by auto
  then show ?case using Cons.IH [OF tail(1)] tail(2) assms(4-6) ov by cases blast+
qed simp

lemma advertised_unique:
  assumes ok: "nets_ok net (node_network s)" and "(i, a) \<in> advertised s" "(j, b) \<in> advertised s"
    and "ParsePrefix (route_virtual a) = Some p" "ParsePrefix (route_virtual b) = Some q" "prefix_Overlaps p q"
  shows "i = j \<and> a = b"
proof -
  obtain x y where x: "x \<in> set (node_network s)" "a \<in> set (net_routes x)" "net_node x = i"
    and y: "y \<in> set (node_network s)" "b \<in> set (net_routes y)" "net_node y = j"
    using assms(2,3) unfolding advertised_def by blast
  have ps: "p \<in> set (virtual_prefixes (net_routes x))" "q \<in> set (virtual_prefixes (net_routes y))"
    using x y assms(4,5) by (auto simp: set_virtual_prefixes)
  have ij: "i = j" using ok x y ps assms(6) unfolding nets_ok_def apart_def by metis
  then have "x = y" using ok x y unfolding nets_ok_def by (metis distinct_map inj_onD)
  moreover have "sorted_wrt (\<lambda>p q. \<not> prefix_Overlaps p q) (virtual_prefixes (net_routes x))"
    using ok x(1) by (simp add: nets_ok_def routes_good_def)
  ultimately show ?thesis using sorted_wrt_virtuals x(2) y(2) assms(4-6) ij by metis
qed


text \<open>Withdrawing a route never returns when a name of the node lies in the withdrawn LAN only, and returns in every
  other case: the handler deletes the stale name through the connection pool while the rows of its own
  query occupy the only connection of the pool.\<close>

lemma stale_name_blocks_removal:
  assumes "node_access dg now r i s0 = (Inr (), s)" "parseLANRoute raw = Inr (lan, p)" "net_row i s = Some x"
    and "lan \<in> route_lan ` set (net_routes x)"
  shows "adminRemoveNodeRoute dg now r i (Some raw) s0 = None \<longleftrightarrow>
    (\<exists>d \<in> set (dns_records s). dns_node d = i
       \<and> translatedIP (dns_lan_ip d) (filter (\<lambda>a. route_lan a \<noteq> lan) (net_routes x)) True = [])"
  using assms by (auto simp: adminRemoveNodeRoute_def remove_route_def Let_def list_ex_iff)

lemma TrimSpace_none: "\<forall>c \<in> set w. \<not> is_space c \<Longrightarrow> TrimSpace w = w"
proof -
  assume none: "\<forall>c \<in> set w. \<not> is_space c"
  have "\<forall>c \<in> set v. \<not> is_space c \<Longrightarrow> dropWhile is_space v = v" for v by (cases v) auto
  from this [of w] this [of "rev w"] show "TrimSpace w = w" using none by (simp add: TrimSpace_def)
qed

lemma Prefix_String_no_space: "\<forall>c \<in> set (Prefix_String p). \<not> is_space c"
proof -
  obtain w x y z where b: "put_be32 (Addr p) = [w, x, y, z]" using put_be32_four by blast
  have "\<forall>c \<in> set (itoa n). \<not> is_space c" for n
    using itoa_digits [of n] by (fastforce simp: list_all_iff is_digit_def is_space_def Let_def)
  then show ?thesis by (auto simp: Prefix_String_def Addr_String_def b is_space_def)
qed

lemma parseLANRoute_String:
  assumes "Masked p = p" "16 \<le> Bits p" "Bits p \<le> 30"
  shows "parseLANRoute (Prefix_String p) = Inr (Prefix_String p, p)"
  using assms by (simp add: parseLANRoute_def TrimSpace_none Prefix_String_no_space)

abbreviation lan_a :: prefix where "lan_a \<equiv> \<lparr>Addr = 0xC0A80500, Bits = 24\<rparr>"
abbreviation virtual_a :: prefix where "virtual_a \<equiv> \<lparr>Addr = 0x0A4D0100, Bits = 24\<rparr>"

definition net_route :: routeAdvertisement where
  "net_route = \<lparr>route_lan = Prefix_String lan_a, route_virtual = Prefix_String virtual_a\<rparr>"

definition net_server :: server where
  "net_server = sample_server\<lparr>network := \<lparr>Addr = 0x0A4D0000, Bits = 24\<rparr>,
     node_network := [\<lparr>net_node = ''n1'', net_name = ''home'', net_routes = [net_route]\<rparr>],
     dns_records := [\<lparr>dns_node = ''n1'', dns_name = ''printer'', dns_lan_ip = ''192.168.5.9''\<rparr>]\<rparr>"

lemma net_samples: "Masked lan_a = lan_a" "Masked virtual_a = virtual_a"
  by (intro aligned_masked, simp)+

lemma net_server_ok: "networks_ok net_server"
  by (simp add: networks_ok_def nets_ok_def names_ok_def net_server_def net_route_def routes_good_def route_good_def
      net_samples prefix_Overlaps_def Let_def drop_bit_word_numeral)


abbreviation net_request :: request where "net_request \<equiv> sample_request\<lparr>X_Mesh_Token := ''net''\<rparr>"

lemma net_access: "node_access sample_digest 0 net_request ''n1'' net_server = (Inr (), net_server)"
  by (simp add: node_access_def adminAuth_def networkTokenValid_def accountIDForRequest_def requireNodeAccess_def sessionUser_def
      accountTokenUser_def account_of_token_def live_account_def
      sample_request_def net_server_def sample_server_def server.defs accounts.defs sample_accounts_def sample_digest_def)

lemma stale_name_blocks_removal_witness:
  "adminRemoveNodeRoute sample_digest 0 net_request ''n1'' (Some (Prefix_String lan_a)) net_server = None"
proof -
  note net_access
  moreover have "parseLANRoute (Prefix_String lan_a) = Inr (Prefix_String lan_a, lan_a)"
    by (simp add: parseLANRoute_String net_samples)
  moreover have "net_row ''n1'' net_server = Some \<lparr>net_node = ''n1'', net_name = ''home'', net_routes = [net_route]\<rparr>"
    by (simp add: net_row_def net_server_def)
  ultimately show ?thesis
    using stale_name_blocks_removal by (fastforce simp: net_route_def net_server_def translatedIP_def split: option.splits)
qed

text \<open>A new LAN that is listed before an old one takes over the virtual prefix of the old one, which moves to another
  prefix: addresses that clients hold for the old LAN then lead into the new one.\<close>

lemma earlier_route_takes_virtual:
  "assign_virtuals [net_route] [\<lparr>Addr = 0x0A4D0000, Bits = 24\<rparr>] [Prefix_String \<lparr>Addr = 0xC0A80400, Bits = 24\<rparr>, Prefix_String lan_a]
   = Some (Inr [\<lparr>route_lan = Prefix_String \<lparr>Addr = 0xC0A80400, Bits = 24\<rparr>, route_virtual = Prefix_String virtual_a\<rparr>,
       \<lparr>route_lan = Prefix_String lan_a, route_virtual = Prefix_String \<lparr>Addr = 0x0A4D0200, Bits = 24\<rparr>\<rparr>])"
proof -
  let ?mesh = "\<lparr>Addr = 0x0A4D0000, Bits = 24\<rparr>" and ?new = "\<lparr>Addr = 0xC0A80400, Bits = 24\<rparr>" and ?b = "\<lparr>Addr = 0x0A4D0200, Bits = 24\<rparr>"
  have ne: "Prefix_String lan_a \<noteq> Prefix_String ?new"
  proof
    assume "Prefix_String lan_a = Prefix_String ?new"
    then have "ParsePrefix (Prefix_String lan_a) = ParsePrefix (Prefix_String ?new)" by simp
    then show False by simp
  qed
  have ov: "\<not> prefix_Overlaps virtual_a ?mesh" "prefix_Overlaps ?mesh ?mesh" "prefix_Overlaps virtual_a virtual_a"
    "\<not> prefix_Overlaps ?b ?mesh" "\<not> prefix_Overlaps ?b virtual_a"
    by (simp_all add: prefix_Overlaps_def Let_def drop_bit_word_numeral)
  have 1: "allocateVirtual 24 [?mesh] = Some (Prefix_String virtual_a)"
    unfolding allocateVirtual_def
    by (subst virtual_scan.simps, simp add: prefixOverlapsAny_def ov, subst virtual_scan.simps, simp add: prefixOverlapsAny_def ov)
  have 2: "allocateVirtual 24 [?mesh, virtual_a] = Some (Prefix_String ?b)"
    unfolding allocateVirtual_def
    by (subst virtual_scan.simps, simp add: prefixOverlapsAny_def ov, subst virtual_scan.simps, simp add: prefixOverlapsAny_def ov,
        subst virtual_scan.simps, simp add: prefixOverlapsAny_def ov)
  show ?thesis using ne 1 2
    by (simp add: old_virtual_def net_route_def prefixOverlapsAny_def ov Let_def ParsePrefix_def [of "[]"])
qed

end
