(* ===== verification/Policies.thy ===== *)
theory Policies
  imports Packet_Path Virtual_Nets
begin

text \<open>
  What administrators set for a node beside its networks (\<^verbatim>\<open>server/admin.go\<close>): the firewall policy, port
  forwards and published services.  The policy is followed to the packets that the node lets in, and the
  table of port forwards keeps its invariant through all handlers of the coordinator.  The push of new topologies
  and the notices to browsers at the end of a handler are outside the model.
\<close>

section \<open>Firewall ports\<close>

text \<open>One entry of the list in canonical form.  The messages of the code also quote the entry.\<close>

definition port_entry :: "string \<Rightarrow> string list go_result" where
  "port_entry raw =
     (let entry = TrimSpace (ToLower raw);
          slash = (CHR ''/'' \<in> set entry);
          port = takeWhile (\<lambda>c. c \<noteq> CHR ''/'') entry;
          proto = (if slash then drop (length port + 1) entry else ''both'')
      in if entry = [] then Inr []
         else case Atoi port of
           None \<Rightarrow> Inl ''invalid port''
         | Some n \<Rightarrow>
           if n < 1 \<or> 65535 < n then Inl ''invalid port''
           else if proto = ''tcp'' then Inr [itoa (nat n) @ ''/tcp'']
           else if proto = ''udp'' then Inr [itoa (nat n) @ ''/udp'']
           else if proto = ''both'' \<or> proto = [] then Inr [itoa (nat n) @ ''/tcp'', itoa (nat n) @ ''/udp'']
           else Inl ''unsupported protocol'')"

fun collect_ports :: "string list \<Rightarrow> string list \<Rightarrow> string list go_result" where
  "collect_ports [] out = Inr out"
| "collect_ports (raw # rest) out =
     (case port_entry raw of Inl e \<Rightarrow> Inl e | Inr ps \<Rightarrow> collect_ports rest (out @ ps))"

text \<open>The map of the code is a set of strings, listed in order.\<close>

definition firewallPortList :: "string list \<Rightarrow> string list go_result" where
  "firewallPortList input =
     (case collect_ports input [] of Inl e \<Rightarrow> Inl e | Inr out \<Rightarrow> Inr (sort (remdups out)))"

definition loadFirewall :: "string \<Rightarrow> server \<Rightarrow> firewallConfig" where
  "loadFirewall i s =
     (case node_firewall s i of
        None \<Rightarrow> \<lparr>fw_mode = ''allow_all'', fw_ports = []\<rparr>
      | Some row \<Rightarrow>
          \<lparr>fw_mode = (if fw_mode row = ''whitelist'' then ''whitelist'' else ''allow_all''),
           fw_ports = (case firewallPortList (fw_ports row) of Inr ports \<Rightarrow> ports | Inl _ \<Rightarrow> [])\<rparr>)"

definition adminFirewallGet ::
    "(string \<Rightarrow> string) \<Rightarrow> int \<Rightarrow> request \<Rightarrow> string \<Rightarrow> server \<Rightarrow> firewallConfig reply \<times> server" where
  "adminFirewallGet dg now r i s0 =
     (case node_access dg now r i s0 of
        (Inl e, s) \<Rightarrow> (Inl e, s)
      | (Inr _, s) \<Rightarrow> (Inr (loadFirewall i s), s))"

definition ports_json :: "string list \<Rightarrow> string" where
  "ports_json ports = ''['' @ join_with '','' (map (\<lambda>p. ''\"'' @ p @ ''\"'') ports) @ '']''"

definition adminFirewallSet ::
    "(string \<Rightarrow> string) \<Rightarrow> int \<Rightarrow> request \<Rightarrow> string \<Rightarrow> firewallConfig option \<Rightarrow> server \<Rightarrow>
     firewallConfig reply \<times> server" where
  "adminFirewallSet dg now r i body s0 =
     (case node_access dg now r i s0 of
        (Inl e, s) \<Rightarrow> (Inl e, s)
      | (Inr _, s) \<Rightarrow>
        (case body of
           None \<Rightarrow> (Inl (400, ''invalid firewall settings''), s)
         | Some d \<Rightarrow>
           (let mode = TrimSpace (ToLower (fw_mode d)) in
            if mode \<noteq> ''allow_all'' \<and> mode \<noteq> ''whitelist''
            then (Inl (400, ''mode must be allow_all or whitelist''), s)
            else case firewallPortList (fw_ports d) of
              Inl e \<Rightarrow> (Inl (400, e), s)
            | Inr ports \<Rightarrow>
              if 256 < length ports then (Inl (400, ''too many ports (max 256)''), s)
              else (let fw = \<lparr>fw_mode = mode, fw_ports = ports\<rparr> in
                (Inr fw, audit now ''firewall_updated''
                   (''node='' @ i @ '' mode='' @ mode @ '' ports='' @ ports_json ports)
                   (s\<lparr>node_firewall := (node_firewall s)(i \<mapsto> fw)\<rparr>))))))"

section \<open>Port forwards\<close>

text \<open>A listener address: IPv4 unless it is a broadcast, multicast or link-local address; \<open>ip6\<close> tells which
  IPv6 literals the test admits.\<close>

definition listener_ok :: "(string \<Rightarrow> bool) \<Rightarrow> string \<Rightarrow> bool" where
  "listener_ok ip6 host =
     (case ParseAddr host of
        None \<Rightarrow> ip6 host
      | Some ip \<Rightarrow> IsUnspecified ip \<or> IsLoopback ip \<or> IsPrivate ip
          \<or> \<not> (ip = 0xFFFFFFFF \<or> IsMulticast ip \<or> IsLinkLocalUnicast ip))"

definition valid_forward :: "portForward \<Rightarrow> bool" where
  "valid_forward f = (pf_source f \<noteq> [] \<and> pf_target f \<noteq> [] \<and> pf_target_host f \<noteq> []
     \<and> 1 \<le> pf_listen_port f \<and> pf_listen_port f \<le> 65535 \<and> 1 \<le> pf_target_port f \<and> pf_target_port f \<le> 65535)"

text \<open>The insertion fails on the unique constraint of the listener and on the foreign keys of both ends.\<close>

definition insert_forward :: "portForward \<Rightarrow> server \<Rightarrow> server option" where
  "insert_forward f s =
     (if registeredNode (pf_source f) s = None \<or> registeredNode (pf_target f) s = None
         \<or> list_ex (\<lambda>g. pf_source g = pf_source f \<and> pf_listen_host g = pf_listen_host f
              \<and> pf_listen_port g = pf_listen_port f) (port_forwards s)
      then None
      else Some (s\<lparr>port_forwards := port_forwards s @ [f\<lparr>pf_id := next_forward s\<rparr>],
                   next_forward := next_forward s + 1\<rparr>))"

definition create_forward ::
    "(string \<Rightarrow> string) \<Rightarrow> int \<Rightarrow> request \<Rightarrow> portForward \<Rightarrow> server \<Rightarrow> unit reply \<times> server" where
  "create_forward dg now r f s =
     (case requireNodeAccess dg now r (pf_source f) s of
        (Inl e, s1) \<Rightarrow> (Inl e, s1)
      | (Inr _, s1) \<Rightarrow>
        (case requireNodeAccess dg now r (pf_target f) s1 of
           (Inl e, s2) \<Rightarrow> (Inl e, s2)
         | (Inr _, s2) \<Rightarrow>
           (case insert_forward f s2 of
              None \<Rightarrow> (Inl (409, ''listener is already configured or node is unknown''), s2)
            | Some s3 \<Rightarrow>
              (Inr (), audit now ''port_forward_created''
                 (pf_source f @ '':'' @ itoa (nat (pf_listen_port f)) @ '' -> '' @ pf_target f @ '':''
                    @ pf_target_host f @ '':'' @ itoa (nat (pf_target_port f))) s3))))"

definition add_forward ::
    "(string \<Rightarrow> string) \<Rightarrow> (string \<Rightarrow> bool) \<Rightarrow> int \<Rightarrow> request \<Rightarrow> portForward option \<Rightarrow> server \<Rightarrow>
     unit reply \<times> server" where
  "add_forward dg ip6 now r body s =
     (case body of
        None \<Rightarrow> (Inl (400, ''invalid forwarding rule''), s)
      | Some d \<Rightarrow>
        if \<not> valid_forward d then (Inl (400, ''invalid forwarding rule''), s)
        else let f = (if pf_listen_host d = [] then d\<lparr>pf_listen_host := ''127.0.0.1''\<rparr> else d) in
          if \<not> listener_ok ip6 (pf_listen_host f) then (Inl (400, ''listener must be an IP address''), s)
          else create_forward dg now r f s)"

definition adminForwards ::
    "(string \<Rightarrow> string) \<Rightarrow> (string \<Rightarrow> bool) \<Rightarrow> int \<Rightarrow> request \<Rightarrow> portForward option \<Rightarrow> server \<Rightarrow>
     (portForward list + unit) reply \<times> server" where
  "adminForwards dg ip6 now r body s0 =
     (case adminAuth dg now r s0 of
        (Inl e, s) \<Rightarrow> (Inl e, s)
      | (Inr _, s1) \<Rightarrow>
        (case accountIDForRequest dg now r s1 of
           (acc, s) \<Rightarrow>
             if Method r = ''GET'' then
               (let mine = (\<lambda>f. case acc of None \<Rightarrow> True | Some a \<Rightarrow> nodeOwnedByAccount (pf_source f) a s) in
                (Inr (Inl (rev (sort_key pf_id (filter mine (port_forwards s))))), s))
             else (case add_forward dg ip6 now r body s of
               (Inl e, s') \<Rightarrow> (Inl e, s') | (Inr _, s') \<Rightarrow> (Inr (Inr ()), s'))))"

text \<open>The id of the path is decimal text of a 64-bit integer.\<close>

definition adminForward ::
    "(string \<Rightarrow> string) \<Rightarrow> int \<Rightarrow> request \<Rightarrow> string \<Rightarrow> server \<Rightarrow> unit reply \<times> server" where
  "adminForward dg now r path s0 =
     (case adminAuth dg now r s0 of
        (Inl e, s) \<Rightarrow> (Inl e, s)
      | (Inr _, s) \<Rightarrow>
        (case Atoi path of
           None \<Rightarrow> (Inl (400, ''invalid forwarding rule''), s)
         | Some i \<Rightarrow>
           if i < 1 \<or> 2 ^ 63 \<le> i then (Inl (400, ''invalid forwarding rule''), s)
           else case find (\<lambda>f. pf_id f = i) (port_forwards s) of
             None \<Rightarrow> (Inl (404, ''forwarding rule not found''), s)
           | Some f \<Rightarrow>
             (case requireNodeAccess dg now r (pf_source f) s of
                (Inl e, s1) \<Rightarrow> (Inl e, s1)
              | (Inr _, s1) \<Rightarrow>
                (Inr (), audit now ''port_forward_removed'' (itoa (nat i))
                   (s1\<lparr>port_forwards := filter (\<lambda>f. pf_id f \<noteq> i) (port_forwards s1)\<rparr>)))))"

section \<open>Services\<close>

definition valid_service :: "service \<Rightarrow> bool" where
  "valid_service d = (svc_node d \<noteq> [] \<and> length (svc_node d) \<le> 128 \<and> svc_name d \<noteq> [] \<and> length (svc_name d) \<le> 128
     \<and> svc_host d \<noteq> [] \<and> length (svc_host d) \<le> 253 \<and> 1 \<le> svc_port d \<and> svc_port d \<le> 65535)"

definition put_service :: "service \<Rightarrow> server \<Rightarrow> server" where
  "put_service d s =
     s\<lparr>services := (if list_ex (\<lambda>x. svc_node x = svc_node d \<and> svc_name x = svc_name d) (services s)
        then map (\<lambda>x. if svc_node x = svc_node d \<and> svc_name x = svc_name d then d else x) (services s)
        else services s @ [d])\<rparr>"

definition service_set ::
    "(string \<Rightarrow> string) \<Rightarrow> int \<Rightarrow> request \<Rightarrow> service option \<Rightarrow> server \<Rightarrow> unit reply \<times> server" where
  "service_set dg t r body s0 =
     (case auth dg t r s0 of
        (Inl e, s) \<Rightarrow> (Inl e, s)
      | (Inr _, s) \<Rightarrow>
        (case body of
           None \<Rightarrow> (Inl (400, ''missing or invalid required fields''), s)
         | Some d \<Rightarrow>
           if \<not> valid_service d then (Inl (400, ''missing or invalid required fields''), s)
           else if registeredNode (svc_node d) s = None then (Inl (404, ''unknown node''), s)
           else case requireNodeAccess dg (unix t) r (svc_node d) s of
             (Inl e, s1) \<Rightarrow> (Inl e, s1)
           | (Inr _, s1) \<Rightarrow>
             (Inr (), put_service (if svc_allowed d = [] then d\<lparr>svc_allowed := ''*''\<rparr> else d) s1)))"

definition serviceDetails ::
    "(string \<Rightarrow> string) \<Rightarrow> int \<Rightarrow> request \<Rightarrow> string \<Rightarrow> string \<Rightarrow> server \<Rightarrow> service reply \<times> server" where
  "serviceDetails dg t r i name s0 =
     (case auth dg t r s0 of
        (Inl e, s) \<Rightarrow> (Inl e, s)
      | (Inr _, s) \<Rightarrow>
        (case requireNodeAccess dg (unix t) r i s of
           (Inl e, s1) \<Rightarrow> (Inl e, s1)
         | (Inr _, s1) \<Rightarrow>
           (case find (\<lambda>x. svc_node x = i \<and> svc_name x = name) (services s1) of
              None \<Rightarrow> (Inl (404, ''service not found''), s1)
            | Some x \<Rightarrow> (Inr x, s1))))"

section \<open>The canonical list\<close>

definition ports_of :: "string \<Rightarrow> string list \<Rightarrow> nat set" where
  "ports_of proto ps = {n. itoa n @ ''/'' @ proto \<in> set ps}"

text \<open>A canonical entry: a decimal port of 16 bits and one of the two protocols.\<close>

definition canonical_port :: "string \<Rightarrow> bool" where
  "canonical_port p = (\<exists>n. 1 \<le> n \<and> n \<le> 65535 \<and> (p = itoa n @ ''/tcp'' \<or> p = itoa n @ ''/udp''))"

text \<open>What an entry asks for, read off its text: a number, alone or followed by a slash and either nothing, the
  word both or the protocol.\<close>

definition asks :: "string \<Rightarrow> string \<Rightarrow> nat \<Rightarrow> bool" where
  "asks raw proto n = (\<exists>p rest. TrimSpace (ToLower raw) = p @ rest \<and> CHR ''/'' \<notin> set p \<and> Atoi p = Some (int n)
     \<and> (rest = [] \<or> rest = ''/'' \<or> rest = ''/both'' \<or> rest = CHR ''/'' # proto))"

lemma itoa_all_digits: "c \<in> set (itoa n) \<Longrightarrow> is_digit c"
  using itoa_digits [of n] by (simp add: list_all_iff)

lemma digit_facts: "is_digit c \<Longrightarrow> c \<noteq> CHR ''/'' \<and> c \<noteq> CHR ''+'' \<and> c \<noteq> CHR ''-'' \<and> \<not> is_space c \<and> to_lower_char c = c"
  by (auto simp: is_digit_def is_space_def to_lower_char_def Let_def)

lemma itoa_no_slash: "CHR ''/'' \<notin> set (itoa n)"
  using itoa_all_digits digit_facts by blast

lemma Atoi_itoa: "Atoi (itoa n) = Some (int n)"
proof (cases "itoa n")
  case Nil
  then show ?thesis using itoa_digits [of n] by simp
next
  case (Cons c cs)
  then have "c \<noteq> CHR ''+''" "c \<noteq> CHR ''-''" using itoa_all_digits [of c n] digit_facts by auto
  then show ?thesis using atoi_itoa [of n] by (simp add: Atoi_def Cons)
qed

lemma ToLower_itoa: "ToLower (itoa n @ w) = itoa n @ ToLower w"
  using itoa_all_digits digit_facts by (auto simp: ToLower_def intro!: map_idI)

lemma canonical_entry:
  assumes "proto = ''tcp'' \<or> proto = ''udp''"
  shows "TrimSpace (ToLower (itoa n @ CHR ''/'' # proto)) = itoa n @ CHR ''/'' # proto"
    "ToLower (TrimSpace (itoa n @ CHR ''/'' # proto)) = itoa n @ CHR ''/'' # proto"
    "takeWhile (\<lambda>c. c \<noteq> CHR ''/'') (itoa n @ CHR ''/'' # proto) = itoa n"
proof -
  have l: "ToLower (CHR ''/'' # proto) = CHR ''/'' # proto" "\<forall>c \<in> set (CHR ''/'' # proto). \<not> is_space c"
    using assms by (auto simp: ToLower_def to_lower_char_def is_space_def)
  then have "\<forall>c \<in> set (itoa n @ CHR ''/'' # proto). \<not> is_space c" using itoa_all_digits digit_facts by fastforce
  then have t: "TrimSpace (itoa n @ CHR ''/'' # proto) = itoa n @ CHR ''/'' # proto" by (rule TrimSpace_none)
  then show "TrimSpace (ToLower (itoa n @ CHR ''/'' # proto)) = itoa n @ CHR ''/'' # proto"
    "ToLower (TrimSpace (itoa n @ CHR ''/'' # proto)) = itoa n @ CHR ''/'' # proto"
    unfolding ToLower_itoa l t by simp_all
  show "takeWhile (\<lambda>c. c \<noteq> CHR ''/'') (itoa n @ CHR ''/'' # proto) = itoa n"
    using itoa_no_slash by (subst takeWhile_append2) auto
qed

lemma port_entry_canonical: "canonical_port p \<Longrightarrow> port_entry p = Inr [p]"
  using canonical_entry by (auto simp: canonical_port_def port_entry_def Atoi_itoa)

lemma slash_split:
  assumes "CHR ''/'' \<notin> set p" "rest = [] \<or> hd rest = CHR ''/''"
  shows "takeWhile (\<lambda>c. c \<noteq> CHR ''/'') (p @ rest) = p \<and> dropWhile (\<lambda>c. c \<noteq> CHR ''/'') (p @ rest) = rest"
  using assms by (induction p) (cases rest; auto)+

lemma port_text_eq: "itoa m @ CHR ''/'' # a = itoa n @ CHR ''/'' # b \<longleftrightarrow> m = n \<and> a = b"
proof -
  have "takeWhile (\<lambda>c. c \<noteq> CHR ''/'') (itoa k @ CHR ''/'' # w) = itoa k"
    "dropWhile (\<lambda>c. c \<noteq> CHR ''/'') (itoa k @ CHR ''/'' # w) = CHR ''/'' # w" for k w
    using slash_split [OF itoa_no_slash, of "CHR ''/'' # w" k] by simp_all
  then show ?thesis using atoi_itoa by (metis list.inject option.inject)
qed

lemma itoa_eq [simp]: "itoa m = itoa n \<longleftrightarrow> m = n"
  using atoi_itoa by (metis option.inject)

lemma asks_iff:
  "asks raw proto n \<longleftrightarrow>
     (let e = TrimSpace (ToLower raw); rest = dropWhile (\<lambda>c. c \<noteq> CHR ''/'') e in
      Atoi (takeWhile (\<lambda>c. c \<noteq> CHR ''/'') e) = Some (int n) \<and>
      (rest = [] \<or> rest = ''/'' \<or> rest = ''/both'' \<or> rest = CHR ''/'' # proto))" (is "_ = ?r")
proof
  assume "asks raw proto n"
  then obtain p rest where a: "TrimSpace (ToLower raw) = p @ rest" "CHR ''/'' \<notin> set p" "Atoi p = Some (int n)"
    "rest = [] \<or> rest = ''/'' \<or> rest = ''/both'' \<or> rest = CHR ''/'' # proto" unfolding asks_def by blast
  then have "rest = [] \<or> hd rest = CHR ''/''" by auto
  from slash_split [OF a(2) this] show ?r unfolding Let_def a(1) using a(3,4) by simp
next
  assume r: ?r
  let ?e = "TrimSpace (ToLower raw)"
  have "?e = takeWhile (\<lambda>c. c \<noteq> CHR ''/'') ?e @ dropWhile (\<lambda>c. c \<noteq> CHR ''/'') ?e" by simp
  moreover have "CHR ''/'' \<notin> set (takeWhile (\<lambda>c. c \<noteq> CHR ''/'') ?e)" using set_takeWhileD by fast
  ultimately show "asks raw proto n" using r unfolding asks_def Let_def by blast
qed

lemma dropWhile_slash:
  "dropWhile (\<lambda>c. c \<noteq> CHR ''/'') e =
     (if CHR ''/'' \<in> set e then CHR ''/'' # drop (length (takeWhile (\<lambda>c. c \<noteq> CHR ''/'') e) + 1) e else [])"
  by (induction e) auto

lemma canonical_list:
  assumes "1 \<le> n" "n \<le> 65535" and "ps = map (\<lambda>w. itoa n @ CHR ''/'' # w) ws" "set ws \<subseteq> {''tcp'', ''udp''}"
  shows "(\<forall>p \<in> set ps. canonical_port p) \<and> (m \<in> ports_of proto ps \<longleftrightarrow> m = n \<and> proto \<in> set ws)"
  using assms by (auto simp: ports_of_def port_text_eq canonical_port_def)

lemma port_entry_Inr:
  assumes e: "port_entry raw = Inr ps" and "proto = ''tcp'' \<or> proto = ''udp''"
  shows "(\<forall>p \<in> set ps. canonical_port p) \<and> (m \<in> ports_of proto ps \<longleftrightarrow> asks raw proto m)"
proof -
  obtain e p where d: "TrimSpace (ToLower raw) = e" "takeWhile (\<lambda>c. c \<noteq> CHR ''/'') e = p" by simp
  obtain w where w: "(if CHR ''/'' \<in> set e then drop (length p + 1) e else ''both'') = w" by simp
  have asks: "asks raw proto m \<longleftrightarrow> Atoi p = Some (int m) \<and> (w = proto \<and> CHR ''/'' \<in> set e \<or> w = [] \<or> w = ''both'')"
    unfolding asks_iff Let_def d(1) dropWhile_slash unfolding d(2) w [symmetric] by simp blast
  show ?thesis
  proof (cases "e = []")
    case True
    then have "p = []" "ps = []" using d e by (simp_all add: port_entry_def)
    then show ?thesis using asks by (simp add: ports_of_def Atoi_def)
  next
    case False
    have e': "(case Atoi p of None \<Rightarrow> Inl ''invalid port''
         | Some n \<Rightarrow>
           if n < 1 \<or> 65535 < n then Inl ''invalid port''
           else if w = ''tcp'' then Inr [itoa (nat n) @ ''/tcp'']
           else if w = ''udp'' then Inr [itoa (nat n) @ ''/udp'']
           else if w = ''both'' \<or> w = [] then Inr [itoa (nat n) @ ''/tcp'', itoa (nat n) @ ''/udp'']
           else Inl ''unsupported protocol'') = (Inr ps :: string list go_result)"
      using e False unfolding port_entry_def Let_def d(1) unfolding d(2) w by simp
    then obtain v where v: "Atoi p = Some v" by (cases "Atoi p") auto
    with e' have r: "1 \<le> v" "v \<le> 65535" by (auto split: if_splits)
    then obtain n where n: "v = int n" "1 \<le> n" "n \<le> 65535" by (metis nat_le_iff nat_0_le of_nat_1 of_nat_le_iff order.trans of_nat_numeral zero_le_one)
    from e' v r consider "w = ''tcp''" "ps = map (\<lambda>w. itoa n @ CHR ''/'' # w) [''tcp'']"
      | "w = ''udp''" "ps = map (\<lambda>w. itoa n @ CHR ''/'' # w) [''udp'']"
      | "w = ''both'' \<or> w = []" "ps = map (\<lambda>w. itoa n @ CHR ''/'' # w) [''tcp'', ''udp'']"
      unfolding n(1) by (auto split: if_splits)
    then obtain ws where ws: "ps = map (\<lambda>w. itoa n @ CHR ''/'' # w) ws" "set ws \<subseteq> {''tcp'', ''udp''}"
      "proto \<in> set ws \<longleftrightarrow> w = proto \<or> w = ''both'' \<or> w = []"
    proof cases
      case 1
      show ?thesis by (rule that [OF 1(2)]) (use 1(1) assms(2) in auto)
    next
      case 2
      show ?thesis by (rule that [OF 2(2)]) (use 2(1) assms(2) in auto)
    next
      case 3
      show ?thesis by (rule that [OF 3(2)]) (use 3(1) assms(2) in auto)
    qed
    have "w = proto \<Longrightarrow> CHR ''/'' \<in> set e" using w assms(2) by (auto split: if_splits)
    then show ?thesis using canonical_list [OF n(2,3) ws(1,2), of m proto] asks ws(3) v n(1) by auto
  qed
qed

lemma collect_ports_Inr:
  assumes "collect_ports raws out = Inr ps" "\<forall>p \<in> set out. canonical_port p" "proto = ''tcp'' \<or> proto = ''udp''"
  shows "(\<forall>p \<in> set ps. canonical_port p) \<and>
    (m \<in> ports_of proto ps \<longleftrightarrow> m \<in> ports_of proto out \<or> (\<exists>raw \<in> set raws. asks raw proto m))"
  using assms(1,2)
proof (induction raws out rule: collect_ports.induct)
  case (2 raw rest out)
  then obtain qs where qs: "port_entry raw = Inr qs" by (auto split: sum.splits)
  note q = port_entry_Inr [OF qs assms(3), of m]
  have "m \<in> ports_of proto (out @ qs) \<longleftrightarrow> m \<in> ports_of proto out \<or> asks raw proto m"
    using q by (auto simp: ports_of_def)
  moreover have "\<forall>p \<in> set (out @ qs). canonical_port p" using q 2(3) by auto
  moreover have "collect_ports rest (out @ qs) = Inr ps" using 2(2) qs by simp
  ultimately show ?case using 2(1) [OF qs] by auto
qed auto

lemma collect_ports_canonical:
  "\<forall>p \<in> set ps. canonical_port p \<Longrightarrow> collect_ports ps out = Inr (out @ ps)"
  by (induction ps arbitrary: out) (simp_all add: port_entry_canonical)

lemma firewallPortList_Inr:
  assumes "firewallPortList raws = Inr ps"
  shows "(\<forall>p \<in> set ps. canonical_port p) \<and> sorted ps \<and> distinct ps \<and>
    ports_of ''tcp'' ps = {n. \<exists>raw \<in> set raws. asks raw ''tcp'' n} \<and>
    ports_of ''udp'' ps = {n. \<exists>raw \<in> set raws. asks raw ''udp'' n}"
proof -
  obtain qs where qs: "collect_ports raws [] = Inr qs" "ps = sort (remdups qs)"
    using assms by (auto simp: firewallPortList_def split: sum.splits)
  have "ports_of proto ps = ports_of proto qs" for proto by (simp add: qs(2) ports_of_def)
  then show ?thesis using collect_ports_Inr [OF qs(1)] qs(2) by (auto simp: ports_of_def)
qed

lemma firewallPortList_idem:
  assumes "firewallPortList raws = Inr ps"
  shows "firewallPortList ps = Inr ps"
  using firewallPortList_Inr [OF assms] collect_ports_canonical [of ps "[]"]
  by (simp add: firewallPortList_def distinct_remdups_id sorted_sort_id)

section \<open>The policy that the node enforces\<close>

lemma parse_uint16_itoa: "n < 65536 \<Longrightarrow> parse_uint16 (itoa n) = Some n"
  by (simp add: parse_uint16_def)

lemma add_rule_canonical:
  assumes "1 \<le> n" "n \<le> 65535"
  shows "add_rule (itoa n @ ''/tcp'') r = r\<lparr>fw_tcp := insert n (fw_tcp r)\<rparr>"
    "add_rule (itoa n @ ''/udp'') r = r\<lparr>fw_udp := insert n (fw_udp r)\<rparr>"
  using canonical_entry [of "''tcp''" n] canonical_entry [of "''udp''" n] assms
  by (simp_all add: add_rule_def parse_uint16_itoa Let_def)

lemma fold_rules:
  "\<forall>p \<in> set ps. canonical_port p \<Longrightarrow>
   fw_tcp (fold add_rule ps r) = fw_tcp r \<union> ports_of ''tcp'' ps \<and> fw_udp (fold add_rule ps r) = fw_udp r \<union> ports_of ''udp'' ps"
proof (induction ps arbitrary: r)
  case (Cons p ps)
  then have c: "canonical_port p" by simp
  have "fw_tcp (add_rule p r) = fw_tcp r \<union> ports_of ''tcp'' [p]" "fw_udp (add_rule p r) = fw_udp r \<union> ports_of ''udp'' [p]"
    using c add_rule_canonical by (auto simp: canonical_port_def ports_of_def port_text_eq)
  then show ?case using Cons by (auto simp: ports_of_def)
qed (simp add: ports_of_def)

text \<open>The protocol of an IPv4 packet by its number and the destination port behind its header.\<close>

definition transport :: "bytes \<Rightarrow> string" where
  "transport p = (if p ! 9 = 6 then ''tcp'' else if p ! 9 = 17 then ''udp'' else [])"

definition dest_port :: "bytes \<Rightarrow> nat" where
  "dest_port p = be16n (slice (ihl_of p + 2) (ihl_of p + 4) p)"

text \<open>C13: the firewall from the admin page to the packet.  A policy that the coordinator accepts is what it hands
  out from then on, and the node that parses it lets in exactly ICMP and the unfragmented TCP and UDP packets to
  the ports that the administrator's entries name, or everything in the mode that allows all.\<close>

theorem firewall_enforced:
  assumes "adminFirewallSet dg now r i (Some d) s = (Inr fw, s')"
  shows "loadFirewall i s' = fw \<and>
    (case parseFirewallRules (Some (fw_mode fw, fw_ports fw)) of
       None \<Rightarrow> TrimSpace (ToLower (fw_mode d)) = ''allow_all''
     | Some rules \<Rightarrow> TrimSpace (ToLower (fw_mode d)) = ''whitelist'' \<and>
         (\<forall>p. permits rules p \<longleftrightarrow> p ! 9 = 1 \<or>
            transport p \<noteq> [] \<and> frag_offset p = 0 \<and> ihl_of p + 4 \<le> length p \<and>
            (\<exists>raw \<in> set (fw_ports d). asks raw (transport p) (dest_port p))))"
proof -
  define mode where "mode = TrimSpace (ToLower (fw_mode d))"
  obtain s1 where a: "node_access dg now r i s = (Inr (), s1)"
    using assms by (auto simp: adminFirewallSet_def split: prod.splits sum.splits)
  obtain ports where m: "mode = ''allow_all'' \<or> mode = ''whitelist''" and ports: "firewallPortList (fw_ports d) = Inr ports"
    and fw: "fw = \<lparr>fw_mode = mode, fw_ports = ports\<rparr>" and row: "node_firewall s' i = Some fw"
    using assms by (auto simp: adminFirewallSet_def a mode_def Let_def audit_def split: sum.splits if_splits)
  note p = firewallPortList_Inr [OF ports]
  have load: "loadFirewall i s' = fw"
    using m firewallPortList_idem [OF ports] by (auto simp: loadFirewall_def row fw)
  show ?thesis
  proof (cases "mode = ''whitelist''")
    case True
    let ?rules = "fold add_rule ports \<lparr>fw_tcp = {}, fw_udp = {}\<rparr>"
    have "fw_tcp ?rules = ports_of ''tcp'' ports" "fw_udp ?rules = ports_of ''udp'' ports"
      using fold_rules [of ports "\<lparr>fw_tcp = {}, fw_udp = {}\<rparr>"] p by simp_all
    then have "permits ?rules q \<longleftrightarrow> q ! 9 = 1 \<or> transport q \<noteq> [] \<and> frag_offset q = 0 \<and> ihl_of q + 4 \<le> length q \<and>
        (\<exists>raw \<in> set (fw_ports d). asks raw (transport q) (dest_port q))" for q
      using p by (auto simp: permits_def transport_def dest_port_def Let_def)
    then show ?thesis using load True by (simp add: parseFirewallRules_def fw mode_def)
  next
    case False
    then show ?thesis using load m by (simp add: parseFirewallRules_def fw mode_def)
  qed
qed

abbreviation sample_policy :: firewallConfig where
  "sample_policy \<equiv> \<lparr>fw_mode = ''Whitelist'', fw_ports = [''53/UDP'', ''080'', ''53/udp'']\<rparr>"

lemma sample_ports: "firewallPortList [''53/UDP'', ''080'', ''53/udp''] = Inr [''53/udp'', ''80/tcp'', ''80/udp'']"
  by code_simp

lemma sample_mode: "TrimSpace (ToLower ''Whitelist'') = ''whitelist''"
  by code_simp

theorem firewall_enforced_witness:
  "\<exists>fw s'. adminFirewallSet sample_digest 0 net_request ''n1'' (Some sample_policy) net_server = (Inr fw, s')
     \<and> loadFirewall ''n1'' s' = fw"
proof -
  obtain fw s' where
    a: "adminFirewallSet sample_digest 0 net_request ''n1'' (Some sample_policy) net_server = (Inr fw, s')"
    using sample_mode by (simp add: adminFirewallSet_def sample_ports net_access Let_def)
  then show ?thesis using firewall_enforced [OF a] by blast
qed

section \<open>The table of port forwards\<close>

definition listener :: "portForward \<Rightarrow> string \<times> string \<times> int" where
  "listener f = (pf_source f, pf_listen_host f, pf_listen_port f)"

definition node_ids :: "server \<Rightarrow> string set" where
  "node_ids s = fst ` set (ip_view s)"

text \<open>Every rule joins two registered nodes, its ports fit 16 bits, no two rules listen on one address of a node, and
  ids grow and are never reused.\<close>

definition forwards_ok :: "server \<Rightarrow> bool" where
  "forwards_ok s = ((\<forall>f \<in> set (port_forwards s). valid_forward f \<and> pf_source f \<in> node_ids s \<and> pf_target f \<in> node_ids s
       \<and> pf_id f < next_forward s)
     \<and> distinct (map listener (port_forwards s)) \<and> sorted_wrt (<) (map pf_id (port_forwards s)))"

text \<open>A step of another handler keeps the rules, or drops all rules of the nodes that it removes.\<close>

definition forwards_kept :: "server \<Rightarrow> server \<Rightarrow> bool" where
  "forwards_kept s s' = (next_forward s' = next_forward s \<and>
     (\<exists>D. port_forwards s' = filter (\<lambda>f. pf_source f \<notin> D \<and> pf_target f \<notin> D) (port_forwards s) \<and> node_ids s - D \<subseteq> node_ids s'))"

lemma sorted_wrt_map_filter: "sorted_wrt R (map f xs) \<Longrightarrow> sorted_wrt R (map f (filter P xs))"
  by (induction xs) auto

lemma forwards_filter:
  assumes "forwards_ok s" "next_forward s' = next_forward s" "port_forwards s' = filter P (port_forwards s)"
    and "\<And>f. f \<in> set (port_forwards s) \<Longrightarrow> P f \<Longrightarrow> pf_source f \<in> node_ids s \<Longrightarrow> pf_target f \<in> node_ids s \<Longrightarrow>
      pf_source f \<in> node_ids s' \<and> pf_target f \<in> node_ids s'"
  shows "forwards_ok s'"
  using assms by (auto simp: forwards_ok_def distinct_map_filter sorted_wrt_map_filter)

lemma forwards_kept_ok:
  assumes "forwards_kept s s'" "forwards_ok s"
  shows "forwards_ok s'"
proof -
  obtain D where D: "next_forward s' = next_forward s" "node_ids s - D \<subseteq> node_ids s'"
    "port_forwards s' = filter (\<lambda>f. pf_source f \<notin> D \<and> pf_target f \<notin> D) (port_forwards s)"
    using assms(1) unfolding forwards_kept_def by blast
  show ?thesis by (rule forwards_filter [OF assms(2) D(1,3)]) (use D(2) in auto)
qed

lemma forwards_keptI:
  assumes "next_forward s' = next_forward s" "port_forwards s' = port_forwards s" "node_ids s \<subseteq> node_ids s'"
  shows "forwards_kept s s'"
  unfolding forwards_kept_def using assms by (intro conjI exI [of _ "{}"]) auto

lemma same_nodes_forwards:
  assumes "next_forward s' = next_forward s" "port_forwards s' = port_forwards s" "nodes s' = nodes s"
  shows "forwards_kept s s'"
  using assms by (intro forwards_keptI) (simp_all add: node_ids_def ip_view_def)

lemma same_view_forwards: "same_view s s' \<Longrightarrow> forwards_kept s s'"
  by (intro forwards_keptI) (auto simp: same_view_def node_ids_def)

lemmas same_rows_forwards = same_rows_view [THEN same_view_forwards]

lemma forwards_kept_trans:
  assumes "forwards_kept a b" "forwards_kept b c"
  shows "forwards_kept a c"
proof -
  obtain D E where "next_forward b = next_forward a" "node_ids a - D \<subseteq> node_ids b"
    "port_forwards b = filter (\<lambda>f. pf_source f \<notin> D \<and> pf_target f \<notin> D) (port_forwards a)"
    "next_forward c = next_forward b" "node_ids b - E \<subseteq> node_ids c"
    "port_forwards c = filter (\<lambda>f. pf_source f \<notin> E \<and> pf_target f \<notin> E) (port_forwards b)"
    using assms unfolding forwards_kept_def by blast
  moreover from this have "port_forwards c = filter (\<lambda>f. pf_source f \<notin> D \<union> E \<and> pf_target f \<notin> D \<union> E) (port_forwards a)"
    by (simp add: conj_ac cong: filter_cong)
  ultimately show ?thesis unfolding forwards_kept_def by (intro conjI exI [of _ "D \<union> E"]) auto
qed

lemma write_row_forwards:
  assumes "write_row now ip pl s = (r, s')"
  shows "next_forward s' = next_forward s \<and> port_forwards s' = port_forwards s \<and> node_ids s \<subseteq> node_ids s'"
  using assms by (auto simp: write_row_def Let_def node_ids_def ip_view_update ip_view_insert split: option.splits if_splits)
    (auto simp: ip_view_def image_iff)

lemma claim_ip_forwards:
  assumes "claim_ip now ip pl s = (r, s')"
  shows "forwards_kept s s'"
proof -
  have rc: "next_forward (reclaim i s) = next_forward s" "port_forwards (reclaim i s) = port_forwards s"
    "node_ids (reclaim i s) = node_ids s" for i
    by (simp_all add: node_ids_def ip_view_reclaim) (simp_all add: reclaim_def)
  consider "s' = s" | "write_row now ip pl s = (r, s')" | i where "write_row now ip pl (reclaim i s) = (r, s')"
    using assms unfolding claim_ip_def Let_def by (auto split: option.splits if_splits)
  then show ?thesis
  proof cases
    case 2
    from write_row_forwards [OF this] show ?thesis by (intro forwards_keptI) simp_all
  next
    case 3
    from write_row_forwards [OF this] show ?thesis by (intro forwards_keptI) (simp_all add: rc)
  qed (simp add: same_nodes_forwards)
qed

lemma register_commit_forwards:
  assumes "register_commit now pl s = Some (r, s')"
  shows "forwards_kept s s'"
proof -
  consider "s' = s" | ip where "claim_ip now ip pl s = (r, s')"
    using assms unfolding register_commit_def Let_def by (auto split: option.splits if_splits)
  then show ?thesis by cases (simp_all add: same_nodes_forwards claim_ip_forwards)
qed

lemma register_forwards:
  assumes "register dg sha t rnd r body s = Some (res, s')"
  shows "forwards_kept s s'"
proof -
  obtain c s1 where c: "register_check dg sha t r body s = (c, s1)" by force
  note v1 = same_rows_forwards [OF conjunct1 [OF register_check_cases [OF c]]]
  show ?thesis
  proof (cases c)
    case (Inl e)
    then show ?thesis using assms c v1 by (simp add: register_def)
  next
    case (Inr pl)
    obtain k s2 where k: "register_commit (unix t) pl s1 = Some (k, s2)"
      using assms c Inr by (auto simp: register_def split: option.splits)
    note v2 = forwards_kept_trans [OF v1 register_commit_forwards [OF k]]
    show ?thesis
    proof (cases k)
      case (Inl e)
      then show ?thesis using assms c Inr k v2 by (simp add: register_def)
    next
      case k': (Inr ip)
      then have "s' = snd (register_finish dg t rnd r ip pl s2)" using assms c Inr k by (simp add: register_def)
      then show ?thesis using forwards_kept_trans [OF v2 same_view_forwards [OF register_finish_view]] by simp
    qed
  qed
qed

lemma adminNode_forwards:
  assumes "adminNode dg now r i s = (res, s')"
  shows "forwards_kept s s'"
proof -
  obtain c s1 where c: "node_access dg now r i s = (c, s1)" by force
  have v1: "forwards_kept s s1" using same_rows_forwards [OF node_access_rows [of s dg now r i]] c by simp
  have "forwards_kept s1 (audit now e d (audit now e' d' ((drop_node i s1)\<lparr>revoked_nodes := x\<rparr>)))" for e d e' d' x
    unfolding forwards_kept_def using drop_node_view [of i s1]
    by (intro conjI exI [of _ "{i}"]) (auto simp: audit_def drop_node_def node_ids_def ip_view_def image_iff)
  then show ?thesis using assms v1 forwards_kept_trans [OF v1]
    by (auto simp: adminNode_def c split: sum.splits if_splits)
qed

lemma adminUnban_forwards:
  assumes "adminUnban dg now r i s = (res, s')"
  shows "forwards_kept s s'"
proof -
  obtain c s1 where c: "adminAuth dg now r s = (c, s1)" by force
  have v1: "forwards_kept s s1" using same_rows_forwards [OF adminAuth_rows [of s dg now r]] c by simp
  have "forwards_kept s1 (audit now e d (s1\<lparr>revoked_nodes := x\<rparr>))" for e d x
    by (rule forwards_keptI) (simp_all add: audit_def node_ids_def ip_view_def)
  then show ?thesis using assms v1 forwards_kept_trans [OF v1]
    by (auto simp: adminUnban_def c split: sum.splits if_splits)
qed

lemma registry_step_forwards:
  assumes "registry_step dg sha is_ip s s'"
  shows "forwards_kept s s'"
  using assms
proof cases
  case Register
  then show ?thesis by (rule register_forwards)
next
  case AdminNode
  then show ?thesis by (rule adminNode_forwards)
next
  case AdminUnban
  then show ?thesis by (rule adminUnban_forwards)
next
  case AdminNodeRole
  then show ?thesis using adminNodeRole_view same_view_forwards by (metis snd_conv)
next
  case Telemetry
  then show ?thesis using telemetry_view same_view_forwards by (metis snd_conv)
next
  case AdminGraph
  then show ?thesis using adminGraph_view same_view_forwards by (metis snd_conv)
next
  case AdminConfig
  then show ?thesis using adminConfig_view same_view_forwards by (metis snd_conv)
qed

text \<open>The handlers of the virtual networks change no node and no rule.\<close>

lemma add_route_forwards:
  "add_route now i w s = Some (res, s') \<Longrightarrow> forwards_kept s s'"
  by (rule same_nodes_forwards)
    (auto simp: add_route_def Let_def audit_def put_routes_def split: sum.splits option.splits if_splits)

lemma remove_route_forwards:
  "remove_route now i w s = Some (res, s') \<Longrightarrow> forwards_kept s s'"
  by (rule same_nodes_forwards)
    (auto simp: remove_route_def Let_def audit_def put_routes_def split: sum.splits option.splits if_splits)

lemma set_network_forwards:
  assumes "set_network now i b s = Some (res, s')"
  shows "forwards_kept s s'"
proof -
  have w: "forwards_kept s (snd (write_network now i name allocated ds s))" for name allocated ds
    by (rule same_nodes_forwards) (auto simp: write_network_def Let_def audit_def put_network_def)
  have "forwards_kept s s" by (rule same_nodes_forwards) simp_all
  then show ?thesis using assms w
    by (auto simp: set_network_def Let_def split: sum.splits option.splits if_splits) (metis snd_conv)+
qed

lemma node_access_forwards: "node_access dg now r i s = (c, s1) \<Longrightarrow> forwards_kept s s1"
  using same_rows_forwards [OF node_access_rows [of s dg now r i]] by simp

lemma adminAuth_forwards: "adminAuth dg now r s = (c, s1) \<Longrightarrow> forwards_kept s s1"
  using same_rows_forwards [OF adminAuth_rows [of s dg now r]] by simp

lemma auth_forwards: "auth dg t r s = (c, s1) \<Longrightarrow> forwards_kept s s1"
  using same_rows_forwards [OF auth_rows [of s dg t r]] by simp

lemma requireNodeAccess_forwards: "requireNodeAccess dg now r i s = (c, s1) \<Longrightarrow> forwards_kept s s1"
  using same_rows_forwards [OF requireNodeAccess_rows [of s dg now r i]] by simp

lemma accountID_forwards: "accountIDForRequest dg now r s = (c, s1) \<Longrightarrow> forwards_kept s s1"
  using same_rows_forwards [OF accountIDForRequest_rows [of s dg now r]] by simp

lemmas access_forwards = node_access_forwards adminAuth_forwards auth_forwards requireNodeAccess_forwards accountID_forwards

lemma net_step_forwards:
  assumes "net_step dg sha is_ip s s'"
  shows "forwards_kept s s'"
  using assms
proof cases
  case Registry
  then show ?thesis by (rule registry_step_forwards)
next
  case (AddRoute now r i raw res)
  obtain c s1 where c: "node_access dg now r i s = (c, s1)" by force
  note v = node_access_forwards [OF c]
  then show ?thesis using AddRoute add_route_forwards forwards_kept_trans [OF v]
    by (auto simp: adminAddNodeRoute_def c split: sum.splits option.splits)
next
  case (RemoveRoute now r i raw res)
  obtain c s1 where c: "node_access dg now r i s = (c, s1)" by force
  note v = node_access_forwards [OF c]
  then show ?thesis using RemoveRoute remove_route_forwards forwards_kept_trans [OF v]
    by (auto simp: adminRemoveNodeRoute_def c split: sum.splits option.splits)
next
  case (SetNetwork now r i body res)
  obtain c s1 where c: "node_access dg now r i s = (c, s1)" by force
  note v = node_access_forwards [OF c]
  then show ?thesis using SetNetwork set_network_forwards forwards_kept_trans [OF v]
    by (auto simp: adminNodeNetwork_def c split: sum.splits option.splits)
qed

section \<open>The handlers of this theory\<close>

inductive policy_step ::
    "(string \<Rightarrow> string) \<Rightarrow> (string \<Rightarrow> bytes) \<Rightarrow> (string \<Rightarrow> bool) \<Rightarrow> (string \<Rightarrow> bool) \<Rightarrow> server \<Rightarrow> server \<Rightarrow> bool"
  for dg sha is_ip ip6 where
  Net: "net_step dg sha is_ip s s' \<Longrightarrow> policy_step dg sha is_ip ip6 s s'"
| FirewallGet: "adminFirewallGet dg now r i s = (fw, s') \<Longrightarrow> policy_step dg sha is_ip ip6 s s'"
| FirewallSet: "adminFirewallSet dg now r i cfg s = (fw, s') \<Longrightarrow> policy_step dg sha is_ip ip6 s s'"
| Forwards: "adminForwards dg ip6 now r rule s = (fs, s') \<Longrightarrow> policy_step dg sha is_ip ip6 s s'"
| Forward: "adminForward dg now r path s = (res, s') \<Longrightarrow> policy_step dg sha is_ip ip6 s s'"
| Service: "service_set dg t r svc s = (res, s') \<Longrightarrow> policy_step dg sha is_ip ip6 s s'"
| Details: "serviceDetails dg t r i name s = (x, s') \<Longrightarrow> policy_step dg sha is_ip ip6 s s'"

lemma audit_forwards [simp]: "forwards_ok (audit now ev d s) = forwards_ok s"
  by (simp add: forwards_ok_def audit_def node_ids_def ip_view_def)

lemma insert_forward_ok:
  assumes "forwards_ok s" "insert_forward f s = Some s'" "valid_forward f"
  shows "forwards_ok s'"
proof -
  have reg: "pf_source f \<in> node_ids s" "pf_target f \<in> node_ids s"
    using assms(2) unregistered_view by (fastforce simp: insert_forward_def node_ids_def split: if_splits)+
  have s': "s' = s\<lparr>port_forwards := port_forwards s @ [f\<lparr>pf_id := next_forward s\<rparr>], next_forward := next_forward s + 1\<rparr>"
    and new: "\<forall>g \<in> set (port_forwards s). listener g \<noteq> listener f"
    using assms(2) by (auto simp: insert_forward_def list_ex_iff listener_def split: if_splits)
  have ids: "node_ids s' = node_ids s" by (simp add: s' node_ids_def ip_view_def)
  show ?thesis unfolding forwards_ok_def ids using assms(1,3) reg new
    by (auto simp: forwards_ok_def s' listener_def valid_forward_def sorted_wrt_append)
qed

lemma same_tables_forwards:
  "next_forward s' = next_forward s \<Longrightarrow> port_forwards s' = port_forwards s \<Longrightarrow> nodes s' = nodes s \<Longrightarrow>
   forwards_ok s' = forwards_ok s"
  by (simp add: forwards_ok_def node_ids_def ip_view_def)

lemma requireNodeAccess_ok: "requireNodeAccess dg now r i s = (c, s1) \<Longrightarrow> forwards_ok s \<Longrightarrow> forwards_ok s1"
  using requireNodeAccess_forwards forwards_kept_ok by blast

lemma create_forward_ok:
  assumes "create_forward dg now r f s = (res, s')" "valid_forward f" "forwards_ok s"
  shows "forwards_ok s'"
proof -
  obtain a s1 where 1: "requireNodeAccess dg now r (pf_source f) s = (a, s1)" by force
  obtain b s2 where 2: "requireNodeAccess dg now r (pf_target f) s1 = (b, s2)" by force
  have ok1: "forwards_ok s1" using requireNodeAccess_ok [OF 1 assms(3)] .
  have ok2: "forwards_ok s2" using requireNodeAccess_ok [OF 2 ok1] .
  have "s' = s1 \<or> s' = s2 \<or> (\<exists>s3 ev x. insert_forward f s2 = Some s3 \<and> s' = audit now ev x s3)"
    using assms(1) 1 2 by (auto simp: create_forward_def split: sum.splits option.splits)
  then show ?thesis using ok1 ok2 insert_forward_ok [OF ok2 _ assms(2)] by auto
qed

lemma add_forward_ok:
  assumes "add_forward dg ip6 now r body s = (res, s')" and ok: "forwards_ok s"
  shows "forwards_ok s'"
proof (cases "s' = s")
  case False
  then obtain d where d: "body = Some d" "valid_forward d"
    using assms(1) by (cases body) (auto simp: add_forward_def split: if_splits)
  define f where "f = (if pf_listen_host d = [] then d\<lparr>pf_listen_host := ''127.0.0.1''\<rparr> else d)"
  have f: "valid_forward f" using d(2) by (simp add: f_def valid_forward_def)
  have "add_forward dg ip6 now r body s = (if \<not> listener_ok ip6 (pf_listen_host f)
      then (Inl (400, ''listener must be an IP address''), s) else create_forward dg now r f s)"
    unfolding add_forward_def d(1) f_def Let_def by (simp only: option.case d(2) not_True_eq_False if_False)
  then show ?thesis using assms(1) False create_forward_ok [OF _ f ok] by (metis prod.inject)
qed (use ok in simp)

lemma policy_step_ok:
  assumes "policy_step dg sha is_ip ip6 s s'" and ok: "forwards_ok s"
  shows "forwards_ok s'"
  using assms(1)
proof cases
  case Net
  then show ?thesis using net_step_forwards forwards_kept_ok ok by blast
next
  case (FirewallGet now r i fw)
  obtain c s1 where c: "node_access dg now r i s = (c, s1)" by force
  then have "forwards_ok s1" using access_forwards(1) forwards_kept_ok ok by blast
  then show ?thesis using FirewallGet by (auto simp: adminFirewallGet_def c split: sum.splits)
next
  case (FirewallSet now r i cfg fw)
  obtain c s1 where c: "node_access dg now r i s = (c, s1)" by force
  then have "forwards_ok s1" using access_forwards(1) forwards_kept_ok ok by blast
  moreover from this have "forwards_ok (s1\<lparr>node_firewall := x\<rparr>)" for x
    using same_tables_forwards [of "s1\<lparr>node_firewall := x\<rparr>" s1] by simp
  ultimately show ?thesis using FirewallSet
    by (auto simp: adminFirewallSet_def c Let_def split: sum.splits option.splits if_splits)
next
  case (Forwards now r rule fs)
  obtain c s1 where c: "adminAuth dg now r s = (c, s1)" by force
  obtain acc s2 where a: "accountIDForRequest dg now r s1 = (acc, s2)" by force
  have ok1: "forwards_ok s1" using c access_forwards(2) forwards_kept_ok ok by blast
  have ok2: "forwards_ok s2" using a access_forwards(5) forwards_kept_ok ok1 by blast
  show ?thesis using Forwards ok1 ok2 add_forward_ok [OF _ ok2]
    by (auto simp: adminForwards_def c a Let_def split: sum.splits if_splits prod.splits)
next
  case (Forward now r path res)
  obtain c s1 where c: "adminAuth dg now r s = (c, s1)" by force
  have ok1: "forwards_ok s1" using c access_forwards(2) forwards_kept_ok ok by blast
  have cut: "forwards_ok (s2\<lparr>port_forwards := filter P (port_forwards s2)\<rparr>)" if "forwards_ok s2" for s2 P
    by (rule forwards_filter [OF that, of _ P]) (simp_all add: node_ids_def ip_view_def)
  show ?thesis using Forward ok1 cut
    by (auto simp: adminForward_def c split: sum.splits option.splits if_splits prod.splits dest: requireNodeAccess_ok)
next
  case (Service t r svc res)
  obtain c s1 where c: "auth dg t r s = (c, s1)" by force
  have ok1: "forwards_ok s1" using c access_forwards(3) forwards_kept_ok ok by blast
  have put: "forwards_ok (put_service d s2) = forwards_ok s2" for d s2
    by (rule same_tables_forwards) (simp_all add: put_service_def)
  show ?thesis using Service ok1 put
    by (auto simp: service_set_def c split: sum.splits option.splits if_splits prod.splits dest: requireNodeAccess_ok)
next
  case (Details t r i name x)
  obtain c s1 where c: "auth dg t r s = (c, s1)" by force
  have ok1: "forwards_ok s1" using c access_forwards(3) forwards_kept_ok ok by blast
  show ?thesis using Details ok1
    by (auto simp: serviceDetails_def c split: sum.splits option.splits prod.splits dest: requireNodeAccess_ok)
qed

text \<open>C39: port forwards stay well formed.  However registrations, removals and changes of networks, policies, services
  and forwards follow each other, every rule joins two registered nodes, its ports are ports, no two
  rules listen on one address of a node, and no two rules share an id.\<close>

theorem forwards_well_formed:
  assumes "(policy_step dg sha is_ip ip6)\<^sup>*\<^sup>* s0 s" "forwards_ok s0"
  shows "(\<forall>f \<in> set (port_forwards s). 1 \<le> pf_listen_port f \<and> pf_listen_port f \<le> 65535
        \<and> 1 \<le> pf_target_port f \<and> pf_target_port f \<le> 65535
        \<and> registeredNode (pf_source f) s \<noteq> None \<and> registeredNode (pf_target f) s \<noteq> None)
    \<and> distinct (map (\<lambda>f. (pf_source f, pf_listen_host f, pf_listen_port f)) (port_forwards s))
    \<and> distinct (map pf_id (port_forwards s))"
proof -
  have ok: "forwards_ok s" using assms by (induction rule: rtranclp_induct) (auto intro: policy_step_ok)
  have "registeredNode i s \<noteq> None" if "i \<in> node_ids s" for i
    using that unregistered_view by (auto simp: node_ids_def)
  moreover have "(\<lambda>f. (pf_source f, pf_listen_host f, pf_listen_port f)) = listener" by (rule ext) (simp add: listener_def)
  moreover have "distinct (map pf_id (port_forwards s))"
    using ok strict_sorted_iff unfolding forwards_ok_def by blast
  ultimately show ?thesis using ok by (auto simp: forwards_ok_def valid_forward_def)
qed

definition policy_server :: server where
  "policy_server = net_server\<lparr>nodes := [stale_node\<lparr>node_id := ''n1''\<rparr>, stale_node\<lparr>node_id := ''n2''\<rparr>],
     port_forwards := [\<lparr>pf_id = 1, pf_source = ''n1'', pf_listen_host = ''127.0.0.1'', pf_listen_port = 8080,
       pf_target = ''n2'', pf_target_host = ''10.0.0.5'', pf_target_port = 80\<rparr>], next_forward := 2\<rparr>"

theorem forwards_well_formed_witness:
  "\<exists>s. (policy_step sample_digest (\<lambda>_. []) (\<lambda>_. False) (\<lambda>_. False))\<^sup>*\<^sup>* policy_server s \<and> distinct (map pf_id (port_forwards s))"
proof -
  obtain fw s' where "adminFirewallSet sample_digest 0 net_request ''n1'' (Some sample_policy) policy_server = (fw, s')" by force
  then have r: "(policy_step sample_digest (\<lambda>_. []) (\<lambda>_. False) (\<lambda>_. False))\<^sup>*\<^sup>* policy_server s'"
    using policy_step.FirewallSet by blast
  have "forwards_ok policy_server" by (simp add: forwards_ok_def policy_server_def valid_forward_def node_ids_def ip_view_def)
  then show ?thesis using r forwards_well_formed [OF r] by blast
qed

end
