(* ===== verification/Go_Heap.thy ===== *)
theory Go_Heap
  imports Mesh_Prelude "HOL-Library.Multiset"
begin

text \<open>
  The binary heap of Go's \<^verbatim>\<open>container/heap\<close>, on which the route computation of the node runs: the
  sifting loops over the slice, \<^verbatim>\<open>Push\<close> and \<^verbatim>\<open>Pop\<close> for the order that the methods of
  \<^verbatim>\<open>pq\<close> give (\<^verbatim>\<open>mesh-node/symmetric.go\<close>), and the interface of a priority queue that they implement.
\<close>

section \<open>The binary heap\<close>

definition swap_at :: "nat \<Rightarrow> nat \<Rightarrow> 'a list \<Rightarrow> 'a list" where
  "swap_at i j xs = xs[i := xs ! j, j := xs ! i]"

function heap_up :: "('a \<Rightarrow> 'k::linorder) \<Rightarrow> nat \<Rightarrow> 'a list \<Rightarrow> 'a list" where
  "heap_up key j xs =
     (let i = (j - 1) div 2 in
      if i = j \<or> \<not> key (xs ! j) < key (xs ! i) then xs
      else heap_up key i (swap_at i j xs))"
  by pat_completeness auto

termination
  by (relation "measure (\<lambda>(key, j, xs). j)") auto

function heap_down :: "('a \<Rightarrow> 'k::linorder) \<Rightarrow> nat \<Rightarrow> nat \<Rightarrow> 'a list \<Rightarrow> 'a list" where
  "heap_down key i n xs =
     (let j1 = 2 * i + 1 in
      if n \<le> j1 then xs
      else (let j = (if j1 + 1 < n \<and> key (xs ! (j1 + 1)) < key (xs ! j1) then j1 + 1 else j1) in
        if \<not> key (xs ! j) < key (xs ! i) then xs
        else heap_down key j n (swap_at i j xs)))"
  by pat_completeness auto

termination
  by (relation "measure (\<lambda>(key, i, n, xs). n - i)") (auto simp: Let_def split: if_splits)

declare heap_up.simps [simp del] heap_down.simps [simp del]

definition heap_Push :: "('a \<Rightarrow> 'k::linorder) \<Rightarrow> 'a \<Rightarrow> 'a list \<Rightarrow> 'a list" where
  "heap_Push key x q = heap_up key (length q) (q @ [x])"

definition heap_Pop :: "('a \<Rightarrow> 'k::linorder) \<Rightarrow> 'a list \<Rightarrow> 'a \<times> 'a list" where
  "heap_Pop key q =
     (let n = length q - 1; q' = heap_down key 0 n (swap_at 0 n q) in (last q', butlast q'))"

definition heap_ok :: "('a \<Rightarrow> 'k::linorder) \<Rightarrow> nat \<Rightarrow> 'a list \<Rightarrow> bool" where
  "heap_ok key n xs = (\<forall>k < n. 0 < k \<longrightarrow> key (xs ! ((k - 1) div 2)) \<le> key (xs ! k))"

lemma length_swap_at [simp]: "length (swap_at i j xs) = length xs"
  by (simp add: swap_at_def)

lemma nth_swap_at:
  "i < length xs \<Longrightarrow> j < length xs \<Longrightarrow>
   swap_at i j xs ! k = (if k = j then xs ! i else if k = i then xs ! j else xs ! k)"
  by (auto simp: swap_at_def nth_list_update)

lemma mset_swap_at: "i < length xs \<Longrightarrow> j < length xs \<Longrightarrow> mset (swap_at i j xs) = mset xs"
  by (simp add: swap_at_def mset_swap)

lemma length_heap_up [simp]: "length (heap_up key j xs) = length xs"
  by (induction key j xs rule: heap_up.induct) (subst heap_up.simps, auto simp: Let_def)

lemma mset_heap_up: "j < length xs \<Longrightarrow> mset (heap_up key j xs) = mset xs"
proof (induction key j xs rule: heap_up.induct)
  case (1 key j xs)
  then show ?case by (subst heap_up.simps) (auto simp: Let_def mset_swap_at)
qed

lemma length_heap_down [simp]: "length (heap_down key i n xs) = length xs"
  by (induction key i n xs rule: heap_down.induct) (subst heap_down.simps, auto simp: Let_def)

lemma mset_heap_down: "n \<le> length xs \<Longrightarrow> mset (heap_down key i n xs) = mset xs"
proof (induction key i n xs rule: heap_down.induct)
  case (1 key i n xs)
  then show ?case by (subst heap_down.simps) (auto simp: Let_def mset_swap_at)
qed

text \<open>Beyond position \<open>n\<close> the sift-down leaves the slice alone.\<close>

lemma nth_heap_down: "n \<le> length xs \<Longrightarrow> n \<le> k \<Longrightarrow> heap_down key i n xs ! k = xs ! k"
proof (induction key i n xs rule: heap_down.induct)
  case (1 key i n xs)
  then show ?case by (subst heap_down.simps) (auto simp: Let_def nth_swap_at)
qed

lemma half_pred: "0 < j \<Longrightarrow> (j - 1) div 2 < (j :: nat)"
  by simp

text \<open>Sifting up repairs a heap whose only broken edge is the one above position \<open>j\<close>.\<close>

lemma heap_up_ok:
  assumes "j < length xs"
    and "\<And>k. k < length xs \<Longrightarrow> 0 < k \<Longrightarrow> k \<noteq> j \<Longrightarrow> key (xs ! ((k - 1) div 2)) \<le> key (xs ! k)"
    and "\<And>k. k < length xs \<Longrightarrow> 0 < k \<Longrightarrow> 0 < j \<Longrightarrow> (k - 1) div 2 = j \<Longrightarrow> key (xs ! ((j - 1) div 2)) \<le> key (xs ! k)"
  shows "heap_ok key (length xs) (heap_up key j xs)"
  using assms
proof (induction key j xs rule: heap_up.induct)
  case (1 key j xs)
  let ?i = "(j - 1) div 2"
  show ?case
  proof (cases "?i = j \<or> \<not> key (xs ! j) < key (xs ! ?i)")
    case True
    then have "heap_up key j xs = xs" by (subst heap_up.simps) (simp add: Let_def)
    moreover have "key (xs ! ((k - 1) div 2)) \<le> key (xs ! k)" if "k < length xs" "0 < k" for k
    proof (cases "k = j")
      case True
      with \<open>?i = j \<or> _\<close> that show ?thesis using half_pred [of j] by auto
    next
      case False
      then show ?thesis using 1(3) that by blast
    qed
    ultimately show ?thesis by (simp add: heap_ok_def)
  next
    case False
    let ?ys = "swap_at ?i j xs"
    have j: "0 < j" "?i < j" "?i < length xs" using False 1(2) by auto
    have nth: "?ys ! k = (if k = j then xs ! ?i else if k = ?i then xs ! j else xs ! k)" for k
      using nth_swap_at [of ?i xs j k] j 1(2) by simp
    have le: "key (xs ! j) \<le> key (xs ! ?i)" using False by auto
    have "heap_ok key (length ?ys) (heap_up key ?i ?ys)"
    proof (rule 1(1) [OF refl False])
      show "?i < length ?ys" using j by simp
    next
      fix k assume k: "k < length ?ys" "0 < k" "k \<noteq> ?i"
      then have kl: "k < length xs" by simp
      show "key (?ys ! ((k - 1) div 2)) \<le> key (?ys ! k)"
      proof (cases "k = j")
        case True
        then show ?thesis using le j by (simp add: nth del: One_nat_def)
      next
        case False
        have base: "key (xs ! ((k - 1) div 2)) \<le> key (xs ! k)" using 1(3) kl k(2) False by blast
        consider "(k - 1) div 2 = j" | "(k - 1) div 2 = ?i" | "(k - 1) div 2 \<noteq> j" "(k - 1) div 2 \<noteq> ?i" by blast
        then show ?thesis
        proof cases
          case 1
          have "key (xs ! ?i) \<le> key (xs ! k)" using "1.prems"(3) [OF kl k(2) j(1) 1] .
          then show ?thesis using 1 False k(3) by (simp add: nth del: One_nat_def)
        next
          case 2
          then show ?thesis using base le False k(3) j(2) by (simp add: nth del: One_nat_def)
        next
          case 3
          then show ?thesis using base False k(3) by (simp add: nth del: One_nat_def)
        qed
      qed
    next
      fix k assume k: "k < length ?ys" "0 < k" "0 < ?i" "(k - 1) div 2 = ?i"
      let ?g = "(?i - 1) div 2"
      have g: "?g < ?i" using k(3) by simp
      have gi: "key (xs ! ?g) \<le> key (xs ! ?i)" using 1(3) [of ?i] j k(3) by simp
      have "k \<noteq> ?i" using k(2,4) half_pred [of k] by linarith
      have "key (xs ! ?i) \<le> key (xs ! k)" if "k \<noteq> j" using 1(3) [of k] k that by simp
      then show "key (?ys ! ?g) \<le> key (?ys ! k)" using gi g j \<open>k \<noteq> ?i\<close> by (auto simp: nth simp del: One_nat_def)
    qed
    moreover have "heap_up key j xs = heap_up key ?i ?ys"
      using False by (subst heap_up.simps) (simp add: Let_def)
    ultimately show ?thesis by simp
  qed
qed

lemma heap_Push_ok:
  assumes "heap_ok key (length q) q"
  shows "heap_ok key (length (heap_Push key x q)) (heap_Push key x q)" "mset (heap_Push key x q) = add_mset x (mset q)"
proof -
  have "heap_ok key (length (q @ [x])) (heap_up key (length q) (q @ [x]))"
  proof (rule heap_up_ok)
    fix k assume k: "k < length (q @ [x])" "0 < k" "k \<noteq> length q"
    then have "k < length q" "(k - 1) div 2 < length q" by auto
    then show "key ((q @ [x]) ! ((k - 1) div 2)) \<le> key ((q @ [x]) ! k)"
      using assms k by (simp add: heap_ok_def nth_append)
  qed auto
  then show "heap_ok key (length (heap_Push key x q)) (heap_Push key x q)" by (simp add: heap_Push_def)
  show "mset (heap_Push key x q) = add_mset x (mset q)" by (simp add: heap_Push_def mset_heap_up)
qed

text \<open>Sifting down repairs a heap whose only broken edges are the ones below position \<open>i\<close>.\<close>

lemma heap_down_ok:
  assumes "n \<le> length xs"
    and "\<And>k. k < n \<Longrightarrow> 0 < k \<Longrightarrow> (k - 1) div 2 \<noteq> i \<Longrightarrow> key (xs ! ((k - 1) div 2)) \<le> key (xs ! k)"
    and "\<And>k. k < n \<Longrightarrow> 0 < k \<Longrightarrow> 0 < i \<Longrightarrow> (k - 1) div 2 = i \<Longrightarrow> key (xs ! ((i - 1) div 2)) \<le> key (xs ! k)"
  shows "heap_ok key n (heap_down key i n xs)"
  using assms
proof (induction key i n xs rule: heap_down.induct)
  case (1 key i n xs)
  let ?j1 = "2 * i + 1"
  let ?j = "if ?j1 + 1 < n \<and> key (xs ! (?j1 + 1)) < key (xs ! ?j1) then ?j1 + 1 else ?j1"
  have kids: "k = ?j1 \<or> k = ?j1 + 1" if "0 < k" "(k - 1) div 2 = i" for k using that by linarith
  show ?case
  proof (cases "n \<le> ?j1")
    case True
    then have "(k - 1) div 2 \<noteq> i" if "k < n" "0 < k" for k using kids [of k] that by auto
    then show ?thesis using True 1(3) by (subst heap_down.simps) (simp add: heap_ok_def Let_def)
  next
    case jn: False
    define j where "j = ?j"
    have jlt: "j < n" "i < j" "(j - 1) div 2 = i" using jn by (auto simp: j_def)
    have least: "key (xs ! j) \<le> key (xs ! k)" if "k < n" "0 < k" "(k - 1) div 2 = i" for k
      using kids [OF that(2,3)] that by (auto simp: j_def)
    have step: "heap_down key i n xs =
        (if key (xs ! j) < key (xs ! i) then heap_down key j n (swap_at i j xs) else xs)"
      using jn by (subst heap_down.simps) (auto simp: Let_def j_def)
    show ?thesis
    proof (cases "key (xs ! j) < key (xs ! i)")
      case False
      then have "key (xs ! ((k - 1) div 2)) \<le> key (xs ! k)" if "k < n" "0 < k" for k
        using least [of k] 1(3) [of k] that by (cases "(k - 1) div 2 = i") auto
      then show ?thesis using False step by (simp add: heap_ok_def)
    next
      case True
      let ?ys = "swap_at i j xs"
      have nth: "?ys ! k = (if k = j then xs ! i else if k = i then xs ! j else xs ! k)" for k
        using jlt 1(2) by (intro nth_swap_at) auto
      have "heap_ok key n (heap_down key j n ?ys)"
      proof (rule 1(1) [OF refl jn j_def])
        show "\<not> \<not> key (xs ! j) < key (xs ! i)" using True by simp
        show "n \<le> length ?ys" using 1(2) by simp
      next
        fix k assume k: "k < n" "0 < k" "(k - 1) div 2 \<noteq> j"
        show "key (?ys ! ((k - 1) div 2)) \<le> key (?ys ! k)"
        proof (cases "(k - 1) div 2 = i")
          case below: True
          then have "k \<noteq> i" using half_pred [OF k(2)] by auto
          then show ?thesis unfolding below using least [OF k(1,2) below] True jlt(2) by (auto simp: nth)
        next
          case False
          have base: "key (xs ! ((k - 1) div 2)) \<le> key (xs ! k)" using 1(3) k False by blast
          have "k \<noteq> j" using False jlt(3) by metis
          moreover have "key (xs ! ((i - 1) div 2)) \<le> key (xs ! j)" if "0 < i" using 1(4) [of j] jlt that by simp
          ultimately show ?thesis using base False k(2,3) by (cases "k = i") (simp_all add: nth del: One_nat_def)
        qed
      next
        fix k assume k: "k < n" "0 < k" "0 < j" "(k - 1) div 2 = j"
        have "k \<noteq> i" "k \<noteq> j" using k jlt half_pred [OF k(2)] by auto
        then have "?ys ! k = xs ! k" "?ys ! i = xs ! j" using jlt(2) by (simp_all add: nth)
        then show "key (?ys ! ((j - 1) div 2)) \<le> key (?ys ! k)"
          unfolding jlt(3) using 1(3) [OF k(1,2)] k(4) jlt(2) by simp
      qed
      then show ?thesis using True step by simp
    qed
  qed
qed

lemma heap_root_least:
  assumes "heap_ok key n xs" "k < n"
  shows "key (xs ! 0) \<le> key (xs ! k)"
  using assms(2)
proof (induction k rule: less_induct)
  case (less k)
  show ?case
  proof (cases "k = 0")
    case False
    then have "key (xs ! ((k - 1) div 2)) \<le> key (xs ! k)" using assms(1) less.prems by (simp add: heap_ok_def)
    moreover have "key (xs ! 0) \<le> key (xs ! ((k - 1) div 2))" using less False by simp
    ultimately show ?thesis by simp
  qed simp
qed

lemma heap_ok_swap_last:
  assumes "heap_ok key (length q) q" "q \<noteq> []"
  shows "heap_ok key (length q - 1) (heap_down key 0 (length q - 1) (swap_at 0 (length q - 1) q))"
proof (rule heap_down_ok)
  fix k assume k: "k < length q - 1" "0 < k" "(k - 1) div 2 \<noteq> 0"
  let ?n = "length q - 1"
  have "(k - 1) div 2 < ?n" "(k - 1) div 2 \<noteq> ?n" "k \<noteq> ?n" using k by auto
  then have "swap_at 0 ?n q ! k = q ! k" "swap_at 0 ?n q ! ((k - 1) div 2) = q ! ((k - 1) div 2)"
    using k assms(2) nth_swap_at [of 0 q ?n] by simp_all
  then show "key (swap_at 0 ?n q ! ((k - 1) div 2)) \<le> key (swap_at 0 ?n q ! k)"
    using assms(1) k by (simp add: heap_ok_def)
qed auto

lemma heap_Pop_ok:
  assumes ok: "heap_ok key (length q) q" and ne: "q \<noteq> []" and pop: "heap_Pop key q = (x, q')"
  shows "heap_ok key (length q') q'" "mset q = add_mset x (mset q')" "\<forall>y \<in> set q. key x \<le> key y"
proof -
  let ?n = "length q - 1"
  let ?d = "heap_down key 0 ?n (swap_at 0 ?n q)"
  have n: "?n < length q" "0 < length q" using ne by auto
  have d: "length ?d = length q" "mset ?d = mset q" using n by (simp_all add: mset_heap_down mset_swap_at)
  have d0: "?d ! ?n = q ! 0" using n nth_heap_down [of ?n "swap_at 0 ?n q" ?n key 0] nth_swap_at [of 0 q ?n ?n] by simp
  have d3: "?d \<noteq> []" using d(1) n(2) by (metis length_greater_0_conv)
  have x: "x = last ?d" "q' = butlast ?d" using pop by (simp_all add: heap_Pop_def Let_def)
  then have x0: "x = q ! 0" using d d0 d3 by (simp add: last_conv_nth)
  show "mset q = add_mset x (mset q')"
  proof -
    have "mset (butlast ?d @ [last ?d]) = mset q" using d3 d(2) by simp
    then show ?thesis unfolding x by simp
  qed
  show "\<forall>y \<in> set q. key x \<le> key y"
    using heap_root_least [OF ok] unfolding x0 by (auto simp: in_set_conv_nth)
  show "heap_ok key (length q') q'"
    using heap_ok_swap_last [OF ok ne] x d(1) by (auto simp: heap_ok_def nth_butlast)
qed

section \<open>The interface\<close>

text \<open>What a client of a priority queue relies on.\<close>

locale min_queue =
  fixes push :: "'a \<Rightarrow> 'a list \<Rightarrow> 'a list"
    and pop :: "'a list \<Rightarrow> 'a \<times> 'a list"
    and key :: "'a \<Rightarrow> 'k::linorder"
    and ok :: "'a list \<Rightarrow> bool"
  assumes push_ok: "ok q \<Longrightarrow> ok (push x q)"
    and mset_push: "ok q \<Longrightarrow> mset (push x q) = add_mset x (mset q)"
    and pop_ok: "ok q \<Longrightarrow> q \<noteq> [] \<Longrightarrow> pop q = (x, q') \<Longrightarrow> ok q'"
    and mset_pop: "ok q \<Longrightarrow> q \<noteq> [] \<Longrightarrow> pop q = (x, q') \<Longrightarrow> mset q = add_mset x (mset q')"
    and pop_least: "ok q \<Longrightarrow> q \<noteq> [] \<Longrightarrow> pop q = (x, q') \<Longrightarrow> y \<in> set q \<Longrightarrow> key x \<le> key y"
begin

lemma set_push: "ok q \<Longrightarrow> set (push x q) = insert x (set q)"
  using mset_push by (metis set_mset_add_mset_insert set_mset_mset)

lemma set_pop: "ok q \<Longrightarrow> q \<noteq> [] \<Longrightarrow> pop q = (x, q') \<Longrightarrow> set q = insert x (set q')"
  using mset_pop by (metis set_mset_add_mset_insert set_mset_mset)

lemma length_pop: "ok q \<Longrightarrow> q \<noteq> [] \<Longrightarrow> pop q = (x, q') \<Longrightarrow> length q = Suc (length q')"
  using mset_pop by (metis size_add_mset size_mset)

lemma distinct_push: "ok q \<Longrightarrow> distinct q \<Longrightarrow> x \<notin> set q \<Longrightarrow> distinct (push x q)"
  using mset_push [of q x] by (metis distinct.simps(2) mset.simps(2) mset_eq_imp_distinct_iff)

lemma distinct_pop: "ok q \<Longrightarrow> q \<noteq> [] \<Longrightarrow> pop q = (x, q') \<Longrightarrow> distinct q \<Longrightarrow> distinct q' \<and> x \<notin> set q'"
  using mset_pop [of q x q'] by (metis distinct.simps(2) mset.simps(2) mset_eq_imp_distinct_iff)

end

interpretation go_heap: min_queue "heap_Push key" "heap_Pop key" key "\<lambda>q. heap_ok key (length q) q"
  for key :: "'a \<Rightarrow> 'k::linorder"
  by unfold_locales (auto simp: heap_Push_ok dest: heap_Pop_ok)

end
