(* ===== verification/Mesh_Routes.thy ===== *)
theory Mesh_Routes
  imports Go_Heap Peers
begin

text \<open>
  The routes of a node (\<^verbatim>\<open>mesh-node/symmetric.go\<close>, \<^verbatim>\<open>mesh-node/dataplane.go\<close>, \<^verbatim>\<open>mesh-node/tun_forward.go\<close>):
  Dijkstra's search over the links of the coordinator with the heap of \<^verbatim>\<open>container/heap\<close>, the tables of
  primary and fallback hops, the choice of the next hop with its rate-limited recomputation, and the link
  health tick.  Costs are exact rationals where the code has \<^verbatim>\<open>float64\<close>.  The searches are partial functions:
  that they return is proved for links with positive costs.
\<close>

section \<open>Route computation\<close>

record edge =
  edge_A :: string
  edge_B :: string
  edge_Cost :: rat

type_synonym qitem = "string \<times> rat"

abbreviation pq_Push :: "qitem \<Rightarrow> qitem list \<Rightarrow> qitem list" where "pq_Push \<equiv> heap_Push snd"
abbreviation pq_Pop :: "qitem list \<Rightarrow> qitem \<times> qitem list" where "pq_Pop \<equiv> heap_Pop snd"

definition adjacency :: "edge list \<Rightarrow> string \<Rightarrow> qitem list" where
  "adjacency links u =
     concat (map (\<lambda>e. (if edge_A e = u then [(edge_B e, edge_Cost e)] else [])
                    @ (if edge_B e = u then [(edge_A e, edge_Cost e)] else [])) links)"

record search =
  costs :: "string \<rightharpoonup> rat"
  previous :: "string \<rightharpoonup> string"
  queue :: "qitem list"

definition go_get :: "('k \<rightharpoonup> 'v) \<Rightarrow> 'v \<Rightarrow> 'k \<Rightarrow> 'v" where
  "go_get m z k = (case m k of None \<Rightarrow> z | Some v \<Rightarrow> v)"

text \<open>One candidate of the node that was taken from the queue.\<close>

definition relax ::
    "(qitem \<Rightarrow> qitem list \<Rightarrow> qitem list) \<Rightarrow> string \<Rightarrow> string \<Rightarrow> (string \<Rightarrow> bool) \<Rightarrow> qitem \<Rightarrow> qitem \<Rightarrow> search \<Rightarrow> search" where
  "relax push exclude self usableByID current candidate st =
     (if fst current = self \<and> (fst candidate = exclude \<or> \<not> usableByID (fst candidate)) then st
      else (let candidateCost = snd current + snd candidate in
        if (case costs st (fst candidate) of None \<Rightarrow> True | Some existing \<Rightarrow> candidateCost < existing)
        then \<lparr>costs = (costs st)(fst candidate \<mapsto> candidateCost),
              previous = (previous st)(fst candidate \<mapsto> fst current),
              queue = push (fst candidate, candidateCost) (queue st)\<rparr>
        else st))"

partial_function (option) search_loop ::
    "(qitem \<Rightarrow> qitem list \<Rightarrow> qitem list) \<Rightarrow> (qitem list \<Rightarrow> qitem \<times> qitem list) \<Rightarrow> (string \<Rightarrow> qitem list) \<Rightarrow>
     string \<Rightarrow> string \<Rightarrow> (string \<Rightarrow> bool) \<Rightarrow> search \<Rightarrow> search option" where
  "search_loop push pop adj exclude self usableByID st =
     (if queue st = [] then Some st
      else case pop (queue st) of (current, q) \<Rightarrow>
        let st1 = st\<lparr>queue := q\<rparr> in
        if snd current \<noteq> go_get (costs st) 0 (fst current)
        then search_loop push pop adj exclude self usableByID st1
        else search_loop push pop adj exclude self usableByID
               (fold (relax push exclude self usableByID current) (adj (fst current)) st1))"

definition firstHopTable ::
    "(string \<Rightarrow> qitem list) \<Rightarrow> string \<Rightarrow> string \<Rightarrow> (string \<Rightarrow> bool) \<Rightarrow> (string \<rightharpoonup> string) option" where
  "firstHopTable adj exclude self usableByID =
     map_option previous (search_loop pq_Push pq_Pop adj exclude self usableByID
       \<lparr>costs = [self \<mapsto> 0], previous = Map.empty, queue = [(self, 0)]\<rparr>)"

partial_function (option) chain_to :: "(string \<rightharpoonup> string) \<Rightarrow> string \<Rightarrow> string \<Rightarrow> string option" where
  "chain_to prev hop self =
     (if go_get prev [] hop \<noteq> [] \<and> go_get prev [] hop \<noteq> self then chain_to prev (go_get prev [] hop) self
      else Some hop)"

definition firstHopFrom :: "(string \<rightharpoonup> string) \<Rightarrow> string \<Rightarrow> string \<Rightarrow> string option" where
  "firstHopFrom prev destination self =
     map_option (\<lambda>hop. if go_get prev [] hop = self then hop else []) (chain_to prev destination self)"

declare search_loop.simps [code] chain_to.simps [code]

text \<open>The loop over the directory: \<^verbatim>\<open>routes\<close> and \<^verbatim>\<open>byPrimary\<close>.\<close>

fun collect_routes ::
    "(string \<rightharpoonup> string) \<Rightarrow> string \<Rightarrow> (string \<Rightarrow> bool) \<Rightarrow> string list \<Rightarrow> (string \<rightharpoonup> string) \<Rightarrow>
     (string \<times> string list) list \<Rightarrow> ((string \<rightharpoonup> string) \<times> (string \<times> string list) list) option" where
  "collect_routes prev self use [] routes byPrimary = Some (routes, byPrimary)"
| "collect_routes prev self use (i # ids) routes byPrimary =
     (if i = self then collect_routes prev self use ids routes byPrimary
      else if use i then collect_routes prev self use ids (routes(i \<mapsto> i)) byPrimary
      else case firstHopFrom prev i self of
        None \<Rightarrow> None
      | Some hop \<Rightarrow>
          if hop \<noteq> []
          then collect_routes prev self use ids (routes(i \<mapsto> hop))
                 (AList.map_default hop [i] (\<lambda>ids. ids @ [i]) byPrimary)
          else collect_routes prev self use ids routes byPrimary)"

fun collect_fallbacks ::
    "(string \<rightharpoonup> string) \<Rightarrow> string \<Rightarrow> string \<Rightarrow> string list \<Rightarrow> (string \<rightharpoonup> string) \<Rightarrow> (string \<rightharpoonup> string) option" where
  "collect_fallbacks alt self hop [] fallbacks = Some fallbacks"
| "collect_fallbacks alt self hop (i # ids) fallbacks =
     (case firstHopFrom alt i self of
        None \<Rightarrow> None
      | Some f \<Rightarrow> collect_fallbacks alt self hop ids (if f \<noteq> [] \<and> f \<noteq> hop then fallbacks(i \<mapsto> f) else fallbacks))"

fun fallback_tables ::
    "(string \<Rightarrow> qitem list) \<Rightarrow> string \<Rightarrow> (string \<Rightarrow> bool) \<Rightarrow> (string \<times> string list) list \<Rightarrow>
     (string \<rightharpoonup> string) \<Rightarrow> (string \<rightharpoonup> string) option" where
  "fallback_tables adj self use [] fallbacks = Some fallbacks"
| "fallback_tables adj self use ((hop, dests) # byPrimary) fallbacks =
     (case firstHopTable adj hop self use of
        None \<Rightarrow> None
      | Some alt \<Rightarrow>
          (case collect_fallbacks alt self hop dests fallbacks of
             None \<Rightarrow> None
           | Some fb \<Rightarrow> fallback_tables adj self use byPrimary fb))"

definition computeRoutes ::
    "time \<Rightarrow> edge list \<Rightarrow> string \<Rightarrow> string list \<Rightarrow> (string \<rightharpoonup> peer) \<Rightarrow>
     ((string \<rightharpoonup> string) \<times> (string \<rightharpoonup> string)) option" where
  "computeRoutes now links selfID dirIDs nbrs =
     (let usableByID = (\<lambda>i. usable now (nbrs i)); adj = adjacency links in
      case firstHopTable adj [] selfID usableByID of
        None \<Rightarrow> None
      | Some prev \<Rightarrow>
          (case collect_routes prev selfID usableByID dirIDs Map.empty [] of
             None \<Rightarrow> None
           | Some (routes, byPrimary) \<Rightarrow>
               map_option (Pair routes) (fallback_tables adj selfID usableByID byPrimary Map.empty)))"

section \<open>Shortest walks\<close>

text \<open>The arcs that the search may follow, and the cost of the walks along them.\<close>

definition arc :: "(string \<Rightarrow> qitem list) \<Rightarrow> string \<Rightarrow> string \<Rightarrow> (string \<Rightarrow> bool) \<Rightarrow> string \<Rightarrow> string \<Rightarrow> rat \<Rightarrow> bool" where
  "arc adj exclude self use u v c =
     ((v, c) \<in> set (adj u) \<and> (u = self \<longrightarrow> v \<noteq> exclude \<and> use v))"

inductive walk :: "(string \<Rightarrow> string \<Rightarrow> rat \<Rightarrow> bool) \<Rightarrow> string \<Rightarrow> string \<Rightarrow> rat \<Rightarrow> bool"
  for E :: "string \<Rightarrow> string \<Rightarrow> rat \<Rightarrow> bool" where
  walk_here: "walk E u u 0"
| walk_step: "walk E u v d \<Longrightarrow> E v w c \<Longrightarrow> walk E u w (d + c)"

definition shortest :: "(string \<Rightarrow> string \<Rightarrow> rat \<Rightarrow> bool) \<Rightarrow> string \<Rightarrow> string \<Rightarrow> rat \<Rightarrow> bool" where
  "shortest E u v d = (walk E u v d \<and> (\<forall>d'. walk E u v d' \<longrightarrow> d \<le> d'))"

lemma walk_join: "walk E v w d' \<Longrightarrow> walk E u v d \<Longrightarrow> walk E u w (d + d')"
proof (induction rule: walk.induct)
  case (walk_step x y e z c)
  then show ?case using walk.walk_step [of E u y "d + e" z c] by (simp add: add.assoc)
qed simp

definition nonneg_arcs :: "(string \<Rightarrow> string \<Rightarrow> rat \<Rightarrow> bool) \<Rightarrow> bool" where
  "nonneg_arcs E = (\<forall>u v c. E u v c \<longrightarrow> 0 \<le> c)"

lemma walk_nonneg:
  assumes "walk E u v d" "nonneg_arcs E"
  shows "0 \<le> d"
  using assms(1,2) unfolding nonneg_arcs_def by (induction rule: walk.induct) (auto intro: add_nonneg_nonneg)

section \<open>The search\<close>

text \<open>What holds between the iterations of the search.  \<open>S\<close> is the set of nodes that were taken from the
  queue with their current cost.\<close>

definition search_inv ::
    "(string \<Rightarrow> string \<Rightarrow> rat \<Rightarrow> bool) \<Rightarrow> string \<Rightarrow> string set \<Rightarrow> search \<Rightarrow> bool" where
  "search_inv E self S st =
     (costs st self = Some 0
      \<and> (\<forall>v d. costs st v = Some d \<longrightarrow> walk E self v d)
      \<and> (\<forall>u \<in> S. \<exists>d. costs st u = Some d \<and> (\<forall>x \<in> set (queue st). d \<le> snd x))
      \<and> (\<forall>v d. costs st v = Some d \<longrightarrow> v \<notin> S \<longrightarrow> (v, d) \<in> set (queue st))
      \<and> (\<forall>v d. (v, d) \<in> set (queue st) \<longrightarrow> (\<exists>d'. costs st v = Some d' \<and> d' \<le> d \<and> (v \<in> S \<longrightarrow> d' < d)))
      \<and> distinct (queue st)
      \<and> (\<forall>v u. previous st v = Some u \<longrightarrow> v \<noteq> self \<and> u \<in> S \<and>
           (\<exists>c d. E u v c \<and> costs st u = Some d \<and> costs st v = Some (d + c)))
      \<and> (\<forall>v. costs st v \<noteq> None \<longrightarrow> v \<noteq> self \<longrightarrow> previous st v \<noteq> None))"

lemma search_invD:
  assumes "search_inv E self S st"
  shows "costs st self = Some 0"
    and "costs st v = Some d \<Longrightarrow> walk E self v d"
    and "u \<in> S \<Longrightarrow> \<exists>d. costs st u = Some d \<and> (\<forall>x \<in> set (queue st). d \<le> snd x)"
    and "costs st v = Some d \<Longrightarrow> v \<notin> S \<Longrightarrow> (v, d) \<in> set (queue st)"
    and "(v, d) \<in> set (queue st) \<Longrightarrow> \<exists>d'. costs st v = Some d' \<and> d' \<le> d \<and> (v \<in> S \<longrightarrow> d' < d)"
    and "distinct (queue st)"
    and "previous st v = Some u \<Longrightarrow> v \<noteq> self \<and> u \<in> S \<and>
           (\<exists>c d. E u v c \<and> costs st u = Some d \<and> costs st v = Some (d + c))"
    and "costs st v = Some d \<Longrightarrow> v \<noteq> self \<Longrightarrow> previous st v \<noteq> None"
  using assms unfolding search_inv_def by blast+

text \<open>All arcs out of \<open>u\<close> have been taken into account.\<close>

definition relaxed :: "(string \<Rightarrow> string \<Rightarrow> rat \<Rightarrow> bool) \<Rightarrow> search \<Rightarrow> string \<Rightarrow> bool" where
  "relaxed E st u = (\<forall>d v c. costs st u = Some d \<longrightarrow> E u v c \<longrightarrow> (\<exists>d'. costs st v = Some d' \<and> d' \<le> d + c))"

text \<open>Costs only fall, and not at all for nodes that are done.\<close>

definition cheaper :: "string set \<Rightarrow> search \<Rightarrow> search \<Rightarrow> bool" where
  "cheaper S st st' = ((\<forall>v d. costs st v = Some d \<longrightarrow> (\<exists>d'. costs st' v = Some d' \<and> d' \<le> d))
     \<and> (\<forall>u \<in> S. costs st' u = costs st u))"

lemma cheaper_refl: "cheaper S st st"
  by (auto simp: cheaper_def)

lemma cheaper_trans:
  assumes "cheaper S st st'" "cheaper S st' st''"
  shows "cheaper S st st''"
  unfolding cheaper_def
proof (intro conjI allI impI ballI)
  fix v d assume "costs st v = Some d"
  then obtain d' where d: "costs st' v = Some d'" "d' \<le> d" using assms(1) unfolding cheaper_def by blast
  then obtain d'' where "costs st'' v = Some d''" "d'' \<le> d'" using assms(2) unfolding cheaper_def by blast
  then show "\<exists>d'. costs st'' v = Some d' \<and> d' \<le> d" using d(2) by auto
qed (use assms in \<open>simp add: cheaper_def\<close>)

lemma cheaper_relaxed:
  assumes "cheaper S st st'" "relaxed E st u" "u \<in> S"
  shows "relaxed E st' u"
  unfolding relaxed_def
proof (intro allI impI)
  fix d v c assume d: "costs st' u = Some d" and E: "E u v c"
  have "costs st u = Some d" using d assms(1,3) by (simp add: cheaper_def)
  then obtain d1 where d1: "costs st v = Some d1" "d1 \<le> d + c" using assms(2) E unfolding relaxed_def by blast
  then obtain d2 where "costs st' v = Some d2" "d2 \<le> d1" using assms(1) unfolding cheaper_def by blast
  then show "\<exists>d'. costs st' v = Some d' \<and> d' \<le> d + c" using d1(2) by auto
qed

locale route_queue = min_queue push pop "snd :: qitem \<Rightarrow> rat" ok
  for push :: "qitem \<Rightarrow> qitem list \<Rightarrow> qitem list" and pop ok
begin

lemma relax_improves:
  assumes inv: "search_inv E self S st" and ok: "ok (queue st)" and u: "u \<in> S" "costs st u = Some d"
    and least: "\<forall>x \<in> S. \<forall>e. costs st x = Some e \<longrightarrow> e \<le> d"
    and E: "E u v c" and nonneg: "nonneg_arcs E"
    and imp: "case costs st v of None \<Rightarrow> True | Some e \<Rightarrow> d + c < e"
    and st': "st' = \<lparr>costs = (costs st)(v \<mapsto> d + c), previous = (previous st)(v \<mapsto> u),
      queue = push (v, d + c) (queue st)\<rparr>"
  shows "search_inv E self S st' \<and> ok (queue st') \<and> cheaper S st st'"
proof -
  note I = search_invD [OF inv]
  have c: "0 \<le> c" using nonneg E by (simp add: nonneg_arcs_def)
  have vS: "v \<notin> S"
  proof
    assume v: "v \<in> S"
    then obtain e where e: "costs st v = Some e" using I(3) by blast
    then have "d + c < e" using imp by simp
    then show False using least v e c by fastforce
  qed
  then have uv: "u \<noteq> v" using u(1) by blast
  have "0 \<le> d" using walk_nonneg [OF I(2) [OF u(2)] nonneg] .
  then have vself: "v \<noteq> self" using imp I(1) c by (auto split: option.splits)
  have q: "set (queue st') = insert (v, d + c) (set (queue st))" using set_push [OF ok] st' by simp
  have new: "(v, d + c) \<notin> set (queue st)"
  proof
    assume "(v, d + c) \<in> set (queue st)"
    then obtain d' where "costs st v = Some d'" "d' \<le> d + c" using I(5) by blast
    then show False using imp by simp
  qed
  have wk: "walk E self v (d + c)" using walk_step [OF I(2) [OF u(2)] E] .
  have "search_inv E self S st'"
    unfolding search_inv_def
  proof (intro conjI allI impI ballI)
    show "costs st' self = Some 0" using I(1) vself st' by simp
  next
    fix w e assume "costs st' w = Some e"
    then show "walk E self w e" using wk I(2) st' by (auto split: if_splits)
  next
    fix x assume x: "x \<in> S"
    then obtain e where e: "costs st x = Some e" "\<forall>y \<in> set (queue st). e \<le> snd y" using I(3) by blast
    moreover have "e \<le> d + c" using least x e(1) c by fastforce
    ultimately show "\<exists>e. costs st' x = Some e \<and> (\<forall>y \<in> set (queue st'). e \<le> snd y)"
      using x vS q st' by auto
  next
    fix w e assume "costs st' w = Some e" "w \<notin> S"
    then show "(w, e) \<in> set (queue st')" using I(4) q st' by (auto split: if_splits)
  next
    fix w e assume we: "(w, e) \<in> set (queue st')"
    show "\<exists>d'. costs st' w = Some d' \<and> d' \<le> e \<and> (w \<in> S \<longrightarrow> d' < e)"
    proof (cases "w = v")
      case True
      have "d + c \<le> e"
      proof (cases "(w, e) \<in> set (queue st)")
        case old: True
        then obtain d' where "costs st v = Some d'" "d' \<le> e" using I(5) [OF old] True by auto
        then show ?thesis using imp by simp
      next
        case False
        then show ?thesis using we q by auto
      qed
      then show ?thesis using True vS st' by simp
    next
      case False
      then show ?thesis using we q I(5) [of w e] st' by auto
    qed
  next
    show "distinct (queue st')" using distinct_push [OF ok I(6) new] st' by simp
  next
    fix w x assume p: "previous st' w = Some x"
    show "w \<noteq> self" using p I(7) vself st' by (auto split: if_splits)
    show "x \<in> S" using p I(7) u(1) st' by (auto split: if_splits)
    show "\<exists>c d. E x w c \<and> costs st' x = Some d \<and> costs st' w = Some (d + c)"
    proof (cases "w = v")
      case True
      then show ?thesis using p u uv E st' by auto
    next
      case False
      then have "previous st w = Some x" using p st' by simp
      then have *: "x \<in> S" "\<exists>c d. E x w c \<and> costs st x = Some d \<and> costs st w = Some (d + c)" using I(7) by blast+
      then have "x \<noteq> v" using vS by blast
      then show ?thesis using * False st' by simp
    qed
  next
    fix w assume "costs st' w \<noteq> None" "w \<noteq> self"
    then show "previous st' w \<noteq> None" using I(8) [of w] st' by (auto split: if_splits)
  qed
  moreover have "ok (queue st')" using push_ok [OF ok] st' by simp
  moreover have "cheaper S st st'" using vS imp st' by (auto simp: cheaper_def)
  ultimately show ?thesis by blast
qed

text \<open>The inner loop over the candidates of one node.\<close>

lemma relax_one:
  assumes inv: "search_inv E self S st" and ok: "ok (queue st)" and u: "u \<in> S" "costs st u = Some d"
    and least: "\<forall>x \<in> S. \<forall>e. costs st x = Some e \<longrightarrow> e \<le> d"
    and cand: "(v, c) \<in> set (adj u)" and E: "E = arc adj exclude self use"
    and nonneg: "nonneg_arcs E"
    and st': "st' = relax push exclude self use (u, d) (v, c) st"
  shows "search_inv E self S st' \<and> ok (queue st') \<and> cheaper S st st'
    \<and> (E u v c \<longrightarrow> (\<exists>d'. costs st' v = Some d' \<and> d' \<le> d + c))"
proof (cases "E u v c \<and> (case costs st v of None \<Rightarrow> True | Some e \<Rightarrow> d + c < e)")
  case True
  then have "st' = \<lparr>costs = (costs st)(v \<mapsto> d + c), previous = (previous st)(v \<mapsto> u),
      queue = push (v, d + c) (queue st)\<rparr>"
    using st' E cand by (auto simp: relax_def arc_def Let_def)
  then show ?thesis using relax_improves [OF inv ok u least _ nonneg] True by auto
next
  case False
  then have "st' = st" using st' E cand by (auto simp: relax_def arc_def Let_def)
  then show ?thesis using False inv ok cheaper_refl by (auto split: option.splits)
qed

lemma relax_all:
  assumes "search_inv E self S st" "ok (queue st)" "u \<in> S" "costs st u = Some d"
    and "\<forall>x \<in> S. \<forall>e. costs st x = Some e \<longrightarrow> e \<le> d"
    and "set cs \<subseteq> set (adj u)" and E: "E = arc adj exclude self use"
    and nonneg: "nonneg_arcs E"
    and "st' = fold (relax push exclude self use (u, d)) cs st"
  shows "search_inv E self S st' \<and> ok (queue st') \<and> cheaper S st st'
    \<and> (\<forall>(v, c) \<in> set cs. E u v c \<longrightarrow> (\<exists>d'. costs st' v = Some d' \<and> d' \<le> d + c))"
  using assms(1-6,9)
proof (induction cs arbitrary: st)
  case Nil
  then show ?case by (simp add: cheaper_refl)
next
  case (Cons a cs)
  obtain v c where a: "a = (v, c)" by fastforce
  let ?s = "relax push exclude self use (u, d) (v, c) st"
  have cand: "(v, c) \<in> set (adj u)" using Cons.prems(6) a by simp
  have one: "search_inv E self S ?s" "ok (queue ?s)" "cheaper S st ?s"
    "E u v c \<longrightarrow> (\<exists>d'. costs ?s v = Some d' \<and> d' \<le> d + c)"
    using relax_one [OF Cons.prems(1-5) cand E nonneg refl] by blast+
  have same: "costs ?s x = costs st x" if "x \<in> S" for x using one(3) that by (simp add: cheaper_def)
  have IH: "search_inv E self S st'" "ok (queue st')" "cheaper S ?s st'"
    "\<forall>(v, c) \<in> set cs. E u v c \<longrightarrow> (\<exists>d'. costs st' v = Some d' \<and> d' \<le> d + c)"
    using Cons.IH [of ?s] one Cons.prems(3-7) same a by simp_all
  have "E u v c \<longrightarrow> (\<exists>d'. costs st' v = Some d' \<and> d' \<le> d + c)"
    using one(4) IH(3) unfolding cheaper_def by (meson order_trans)
  then show ?case using IH cheaper_trans [OF one(3) IH(3)] a by auto
qed

text \<open>Taking the cheapest entry: either it is outdated, or its node becomes done.\<close>

lemma pop_outdated:
  assumes inv: "search_inv E self S st" and ok: "ok (queue st)" "queue st \<noteq> []" "pop (queue st) = ((u, d), q)"
    and out: "d \<noteq> go_get (costs st) 0 u"
  shows "search_inv E self S (st\<lparr>queue := q\<rparr>)"
proof -
  note I = search_invD [OF inv]
  have q: "set (queue st) = insert (u, d) (set q)" using set_pop [OF ok] .
  have dq: "distinct q" using distinct_pop [OF ok] I(6) by blast
  have "costs st u \<noteq> Some d" using out by (auto simp: go_get_def)
  then show ?thesis using inv q dq unfolding search_inv_def
    by (auto 0 3)
qed

lemma pop_current:
  assumes inv: "search_inv E self S st" and ok: "ok (queue st)" "queue st \<noteq> []" "pop (queue st) = ((u, d), q)"
    and cur: "d = go_get (costs st) 0 u"
  shows "search_inv E self (insert u S) (st\<lparr>queue := q\<rparr>)" "u \<notin> S" "costs st u = Some d"
    "\<forall>x \<in> insert u S. \<forall>e. costs st x = Some e \<longrightarrow> e \<le> d"
proof -
  note I = search_invD [OF inv]
  have q: "set (queue st) = insert (u, d) (set q)" using set_pop [OF ok] .
  have dq: "distinct q" "(u, d) \<notin> set q" using distinct_pop [OF ok] I(6) by blast+
  obtain d' where d': "costs st u = Some d'" "u \<in> S \<longrightarrow> d' < d" using I(5) [of u d] q by blast
  then show ud: "costs st u = Some d" using cur by (simp add: go_get_def)
  then show uS: "u \<notin> S" using d' by auto
  have "e \<le> d" if "x \<in> insert u S" "costs st x = Some e" for x e
    using that ud I(3) [of x] q by auto
  then show "\<forall>x \<in> insert u S. \<forall>e. costs st x = Some e \<longrightarrow> e \<le> d" by blast
  have least: "\<forall>x \<in> set q. d \<le> snd x" using pop_least [OF ok] q by auto
  show "search_inv E self (insert u S) (st\<lparr>queue := q\<rparr>)"
    unfolding search_inv_def
  proof (intro conjI allI impI ballI)
    fix x assume "x \<in> insert u S"
    then show "\<exists>e. costs (st\<lparr>queue := q\<rparr>) x = Some e \<and> (\<forall>y \<in> set (queue (st\<lparr>queue := q\<rparr>)). e \<le> snd y)"
      using I(3) [of x] ud least q by auto
  next
    fix v e assume "costs (st\<lparr>queue := q\<rparr>) v = Some e" "v \<notin> insert u S"
    then show "(v, e) \<in> set (queue (st\<lparr>queue := q\<rparr>))" using I(4) [of v e] q by auto
  next
    fix v e assume "(v, e) \<in> set (queue (st\<lparr>queue := q\<rparr>))"
    then have ve: "(v, e) \<in> set q" "(v, e) \<noteq> (u, d)" using dq by auto
    then show "\<exists>d'. costs (st\<lparr>queue := q\<rparr>) v = Some d' \<and> d' \<le> e \<and> (v \<in> insert u S \<longrightarrow> d' < e)"
      using I(5) [of v e] q ud by auto
  qed (use I dq in auto)
qed

text \<open>The loop ends, with an empty queue and every reached node done.\<close>

lemma search_loop_returns:
  assumes V: "finite V" "\<forall>v d. walk E self v d \<longrightarrow> v \<in> V"
    and E: "E = arc adj exclude self use" and nonneg: "nonneg_arcs E"
    and "search_inv E self S st" "ok (queue st)" "\<forall>u \<in> S. relaxed E st u"
  shows "\<exists>S' st'. search_loop push pop adj exclude self use st = Some st' \<and> queue st' = []
    \<and> search_inv E self S' st' \<and> (\<forall>u \<in> S'. relaxed E st' u)"
  using assms(5-7)
proof (induction "(S, st)" arbitrary: S st
    rule: wf_induct_rule [OF wf_measures [of "[\<lambda>(S, st). card (V - S), \<lambda>(S, st). length (queue st)]"]])
  case 1
  note IH = 1(1) and inv = 1(2) and ok = 1(3) and rel = 1(4)
  show ?case
  proof (cases "queue st = []")
    case True
    then show ?thesis using inv rel by (subst search_loop.simps) auto
  next
    case ne: False
    obtain u d q where pop: "pop (queue st) = ((u, d), q)" by (metis surj_pair)
    let ?s1 = "st\<lparr>queue := q\<rparr>"
    have okq: "ok (queue ?s1)" and len: "length q < length (queue st)"
      using pop_ok [OF ok ne pop] length_pop [OF ok ne pop] by simp_all
    show ?thesis
    proof (cases "d = go_get (costs st) 0 u")
      case False
      have "search_inv E self S ?s1" using pop_outdated [OF inv ok ne pop False] .
      moreover have "\<forall>x \<in> S. relaxed E ?s1 x" using rel by (simp add: relaxed_def)
      ultimately have "\<exists>S' st'. search_loop push pop adj exclude self use ?s1 = Some st' \<and> queue st' = []
          \<and> search_inv E self S' st' \<and> (\<forall>u \<in> S'. relaxed E st' u)"
        using IH [of S ?s1] okq len by simp
      then show ?thesis using ne pop False by (subst search_loop.simps) (simp add: Let_def)
    next
      case True
      note C = pop_current [OF inv ok ne pop True]
      let ?s2 = "fold (relax push exclude self use (u, d)) (adj u) ?s1"
      have 2: "search_inv E self (insert u S) ?s2" "ok (queue ?s2)" "cheaper (insert u S) ?s1 ?s2"
        "\<forall>(v, c) \<in> set (adj u). E u v c \<longrightarrow> (\<exists>d'. costs ?s2 v = Some d' \<and> d' \<le> d + c)"
        using relax_all [OF C(1) okq _ _ _ _ E nonneg refl, of u d] C(3,4) by simp_all
      have u2: "costs ?s2 u = Some d" using 2(3) C(3) by (simp add: cheaper_def)
      have rel2: "\<forall>x \<in> insert u S. relaxed E ?s2 x"
      proof
        fix x assume x: "x \<in> insert u S"
        show "relaxed E ?s2 x"
        proof (cases "x = u")
          case True
          then show ?thesis using 2(4) u2 E by (force simp: relaxed_def arc_def)
        next
          case False
          then have "relaxed E ?s1 x" using rel x by (simp add: relaxed_def)
          then show ?thesis using cheaper_relaxed [OF 2(3)] x by blast
        qed
      qed
      have "u \<in> V - S" using V(2) search_invD(2) [OF inv C(3)] C(2) by blast
      then have "card (V - insert u S) < card (V - S)"
        using V(1) by (metis Diff_insert card_Diff1_less finite_Diff)
      then have "\<exists>S' st'. search_loop push pop adj exclude self use ?s2 = Some st' \<and> queue st' = []
          \<and> search_inv E self S' st' \<and> (\<forall>u \<in> S'. relaxed E st' u)"
        using IH [of "insert u S" ?s2] 2 rel2 by simp
      then show ?thesis using ne pop True by (subst search_loop.simps) (simp add: Let_def)
    qed
  qed
qed

end

interpretation go_queue: route_queue pq_Push pq_Pop "\<lambda>q. heap_ok snd (length q) q"
  by unfold_locales

text \<open>A finished search holds the cost of the cheapest walk to every node.\<close>

lemma finished_bound:
  assumes inv: "search_inv E self S st" and q: "queue st = []" and rel: "\<forall>u \<in> S. relaxed E st u"
    and "walk E s w d" "s = self"
  shows "\<exists>e. costs st w = Some e \<and> e \<le> d"
  using assms(4,5)
proof (induction rule: walk.induct)
  case (walk_here u)
  then show ?case using search_invD(1) [OF inv] by simp
next
  case (walk_step u x d w c)
  then obtain e where e: "costs st x = Some e" "e \<le> d" by blast
  then have "x \<in> S" using search_invD(4) [OF inv] q by fastforce
  then obtain e' where "costs st w = Some e'" "e' \<le> e + c"
    using rel e walk_step.hyps(2) unfolding relaxed_def by blast
  then show ?case using e(2) by (intro exI [of _ e']) simp
qed

lemma finished_shortest:
  assumes inv: "search_inv E self S st" and q: "queue st = []" and rel: "\<forall>u \<in> S. relaxed E st u"
  shows "costs st v = Some d \<longleftrightarrow> shortest E self v d"
proof -
  note I = search_invD [OF inv] and bound = finished_bound [OF inv q rel _ refl]
  show ?thesis
  proof
    assume c: "costs st v = Some d"
    then show "shortest E self v d" using bound I(2) unfolding shortest_def by fastforce
  next
    assume sh: "shortest E self v d"
    then obtain e where e: "costs st v = Some e" "e \<le> d" using bound unfolding shortest_def by blast
    then have "d \<le> e" using sh I(2) unfolding shortest_def by blast
    then show "costs st v = Some d" using e by simp
  qed
qed

text \<open>The table that a search returns: costs of cheapest walks, and predecessors along them.\<close>

definition route_tree ::
    "(string \<Rightarrow> string \<Rightarrow> rat \<Rightarrow> bool) \<Rightarrow> string \<Rightarrow> (string \<rightharpoonup> rat) \<Rightarrow> (string \<rightharpoonup> string) \<Rightarrow> bool" where
  "route_tree E self cst prev =
     ((\<forall>v d. cst v = Some d \<longleftrightarrow> shortest E self v d) \<and> finite (dom cst)
      \<and> (\<forall>v d. walk E self v d \<longrightarrow> cst v \<noteq> None)
      \<and> (\<forall>v u. prev v = Some u \<longrightarrow> v \<noteq> self \<and> (\<exists>c d. E u v c \<and> cst u = Some d \<and> cst v = Some (d + c)))
      \<and> (\<forall>v. cst v \<noteq> None \<longrightarrow> v \<noteq> self \<longrightarrow> prev v \<noteq> None))"

lemma route_treeD:
  assumes "route_tree E self cst prev"
  shows "cst v = Some d \<longleftrightarrow> shortest E self v d" "finite (dom cst)"
    "prev v = Some u \<Longrightarrow> v \<noteq> self \<and> (\<exists>c d. E u v c \<and> cst u = Some d \<and> cst v = Some (d + c))"
    "cst v \<noteq> None \<Longrightarrow> v \<noteq> self \<Longrightarrow> prev v \<noteq> None"
    "walk E self v d \<Longrightarrow> cst v \<noteq> None"
  using assms unfolding route_tree_def by blast+

lemma walk_within:
  assumes "walk E u v d" "u \<in> V" "\<And>x y c. E x y c \<Longrightarrow> y \<in> V"
  shows "v \<in> V"
  using assms by (induction rule: walk.induct) auto

definition ends :: "edge list \<Rightarrow> string set" where
  "ends links = (\<Union>e \<in> set links. {edge_A e, edge_B e})"

lemma adjacency_iff:
  "(v, c) \<in> set (adjacency links u) \<longleftrightarrow>
     (\<exists>e \<in> set links. edge_Cost e = c \<and> (edge_A e = u \<and> edge_B e = v \<or> edge_B e = u \<and> edge_A e = v))"
  by (auto simp: adjacency_def)

lemma finite_ends: "finite (ends links)"
  by (simp add: ends_def)

lemma arc_ends: "arc (adjacency links) exclude self use u v c \<Longrightarrow> v \<in> ends links"
  by (auto simp: arc_def adjacency_iff ends_def)

lemma firstHopTable_tree:
  assumes E: "E = arc (adjacency links) exclude self use" and pos: "\<forall>e \<in> set links. 0 \<le> edge_Cost e"
  shows "\<exists>cst prev. firstHopTable (adjacency links) exclude self use = Some prev \<and> route_tree E self cst prev"
proof -
  let ?s = "\<lparr>costs = [self \<mapsto> 0], previous = Map.empty, queue = [(self, 0)]\<rparr> :: search"
  let ?V = "insert self (ends links)"
  have V: "\<forall>v d. walk E self v d \<longrightarrow> v \<in> ?V"
    using walk_within [of E self _ _ ?V] arc_ends E by blast
  have nonneg: "nonneg_arcs E" using pos by (auto simp: nonneg_arcs_def E arc_def adjacency_iff)
  have inv: "search_inv E self {} ?s" by (auto simp: search_inv_def walk_here)
  have "heap_ok snd (length (queue ?s)) (queue ?s)" by (simp add: heap_ok_def)
  then obtain S st where st: "search_loop pq_Push pq_Pop (adjacency links) exclude self use ?s = Some st" "queue st = []"
      "search_inv E self S st" "\<forall>u \<in> S. relaxed E st u"
    using go_queue.search_loop_returns [OF _ V E nonneg inv] finite_ends by auto
  note I = search_invD [OF st(3)] and sh = finished_shortest [OF st(3,2,4)]
  have "dom (costs st) \<subseteq> ?V" using I(2) V by blast
  then have "finite (dom (costs st))" using finite_ends by (metis finite.insertI finite_subset)
  then have "route_tree E self (costs st) (previous st)"
    using I(7,8) sh finished_bound [OF st(3,2,4) _ refl] unfolding route_tree_def by blast
  then show ?thesis using st(1) unfolding firstHopTable_def by auto
qed

section \<open>First hops\<close>

text \<open>\<open>h\<close> is the node after \<open>self\<close> on a cheapest walk to \<open>v\<close>.\<close>

definition best_hop :: "(string \<Rightarrow> string \<Rightarrow> rat \<Rightarrow> bool) \<Rightarrow> string \<Rightarrow> string \<Rightarrow> string \<Rightarrow> bool" where
  "best_hop E self v h = (\<exists>c e. E self h c \<and> walk E h v e \<and> shortest E self v (c + e))"

lemma chain_to_returns:
  assumes tree: "route_tree E self cst prev" and pos: "\<forall>u v c. E u v c \<longrightarrow> 0 < c"
    and named: "\<forall>u v c. E u v c \<longrightarrow> u \<noteq> []"
    and "cst v = Some d" "v \<noteq> self"
  shows "\<exists>h c e. chain_to prev v self = Some h \<and> prev h = Some self \<and> E self h c \<and> walk E h v e \<and> d = c + e"
  using assms(4,5)
proof (induction "card {w \<in> dom cst. the (cst w) < d}" arbitrary: v d rule: less_induct)
  case less
  note T = route_treeD [OF tree]
  obtain u where u: "prev v = Some u" using T(4) [of v] less.prems by auto
  then obtain c du where c: "E u v c" "cst u = Some du" "d = du + c" using T(3) [OF u] less.prems by auto
  have ne: "u \<noteq> []" "0 < c" using c(1) named pos by blast+
  show ?case
  proof (cases "u = self")
    case True
    then have "shortest E self self du" using c(2) T(1) by simp
    moreover have "walk E self self 0" by (rule walk_here)
    ultimately have "du \<le> 0" unfolding shortest_def by blast
    moreover have "0 \<le> du" using walk_nonneg [of E self self du] \<open>shortest E self self du\<close> pos
      unfolding shortest_def nonneg_arcs_def by (meson less_imp_le)
    moreover have "chain_to prev v self = Some v" using u True by (subst chain_to.simps) (simp add: go_get_def)
    ultimately show ?thesis using u True c walk_here [of E v] by force
  next
    case False
    have "u \<in> {w \<in> dom cst. the (cst w) < d}" "u \<notin> {w \<in> dom cst. the (cst w) < du}"
      "{w \<in> dom cst. the (cst w) < du} \<subseteq> {w \<in> dom cst. the (cst w) < d}"
      using c ne(2) by auto
    then have "{w \<in> dom cst. the (cst w) < du} \<subset> {w \<in> dom cst. the (cst w) < d}" by blast
    then have "card {w \<in> dom cst. the (cst w) < du} < card {w \<in> dom cst. the (cst w) < d}"
      using T(2) by (intro psubset_card_mono) auto
    then obtain h c' e where h: "chain_to prev u self = Some h" "prev h = Some self" "E self h c'" "walk E h u e" "du = c' + e"
      using less.hyps c(2) False by blast
    have "chain_to prev v self = Some h" using h(1) u False ne(1) by (subst chain_to.simps) (simp add: go_get_def)
    moreover have "walk E h v (e + c)" using h(4) c(1) by (rule walk_step)
    ultimately show ?thesis using h c(3) by (metis add.assoc)
  qed
qed

lemma firstHopFrom_best:
  assumes tree: "route_tree E self cst prev" and pos: "\<forall>u v c. E u v c \<longrightarrow> 0 < c"
    and named: "\<forall>u v c. E u v c \<longrightarrow> u \<noteq> [] \<and> v \<noteq> []" and v: "v \<noteq> self" "self \<noteq> []"
  shows "\<exists>h. firstHopFrom prev v self = Some h \<and>
    (if \<exists>d. walk E self v d then h \<noteq> [] \<and> best_hop E self v h else h = [])"
proof (cases "cst v")
  case None
  note T = route_treeD [OF tree]
  have "prev v = None" using T(3) [of v] None by (cases "prev v") auto
  then have "firstHopFrom prev v self = Some []"
    using v(2) unfolding firstHopFrom_def by (subst chain_to.simps) (simp add: go_get_def)
  moreover have "\<not> walk E self v d" for d using T(5) None by blast
  ultimately show ?thesis by auto
next
  case (Some d)
  have sh: "shortest E self v d" using Some route_treeD(1) [OF tree] by simp
  obtain h c e where h: "chain_to prev v self = Some h" "prev h = Some self" "E self h c" "walk E h v e" "d = c + e"
    using chain_to_returns [OF tree pos _ Some v(1)] named by blast
  then have "firstHopFrom prev v self = Some h" by (simp add: firstHopFrom_def go_get_def)
  moreover have "h \<noteq> []" using h(3) named by blast
  moreover have "best_hop E self v h" using h(3-5) sh unfolding best_hop_def by blast
  moreover have "walk E self v d" using sh by (simp add: shortest_def)
  ultimately show ?thesis by auto
qed

text \<open>The destinations grouped by first hop, as a relation.\<close>

definition grouped :: "(string \<times> string list) list \<Rightarrow> (string \<times> string) set" where
  "grouped bp = {(h, i). \<exists>ids. (h, ids) \<in> set bp \<and> i \<in> set ids}"

lemma grouped_simps [simp]: "grouped [] = {}" "grouped ((h, ids) # bp) = {h} \<times> set ids \<union> grouped bp"
  by (auto simp: grouped_def)

lemma grouped_add: "grouped (AList.map_default h [i] (\<lambda>ids. ids @ [i]) bp) = insert (h, i) (grouped bp)"
  by (induction bp) auto

lemma collect_routes_spec:
  assumes "\<forall>i \<in> set ids. i \<noteq> self \<longrightarrow> firstHopFrom prev i self = Some (F i)"
  shows "\<exists>routes' bp'. collect_routes prev self use ids routes bp = Some (routes', bp')
    \<and> (\<forall>i. i \<notin> set ids \<or> i = self \<longrightarrow> routes' i = routes i)
    \<and> (\<forall>i \<in> set ids - {self}. routes' i = (if use i then Some i else if F i \<noteq> [] then Some (F i) else routes i))
    \<and> grouped bp' = grouped bp \<union> {(F i, i) |i. i \<in> set ids - {self} \<and> \<not> use i \<and> F i \<noteq> []}"
  using assms
proof (induction ids arbitrary: routes bp)
  case Nil
  then show ?case by simp
next
  case (Cons a ids)
  note IH = Cons.IH
  have hyp: "\<forall>i \<in> set ids. i \<noteq> self \<longrightarrow> firstHopFrom prev i self = Some (F i)" using Cons.prems by simp
  show ?case
  proof (cases "a = self \<or> \<not> use a \<and> F a = []")
    case True
    obtain r b where rb: "collect_routes prev self use ids routes bp = Some (r, b)"
      "\<forall>i. i \<notin> set ids \<or> i = self \<longrightarrow> r i = routes i"
      "\<forall>i \<in> set ids - {self}. r i = (if use i then Some i else if F i \<noteq> [] then Some (F i) else routes i)"
      "grouped b = grouped bp \<union> {(F i, i) |i. i \<in> set ids - {self} \<and> \<not> use i \<and> F i \<noteq> []}"
      using IH [OF hyp, of routes "bp"] by blast
    have "collect_routes prev self use (a # ids) routes bp = Some (r, b)" using True rb(1) Cons.prems by auto
    moreover have "r a = routes a" using rb(2,3) True by (cases "a \<in> set ids \<and> a \<noteq> self") (auto simp: Ball_def)
    ultimately show ?thesis using rb True by (intro exI [of _ r] exI [of _ b]) auto
  next
    case False
    let ?h = "if use a then a else F a"
    let ?bp = "if use a then bp else AList.map_default (F a) [a] (\<lambda>ids. ids @ [a]) bp"
    obtain r b where rb: "collect_routes prev self use ids (routes(a \<mapsto> ?h)) ?bp = Some (r, b)"
      "\<forall>i. i \<notin> set ids \<or> i = self \<longrightarrow> r i = (routes(a \<mapsto> ?h)) i"
      "\<forall>i \<in> set ids - {self}. r i = (if use i then Some i else if F i \<noteq> [] then Some (F i) else (routes(a \<mapsto> ?h)) i)"
      "grouped b = grouped ?bp \<union> {(F i, i) |i. i \<in> set ids - {self} \<and> \<not> use i \<and> F i \<noteq> []}"
      using IH [OF hyp, of "routes(a \<mapsto> ?h)" ?bp] by blast
    have "collect_routes prev self use (a # ids) routes bp = Some (r, b)" using False rb(1) Cons.prems by auto
    moreover have "r a = Some ?h" using rb(2,3) False by (cases "a \<in> set ids") auto
    moreover have "grouped b = grouped bp \<union> {(F i, i) |i. i \<in> set (a # ids) - {self} \<and> \<not> use i \<and> F i \<noteq> []}"
      using rb(4) False by (auto simp: grouped_add)
    ultimately show ?thesis using rb(2,3) False by (intro exI [of _ r] exI [of _ b]) auto
  qed
qed

lemma collect_fallbacks_spec:
  assumes "\<forall>i \<in> set ids. firstHopFrom alt i self = Some (F i)"
  shows "collect_fallbacks alt self hop ids fb =
    Some (\<lambda>i. if i \<in> set ids \<and> F i \<noteq> [] \<and> F i \<noteq> hop then Some (F i) else fb i)"
  using assms by (induction ids arbitrary: fb) (auto simp: fun_eq_iff)

lemma fallback_tables_spec:
  assumes "\<forall>(h, i) \<in> grouped bp. firstHopFrom (T h) i self = Some (F h i)"
    and "\<forall>h. firstHopTable adj h self use = Some (T h)" and "single_valued ((grouped bp)\<inverse>)"
  shows "\<exists>fb'. fallback_tables adj self use bp fb = Some fb'
    \<and> (\<forall>i. i \<notin> Range (grouped bp) \<longrightarrow> fb' i = fb i)
    \<and> (\<forall>(h, i) \<in> grouped bp. fb' i = (if F h i \<noteq> [] \<and> F h i \<noteq> h then Some (F h i) else fb i))"
  using assms(1,3)
proof (induction bp arbitrary: fb)
  case (Cons g bp)
  obtain h ids where g: "g = (h, ids)" by fastforce
  have "\<forall>i \<in> set ids. firstHopFrom (T h) i self = Some (F h i)" using Cons.prems(1) g by auto
  then obtain f1 where f1: "collect_fallbacks (T h) self h ids fb = Some f1"
    "\<forall>i. f1 i = (if i \<in> set ids \<and> F h i \<noteq> [] \<and> F h i \<noteq> h then Some (F h i) else fb i)"
    using collect_fallbacks_spec by fastforce
  have sv: "single_valued ((grouped bp)\<inverse>)" using Cons.prems(2) g by (auto simp: single_valued_def)
  obtain f2 where f2: "fallback_tables adj self use bp f1 = Some f2" "\<forall>i. i \<notin> Range (grouped bp) \<longrightarrow> f2 i = f1 i"
    "\<forall>(h, i) \<in> grouped bp. f2 i = (if F h i \<noteq> [] \<and> F h i \<noteq> h then Some (F h i) else f1 i)"
    using Cons.IH [OF _ sv, of f1] Cons.prems(1) g by auto
  have same: "h' = h" if "(h', i) \<in> grouped bp" "i \<in> set ids" for h' i
    using Cons.prems(2) that g unfolding single_valued_def by auto
  have "f2 i = (if F h' i \<noteq> [] \<and> F h' i \<noteq> h' then Some (F h' i) else fb i)" if "(h', i) \<in> grouped (g # bp)" for h' i
  proof (cases "(h', i) \<in> grouped bp")
    case True
    then have "f2 i = (if F h' i \<noteq> [] \<and> F h' i \<noteq> h' then Some (F h' i) else f1 i)" using f2(3) by blast
    moreover have "f1 i = fb i" if "\<not> (F h' i \<noteq> [] \<and> F h' i \<noteq> h')" using f1(2) same [OF True] that by auto
    ultimately show ?thesis by auto
  next
    case False
    then have i: "h' = h" "i \<in> set ids" using that g by auto
    then have "i \<notin> Range (grouped bp)" using False same by blast
    then show ?thesis using f2(2) f1(2) i by simp
  qed
  moreover have "f2 i = fb i" if "i \<notin> Range (grouped (g # bp))" for i
  proof -
    have "i \<notin> set ids" "i \<notin> Range (grouped bp)" using that g by (auto simp: Range_iff)
    then show ?thesis using f2(2) f1(2) by simp
  qed
  moreover have "fallback_tables adj self use (g # bp) fb = Some f2"
    using f1(1) f2(1) assms(2) g by simp
  ultimately show ?case by blast
qed simp

section \<open>The tables\<close>

definition good_links :: "edge list \<Rightarrow> bool" where
  "good_links links = (\<forall>e \<in> set links. 0 < edge_Cost e \<and> edge_A e \<noteq> [] \<and> edge_B e \<noteq> [])"

lemma good_arcs:
  assumes "good_links links"
  shows "\<forall>u v c. arc (adjacency links) x self use u v c \<longrightarrow> 0 < c"
    "\<forall>u v c. arc (adjacency links) x self use u v c \<longrightarrow> u \<noteq> [] \<and> v \<noteq> []"
    "\<forall>e \<in> set links. 0 \<le> edge_Cost e"
  using assms by (auto simp: good_links_def arc_def adjacency_iff)

text \<open>One table and the first hops read from it.\<close>

lemma table_hops:
  assumes "good_links links" "self \<noteq> []" "E = arc (adjacency links) x self use"
  shows "\<exists>prev F. firstHopTable (adjacency links) x self use = Some prev \<and>
    (\<forall>i. i \<noteq> self \<longrightarrow> firstHopFrom prev i self = Some (F i) \<and>
       (if \<exists>d. walk E self i d then F i \<noteq> [] \<and> best_hop E self i (F i) else F i = []))"
proof -
  obtain cst prev where t: "firstHopTable (adjacency links) x self use = Some prev" "route_tree E self cst prev"
    using firstHopTable_tree [OF assms(3)] good_arcs(3) [OF assms(1)] by blast
  have "\<forall>i. \<exists>h. i \<noteq> self \<longrightarrow> firstHopFrom prev i self = Some h \<and>
       (if \<exists>d. walk E self i d then h \<noteq> [] \<and> best_hop E self i h else h = [])"
    using firstHopFrom_best [OF t(2)] good_arcs(1,2) [OF assms(1), of x self use] assms(2,3) by blast
  then show ?thesis using t(1) by (metis (no_types, lifting))
qed

lemma best_hop_not_excluded: "best_hop (arc adj x self use) self i h \<Longrightarrow> h \<noteq> x"
  by (auto simp: best_hop_def arc_def)

text \<open>The arcs that a node may use for its routes when its first hop is not \<open>x\<close>.\<close>

definition route_arcs ::
    "time \<Rightarrow> edge list \<Rightarrow> string \<Rightarrow> (string \<rightharpoonup> peer) \<Rightarrow> string \<Rightarrow> string \<Rightarrow> string \<Rightarrow> rat \<Rightarrow> bool" where
  "route_arcs now links self nbrs x = arc (adjacency links) x self (\<lambda>i. usable now (nbrs i))"

lemma computed_routes:
  assumes "good_links links" "self \<noteq> []"
  shows "\<exists>routes fallbacks. computeRoutes now links self dirIDs nbrs = Some (routes, fallbacks) \<and>
    (\<forall>i \<in> set dirIDs - {self}.
       if usable now (nbrs i) then routes i = Some i \<and> fallbacks i = None
       else case routes i of
         None \<Rightarrow> (\<nexists>d. walk (route_arcs now links self nbrs []) self i d) \<and> fallbacks i = None
       | Some h \<Rightarrow> best_hop (route_arcs now links self nbrs []) self i h \<and>
           (case fallbacks i of
              None \<Rightarrow> \<nexists>d. walk (route_arcs now links self nbrs h) self i d
            | Some f \<Rightarrow> f \<noteq> h \<and> best_hop (route_arcs now links self nbrs h) self i f))"
proof -
  let ?use = "\<lambda>i. usable now (nbrs i)"
  define E where "E = route_arcs now links self nbrs"
  have "\<forall>x. \<exists>prev F. firstHopTable (adjacency links) x self ?use = Some prev \<and>
    (\<forall>i. i \<noteq> self \<longrightarrow> firstHopFrom prev i self = Some (F i) \<and>
       (if \<exists>d. walk (E x) self i d then F i \<noteq> [] \<and> best_hop (E x) self i (F i) else F i = []))"
    using table_hops [OF assms(1,2)] by (simp add: E_def route_arcs_def)
  then obtain T F where T: "\<And>x. firstHopTable (adjacency links) x self ?use = Some (T x)"
    and F: "\<And>x i. i \<noteq> self \<Longrightarrow> firstHopFrom (T x) i self = Some (F x i)"
    and best: "\<And>x i. i \<noteq> self \<Longrightarrow> (if \<exists>d. walk (E x) self i d then F x i \<noteq> [] \<and> best_hop (E x) self i (F x i) else F x i = [])"
    by metis
  obtain routes bp where r: "collect_routes (T []) self ?use dirIDs Map.empty [] = Some (routes, bp)"
    "\<forall>i \<in> set dirIDs - {self}. routes i = (if ?use i then Some i else if F [] i \<noteq> [] then Some (F [] i) else None)"
    "grouped bp = {(F [] i, i) |i. i \<in> set dirIDs - {self} \<and> \<not> ?use i \<and> F [] i \<noteq> []}"
    using collect_routes_spec [of dirIDs self "T []" "F []" ?use Map.empty "[]"] F by auto
  obtain fb where fb: "fallback_tables (adjacency links) self ?use bp Map.empty = Some fb"
    "\<forall>i. i \<notin> Range (grouped bp) \<longrightarrow> fb i = None"
    "\<forall>(h, i) \<in> grouped bp. fb i = (if F h i \<noteq> [] \<and> F h i \<noteq> h then Some (F h i) else None)"
    using fallback_tables_spec [of bp T self F "adjacency links" ?use Map.empty] F T r(3)
    by (auto simp: single_valued_def)
  have "if ?use i then routes i = Some i \<and> fb i = None
       else case routes i of
         None \<Rightarrow> (\<nexists>d. walk (E []) self i d) \<and> fb i = None
       | Some h \<Rightarrow> best_hop (E []) self i h \<and>
           (case fb i of None \<Rightarrow> \<nexists>d. walk (E h) self i d | Some f \<Rightarrow> f \<noteq> h \<and> best_hop (E h) self i f)"
    if i: "i \<in> set dirIDs - {self}" for i
  proof (cases "?use i \<or> F [] i = []")
    case True
    then have "i \<notin> Range (grouped bp)" using r(3) by auto
    then show ?thesis using True i r(2) fb(2) best [of i "[]"] by (auto split: if_splits)
  next
    case False
    then have g: "(F [] i, i) \<in> grouped bp" using i r(3) by auto
    let ?h = "F [] i"
    have "fb i = (if F ?h i \<noteq> [] \<and> F ?h i \<noteq> ?h then Some (F ?h i) else None)" using fb(3) g by auto
    moreover have "routes i = Some ?h" using False r(2) i by simp
    moreover have "best_hop (E []) self i ?h" using best [of i "[]"] False i by (auto split: if_splits)
    moreover have "F ?h i \<noteq> ?h" if "F ?h i \<noteq> []"
    proof -
      have "best_hop (E ?h) self i (F ?h i)" using best [of i ?h] i that by (auto split: if_splits)
      then show ?thesis unfolding E_def route_arcs_def by (rule best_hop_not_excluded)
    qed
    ultimately show ?thesis using False i best [of i ?h] by (auto split: if_splits)
  qed
  moreover have "computeRoutes now links self dirIDs nbrs = Some (routes, fb)"
    using T r(1) fb(1) by (simp add: computeRoutes_def Let_def)
  ultimately show ?thesis unfolding E_def by blast
qed

text \<open>C2: the routes of a node.  For links with positive costs and named ends the computation always returns.  A
  destination heard from directly is its own route; any other destination gets the first hop of a
  cheapest walk that starts over a usable neighbour, and none exactly when there is no such walk.  Its
  fallback is the first hop of a cheapest walk that starts over another usable neighbour, and there is
  none exactly when there is no such walk.\<close>

theorem routes_shortest:
  assumes "good_links links" "self \<noteq> []"
  shows "\<exists>routes fallbacks. computeRoutes now links self dirIDs nbrs = Some (routes, fallbacks) \<and>
    (\<forall>i \<in> set dirIDs - {self}.
       if usable now (nbrs i) then routes i = Some i \<and> fallbacks i = None
       else case routes i of
         None \<Rightarrow> (\<nexists>d. walk (route_arcs now links self nbrs []) self i d) \<and> fallbacks i = None
       | Some h \<Rightarrow> best_hop (route_arcs now links self nbrs []) self i h \<and>
           (case fallbacks i of
              None \<Rightarrow> \<nexists>d. walk (route_arcs now links self nbrs h) self i d
            | Some f \<Rightarrow> f \<noteq> h \<and> best_hop (route_arcs now links self nbrs h) self i f))"
  using computed_routes [OF assms] .

lemma primary_route:
  assumes "good_links links" "self \<noteq> []" "i \<in> set dirIDs" "i \<noteq> self"
  obtains r fb where "computeRoutes now links self dirIDs nbrs = Some (r, fb)"
    "if usable now (nbrs i) then r i = Some i
     else case r i of None \<Rightarrow> \<nexists>d. walk (route_arcs now links self nbrs []) self i d
       | Some h \<Rightarrow> best_hop (route_arcs now links self nbrs []) self i h"
proof -
  obtain r fb where r: "computeRoutes now links self dirIDs nbrs = Some (r, fb)"
    "if usable now (nbrs i) then r i = Some i \<and> fb i = None
       else case r i of
         None \<Rightarrow> (\<nexists>d. walk (route_arcs now links self nbrs []) self i d) \<and> fb i = None
       | Some h \<Rightarrow> best_hop (route_arcs now links self nbrs []) self i h \<and>
           (case fb i of
              None \<Rightarrow> \<nexists>d. walk (route_arcs now links self nbrs h) self i d
            | Some f \<Rightarrow> f \<noteq> h \<and> best_hop (route_arcs now links self nbrs h) self i f)"
    using computed_routes [OF assms(1,2), of now dirIDs nbrs] assms(3,4) by blast
  then show ?thesis by (intro that [OF r(1)]) (auto split: if_splits option.split_asm option.split)
qed

section \<open>Forwarding across the mesh\<close>

text \<open>One forwarding step of a packet for \<open>dst\<close>: every node decides with the tables it computes itself from
  the links that the coordinator distributes.\<close>

definition forwards ::
    "time \<Rightarrow> edge list \<Rightarrow> (string \<Rightarrow> string list) \<Rightarrow> (string \<Rightarrow> string \<rightharpoonup> peer) \<Rightarrow> string \<Rightarrow> string \<Rightarrow> string \<Rightarrow> bool" where
  "forwards now links dirs nbrs dst u v =
     (u \<noteq> dst \<and> (\<exists>r fb. computeRoutes now links u (dirs u) (nbrs u) = Some (r, fb) \<and> r dst = Some v))"

definition linked :: "edge list \<Rightarrow> string \<Rightarrow> string \<Rightarrow> rat \<Rightarrow> bool" where
  "linked links u v c = ((v, c) \<in> set (adjacency links u))"

lemma route_arcs_all_up:
  assumes "good_links links" "\<forall>v c. linked links self v c \<longrightarrow> usable now (nbrs v)"
  shows "route_arcs now links self nbrs [] = linked links"
  using assms by (auto simp: fun_eq_iff route_arcs_def arc_def linked_def good_links_def adjacency_iff)

lemma shortest_tail:
  assumes "E u h c" "walk E h v e" "shortest E u v (c + e)"
  shows "shortest E h v e"
  unfolding shortest_def
proof (intro conjI allI impI)
  fix e' assume "walk E h v e'"
  moreover have "walk E u h c" using walk_step [of E u u 0 h c] walk_here [of E u] assms(1) by simp
  ultimately have "walk E u v (c + e')" using walk_join by blast
  then show "e \<le> e'" using assms(3) unfolding shortest_def by fastforce
qed (rule assms(2))

lemma walk_start: "walk E u v d \<Longrightarrow> u \<noteq> v \<Longrightarrow> \<exists>w c. E u w c"
  by (induction rule: walk.induct) auto

lemma linked_named: "good_links links \<Longrightarrow> linked links u v c \<Longrightarrow> u \<noteq> [] \<and> 0 < c"
  by (auto simp: good_links_def linked_def adjacency_iff)

lemma shortest_exists:
  assumes "good_links links" "walk (linked links) u v d"
  shows "\<exists>d. shortest (linked links) u v d"
proof -
  let ?E = "arc (adjacency links) [] u (\<lambda>_. True)"
  have E: "?E = linked links"
    using assms(1) by (auto simp: fun_eq_iff arc_def linked_def good_links_def adjacency_iff)
  obtain cst prev where "route_tree ?E u cst prev"
    using firstHopTable_tree [OF refl good_arcs(3) [OF assms(1)], of "[]" u "\<lambda>_. True"] by blast
  then show ?thesis using route_treeD(1,5) assms(2) unfolding E by (metis not_None_eq)
qed

text \<open>C5: packets follow the routes to their destination.  When all nodes hold the same links, every link is usable at
  both of its ends and every directory lists the destination, then the next hops that the nodes choose
  independently lead from any node that has a walk to the destination to it: no forwarding loop arises.\<close>

theorem forwarding_reaches:
  assumes "good_links links" "\<forall>u v c. linked links u v c \<longrightarrow> usable now (nbrs u v)"
    and "\<forall>u. dst \<in> set (dirs u)" "walk (linked links) src dst d"
  shows "(forwards now links dirs nbrs dst)\<^sup>*\<^sup>* src dst"
proof -
  let ?A = "linked links" and ?F = "forwards now links dirs nbrs dst"
  have fin: "finite {w. \<exists>e. e < d \<and> shortest ?A w dst e}" for d
  proof (rule finite_subset)
    show "{w. \<exists>e. e < d \<and> shortest ?A w dst e} \<subseteq> insert dst (ends links)"
      using walk_start [of ?A _ dst] by (fastforce simp: shortest_def linked_def adjacency_iff ends_def)
  qed (simp add: finite_ends)
  have "?F\<^sup>*\<^sup>* u dst" if "shortest ?A u dst d" for u d
    using that
  proof (induction "card {w. \<exists>e. e < d \<and> shortest ?A w dst e}" arbitrary: u d rule: less_induct)
    case less
    show ?case
    proof (cases "u = dst")
      case False
      have wk: "walk ?A u dst d" using less.prems by (simp add: shortest_def)
      have u: "u \<noteq> []" using walk_start [OF wk False] linked_named [OF assms(1)] by blast
      have A: "route_arcs now links u (nbrs u) [] = ?A" using route_arcs_all_up assms(1,2) by blast
      obtain r fb where r: "computeRoutes now links u (dirs u) (nbrs u) = Some (r, fb)"
        and dst: "if usable now (nbrs u dst) then r dst = Some dst
          else case r dst of None \<Rightarrow> \<nexists>d. walk ?A u dst d | Some h \<Rightarrow> best_hop ?A u dst h"
        using primary_route [OF assms(1) u, of dst "dirs u" now "nbrs u"] assms(3) False unfolding A by metis
      then obtain h where h: "r dst = Some h" "h = dst \<or> best_hop ?A u dst h"
        using wk by (auto split: if_splits option.splits)
      have step: "?F u h" using r h(1) False unfolding forwards_def by blast
      show ?thesis
      proof (cases "h = dst")
        case True
        then show ?thesis using step by blast
      next
        case False
        then obtain c e where e: "?A u h c" "walk ?A h dst e" "shortest ?A u dst (c + e)"
          using h(2) unfolding best_hop_def by blast
        have sh: "shortest ?A h dst e" using shortest_tail [of ?A u h c dst e] e by blast
        have "d = c + e" using e(3) less.prems unfolding shortest_def by (meson order_antisym)
        then have "e < d" using linked_named [OF assms(1) e(1)] by simp
        then have "h \<in> {w. \<exists>e. e < d \<and> shortest ?A w dst e}"
          "{w. \<exists>e'. e' < e \<and> shortest ?A w dst e'} \<subseteq> {w. \<exists>e. e < d \<and> shortest ?A w dst e}"
          using sh by (auto intro: less_trans)
        moreover have "h \<notin> {w. \<exists>e'. e' < e \<and> shortest ?A w dst e'}" using sh unfolding shortest_def by auto
        ultimately have "{w. \<exists>e'. e' < e \<and> shortest ?A w dst e'} \<subset> {w. \<exists>e. e < d \<and> shortest ?A w dst e}" by blast
        then have "?F\<^sup>*\<^sup>* h dst" using less.hyps [of e h] sh fin psubset_card_mono by blast
        then show ?thesis using step by (meson converse_rtranclp_into_rtranclp)
      qed
    qed simp
  qed
  then show ?thesis using shortest_exists [OF assms(1,4)] by blast
qed

definition heard :: "string \<Rightarrow> peer" where
  "heard i = \<lparr>ID = i, Public = [], NAT = ''cone'', Role = ''superpeer'', Endpoint = [], Capacity = 1, MeshIP = [], Name = [],
     Routes = [], LANAddrs = [], last_target = NoAddr, lastRX = 1000, lastLAN = None, lastLANRX = 0, lastPathLAN = False,
     lastLANProbe = 0, compactHelloUntil = 0, discovered = 0, up = True, rttMS = 10, lossEMA = 0\<rparr>"

definition sample_links :: "edge list" where
  "sample_links = [\<lparr>edge_A = ''a'', edge_B = ''b'', edge_Cost = 1\<rparr>, \<lparr>edge_A = ''b'', edge_B = ''d'', edge_Cost = 1\<rparr>,
     \<lparr>edge_A = ''c'', edge_B = ''a'', edge_Cost = 2\<rparr>, \<lparr>edge_A = ''c'', edge_B = ''d'', edge_Cost = 1\<rparr>]"

definition sample_nbrs :: "string \<rightharpoonup> peer" where
  "sample_nbrs = [''b'' \<mapsto> heard ''b'', ''c'' \<mapsto> heard ''c'']"

lemma sample_routes:
  "map_option (\<lambda>(r, f). (r ''d'', f ''d'', r ''b'')) (computeRoutes 2000 sample_links ''a'' [''a'', ''b'', ''d''] sample_nbrs)
     = Some (Some ''b'', Some ''c'', Some ''b'')"
  by code_simp

lemma sample_good: "good_links sample_links"
  by (simp add: good_links_def sample_links_def)

theorem routes_shortest_witness:
  "\<exists>routes fallbacks. computeRoutes 2000 sample_links ''a'' [''a'', ''b'', ''d''] sample_nbrs = Some (routes, fallbacks)
   \<and> best_hop (route_arcs 2000 sample_links ''a'' sample_nbrs []) ''a'' ''d'' ''b''
   \<and> best_hop (route_arcs 2000 sample_links ''a'' sample_nbrs ''b'') ''a'' ''d'' ''c''"
proof -
  obtain r f where rf: "computeRoutes 2000 sample_links ''a'' [''a'', ''b'', ''d''] sample_nbrs = Some (r, f)"
    "r ''d'' = Some ''b''" "f ''d'' = Some ''c''"
    using sample_routes by auto
  have "\<not> usable 2000 (sample_nbrs ''d'')" by (simp add: usable_def sample_nbrs_def)
  then show ?thesis
    using routes_shortest [OF sample_good, of "''a''" 2000 "[''a'', ''b'', ''d'']" sample_nbrs] rf by auto
qed

definition sample_tables :: "string \<Rightarrow> string \<rightharpoonup> peer" where
  "sample_tables u i = (if i \<in> fst ` set (adjacency sample_links u) then Some (heard i) else None)"

theorem forwarding_reaches_witness:
  "(forwards 2000 sample_links (\<lambda>_. [''d'']) sample_tables ''d'')\<^sup>*\<^sup>* ''a'' ''d''"
proof (rule forwarding_reaches [OF sample_good])
  show "\<forall>u v c. linked sample_links u v c \<longrightarrow> usable 2000 (sample_tables u v)"
    by (force simp: linked_def sample_tables_def usable_def heard_def)
  have ab: "linked sample_links ''a'' ''b'' 1" and bd: "linked sample_links ''b'' ''d'' 1"
    by (simp_all add: linked_def adjacency_def sample_links_def)
  show "walk (linked sample_links) ''a'' ''d'' (0 + 1 + 1)"
    by (rule walk_step [where E = "linked sample_links", OF walk_step [where E = "linked sample_links", OF walk_here ab] bd])
qed simp

section \<open>Choosing the next hop\<close>

record routing =
  self_id :: string
  links_view :: "edge list"
  directory :: "string list"
  rt_neighbors :: "(string \<times> peer) list"
  routes :: "string \<rightharpoonup> string"
  altRoutes :: "string \<rightharpoonup> string"
  routeRecompute :: time

definition refresh_routes :: "time \<Rightarrow> routing \<Rightarrow> routing option" where
  "refresh_routes now n =
     map_option (\<lambda>(r, fb). n\<lparr>routes := r, altRoutes := fb\<rparr>)
       (computeRoutes now (links_view n) (self_id n) (directory n) (map_of (rt_neighbors n)))"

definition live_hop :: "time \<Rightarrow> (string \<rightharpoonup> string) \<Rightarrow> string \<Rightarrow> routing \<Rightarrow> (string \<times> peer) option" where
  "live_hop now table destination n =
     (let hop = go_get table [] destination in
      case map_of (rt_neighbors n) hop of
        None \<Rightarrow> None
      | Some p \<Rightarrow> if usable now (Some p) then Some (hop, p) else None)"

text \<open>\<^verbatim>\<open>nextHop\<close>: the cached hop while its peer is usable, else at most one recomputation in 250 ms.  The
  compare-and-swap on \<^verbatim>\<open>routeRecompute\<close> succeeds here, one caller at a time; \<open>None\<close> stands for the empty answer.\<close>

definition nextHop :: "time \<Rightarrow> string \<Rightarrow> routing \<Rightarrow> ((string \<times> peer) option \<times> routing) option" where
  "nextHop now destination n =
     (case live_hop now (routes n) destination n of
        Some h \<Rightarrow> Some (Some h, n)
      | None \<Rightarrow>
          if now - routeRecompute n < 250 then Some (None, n)
          else map_option (\<lambda>n2. (live_hop now (routes n2) destination n2, n2))
                 (refresh_routes now (n\<lparr>routeRecompute := now\<rparr>)))"

definition fallbackHop :: "string \<Rightarrow> routing \<Rightarrow> string \<times> peer option" where
  "fallbackHop destination n = (let hop = go_get (altRoutes n) [] destination in (hop, map_of (rt_neighbors n) hop))"

text \<open>The choice of the peer in \<^verbatim>\<open>send\<close> and \<^verbatim>\<open>sendIP\<close>: the next hop, else the fallback, if it is usable.\<close>

definition send_hop :: "time \<Rightarrow> string \<Rightarrow> routing \<Rightarrow> ((string \<times> peer) option \<times> routing) option" where
  "send_hop now destination n =
     map_option (\<lambda>(h, n'). (case h of Some hp \<Rightarrow> Some hp | None \<Rightarrow> live_hop now (altRoutes n') destination n', n'))
       (nextHop now destination n)"

text \<open>One tick of \<^verbatim>\<open>linkHealth\<close>: the up flags, new tables after a change, and the dead edges that
  \<^verbatim>\<open>retryDeadEdge\<close> is then called for.\<close>

definition linkHealth :: "time \<Rightarrow> routing \<Rightarrow> (peer list \<times> routing) option" where
  "linkHealth now n =
     (let live = (\<lambda>p. usable now (Some p));
          stateChanged = list_ex (\<lambda>(i, p). up p \<noteq> live p) (rt_neighbors n);
          nbrs = map (\<lambda>(i, p). (i, p\<lparr>up := live p\<rparr>)) (rt_neighbors n);
          dead = filter (\<lambda>p. \<not> live p) (map snd nbrs);
          n1 = n\<lparr>rt_neighbors := nbrs\<rparr>
      in if stateChanged then map_option (Pair dead) (refresh_routes now n1) else Some (dead, n1))"

lemma live_hop_Some:
  "live_hop now table dst n = Some (h, p) \<longleftrightarrow>
     h = go_get table [] dst \<and> map_of (rt_neighbors n) h = Some p \<and> usable now (Some p)"
  by (auto simp: live_hop_def Let_def split: option.splits)

lemma refresh_frame:
  assumes "refresh_routes now n = Some n'"
  shows "rt_neighbors n' = rt_neighbors n" "self_id n' = self_id n" "links_view n' = links_view n"
    "directory n' = directory n"
  using assms by (auto simp: refresh_routes_def)

text \<open>Whatever hop is chosen is a neighbour that was heard from within the link timeout.\<close>

lemma send_hop_usable:
  assumes "send_hop now dst n = Some (Some (h, p), n')"
  shows "map_of (rt_neighbors n) h = Some p \<and> usable now (Some p)"
proof -
  obtain r where r: "nextHop now dst n = Some (r, n')"
    "(case r of Some hp \<Rightarrow> Some hp | None \<Rightarrow> live_hop now (altRoutes n') dst n') = Some (h, p)"
    using assms by (auto simp: send_hop_def)
  have nb: "rt_neighbors n' = rt_neighbors n"
    using r(1) by (auto simp: nextHop_def dest!: refresh_frame(1) split: option.splits if_splits)
  show ?thesis
  proof (cases r)
    case None
    then show ?thesis using r(2) nb by (auto simp: live_hop_Some)
  next
    case (Some hp)
    then have "nextHop now dst n = Some (Some (h, p), n')" using r by simp
    then show ?thesis
      by (auto simp: nextHop_def live_hop_Some dest!: refresh_frame(1) split: option.splits if_splits)
  qed
qed

lemma best_hop_usable:
  "best_hop (route_arcs now links self nbrs x) self i h \<Longrightarrow> usable now (nbrs h)"
  by (auto simp: best_hop_def route_arcs_def arc_def)

text \<open>Failover.  When a destination of the directory can be reached over some usable neighbour and the last
  recomputation is at least 250 ms old, a node that sends to it always finds a hop, and the hop is a
  neighbour that it has heard from within the link timeout, whatever its tables held before.\<close>

lemma failover_finds_route:
  assumes good: "good_links (links_view n)" and self: "self_id n \<noteq> []"
    and dst: "dst \<in> set (directory n)" "dst \<noteq> self_id n"
    and reach: "walk (route_arcs now (links_view n) (self_id n) (map_of (rt_neighbors n)) []) (self_id n) dst d"
    and rate: "250 \<le> now - routeRecompute n"
  shows "\<exists>h p n'. send_hop now dst n = Some (Some (h, p), n') \<and> map_of (rt_neighbors n) h = Some p
    \<and> usable now (Some p)"
proof -
  let ?nb = "map_of (rt_neighbors n)"
  obtain r fb where r: "computeRoutes now (links_view n) (self_id n) (directory n) ?nb = Some (r, fb)"
    and hop: "if usable now (?nb dst) then r dst = Some dst
      else case r dst of None \<Rightarrow> \<nexists>d. walk (route_arcs now (links_view n) (self_id n) ?nb []) (self_id n) dst d
        | Some h \<Rightarrow> best_hop (route_arcs now (links_view n) (self_id n) ?nb []) (self_id n) dst h"
    using primary_route [OF good self dst] .
  then obtain h where h: "r dst = Some h" "usable now (?nb h)"
  proof (cases "usable now (?nb dst)")
    case True
    then show ?thesis using hop that by simp
  next
    case False
    then obtain h where "r dst = Some h" "best_hop (route_arcs now (links_view n) (self_id n) ?nb []) (self_id n) dst h"
      using hop reach by (cases "r dst") auto
    then show ?thesis using that best_hop_usable by blast
  qed
  then obtain p where p: "?nb h = Some p" by (cases "?nb h") (auto simp: usable_def)
  have "\<exists>hp n'. nextHop now dst n = Some (Some hp, n')"
  proof (cases "live_hop now (routes n) dst n")
    case None
    let ?n2 = "n\<lparr>routeRecompute := now, routes := r, altRoutes := fb\<rparr>"
    have "live_hop now r dst ?n2 = Some (h, p)" using h p by (simp add: live_hop_Some go_get_def)
    then show ?thesis using None r rate by (simp add: nextHop_def refresh_routes_def)
  qed (simp add: nextHop_def)
  then obtain hp n' where "send_hop now dst n = Some (Some hp, n')" by (force simp: send_hop_def)
  then show ?thesis using send_hop_usable by (metis surj_pair)
qed

definition sample_routing :: routing where
  "sample_routing = \<lparr>self_id = ''a'', links_view = sample_links, directory = [''b'', ''c'', ''d''],
     rt_neighbors = [(''c'', heard ''c'')], routes = [''d'' \<mapsto> ''b''], altRoutes = Map.empty, routeRecompute = 0\<rparr>"

lemma failover_finds_route_witness:
  "\<exists>h p n'. send_hop 2000 ''d'' sample_routing = Some (Some (h, p), n')
   \<and> map_of (rt_neighbors sample_routing) h = Some p \<and> usable 2000 (Some p)"
proof (rule failover_finds_route)
  let ?E = "route_arcs 2000 (links_view sample_routing) (self_id sample_routing) (map_of (rt_neighbors sample_routing)) []"
  have 1: "?E ''a'' ''c'' 2" and 2: "?E ''c'' ''d'' 1"
    by (simp_all add: route_arcs_def arc_def sample_routing_def sample_links_def adjacency_def usable_def heard_def)
  show "walk ?E (self_id sample_routing) ''d'' (0 + 2 + 1)"
    using walk_step [where E = ?E, OF walk_step [where E = ?E, OF walk_here 1] 2] by (simp add: sample_routing_def)
qed (simp_all add: sample_routing_def sample_good)

end
