(* ===== verification/Bootstrap.thy ===== *)
theory Bootstrap
  imports Policies Mesh_Routes
begin

text \<open>
  The view that the coordinator hands to a node (\<^verbatim>\<open>server/nodes.go\<close>: \<^verbatim>\<open>bootstrap\<close>, \<^verbatim>\<open>server/topology.go\<close>,
  \<^verbatim>\<open>server/bootstrap_conditional.go\<close>): the directory with names, routes and LAN objects, the links and
  neighbours, services, forwards and the firewall, with the version that lets a node keep what it has.  Two nodes
  with one credential see one network, and the directory holds the nodes of the credential's account.
\<close>

section \<open>The directory\<close>

text \<open>A row of the directory: the registered node with its name, its routes and the LAN objects behind it.\<close>

record dns_view =
  dv_name :: string
  dv_ip :: string
  dv_virtual :: string

record entry =
  row :: node
  entry_name :: string
  entry_routes :: "routeAdvertisement list"
  entry_dns :: "dns_view list"

definition enrich :: "server \<Rightarrow> node \<Rightarrow> entry" where
  "enrich s n =
     \<lparr>row = n,
      entry_name = (case net_row (node_id n) s of None \<Rightarrow> [] | Some x \<Rightarrow> net_name x),
      entry_routes = stored_routes (node_id n) s,
      entry_dns = map (\<lambda>d. \<lparr>dv_name = dns_name d, dv_ip = dns_lan_ip d,
            dv_virtual = translatedIP (dns_lan_ip d) (stored_routes (node_id n) s) True\<rparr>)
          (filter (\<lambda>d. dns_node d = node_id n) (sort_key dns_name (dns_records s)))\<rparr>"

definition enrichNodes :: "server \<Rightarrow> node list \<Rightarrow> entry list" where
  "enrichNodes s ns = map (enrich s) ns"

definition visible_nodes :: "int \<Rightarrow> int option \<Rightarrow> server \<Rightarrow> node list" where
  "visible_nodes now owner s = sort_key node_id (online_nodes now owner s)"

definition link_neighbors :: "string \<Rightarrow> link list \<Rightarrow> string set" where
  "link_neighbors i ls = {link_b l |l. l \<in> set ls \<and> link_a l = i} \<union> {link_a l |l. l \<in> set ls \<and> link_b l = i}"

definition visible_services :: "int option \<Rightarrow> server \<Rightarrow> (string \<times> string) list" where
  "visible_services owner s =
     sort_key (\<lambda>x. x) (map (\<lambda>x. (svc_node x, svc_name x))
       (filter (\<lambda>x. case registeredNode (svc_node x) s of None \<Rightarrow> False
          | Some n \<Rightarrow> owner = None \<or> owner_id n = owner) (services s)))"

definition forwards_of :: "string \<Rightarrow> server \<Rightarrow> portForward list" where
  "forwards_of i s = sort_key pf_id (filter (\<lambda>f. pf_source f = i \<or> pf_target f = i) (port_forwards s))"

section \<open>The view of one node\<close>

record snapshot =
  sn_version :: string
  sn_self :: entry
  sn_neighbors :: "entry list"
  sn_directory :: "entry list"
  sn_links :: "link list"
  sn_dns_upstream :: string
  sn_services :: "(string \<times> string) list"
  sn_forwards :: "portForward list"
  sn_firewall :: firewallConfig

text \<open>JSON texts enter only the version: \<open>encoders\<close> holds the encodings of what is hashed.\<close>

record encoders =
  json_graph :: "entry list \<times> link list \<Rightarrow> string"
  json_forwards :: "portForward list \<Rightarrow> string"
  json_services :: "(string \<times> string) list \<Rightarrow> string"
  json_firewall :: "firewallConfig \<Rightarrow> string"

definition sum_hex :: "(string \<Rightarrow> bytes) \<Rightarrow> nat \<Rightarrow> string \<Rightarrow> string" where
  "sum_hex sha k text = take k (hex_encode (sha text))"

text \<open>Lease times and uptime are cleared before hashing.\<close>

definition bootstrapTopologyVersion :: "encoders \<Rightarrow> (string \<Rightarrow> bytes) \<Rightarrow> entry list \<Rightarrow> link list \<Rightarrow> string" where
  "bootstrapTopologyVersion enc sha es ls =
     sum_hex sha 16 (json_graph enc (map (\<lambda>e. e\<lparr>row := (row e)\<lparr>last_seen := 0\<rparr>\<rparr>) es, ls))"

definition snapshot_version :: "encoders \<Rightarrow> (string \<Rightarrow> bytes) \<Rightarrow> snapshot \<Rightarrow> string" where
  "snapshot_version enc sha t =
     bootstrapTopologyVersion enc sha (sn_directory t) (sn_links t)
     @ ''-dns'' @ sum_hex sha 12 (sn_dns_upstream t)
     @ ''-f'' @ sum_hex sha 12 (json_forwards enc (sn_forwards t))
     @ ''-s'' @ sum_hex sha 12 (json_services enc (sn_services t))
     @ ''-fw'' @ sum_hex sha 12 (json_firewall enc (sn_firewall t))"

datatype bootstrap_answer = Unchanged string | Full snapshot

text \<open>The condition of the request: no body, or a body that decodes to a version or not.\<close>

definition bootstrapUnchanged :: "string option option \<Rightarrow> string \<Rightarrow> bootstrap_answer reply option" where
  "bootstrapUnchanged body version =
     (case body of
        None \<Rightarrow> None
      | Some None \<Rightarrow> Some (Inl (400, ''invalid bootstrap condition''))
      | Some (Some v) \<Rightarrow> if v = [] \<or> v \<noteq> version then None else Some (Inr (Unchanged version)))"

definition make_snapshot ::
    "encoders \<Rightarrow> (string \<Rightarrow> bytes) \<Rightarrow> int option \<Rightarrow> string \<Rightarrow> entry list \<Rightarrow> entry \<Rightarrow> link list \<Rightarrow> server \<Rightarrow> snapshot" where
  "make_snapshot enc sha owner i es self ls s =
     (let t = \<lparr>sn_version = [], sn_self = self,
            sn_neighbors = filter (\<lambda>e. node_id (row e) \<in> link_neighbors i ls) es,
            sn_directory = es, sn_links = ls, sn_dns_upstream = DNSUpstream (config s),
            sn_services = visible_services owner s, sn_forwards = forwards_of i s, sn_firewall = loadFirewall i s\<rparr>
      in t\<lparr>sn_version := snapshot_version enc sha t\<rparr>)"

text \<open>\<open>None\<close> is a call that never returns, \<open>Inl\<close> a panic, both inside the computation of the links.\<close>

definition bootstrap ::
    "encoders \<Rightarrow> (string \<Rightarrow> string) \<Rightarrow> (string \<Rightarrow> bytes) \<Rightarrow> int \<Rightarrow> request \<Rightarrow> string \<Rightarrow> string option option \<Rightarrow>
     server \<Rightarrow> ((string + bootstrap_answer reply) \<times> server) option" where
  "bootstrap enc dg sha t r i body s0 =
     (case auth dg t r s0 of
        (Inl e, s) \<Rightarrow> Some (Inr (Inl e), s)
      | (Inr _, s1) \<Rightarrow>
        (case accountIDForRequest dg (unix t) r s1 of (owner, s) \<Rightarrow>
          (let es = enrichNodes s (visible_nodes (unix t) owner s) in
           case find (\<lambda>e. node_id (row e) = i) (rev es) of
             None \<Rightarrow> Some (Inr (Inl (404, ''unknown node'')), s)
           | Some self \<Rightarrow>
             (case cachedTopologyLinks sha t (map row es) s of
                None \<Rightarrow> None
              | Some (Inl p, s2) \<Rightarrow> Some (Inl p, s2)
              | Some (Inr ls, s2) \<Rightarrow>
                (let sn = make_snapshot enc sha owner i es self ls s2 in
                 Some (Inr (case bootstrapUnchanged body (sn_version sn) of
                     Some answer \<Rightarrow> answer
                   | None \<Rightarrow> Inr (Full sn)), s2))))))"

section \<open>Lemmas\<close>

lemma cached_links_again:
  assumes "cachedTopologyLinks sha t ns s = Some (Inr ls, s2)"
  shows "(\<exists>c. s2 = s\<lparr>linkCache := c\<rparr>) \<and> cachedTopologyLinks sha t ns s2 = Some (Inr ls, s2)"
proof -
  let ?key = "topologyVersion sha ns @ ''#'' @ itoa (metricStamp s)"
  obtain cache where cache: "(case linkCache s of None \<Rightarrow> [] | Some c \<Rightarrow> c) = cache" by simp
  show ?thesis
  proof (cases "\<exists>e. map_of cache ?key = Some e \<and> entry_epoch e = cacheEpoch s")
    case True
    then have "s2 = s" using assms cache by (auto simp: cachedTopologyLinks_def Let_def)
    moreover have "s = s\<lparr>linkCache := linkCache s\<rparr>" by simp
    ultimately show ?thesis using assms by metis
  next
    case False
    then have "map_of cache ?key = None \<or> (\<exists>e. map_of cache ?key = Some e \<and> entry_epoch e \<noteq> cacheEpoch s)"
      by (cases "map_of cache ?key") auto
    then have s2': "s2 = s\<lparr>linkCache := Some (AList.update ?key \<lparr>entry_epoch = cacheEpoch s, entry_links = ls\<rparr> cache)\<rparr>"
      using assms cache by (auto simp: cachedTopologyLinks_def Let_def split: option.splits if_splits)
    show ?thesis unfolding s2' by (auto simp: cachedTopologyLinks_def Let_def update_conv)
  qed
qed

lemma cached_links_return: "cachedTopologyLinks sha t ns s \<noteq> None"
  using links_total [of sha t s ns] by (auto simp: cachedTopologyLinks_def Let_def split: option.splits)

text \<open>A request that carries a token and no session cookie changes nothing on its way through the checks.\<close>

lemma token_request:
  assumes "session_cookie r = None" "networkTokenValid dg r s \<or> anyNodeTokenValid dg r s"
  shows "auth dg t r s = (Inr (), s)" "accountIDForRequest dg now r s = (accountTokenUser dg r s, s)"
  using assms by (simp_all add: auth_def accountIDForRequest_def sessionUser_def)

lemma token_account_cache [simp]:
  "accountTokenUser dg r (s\<lparr>linkCache := c\<rparr>) = accountTokenUser dg r s"
  "networkTokenValid dg r (s\<lparr>linkCache := c\<rparr>) = networkTokenValid dg r s"
  "anyNodeTokenValid dg r (s\<lparr>linkCache := c\<rparr>) = anyNodeTokenValid dg r s"
  by (simp_all add: accountTokenUser_def account_of_token_def live_account_def networkTokenValid_def anyNodeTokenValid_def)

lemma directory_cache [simp]:
  "visible_nodes now owner (s\<lparr>linkCache := c\<rparr>) = visible_nodes now owner s"
  "enrichNodes (s\<lparr>linkCache := c\<rparr>) ns = enrichNodes s ns"
  by (simp_all add: visible_nodes_def online_nodes_def enrichNodes_def enrich_def net_row_def stored_routes_def)

lemma row_enrich [simp]: "map row (enrichNodes s ns) = ns" "row (enrich s n) = n"
  by (simp_all add: enrichNodes_def enrich_def comp_def)

lemma bootstrap_Full:
  assumes "bootstrap enc dg sha t r i body s = Some (Inr (Inr (Full sn)), s')"
    and "session_cookie r = None" "networkTokenValid dg r s \<or> anyNodeTokenValid dg r s"
  obtains ls self where
    "sn = make_snapshot enc sha (accountTokenUser dg r s) i (enrichNodes s (visible_nodes (unix t) (accountTokenUser dg r s) s)) self ls s'"
    "self \<in> set (enrichNodes s (visible_nodes (unix t) (accountTokenUser dg r s) s))" "node_id (row self) = i"
    "cachedTopologyLinks sha t (visible_nodes (unix t) (accountTokenUser dg r s) s) s = Some (Inr ls, s')"
proof -
  let ?es = "enrichNodes s (visible_nodes (unix t) (accountTokenUser dg r s) s)"
  note tok = token_request [OF assms(2,3)]
  obtain self where self: "find (\<lambda>e. node_id (row e) = i) (rev ?es) = Some self"
    using assms(1) by (auto simp: bootstrap_def tok Let_def split: option.splits)
  obtain ls s2 where ls: "cachedTopologyLinks sha t (map row ?es) s = Some (Inr ls, s2)"
    using assms(1) self by (auto simp: bootstrap_def tok Let_def split: option.splits sum.splits)
  let ?sn = "make_snapshot enc sha (accountTokenUser dg r s) i ?es self ls s2"
  have "bootstrap enc dg sha t r i body s =
      Some (Inr (case bootstrapUnchanged body (sn_version ?sn) of Some a \<Rightarrow> a | None \<Rightarrow> Inr (Full ?sn)), s2)"
    using self ls by (simp add: bootstrap_def tok Let_def)
  then have "s' = s2" "(case bootstrapUnchanged body (sn_version ?sn) of Some a \<Rightarrow> a | None \<Rightarrow> Inr (Full ?sn)) = Inr (Full sn)"
    using assms(1) by simp_all
  then have "sn = ?sn" by (auto simp: bootstrapUnchanged_def split: option.splits if_splits)
  then show ?thesis using that self find_SomeD [OF self] ls \<open>s' = s2\<close> by simp
qed

lemma visible_nodes_member:
  "n \<in> set (visible_nodes now owner s) \<longleftrightarrow>
     n \<in> set (nodes s) \<and> now - TTL (config s) \<le> last_seen n \<and> (owner = None \<or> owner_id n = owner)"
  by (auto simp: visible_nodes_def online_nodes_def)

lemma enriched_member: "e \<in> set (enrichNodes s ns) \<longleftrightarrow> (\<exists>n \<in> set ns. e = enrich s n)"
  by (auto simp: enrichNodes_def)

lemma link_neighbors_sym: "j \<in> link_neighbors i ls \<longleftrightarrow> i \<in> link_neighbors j ls"
  by (auto simp: link_neighbors_def)

lemma snapshot_neighbor:
  assumes "sn = make_snapshot enc sha owner i (enrichNodes s ns) self ls s'"
  shows "j \<in> (\<lambda>e. node_id (row e)) ` set (sn_neighbors sn) \<longleftrightarrow> j \<in> link_neighbors i ls \<and> j \<in> node_id ` set ns"
  using assms by (force simp: make_snapshot_def Let_def enrichNodes_def)

text \<open>Two answers with one credential, the second in the state that the first left.\<close>

lemma two_snapshots:
  assumes "session_cookie r = None" "networkTokenValid dg r s \<or> anyNodeTokenValid dg r s"
    and "bootstrap enc dg sha t r i body s = Some (Inr (Inr (Full a)), s1)"
    and "bootstrap enc dg sha t r j body' s1 = Some (Inr (Inr (Full b)), s2)"
  obtains ns owner ls self self' where
    "ns = visible_nodes (unix t) owner s"
    "a = make_snapshot enc sha owner i (enrichNodes s ns) self ls s1" "self \<in> set (enrichNodes s ns)" "node_id (row self) = i"
    "b = make_snapshot enc sha owner j (enrichNodes s ns) self' ls s2" "self' \<in> set (enrichNodes s ns)" "node_id (row self') = j"
proof -
  let ?owner = "accountTokenUser dg r s"
  let ?ns = "visible_nodes (unix t) ?owner s"
  obtain ls self where a: "a = make_snapshot enc sha ?owner i (enrichNodes s ?ns) self ls s1"
    "self \<in> set (enrichNodes s ?ns)" "node_id (row self) = i" "cachedTopologyLinks sha t ?ns s = Some (Inr ls, s1)"
    by (rule bootstrap_Full [OF assms(3,1,2)])
  obtain c where c: "s1 = s\<lparr>linkCache := c\<rparr>" and again: "cachedTopologyLinks sha t ?ns s1 = Some (Inr ls, s1)"
    using cached_links_again [OF a(4)] by blast
  have tok: "networkTokenValid dg r s1 \<or> anyNodeTokenValid dg r s1" using assms(2) by (simp add: c)
  obtain ls' self' where b: "b = make_snapshot enc sha ?owner j (enrichNodes s ?ns) self' ls' s2"
    "self' \<in> set (enrichNodes s ?ns)" "node_id (row self') = j" "cachedTopologyLinks sha t ?ns s1 = Some (Inr ls', s2)"
    by (rule bootstrap_Full [OF assms(4,1) tok]) (simp add: c)
  have "ls' = ls" using b(4) again by simp
  then show ?thesis using that a(1-3) b(1-3) by blast
qed

text \<open>C23: two nodes that ask with one credential see one network.  Their directories and links are equal, and each
  lists the other as a neighbour or neither does.\<close>

theorem views_agree:
  assumes "session_cookie r = None" "networkTokenValid dg r s \<or> anyNodeTokenValid dg r s"
    and "bootstrap enc dg sha t r i body s = Some (Inr (Inr (Full a)), s1)"
    and "bootstrap enc dg sha t r j body' s1 = Some (Inr (Inr (Full b)), s2)"
  shows "sn_directory b = sn_directory a \<and> sn_links b = sn_links a \<and>
    (j \<in> (\<lambda>e. node_id (row e)) ` set (sn_neighbors a) \<longleftrightarrow> i \<in> (\<lambda>e. node_id (row e)) ` set (sn_neighbors b))"
proof (rule two_snapshots [OF assms])
  fix ns owner ls self self'
  assume a: "a = make_snapshot enc sha owner i (enrichNodes s ns) self ls s1" "self \<in> set (enrichNodes s ns)" "node_id (row self) = i"
    and b: "b = make_snapshot enc sha owner j (enrichNodes s ns) self' ls s2" "self' \<in> set (enrichNodes s ns)" "node_id (row self') = j"
  have "i \<in> node_id ` set ns" "j \<in> node_id ` set ns" using a(2,3) b(2,3) by (auto simp: enriched_member)
  then show ?thesis using snapshot_neighbor [OF a(1), of j] snapshot_neighbor [OF b(1), of i] link_neighbors_sym
    by (auto simp: a(1) b(1) make_snapshot_def Let_def)
qed

text \<open>Whose nodes a credential shows.  The call always returns or panics in the link cache; a full answer lists
  exactly the online nodes of the account that owns the token, and the online nodes of all accounts when the
  token belongs to no account, as the token of any single node does.\<close>

lemma directory_scope:
  assumes "session_cookie r = None" "networkTokenValid dg r s \<or> anyNodeTokenValid dg r s"
  shows "\<exists>answer s'. bootstrap enc dg sha t r i body s = Some (answer, s') \<and>
    (\<forall>sn. answer = Inr (Inr (Full sn)) \<longrightarrow>
       (\<forall>n. n \<in> row ` set (sn_directory sn) \<longleftrightarrow>
          n \<in> set (nodes s) \<and> unix t - TTL (config s) \<le> last_seen n \<and>
          (accountTokenUser dg r s = None \<or> owner_id n = accountTokenUser dg r s)))"
proof -
  let ?es = "enrichNodes s (visible_nodes (unix t) (accountTokenUser dg r s) s)"
  note tok = token_request [OF assms]
  obtain x where "cachedTopologyLinks sha t (map row ?es) s = Some x" using cached_links_return by blast
  then have "bootstrap enc dg sha t r i body s \<noteq> None"
    by (auto simp: bootstrap_def tok Let_def split: option.splits sum.splits prod.splits)
  then obtain answer s' where b: "bootstrap enc dg sha t r i body s = Some (answer, s')" by auto
  moreover have "n \<in> row ` set (sn_directory sn) \<longleftrightarrow> n \<in> set (visible_nodes (unix t) (accountTokenUser dg r s) s)"
    if "answer = Inr (Inr (Full sn))" for sn n
  proof -
    have "bootstrap enc dg sha t r i body s = Some (Inr (Inr (Full sn)), s')" using b that by simp
    then obtain ls self where "sn = make_snapshot enc sha (accountTokenUser dg r s) i ?es self ls s'"
      using bootstrap_Full [OF _ assms] by metis
    then have "map row (sn_directory sn) = visible_nodes (unix t) (accountTokenUser dg r s) s"
      by (simp add: make_snapshot_def Let_def)
    then show ?thesis by (metis list.set_map)
  qed
  ultimately show ?thesis using visible_nodes_member by auto
qed

section \<open>Sample views\<close>

text \<open>Two nodes of two accounts, and the token of the first node.\<close>

definition view_row :: "string \<Rightarrow> int \<Rightarrow> ipv4 \<Rightarrow> node" where
  "view_row i acc ip = stale_node\<lparr>node_id := i, owner_id := Some acc, last_seen := 0, mesh_ip := Addr_String ip\<rparr>"

definition view_server :: server where
  "view_server = net_server\<lparr>nodes := [view_row ''n1'' 1 0x0A4D0005, view_row ''n2'' 2 0x0A4D0006],
     node_tokens := [\<lparr>nt_node = ''n1'', nt_hash = sample_digest ''t1'', nt_created = 0, nt_revoked = None\<rparr>]\<rparr>"

abbreviation view_request :: request where "view_request \<equiv> sample_request\<lparr>X_Mesh_Token := ''t1''\<rparr>"

lemma view_facts:
  "session_cookie view_request = None" "anyNodeTokenValid sample_digest view_request view_server"
  "accountTokenUser sample_digest view_request view_server = None"
  by (simp_all add: sample_request_def anyNodeTokenValid_def view_server_def net_server_def sample_server_def server.defs accounts.defs
      accountTokenUser_def account_of_token_def live_account_def sample_accounts_def sample_digest_def)

text \<open>While the link cache has room, an unconditional request of a visible node is answered in full.\<close>

lemma cached_links_room:
  assumes "cache_size s \<le> 64"
  shows "\<exists>ls s'. cachedTopologyLinks sha t ns s = Some (Inr ls, s') \<and> cache_size s' \<le> cache_size s + 1"
proof -
  obtain ls where ls: "links sha t s ns = Some ls" using links_total by blast
  have "length (AList.update k v (xs :: (string \<times> cachedLinks) list)) \<le> length xs + 1" for k v xs
    by (induction xs) auto
  then show ?thesis using assms
    by (auto simp: cachedTopologyLinks_def Let_def ls cache_size_def split: option.splits)
qed

lemma bootstrap_answers:
  assumes "session_cookie r = None" "networkTokenValid dg r s \<or> anyNodeTokenValid dg r s" "cache_size s \<le> 64"
    and "i \<in> node_id ` set (visible_nodes (unix t) (accountTokenUser dg r s) s)"
  shows "\<exists>sn s'. bootstrap enc dg sha t r i None s = Some (Inr (Inr (Full sn)), s') \<and> cache_size s' \<le> cache_size s + 1"
proof -
  let ?es = "enrichNodes s (visible_nodes (unix t) (accountTokenUser dg r s) s)"
  obtain n where n: "n \<in> set (visible_nodes (unix t) (accountTokenUser dg r s) s)" "node_id n = i" using assms(4) by blast
  then have "\<exists>e \<in> set (rev ?es). node_id (row e) = i" by (intro bexI [of _ "enrich s n"]) (auto simp: enriched_member)
  then have "find (\<lambda>e. node_id (row e) = i) (rev ?es) \<noteq> None" unfolding find_None_iff by blast
  then obtain self where "find (\<lambda>e. node_id (row e) = i) (rev ?es) = Some self" by auto
  moreover obtain ls s' where "cachedTopologyLinks sha t (map row ?es) s = Some (Inr ls, s')" "cache_size s' \<le> cache_size s + 1"
    using cached_links_room [OF assms(3)] by blast
  ultimately show ?thesis by (simp add: bootstrap_def token_request [OF assms(1,2)] Let_def bootstrapUnchanged_def)
qed

lemma view_visible: "set (visible_nodes 0 None view_server) = {view_row ''n1'' 1 0x0A4D0005, view_row ''n2'' 2 0x0A4D0006}"
  by (auto simp: visible_nodes_member view_server_def view_row_def net_server_def sample_server_def server.defs accounts.defs)

lemma view_cache: "cache_size view_server = 0"
  by (simp add: cache_size_def view_server_def net_server_def sample_server_def server.defs accounts.defs)

lemma view_answers:
  obtains a s1 b s2 where "bootstrap enc sample_digest sha 0 view_request ''n1'' None view_server = Some (Inr (Inr (Full a)), s1)"
    "bootstrap enc sample_digest sha 0 view_request ''n2'' None s1 = Some (Inr (Inr (Full b)), s2)"
proof -
  have v: "unix 0 = 0" "{''n1'', ''n2''} \<subseteq> node_id ` set (visible_nodes 0 None view_server)"
    unfolding view_visible by (auto simp: view_row_def)
  obtain a s1 where a: "bootstrap enc sample_digest sha 0 view_request ''n1'' None view_server = Some (Inr (Inr (Full a)), s1)"
    "cache_size s1 \<le> 1"
    using bootstrap_answers [OF view_facts(1), of sample_digest view_server "''n1''" 0 enc sha] view_facts view_cache v by auto
  obtain ls self where "cachedTopologyLinks sha 0 (visible_nodes (unix 0) None view_server) view_server = Some (Inr ls, s1)"
    using bootstrap_Full [OF a(1)] view_facts by metis
  then obtain c where c: "s1 = view_server\<lparr>linkCache := c\<rparr>" using cached_links_again by blast
  obtain b s2 where "bootstrap enc sample_digest sha 0 view_request ''n2'' None s1 = Some (Inr (Inr (Full b)), s2)"
    using bootstrap_answers [OF view_facts(1), of sample_digest s1 "''n2''" 0 enc sha] a(2) view_facts v by (auto simp: c)
  then show ?thesis using that a(1) by blast
qed

definition sample_encoders :: encoders where
  "sample_encoders = \<lparr>json_graph = (\<lambda>_. []), json_forwards = (\<lambda>_. []), json_services = (\<lambda>_. []), json_firewall = (\<lambda>_. [])\<rparr>"

theorem views_agree_witness:
  "\<exists>a b s1 s2. bootstrap sample_encoders sample_digest (\<lambda>_. replicate 32 0) 0 view_request ''n1'' None view_server = Some (Inr (Inr (Full a)), s1)
     \<and> bootstrap sample_encoders sample_digest (\<lambda>_. replicate 32 0) 0 view_request ''n2'' None s1 = Some (Inr (Inr (Full b)), s2)
     \<and> sn_directory b = sn_directory a"
proof (rule view_answers [of sample_encoders "\<lambda>_. replicate 32 0"])
  fix a s1 b s2
  assume ab: "bootstrap sample_encoders sample_digest (\<lambda>_. replicate 32 0) 0 view_request ''n1'' None view_server = Some (Inr (Inr (Full a)), s1)"
    "bootstrap sample_encoders sample_digest (\<lambda>_. replicate 32 0) 0 view_request ''n2'' None s1 = Some (Inr (Inr (Full b)), s2)"
  then show ?thesis using views_agree [OF view_facts(1) disjI2 [OF view_facts(2)] ab] by blast
qed

lemma directory_scope_witness:
  "\<exists>sn s'. bootstrap sample_encoders sample_digest (\<lambda>_. replicate 32 0) 0 view_request ''n1'' None view_server = Some (Inr (Inr (Full sn)), s')
     \<and> view_row ''n2'' 2 0x0A4D0006 \<in> row ` set (sn_directory sn)"
proof (rule view_answers [of sample_encoders "\<lambda>_. replicate 32 0"])
  fix a s1
  assume a: "bootstrap sample_encoders sample_digest (\<lambda>_. replicate 32 0) 0 view_request ''n1'' None view_server = Some (Inr (Inr (Full a)), s1)"
  have "view_row ''n2'' 2 0x0A4D0006 \<in> set (visible_nodes 0 None view_server)" by (simp add: view_visible)
  then show ?thesis using directory_scope [OF view_facts(1) disjI2 [OF view_facts(2)], of sample_encoders "\<lambda>_. replicate 32 0" 0 "''n1''" None] a
    by (simp add: view_facts visible_nodes_member)
qed

end
