(* ===== verification/Topology_View.thy ===== *)
theory Topology_View
  imports Packet_Path Mesh_Routes Server_State
begin

text \<open>
  How a node takes over the coordinator's view (\<^verbatim>\<open>mesh-node/topology.go\<close>: \<^verbatim>\<open>applyTopology\<close>) and how it looks for
  LAN paths to its neighbours (\<^verbatim>\<open>mesh-node/recovery.go\<close>, \<^verbatim>\<open>mesh-node/tun_forward.go\<close>): probes to advertised
  addresses, discovery broadcasts and the candidates that wait for a topology.  A neighbour keeps its link state
  through a new topology; probing leaves the paths alone.  Name resolution is a parameter.
\<close>

section \<open>The topology and the tables built from it\<close>

text \<open>The decoded answer of the coordinator; the firewall is its mode with its ports.\<close>

record topology =
  t_unchanged :: bool
  t_version :: string
  t_self :: peer
  t_neighbors :: "peer list"
  t_directory :: "peer list"
  t_links :: "edge list"
  t_forwards :: "portForward list"
  t_upstream :: string
  t_firewall :: "(string \<times> string list) option"

text \<open>The state of a node that a topology replaces: what the packet path reads, the neighbours, the routes and the
  LAN candidates of nodes that are not neighbours yet.  \<open>lanSubnets\<close> are the subnets of physical interfaces.\<close>

record view =
  v_packet :: packet_node
  v_table :: peer_table
  v_dir :: "string \<rightharpoonup> peer"
  v_links :: "edge list"
  v_routes :: "string \<rightharpoonup> string"
  v_alt :: "string \<rightharpoonup> string"
  v_version :: string
  v_upstream :: string
  v_pending :: "string \<rightharpoonup> udp_addr"
  lanSubnets :: "prefix list"

definition hasLAN :: "view \<Rightarrow> bool" where
  "hasLAN v = (lanSubnets v \<noteq> [])"

text \<open>A route is a pair of LAN and virtual prefix.  It is dropped unless both parse, with equal lengths.\<close>

definition subnet_route :: "string \<Rightarrow> string \<times> string \<Rightarrow> subnetRoute option" where
  "subnet_route owner route =
     (case (ParsePrefix (snd route), ParsePrefix (fst route)) of
        (Some virt, Some lan) \<Rightarrow>
          if Bits virt = Bits lan then Some \<lparr>Virtual = Masked virt, LAN = Masked lan, Owner = owner\<rparr> else None
      | _ \<Rightarrow> None)"

definition peer_routes :: "peer \<Rightarrow> subnetRoute list" where
  "peer_routes p = List.map_filter (subnet_route (ID p)) (Routes p)"

type_synonym tables = "(string \<rightharpoonup> peer) \<times> (ipv4 \<rightharpoonup> string) \<times> subnetRoute list"

definition install_peer :: "peer \<Rightarrow> tables \<Rightarrow> tables" where
  "install_peer p tabs =
     (case tabs of (dir, mesh, rs) \<Rightarrow>
        (dir(ID p \<mapsto> p), (case ParseAddr (MeshIP p) of Some ip \<Rightarrow> mesh(ip \<mapsto> ID p) | None \<Rightarrow> mesh), rs @ peer_routes p))"

definition install_tables :: "topology \<Rightarrow> tables" where
  "install_tables t = install_peer (t_self t) (fold install_peer (t_directory t) (Map.empty, Map.empty, []))"

section \<open>LAN candidates\<close>

abbreviation lanProbeInterval :: int where "lanProbeInterval \<equiv> 30000"
abbreviation lanProbeMaxAddrs :: nat where "lanProbeMaxAddrs \<equiv> 4"

definition lanCandidateUsable :: "view \<Rightarrow> ipv4 \<Rightarrow> bool" where
  "lanCandidateUsable v ip =
     (if IsPrivate ip then hasLAN v else list_ex (\<lambda>subnet. prefix_Contains subnet ip) (localSubnets (v_table v)))"

text \<open>A new LAN address is a new object: a send target that was the old one keeps the old address.\<close>

definition set_lan :: "udp_addr \<Rightarrow> peer \<Rightarrow> peer" where
  "set_lan a p =
     p\<lparr>last_target := (case last_target p of
          LastLAN \<Rightarrow> (case lastLAN p of None \<Rightarrow> NoAddr | Some b \<Rightarrow> OwnAddr b) | x \<Rightarrow> x),
       lastLAN := Some a\<rparr>"

definition adopt_lan :: "udp_addr \<Rightarrow> peer \<Rightarrow> peer" where
  "adopt_lan a p = p\<lparr>lastLAN := Some a, last_target := LastLAN\<rparr>"

type_synonym hellos = "(string \<times> udp_addr) list"

text \<open>The addresses that one peer advertises, against the budget of the whole pass.\<close>

fun probe_addrs ::
    "(string \<Rightarrow> udp_addr option) \<Rightarrow> view \<Rightarrow> string list \<Rightarrow> peer \<Rightarrow> hellos \<Rightarrow> peer \<times> hellos" where
  "probe_addrs resolve v [] p probes = (p, probes)"
| "probe_addrs resolve v (raw # rest) p probes =
     (if lanProbeMaxAddrs \<le> length probes then (p, probes)
      else case resolve raw of
        None \<Rightarrow> probe_addrs resolve v rest p probes
      | Some a \<Rightarrow>
        if \<not> lanCandidateUsable v (fst a) \<or> lanCandidateBlockedIP (fst a) [self_endpoint (v_table v), Endpoint p]
        then probe_addrs resolve v rest p probes
        else probe_addrs resolve v rest (set_lan a p) (probes @ [(ID p, a)]))"

definition probe_due :: "time \<Rightarrow> peer \<Rightarrow> bool" where
  "probe_due now p = (lanProbeInterval \<le> now - lastLANProbe p \<and> \<not> freshLAN (Some p) now)"

definition probe_peer ::
    "(string \<Rightarrow> udp_addr option) \<Rightarrow> time \<Rightarrow> view \<Rightarrow> peer \<Rightarrow> hellos \<Rightarrow> peer \<times> hellos" where
  "probe_peer resolve now v p probes =
     (if LANAddrs p \<noteq> [] \<and> probe_due now p
      then probe_addrs resolve v (LANAddrs p) (p\<lparr>lastLANProbe := now\<rparr>) probes else (p, probes))"

text \<open>The periodic pass over the neighbours, in the order of the map.\<close>

fun probe_all ::
    "(string \<Rightarrow> udp_addr option) \<Rightarrow> time \<Rightarrow> view \<Rightarrow> (string \<times> peer) list \<Rightarrow> hellos \<Rightarrow> (string \<times> peer) list \<times> hellos" where
  "probe_all resolve now v [] probes = ([], probes)"
| "probe_all resolve now v ((i, p) # ps) probes =
     (let (p', probes') = probe_peer resolve now v p probes; (ps', probes'') = probe_all resolve now v ps probes'
      in ((i, p') # ps', probes''))"

definition probeLanCandidates ::
    "(string \<Rightarrow> udp_addr option) \<Rightarrow> time \<Rightarrow> view \<Rightarrow> view \<times> hellos" where
  "probeLanCandidates resolve now v =
     (if \<not> hasLAN v then (v, [])
      else let (ps, probes) = probe_all resolve now v (neighbors (v_table v)) []
           in (v\<lparr>v_table := (v_table v)\<lparr>neighbors := ps\<rparr>\<rparr>, probes))"

text \<open>A discovery packet that arrived from an address with its announced port: the candidate of a neighbour becomes
  its send target at once, the one of another node is kept for the next topology.  The HELLO goes out in any case.\<close>

definition lanDiscovered :: "string \<Rightarrow> udp_addr \<Rightarrow> view \<Rightarrow> view \<times> hellos" where
  "lanDiscovered src a v =
     ((case neighbor (v_table v) src of
         Some p \<Rightarrow>
           if lanCandidateBlockedIP (fst a) [self_endpoint (v_table v), Endpoint p] then v
           else v\<lparr>v_table := update_neighbor src (adopt_lan a) (v_table v)\<rparr>
       | None \<Rightarrow> v\<lparr>v_pending := (v_pending v)(src \<mapsto> a)\<rparr>),
      [(src, a)])"

text \<open>One datagram on the discovery port, decoded to its type, source and announced port.  The log line takes the first
  eight bytes of the source: a shorter source is a panic, \<open>None\<close>, and no goroutine recovers it.\<close>

definition discovery_packet ::
    "string \<Rightarrow> (string \<times> string \<times> int option) option \<Rightarrow> ipv4 \<Rightarrow> view \<Rightarrow> (view \<times> hellos) option" where
  "discovery_packet own packet ip v =
     (case packet of
        None \<Rightarrow> Some (v, [])
      | Some (ty, src, p) \<Rightarrow>
        if ty \<noteq> ''LAN_DISCOVERY'' \<or> src = own then Some (v, [])
        else case p of
          None \<Rightarrow> Some (v, [])
        | Some port \<Rightarrow>
          if port < 1 \<or> 65535 < port then Some (v, [])
          else if length src < 8 then None else Some (lanDiscovered src (ip, nat port) v))"

definition broadcastForPrefix :: "prefix \<Rightarrow> ipv4 option" where
  "broadcastForPrefix p =
     (if Bits p = 0 \<or> 31 \<le> Bits p then None else Some (Addr (Masked p) OR drop_bit (Bits p) (- 1)))"

fun subnetBroadcastAddrs :: "prefix list \<Rightarrow> ipv4 list \<Rightarrow> ipv4 list" where
  "subnetBroadcastAddrs [] out = out"
| "subnetBroadcastAddrs (p # ps) out =
     (case broadcastForPrefix p of
        None \<Rightarrow> subnetBroadcastAddrs ps out
      | Some ip \<Rightarrow> subnetBroadcastAddrs ps (if ip \<in> set out then out else out @ [ip]))"

section \<open>Installing a topology\<close>

text \<open>What a neighbour keeps of its previous state.\<close>

definition carry_over :: "time \<Rightarrow> peer option \<Rightarrow> peer \<Rightarrow> peer" where
  "carry_over now old p =
     (case old of
        None \<Rightarrow> p\<lparr>discovered := now\<rparr>
      | Some q \<Rightarrow>
          p\<lparr>last_target := last_target q, lastRX := lastRX q, up := up q, discovered := discovered q,
            lastLAN := lastLAN q, lastLANRX := lastLANRX q, lastPathLAN := lastPathLAN q,
            lastLANProbe := lastLANProbe q, rttMS := rttMS q, lossEMA := lossEMA q\<rparr>)"

type_synonym install_state = "(string \<times> peer) list \<times> (string \<rightharpoonup> udp_addr) \<times> hellos"

text \<open>One neighbour.  A buffered candidate at a published endpoint ends the iteration before the neighbour is
  stored.\<close>

definition install_neighbor ::
    "(string \<Rightarrow> udp_addr option) \<Rightarrow> time \<Rightarrow> view \<Rightarrow> peer \<Rightarrow> install_state \<Rightarrow> install_state" where
  "install_neighbor resolve now v q st =
     (case st of (nbrs, pending, probes) \<Rightarrow>
       (let p0 = carry_over now (neighbor (v_table v) (ID q)) q;
            (p1, probes1) = (if hasLAN v then probe_peer resolve now v p0 probes else (p0, probes))
        in case pending (ID q) of
             None \<Rightarrow> (AList.update (ID q) p1 nbrs, pending, probes1)
           | Some a \<Rightarrow>
             if lanCandidateBlockedIP (fst a) [self_endpoint (v_table v), Endpoint q]
             then (nbrs, pending(ID q := None), probes1)
             else (AList.update (ID q) (adopt_lan a p1) nbrs, pending(ID q := None), probes1 @ [(ID q, a)])))"

definition install_neighbors :: "(string \<Rightarrow> udp_addr option) \<Rightarrow> time \<Rightarrow> view \<Rightarrow> peer list \<Rightarrow> install_state" where
  "install_neighbors resolve now v ps = fold (install_neighbor resolve now v) ps ([], v_pending v, [])"

text \<open>\<^verbatim>\<open>applyTopology\<close> up to the sends: the view it leaves and the HELLOs that go to LAN candidates.  The directory is
  walked in the order of the topology.  \<open>None\<close> is a route computation that does not end.\<close>

definition applyTopology ::
    "(string \<Rightarrow> udp_addr option) \<Rightarrow> time \<Rightarrow> topology \<Rightarrow> view \<Rightarrow> (view \<times> hellos) option" where
  "applyTopology resolve now t v =
     (if t_unchanged t \<or> t_version t \<noteq> [] \<and> v_version v = t_version t then Some (v, [])
      else let (dir, mesh, rs) = install_tables t;
               (nbrs, pending, probes) = install_neighbors resolve now v (t_neighbors t);
               ids = remdups (map ID (t_directory t @ [t_self t])) in
        map_option (\<lambda>(rts, alts).
            (v\<lparr>v_packet := (v_packet v)\<lparr>subnetRoutes := rs, meshNodes := mesh,
                   firewall := parseFirewallRules (t_firewall t)\<rparr>,
               v_table := (v_table v)\<lparr>neighbors := nbrs\<rparr>, v_dir := dir, v_links := t_links t,
               v_routes := rts, v_alt := alts, v_version := t_version t, v_upstream := t_upstream t,
               v_pending := pending\<rparr>, probes))
          (computeRoutes now (t_links t) (Peers.self_id (v_table v)) ids (map_of nbrs)))"

section \<open>Recovery\<close>

text \<open>The state that \<^verbatim>\<open>recoverNetwork\<close> looks for: there are neighbours and none was heard of lately.  The zero
  instant stands for a neighbour that was never heard.\<close>

definition links_stale :: "time \<Rightarrow> peer_table \<Rightarrow> bool" where
  "links_stale now n =
     (neighbors n \<noteq> [] \<and> list_all (\<lambda>(i, p). \<not> (lastRX p \<noteq> 0 \<and> now - lastRX p < linkTimeout
        \<or> lastRX p = 0 \<and> now - discovered p < linkGrace)) (neighbors n))"

definition reset_peer :: "peer \<Rightarrow> peer" where
  "reset_peer p =
     p\<lparr>last_target := NoAddr, lastRX := 0, lastLAN := None, lastLANRX := 0, lastPathLAN := False, lastLANProbe := 0,
       up := False\<rparr>"

definition reset_neighbors :: "view \<Rightarrow> view" where
  "reset_neighbors v =
     v\<lparr>v_table := (v_table v)\<lparr>neighbors := map (\<lambda>(i, p). (i, reset_peer p)) (neighbors (v_table v))\<rparr>,
       v_pending := Map.empty\<rparr>"

section \<open>Probing leaves the path alone\<close>

text \<open>The part of a peer that decides where packets go and whether the link counts.\<close>

definition same_path :: "peer \<Rightarrow> peer \<Rightarrow> bool" where
  "same_path p q = (ID q = ID p \<and> send_target q = send_target p \<and> lastRX q = lastRX p \<and> lastLANRX q = lastLANRX p \<and> up q = up p
     \<and> Endpoint q = Endpoint p \<and> discovered q = discovered p \<and> LANAddrs q = LANAddrs p \<and> rttMS q = rttMS p \<and> lossEMA q = lossEMA p)"

lemma same_path_refl [simp]: "same_path p p"
  by (simp add: same_path_def)

lemma same_path_trans: "same_path p q \<Longrightarrow> same_path q r \<Longrightarrow> same_path p r"
  by (simp add: same_path_def)

lemma set_lan_path: "same_path p (set_lan a p)"
  by (auto simp: same_path_def set_lan_def send_target_def split: last_addr.split option.split)

lemma probe_addrs_path: "same_path p (fst (probe_addrs resolve v raws p probes))"
  by (induction resolve v raws p probes rule: probe_addrs.induct)
    (auto split: option.split intro: same_path_trans [OF set_lan_path])

lemma probe_peer_path: "same_path p (fst (probe_peer resolve now v p probes))"
proof -
  have "same_path p (p\<lparr>lastLANProbe := now\<rparr>)" by (simp add: same_path_def send_target_def split: last_addr.split)
  then show ?thesis using same_path_trans probe_addrs_path by (auto simp: probe_peer_def)
qed

lemma probe_addrs_budget:
  "length probes \<le> lanProbeMaxAddrs \<Longrightarrow> length (snd (probe_addrs resolve v raws p probes)) \<le> lanProbeMaxAddrs"
  by (induction resolve v raws p probes rule: probe_addrs.induct) (auto split: option.split)

lemma probe_addrs_full:
  "lanProbeMaxAddrs \<le> length probes \<Longrightarrow> probe_addrs resolve v raws p probes = (p, probes)"
  by (cases raws) simp_all

lemma probe_all_facts:
  assumes "length probes \<le> lanProbeMaxAddrs" "probe_all resolve now v ps probes = (ps', probes')"
  shows "length probes' \<le> lanProbeMaxAddrs \<and> list_all2 (\<lambda>(i, p) (j, q). j = i \<and> same_path p q) ps ps'"
  using assms
proof (induction resolve now v ps probes arbitrary: ps' probes' rule: probe_all.induct)
  case (2 resolve now v i p ps probes)
  obtain p1 probes1 where p: "probe_peer resolve now v p probes = (p1, probes1)" by force
  obtain ps2 probes2 where ps: "probe_all resolve now v ps probes1 = (ps2, probes2)" by force
  have "length probes1 \<le> lanProbeMaxAddrs"
    using probe_addrs_budget [OF 2(2)] 2(2) p by (auto simp: probe_peer_def split: if_splits) (metis snd_conv)
  then have "length probes2 \<le> lanProbeMaxAddrs \<and> list_all2 (\<lambda>(i, p) (j, q). j = i \<and> same_path p q) ps ps2"
    using 2(1) [OF refl] p ps by auto
  moreover have "same_path p p1" using probe_peer_path [of p resolve now v probes] p by simp
  ultimately show ?case using 2(3) p ps by auto
qed simp

lemma list_all2_map_of:
  assumes "list_all2 (\<lambda>(i, p) (j, q). j = i \<and> R p q) ps qs"
  shows "rel_option R (map_of ps i) (map_of qs i)"
  using assms by (induction ps qs rule: list_all2_induct) auto

lemma same_path_option:
  "rel_option same_path x y \<Longrightarrow> map_option send_target y = map_option send_target x \<and> usable t y = usable t x"
  by (cases x; cases y) (simp_all add: same_path_def usable_def)

text \<open>Probing for LAN paths is harmless.  A pass over the neighbours sends at most four probes in all; whatever
  the candidates are, every neighbour stays known, its packets go where they went before, and it counts as alive
  as before.\<close>

lemma probing_keeps_paths:
  assumes "probeLanCandidates resolve now v = (v', probes)"
  shows "length probes \<le> 4 \<and>
    (\<forall>i. map_option send_target (neighbor (v_table v') i) = map_option send_target (neighbor (v_table v) i) \<and>
       usable t (neighbor (v_table v') i) = usable t (neighbor (v_table v) i))"
proof (cases "hasLAN v")
  case True
  obtain ps where ps: "probe_all resolve now v (neighbors (v_table v)) [] = (ps, probes)"
    and v': "v' = v\<lparr>v_table := (v_table v)\<lparr>neighbors := ps\<rparr>\<rparr>"
    using assms True by (auto simp: probeLanCandidates_def split: prod.splits)
  have b: "length probes \<le> lanProbeMaxAddrs" "list_all2 (\<lambda>(i, p) (j, q). j = i \<and> same_path p q) (neighbors (v_table v)) ps"
    using probe_all_facts [OF _ ps] by simp_all
  have "rel_option same_path (neighbor (v_table v) i) (neighbor (v_table v') i)" for i
    using list_all2_map_of [OF b(2)] by (simp add: neighbor_def v')
  then show ?thesis using b(1) same_path_option by simp
qed (use assms in \<open>simp add: probeLanCandidates_def\<close>)

section \<open>What a topology installs\<close>

text \<open>A buffered candidate that equals a published endpoint.\<close>

definition pending_blocked :: "view \<Rightarrow> (string \<rightharpoonup> udp_addr) \<Rightarrow> peer \<Rightarrow> bool" where
  "pending_blocked v pending q =
     (case pending (ID q) of None \<Rightarrow> False
      | Some a \<Rightarrow> lanCandidateBlockedIP (fst a) [self_endpoint (v_table v), Endpoint q])"

lemma carry_over_facts:
  "ID (carry_over now old q) = ID q" "Endpoint (carry_over now old q) = Endpoint q"
  "old = Some p \<Longrightarrow> send_target (carry_over now old q) = send_target p \<and> lastRX (carry_over now old q) = lastRX p
     \<and> up (carry_over now old q) = up p \<and> discovered (carry_over now old q) = discovered p
     \<and> rttMS (carry_over now old q) = rttMS p \<and> lossEMA (carry_over now old q) = lossEMA p"
  by (auto simp: carry_over_def send_target_def split: option.split last_addr.split)

lemma install_neighbor_step:
  assumes "install_neighbor resolve now v q (nbrs, pending, probes) = (nbrs', pending', probes')"
  shows "pending' = pending(ID q := None) \<and>
    (if pending_blocked v pending q then nbrs' = nbrs
     else \<exists>p. nbrs' = AList.update (ID q) (case pending (ID q) of None \<Rightarrow> p | Some a \<Rightarrow> adopt_lan a p) nbrs
       \<and> same_path (carry_over now (neighbor (v_table v) (ID q)) q) p)"
proof -
  let ?p0 = "carry_over now (neighbor (v_table v) (ID q)) q"
  obtain p1 probes1 where p1: "(if hasLAN v then probe_peer resolve now v ?p0 probes else (?p0, probes)) = (p1, probes1)" by force
  have "same_path ?p0 p1" using p1 probe_peer_path [of ?p0 resolve now v probes] by (auto split: if_splits)
  then show ?thesis using assms p1
    by (auto simp: install_neighbor_def pending_blocked_def Let_def fun_upd_idem split: option.splits if_splits)
qed

lemma install_neighbors_spec:
  assumes "fold (install_neighbor resolve now v) qs (nbrs, pending, probes) = (nbrs', pending', probes')"
    and "distinct (map ID qs)"
  shows "(\<forall>i. i \<notin> ID ` set qs \<longrightarrow> map_of nbrs' i = map_of nbrs i) \<and>
    (\<forall>q \<in> set qs. if pending_blocked v pending q then map_of nbrs' (ID q) = map_of nbrs (ID q)
       else \<exists>p. map_of nbrs' (ID q) = Some (case pending (ID q) of None \<Rightarrow> p | Some a \<Rightarrow> adopt_lan a p)
         \<and> same_path (carry_over now (neighbor (v_table v) (ID q)) q) p)"
  using assms
proof (induction qs arbitrary: nbrs pending probes)
  case (Cons q qs)
  obtain nbrs1 pending1 probes1 where st: "install_neighbor resolve now v q (nbrs, pending, probes) = (nbrs1, pending1, probes1)"
    by (metis prod_cases3)
  note step = install_neighbor_step [OF st]
  have "fold (install_neighbor resolve now v) qs (nbrs1, pending1, probes1) = (nbrs', pending', probes')"
    using Cons.prems(1) st by simp
  note ih = Cons.IH [OF this]
  have other: "pending1 (ID q') = pending (ID q')" "pending_blocked v pending1 q' = pending_blocked v pending q'"
    "map_of nbrs1 (ID q') = map_of nbrs (ID q')" if "q' \<in> set qs" for q'
  proof -
    have "ID q' \<in> ID ` set qs" using that by (rule imageI)
    then have ne: "ID q' \<noteq> ID q" using Cons.prems(2) by auto
    then show "pending1 (ID q') = pending (ID q')" using step by simp
    then show "pending_blocked v pending1 q' = pending_blocked v pending q'" by (simp add: pending_blocked_def)
    show "map_of nbrs1 (ID q') = map_of nbrs (ID q')" using step ne by (auto simp: update_conv' split: if_splits)
  qed
  have q: "ID q \<notin> ID ` set qs" using Cons.prems(2) by simp
  have rest: "map_of nbrs' i = map_of nbrs1 i" if "i \<notin> ID ` set qs" for i using ih Cons.prems(2) that by simp
  show ?case
  proof (intro conjI allI ballI impI)
    fix i assume "i \<notin> ID ` set (q # qs)"
    then show "map_of nbrs' i = map_of nbrs i" using rest [of i] step by (auto simp: update_conv' split: if_splits)
  next
    fix q' assume q': "q' \<in> set (q # qs)"
    show "if pending_blocked v pending q' then map_of nbrs' (ID q') = map_of nbrs (ID q')
       else \<exists>p. map_of nbrs' (ID q') = Some (case pending (ID q') of None \<Rightarrow> p | Some a \<Rightarrow> adopt_lan a p)
         \<and> same_path (carry_over now (neighbor (v_table v) (ID q')) q') p"
    proof (cases "q' = q")
      case True
      then show ?thesis using rest [OF q] step by (auto simp: update_conv' split: if_splits)
    next
      case False
      then have m: "q' \<in> set qs" using q' by simp
      have "distinct (map ID qs)" using Cons.prems(2) by simp
      from bspec [OF conjunct2 [OF ih [OF this]] m] show ?thesis unfolding other [OF m] .
    qed
  qed
qed simp

lemma applyTopology_Some:
  assumes "applyTopology resolve now t v = Some (v', probes)" "\<not> t_unchanged t" "t_version t = [] \<or> v_version v \<noteq> t_version t"
  shows "install_neighbors resolve now v (t_neighbors t) = (neighbors (v_table v'), v_pending v', probes)
    \<and> install_tables t = (v_dir v', meshNodes (v_packet v'), subnetRoutes (v_packet v'))
    \<and> v_version v' = t_version t \<and> firewall (v_packet v') = parseFirewallRules (t_firewall t)
    \<and> Packet_Path.node_id (v_packet v') = Packet_Path.node_id (v_packet v) \<and> meshIPv4 (v_packet v') = meshIPv4 (v_packet v)
    \<and> tun_open (v_packet v') = tun_open (v_packet v)
    \<and> computeRoutes now (t_links t) (Peers.self_id (v_table v)) (remdups (map ID (t_directory t @ [t_self t])))
        (map_of (neighbors (v_table v'))) = Some (v_routes v', v_alt v')"
  using assms by (auto simp: applyTopology_def Let_def split: prod.splits)

lemma adopt_lan_state:
  "lastRX (adopt_lan a p) = lastRX p" "up (adopt_lan a p) = up p" "rttMS (adopt_lan a p) = rttMS p"
  "lossEMA (adopt_lan a p) = lossEMA p" "send_target (adopt_lan a p) = Some a"
  by (simp_all add: adopt_lan_def send_target_def)

text \<open>What a new topology does to the neighbours.  Exactly its neighbours are known afterwards, with one
  exception: a neighbour whose buffered LAN candidate equals a published endpoint is missing, and stays missing,
  since the same topology is not applied again.  A neighbour that was known keeps its liveness and its
  measurements, and its send target unless a candidate was buffered.\<close>

lemma topology_neighbours:
  assumes "applyTopology resolve now t v = Some (v', probes)" "\<not> t_unchanged t" "v_version v \<noteq> t_version t" "t_version t \<noteq> []"
    and "distinct (map ID (t_neighbors t))"
  shows "(\<forall>i. neighbor (v_table v') i \<noteq> None \<longleftrightarrow>
        (\<exists>q \<in> set (t_neighbors t). ID q = i \<and> \<not> pending_blocked v (v_pending v) q))
    \<and> (\<forall>i p p'. neighbor (v_table v) i = Some p \<and> neighbor (v_table v') i = Some p' \<longrightarrow>
        lastRX p' = lastRX p \<and> up p' = up p \<and> rttMS p' = rttMS p \<and> lossEMA p' = lossEMA p
        \<and> (v_pending v i = None \<longrightarrow> send_target p' = send_target p))
    \<and> applyTopology resolve now' t v' = Some (v', [])"
proof -
  let ?nbrs = "neighbors (v_table v')"
  have ap: "install_neighbors resolve now v (t_neighbors t) = (?nbrs, v_pending v', probes)" "v_version v' = t_version t"
    using applyTopology_Some [OF assms(1,2)] assms(3) by simp_all
  note spec = install_neighbors_spec [OF ap(1) [unfolded install_neighbors_def] assms(5)]
  have out: "neighbor (v_table v') i = None" if "i \<notin> ID ` set (t_neighbors t)" for i
    using spec that by (simp add: neighbor_def)
  have blocked: "neighbor (v_table v') (ID q) = None" if "q \<in> set (t_neighbors t)" "pending_blocked v (v_pending v) q" for q
    using spec that by (auto simp: neighbor_def)
  have in_: "\<exists>p. neighbor (v_table v') (ID q) = Some (case v_pending v (ID q) of None \<Rightarrow> p | Some a \<Rightarrow> adopt_lan a p)
      \<and> same_path (carry_over now (neighbor (v_table v) (ID q)) q) p"
    if "q \<in> set (t_neighbors t)" "\<not> pending_blocked v (v_pending v) q" for q
    using spec that by (auto simp: neighbor_def)
  have "neighbor (v_table v') i \<noteq> None \<longleftrightarrow> (\<exists>q \<in> set (t_neighbors t). ID q = i \<and> \<not> pending_blocked v (v_pending v) q)" for i
    using out [of i] blocked in_ by (metis (no_types, lifting) image_iff option.distinct(1))
  moreover have "lastRX p' = lastRX p \<and> up p' = up p \<and> rttMS p' = rttMS p \<and> lossEMA p' = lossEMA p
      \<and> (v_pending v i = None \<longrightarrow> send_target p' = send_target p)"
    if known: "neighbor (v_table v) i = Some p" "neighbor (v_table v') i = Some p'" for i p p'
  proof -
    obtain q where q: "q \<in> set (t_neighbors t)" "ID q = i" "\<not> pending_blocked v (v_pending v) q"
      using known(2) out [of i] blocked by (metis image_iff option.distinct(1))
    then obtain p1 where "p' = (case v_pending v i of None \<Rightarrow> p1 | Some a \<Rightarrow> adopt_lan a p1)"
      "same_path (carry_over now (Some p) q) p1"
      using in_ [OF q(1,3)] known by auto
    then show ?thesis using carry_over_facts(3) [OF refl, of now p q]
      by (auto simp: same_path_def adopt_lan_state split: option.splits)
  qed
  moreover have "applyTopology resolve now' t v' = Some (v', [])" using ap(2) assms(4) by (simp add: applyTopology_def)
  ultimately show ?thesis by blast
qed

text \<open>A discovery packet redirects a neighbour at once: until traffic arrives from the neighbour, its packets go to the
  candidate, although nothing was ever received from there.\<close>

lemma discovery_redirects:
  assumes "neighbor (v_table v) src = Some p" "\<not> lanCandidateBlockedIP (fst a) [self_endpoint (v_table v), Endpoint p]"
  shows "\<exists>p'. neighbor (v_table (fst (lanDiscovered src a v))) src = Some p' \<and> send_target p' = Some a \<and> lastLANRX p' = lastLANRX p"
  using assms by (simp add: lanDiscovered_def neighbor_update adopt_lan_def send_target_def)

text \<open>The sender of a discovery packet is whatever the packet says: a member of the network stops a node with a short
  source.\<close>

lemma discovery_panics:
  assumes "src \<noteq> own" "length src < 8"
  shows "discovery_packet own (Some (''LAN_DISCOVERY'', src, Some 4000)) ip v = None"
  using assms by (simp add: discovery_packet_def)

lemma applyTopology_returns:
  assumes "good_links (t_links t)" "Peers.self_id (v_table v) \<noteq> []"
  shows "\<exists>v' probes. applyTopology resolve now t v = Some (v', probes)"
proof -
  obtain dir mesh rs where "install_tables t = (dir, mesh, rs)" by (metis prod_cases3)
  moreover obtain nbrs pending probes where "install_neighbors resolve now v (t_neighbors t) = (nbrs, pending, probes)"
    by (metis prod_cases3)
  ultimately show ?thesis using computed_routes [OF assms, of now "remdups (map ID (t_directory t @ [t_self t]))" "map_of nbrs"]
    by (auto simp: applyTopology_def Let_def)
qed

lemma install_fold:
  "fold install_peer ps (dir, mesh, rs) =
     (fold (\<lambda>p d. d(ID p \<mapsto> p)) ps dir,
      fold (\<lambda>p m. case ParseAddr (MeshIP p) of Some ip \<Rightarrow> m(ip \<mapsto> ID p) | None \<Rightarrow> m) ps mesh,
      rs @ concat (map peer_routes ps))"
  by (induction ps arbitrary: dir mesh rs) (simp_all add: install_peer_def)

lemma fold_mesh:
  "fold (\<lambda>p m. case ParseAddr (MeshIP p) of Some ip \<Rightarrow> m(ip \<mapsto> ID p) | None \<Rightarrow> m) ps mesh ip =
     (case find (\<lambda>p. ParseAddr (MeshIP p) = Some ip) (rev ps) of Some p \<Rightarrow> Some (ID p) | None \<Rightarrow> mesh ip)"
  by (induction ps arbitrary: mesh) (auto simp: find_append split: option.split)

lemma install_tables_eq:
  "install_tables t = (dir, mesh, rs) \<Longrightarrow>
   rs = concat (map peer_routes (t_directory t @ [t_self t])) \<and>
   mesh ip = (case find (\<lambda>p. ParseAddr (MeshIP p) = Some ip) (rev (t_directory t @ [t_self t])) of
      Some p \<Rightarrow> Some (ID p) | None \<Rightarrow> None)"
proof -
  have "install_tables t = fold install_peer (t_directory t @ [t_self t]) (Map.empty, Map.empty, [])"
    by (simp add: install_tables_def)
  then have "install_tables t = (fold (\<lambda>p d. d(ID p \<mapsto> p)) (t_directory t @ [t_self t]) Map.empty,
      fold (\<lambda>p m. case ParseAddr (MeshIP p) of Some ip \<Rightarrow> m(ip \<mapsto> ID p) | None \<Rightarrow> m) (t_directory t @ [t_self t]) Map.empty,
      concat (map peer_routes (t_directory t @ [t_self t])))"
    by (simp only: install_fold append_Nil)
  then show "install_tables t = (dir, mesh, rs) \<Longrightarrow> ?thesis"
    using fold_mesh [of "t_directory t @ [t_self t]" Map.empty ip] by (simp only: prod.inject)
qed

lemma ParsePrefix_Bits: "ParsePrefix s = Some p \<Longrightarrow> Bits p \<le> 32"
  by (auto simp: ParsePrefix_def split: list.splits option.splits if_splits)

lemma subnet_route_ok: "subnet_route owner route = Some r \<Longrightarrow> route_ok r \<and> Owner r = owner"
  using ParsePrefix_Bits by (auto simp: subnet_route_def route_ok_def Masked_idem split: option.splits if_splits)

lemma peer_routes_ok: "r \<in> set (peer_routes p) \<Longrightarrow> route_ok r \<and> Owner r = ID p"
  using subnet_route_ok by (auto simp: peer_routes_def List.map_filter_def split: option.splits)

lemma installed_routes_ok:
  assumes "install_tables t = (dir, mesh, rs)" "r \<in> set rs"
  shows "route_ok r"
  using install_tables_eq [OF assms(1)] assms(2) peer_routes_ok by fastforce

section \<open>A sample topology\<close>

text \<open>A candidate for the neighbour \<open>p\<close> at its own published endpoint was buffered.\<close>

definition sample_view :: view where
  "sample_view = \<lparr>v_packet = sample_node, v_table = sample_table\<lparr>neighbors := []\<rparr>, v_dir = Map.empty, v_links = [],
     v_routes = Map.empty, v_alt = Map.empty, v_version = [], v_upstream = [],
     v_pending = [''p'' \<mapsto> (0x0A2C0002, 4000)], lanSubnets = []\<rparr>"

abbreviation neighbour_p :: peer where "neighbour_p \<equiv> sample_peer\<lparr>Endpoint := ''10.44.0.2:4000''\<rparr>"

definition sample_topology :: topology where
  "sample_topology = \<lparr>t_unchanged = False, t_version = ''v1'', t_self = heard ''s'', t_neighbors = [neighbour_p],
     t_directory = [heard ''s'', neighbour_p], t_links = [], t_forwards = [], t_upstream = [], t_firewall = None\<rparr>"

lemma sample_endpoint: "ParseAddr ''10.44.0.2'' = Some 0x0A2C0002"
  by (simp add: ParseAddr_def parse_octet_def atoi_def digit_val_def is_digit_def be32_def Let_def)

lemma sample_blocked: "lanCandidateBlockedIP 0x0A2C0002 [[], ''10.44.0.2:4000'']"
  by (simp add: lanCandidateBlockedIP_def endpointIPMatches_def endpointIP_def SplitHostPort_def sample_endpoint)

lemma topology_neighbours_witness:
  "\<exists>v' probes. applyTopology (\<lambda>_. None) 5000 sample_topology sample_view = Some (v', probes)
     \<and> neighbor (v_table v') ''p'' = None \<and> applyTopology (\<lambda>_. None) 6000 sample_topology v' = Some (v', [])"
proof -
  have "good_links (t_links sample_topology)" "Peers.self_id (v_table sample_view) \<noteq> []"
    by (simp_all add: good_links_def sample_topology_def sample_view_def sample_table_def)
  then obtain v' probes where a: "applyTopology (\<lambda>_. None) 5000 sample_topology sample_view = Some (v', probes)"
    using applyTopology_returns by blast
  have f: "\<not> t_unchanged sample_topology" "v_version sample_view \<noteq> t_version sample_topology" "t_version sample_topology \<noteq> []"
    "distinct (map ID (t_neighbors sample_topology))" "t_neighbors sample_topology = [neighbour_p]"
    by (simp_all add: sample_topology_def sample_view_def)
  have "pending_blocked sample_view (v_pending sample_view) neighbour_p"
    using sample_blocked by (simp add: pending_blocked_def sample_view_def sample_table_def sample_peer_def)
  then show ?thesis using topology_neighbours [OF a f(1-4), of 6000] a f(5) by auto
qed

lemma probing_keeps_paths_witness:
  "\<exists>v' probes. probeLanCandidates (\<lambda>_. Some (0xC0A80107, 4000)) 90000
       (sample_view\<lparr>v_table := sample_table, lanSubnets := [\<lparr>Addr = 0xC0A80100, Bits = 24\<rparr>]\<rparr>) = (v', probes)
     \<and> length probes \<le> 4"
proof -
  obtain v' probes where a: "probeLanCandidates (\<lambda>_. Some (0xC0A80107, 4000)) 90000
       (sample_view\<lparr>v_table := sample_table, lanSubnets := [\<lparr>Addr = 0xC0A80100, Bits = 24\<rparr>]\<rparr>) = (v', probes)" by force
  then show ?thesis using probing_keeps_paths [OF a] by blast
qed

end
