(* ===== verification/Overlay.thy ===== *)
theory Overlay
  imports Bootstrap Topology_View
begin

text \<open>
  The overlay as a whole: the coordinator's answer as the nodes decode it, and what two nodes that installed their
  answers can rely on.  The links of the coordinator suit the routing of a node: their ends are nodes of the
  directory and their costs are positive.  The tables that two nodes build agree on who owns which address, so
  what one node lets through to the other passes the checks of the other.
\<close>

section \<open>The view on the wire\<close>

text \<open>The coordinator's rows as the node decodes them: the fields that the node does not know are dropped, the
  unexported fields of a peer start at zero.\<close>

definition wire_peer :: "entry \<Rightarrow> peer" where
  "wire_peer e =
     \<lparr>ID = Server_State.node_id (row e), Public = public_key (row e), NAT = nat_type (row e), Role = role (row e),
      Endpoint = endpoint (row e), Capacity = capacity (row e), MeshIP = mesh_ip (row e), Name = entry_name e,
      Routes = map (\<lambda>a. (route_lan a, route_virtual a)) (entry_routes e), LANAddrs = lan_addrs (row e),
      last_target = NoAddr, lastRX = 0, lastLAN = None, lastLANRX = 0, lastPathLAN = False, lastLANProbe = 0,
      compactHelloUntil = 0, discovered = 0, up = False, rttMS = 0, lossEMA = 0\<rparr>"

definition wire_edge :: "link \<Rightarrow> edge" where
  "wire_edge l = \<lparr>edge_A = link_a l, edge_B = link_b l, edge_Cost = cost l\<rparr>"

definition wire_topology :: "snapshot \<Rightarrow> topology" where
  "wire_topology sn =
     \<lparr>t_unchanged = False, t_version = sn_version sn, t_self = wire_peer (sn_self sn),
      t_neighbors = map wire_peer (sn_neighbors sn), t_directory = map wire_peer (sn_directory sn),
      t_links = map wire_edge (sn_links sn), t_forwards = sn_forwards sn, t_upstream = sn_dns_upstream sn,
      t_firewall = Some (fw_mode (sn_firewall sn), fw_ports (sn_firewall sn))\<rparr>"

section \<open>Addresses of the directory\<close>

lemma digit_char_val: "is_digit c \<Longrightarrow> digit_char (digit_val c) = c \<and> digit_val c < 10"
  by (auto simp: is_digit_def digit_char_def digit_val_def Let_def)

lemma itoa_step: "0 < q \<Longrightarrow> d < 10 \<Longrightarrow> itoa (q * 10 + d) = itoa q @ [digit_char d]"
  by (subst itoa.simps) simp

lemma digits_value_pos:
  assumes "list_all is_digit w" "w \<noteq> []" "hd w \<noteq> CHR ''0''"
  shows "0 < fold (\<lambda>c acc. acc * 10 + digit_val c) w (0 :: nat)"
  using assms
proof (induction w rule: rev_induct)
  case (snoc c w)
  show ?case
  proof (cases "w = []")
    case True
    then have "digit_char (digit_val c) = c" "c \<noteq> CHR ''0''" using snoc.prems digit_char_val by auto
    moreover have "digit_char 0 = CHR ''0''" by code_simp
    ultimately have "digit_val c \<noteq> 0" by metis
    then show ?thesis using True by simp
  next
    case False
    then show ?thesis using snoc by simp
  qed
qed simp

lemma itoa_of_digits:
  assumes "list_all is_digit w" "w \<noteq> []" "length w = 1 \<or> hd w \<noteq> CHR ''0''"
  shows "itoa (fold (\<lambda>c acc. acc * 10 + digit_val c) w 0) = w"
  using assms
proof (induction w rule: rev_induct)
  case (snoc c w)
  have c: "digit_char (digit_val c) = c" "digit_val c < 10" using snoc.prems digit_char_val by auto
  show ?case
  proof (cases "w = []")
    case True
    then show ?thesis using c by (simp add: itoa.simps)
  next
    case False
    then have hd: "hd w \<noteq> CHR ''0''" using snoc.prems by auto
    then have "itoa (fold (\<lambda>c acc. acc * 10 + digit_val c) w 0) = w" "0 < fold (\<lambda>c acc. acc * 10 + digit_val c) w (0 :: nat)"
      using snoc False digits_value_pos by auto
    then show ?thesis using c itoa_step by simp
  qed
qed simp

lemma parse_octet_itoa_inv: "parse_octet w = Some n \<Longrightarrow> w = itoa n \<and> n < 256"
  using itoa_of_digits [of w]
  by (cases w) (auto simp: parse_octet_def atoi_def split: if_splits)

lemma join_split_on: "join_with [d] (split_on d s) = s"
proof (induction s)
  case (Cons c s)
  have "split_on d s \<noteq> []" by (cases s) (auto split: list.split)
  then obtain w ws where w: "split_on d s = w # ws" by (cases "split_on d s") auto
  then show ?case using Cons by (cases ws) auto
qed simp

lemma ParseAddr_canonical:
  assumes "ParseAddr s = Some ip"
  shows "s = Addr_String ip"
proof -
  obtain a b c d where sp: "split_on CHR ''.'' s = [a, b, c, d]"
    using assms by (auto simp: ParseAddr_def split: list.splits)
  obtain w x y z where p: "parse_octet a = Some w" "parse_octet b = Some x" "parse_octet c = Some y" "parse_octet d = Some z"
    and ip: "ip = be32 [of_nat w, of_nat x, of_nat y, of_nat z]"
    using assms by (auto simp: ParseAddr_def sp split: option.splits)
  have "put_be32 ip = [of_nat w, of_nat x, of_nat y, of_nat z]" unfolding ip by (rule put_be_be32) simp
  moreover have "unat (of_nat k :: byte) = k" if "k < 256" for k using that by (simp add: unat_of_nat_byte)
  ultimately have "Addr_String ip = join_with ''.'' [a, b, c, d]"
    using p [THEN parse_octet_itoa_inv] by (simp add: Addr_String_def)
  then show ?thesis using join_split_on [of "CHR ''.''" s] by (simp add: sp)
qed

section \<open>The links of the coordinator suit the routes of a node\<close>

lemma if_pos: "(b \<Longrightarrow> 0 < x) \<Longrightarrow> (\<not> b \<Longrightarrow> 0 < y) \<Longrightarrow> 0 < (if b then x else y)" for x :: rat
  by simp

lemma case_if: "case_prod f (if b then x else y) = (if b then case_prod f x else case_prod f y)"
  by simp

lemma cost_if: "cost (if b then x else y) = (if b then cost x else cost y)"
  by simp

lemma cost_update: "cost (l\<lparr>cost := c, status := st, via_lan := b\<rparr>) = c"
  by simp

lemma decorate_cost: "0 < cost (decorate_link t s (uptime_of t ns) l)"
proof -
  have up: "0 \<le> u" if "uptime_of t ns x = Some u" for u x
    using map_of_SomeD [OF that [unfolded uptime_of_def]] by auto
  have "0 < uptime_factor (uptime_of t ns) l"
  proof (cases "uptime_of t ns (link_a l) = None \<or> uptime_of t ns (link_b l) = None")
    case False
    then obtain ua ub where u: "uptime_of t ns (link_a l) = Some ua" "uptime_of t ns (link_b l) = Some ub" by auto
    have "0 \<le> (of_int (min ua ub) :: rat)" using up u by simp
    then show ?thesis using u by (simp add: uptime_factor_def add_pos_nonneg)
  qed (auto simp: uptime_factor_def split: option.split)
  moreover have "0 < min (1 / (1 - min x (95 / 100))) maxLossCostFactor" for x :: rat by (simp add: min_def)
  moreover have "0 < min (1 + x / rttCostReferenceMS) maxRTTCostFactor" if "0 < x" for x :: rat using that by (simp add: min_def)
  ultimately show ?thesis
    by (simp only: decorate_link_def Let_def case_if prod.case cost_if cost_update)
      (intro if_pos mult_pos_pos, simp_all)
qed

definition ends_in :: "node list \<Rightarrow> link list \<Rightarrow> bool" where
  "ends_in ns ls = (\<forall>e \<in> set ls. allowed ns e)"

lemma attach_ends:
  assumes "c \<in> Server_State.node_id ` set ns" "set ps \<subseteq> set ns" "ends_in ns out"
  shows "ends_in ns (attach c blocked want ps lk k out)"
  using assms
proof (induction c blocked want ps lk k out rule: attach.induct)
  case (2 c blocked want p ps lk k out)
  have "Server_State.node_id p \<in> Server_State.node_id ` set ns" using 2(4) by auto
  then have "ends_in ns (out @ [new_link c (Server_State.node_id p) (1 + of_int k / 10)])"
    using 2(3,5) by (auto simp: ends_in_def allowed_def new_link_def)
  then show ?case using 2 by simp
qed simp

lemma automatic_ends:
  assumes "set peers \<subseteq> set ns" "ends_in ns out"
  shows "ends_in ns (addAutomaticClientLinks sha t s out ns peers blocked)"
proof -
  have step: "ends_in ns (client_links sha t s peers blocked c ls)" if "c \<in> set ns" "ends_in ns ls" for c ls
    using assms(1) that by (auto simp: client_links_def telemetryPeerOrder_def Let_def intro!: attach_ends)
  have "ends_in ns (fold (client_links sha t s peers blocked) ns out)"
    by (rule fold_invariant [where P = "ends_in ns", OF assms(2) step])
  then show ?thesis using assms(2) by (simp add: addAutomaticClientLinks_def)
qed

lemma min_max_member: "a \<in> S \<Longrightarrow> b \<in> S \<Longrightarrow> min a b \<in> S \<and> max a b \<in> S" for a b :: string
  by (cases "a \<le> b") (auto simp: min_def max_def)

lemma add_edge_ends:
  assumes "ends_in ns (snd st)" "fst p \<in> Server_State.node_id ` set ns" "snd p \<in> Server_State.node_id ` set ns"
  shows "ends_in ns (snd (add_edge p st))"
proof -
  define a where "a = min (fst p) (snd p)"
  define b where "b = max (fst p) (snd p)"
  have "allowed ns (new_link a b 1)" unfolding allowed_def new_link_def link.select_convs a_def b_def
    by (rule min_max_member [OF assms(2,3)])
  moreover have "snd (add_edge p st) = snd st \<or> snd (add_edge p st) = snd st @ [new_link a b 1]"
    unfolding add_edge_def a_def b_def Let_def by (cases st) (simp only: prod.case snd_conv split: if_split, simp)
  ultimately show ?thesis using assms(1) unfolding ends_in_def by auto
qed

lemma backbone_ends: "set sp \<subseteq> set ns \<Longrightarrow> ends_in ns (backboneLinks sp degree)"
proof -
  assume sp: "set sp \<subseteq> set ns"
  have "ends_in ns (snd (fold add_edge (backbone_pairs (map Server_State.node_id sp) d) ([], [])))" if "2 \<le> length sp" for d
  proof (rule fold_invariant [where P = "\<lambda>st. ends_in ns (snd st)"])
    fix p and st :: "string list \<times> link list" assume p: "p \<in> set (backbone_pairs (map Server_State.node_id sp) d)" and st: "ends_in ns (snd st)"
    have nth: "Server_State.node_id (sp ! i) \<in> Server_State.node_id ` set ns" if "i < length sp" for i
      using subsetD [OF sp nth_mem [OF that]] by (rule imageI)
    have half: "length sp div 2 + i < length sp" if "i < length sp div 2" for i using that by linarith
    have wrap: "x mod length sp < length sp" for x using \<open>2 \<le> length sp\<close> by (intro mod_less_divisor) linarith
    have "fst p \<in> Server_State.node_id ` set ns \<and> snd p \<in> Server_State.node_id ` set ns"
      using p half wrap by (auto simp: backbone_pairs_def Let_def add.commute split: if_splits intro!: nth)
    then show "ends_in ns (snd (add_edge p st))" using st by (intro add_edge_ends) simp_all
  qed (simp add: ends_in_def)
  then show ?thesis by (simp add: backboneLinks_def Let_def ends_in_def)
qed

lemma repaired_ends:
  assumes "ends_in ns es" "ensureConnected sha (removeBlockedEdges es blocked) ns blocked = Some out"
  shows "ends_in ns out"
  unfolding ends_in_def
proof
  fix e assume e: "e \<in> set out"
  show "allowed ns e"
  proof (cases "e \<in> set (removeBlockedEdges es blocked)")
    case True
    then show ?thesis using assms(1) by (simp add: ends_in_def removeBlocked_member)
  next
    case False
    then show ?thesis using ensureConnected_ok [of sha "removeBlockedEdges es blocked" ns blocked] assms(2) e by auto
  qed
qed

lemma links_good:
  assumes "links sha t s ns = Some out"
  shows "ends_in ns out \<and> (\<forall>l \<in> set out. 0 < cost l)"
proof -
  have sp: "set (superpeerNodes ns) \<subseteq> set ns" by (auto simp: superpeerNodes_def)
  have man: "ends_in ns (removeBlockedEdges (manualLinksForNodes s ns) b)" for b
    by (auto simp: ends_in_def removeBlocked_member manualLinksForNodes_def)
  have "\<exists>es out'. ends_in ns es \<and> ensureConnected sha (removeBlockedEdges es (blockedEdgeSet s ns)) ns (blockedEdgeSet s ns) = Some out'
      \<and> out = decorateLinks t s out' (Some ns)"
  proof (cases "manualLinksForNodes s ns = []")
    case False
    then show ?thesis using assms automatic_ends [OF sp man] by (simp add: links_def Let_def) blast
  next
    case True
    have "ends_in ns (if 1 < length (superpeerNodes ns) then backboneLinks (superpeerNodes ns) d else [])" for d
      using backbone_ends [OF sp, of d] by (simp add: ends_in_def)
    moreover have "set (if superpeerNodes ns = [] then ns else superpeerNodes ns) \<subseteq> set ns" using sp by simp
    ultimately show ?thesis using assms True automatic_ends by (simp add: links_def Let_def) blast
  qed
  then obtain es out' where es: "ends_in ns es" "out = decorateLinks t s out' (Some ns)"
    "ensureConnected sha (removeBlockedEdges es (blockedEdgeSet s ns)) ns (blockedEdgeSet s ns) = Some out'" by blast
  have "ends_in ns out'" using repaired_ends [OF es(1,3)] .
  then show ?thesis using decorate_cost by (auto simp: es(2) decorateLinks_def ends_in_def allowed_def)
qed

lemma wire_links_good:
  assumes "ends_in ns ls" "\<forall>l \<in> set ls. 0 < cost l" "[] \<notin> Server_State.node_id ` set ns"
  shows "good_links (map wire_edge ls)"
proof -
  have "link_a l \<noteq> [] \<and> link_b l \<noteq> []" if "l \<in> set ls" for l
    using assms(1,3) that unfolding ends_in_def allowed_def by metis
  then show ?thesis using assms(2) by (auto simp: good_links_def wire_edge_def)
qed

section \<open>Two nodes with views of one network\<close>

text \<open>The tables that a node builds from a directory with its own row at the end.\<close>

definition mesh_unique :: "entry list \<Rightarrow> bool" where
  "mesh_unique es \<longleftrightarrow> (\<forall>d \<in> set es. \<forall>e \<in> set es. \<forall>ip. ParseAddr (mesh_ip (row d)) = Some ip \<longrightarrow>
     ParseAddr (mesh_ip (row e)) = Some ip \<longrightarrow> Server_State.node_id (row d) = Server_State.node_id (row e))"

lemma directory_mesh:
  assumes "mesh_unique es" "set ps = wire_peer ` set es"
    "mesh ip = (case find (\<lambda>p. ParseAddr (MeshIP p) = Some ip) (rev ps) of None \<Rightarrow> None | Some p \<Rightarrow> Some (ID p))"
  shows "mesh ip = Some i \<longleftrightarrow> (\<exists>e \<in> set es. ParseAddr (mesh_ip (row e)) = Some ip \<and> Server_State.node_id (row e) = i)"
proof (cases "find (\<lambda>p. ParseAddr (MeshIP p) = Some ip) (rev ps)")
  case None
  then have "\<forall>p \<in> set ps. ParseAddr (MeshIP p) \<noteq> Some ip" unfolding find_None_iff by auto
  then show ?thesis using None assms(3) unfolding assms(2) by (auto simp: wire_peer_def)
next
  case (Some p)
  from find_SomeD [OF Some] have "p \<in> set ps" "ParseAddr (MeshIP p) = Some ip" by auto
  then obtain d where d: "d \<in> set es" "p = wire_peer d" "ParseAddr (mesh_ip (row d)) = Some ip"
    unfolding assms(2) by (auto simp: wire_peer_def)
  then have m: "mesh ip = Some (Server_State.node_id (row d))" using assms(3) Some by (simp add: wire_peer_def)
  show ?thesis
  proof
    assume "mesh ip = Some i"
    then show "\<exists>e \<in> set es. ParseAddr (mesh_ip (row e)) = Some ip \<and> Server_State.node_id (row e) = i" using m d by auto
  next
    assume "\<exists>e \<in> set es. ParseAddr (mesh_ip (row e)) = Some ip \<and> Server_State.node_id (row e) = i"
    then obtain e where "e \<in> set es" "ParseAddr (mesh_ip (row e)) = Some ip" "Server_State.node_id (row e) = i" by blast
    then show "mesh ip = Some i" using m d assms(1) unfolding mesh_unique_def by metis
  qed
qed

lemma directory_tables:
  assumes "install_tables (wire_topology sn) = (dir, mesh, rs)"
    and "sn_self sn \<in> set (sn_directory sn)" and uniq: "mesh_unique (sn_directory sn)"
  shows "set rs = (\<Union>e \<in> set (sn_directory sn). set (peer_routes (wire_peer e))) \<and>
    (mesh ip = Some i \<longleftrightarrow> (\<exists>e \<in> set (sn_directory sn). ParseAddr (mesh_ip (row e)) = Some ip \<and> Server_State.node_id (row e) = i))"
proof -
  let ?ps = "map wire_peer (sn_directory sn) @ [wire_peer (sn_self sn)]"
  have t: "t_directory (wire_topology sn) @ [t_self (wire_topology sn)] = ?ps" by (simp add: wire_topology_def)
  note tab = install_tables_eq [OF assms(1), of ip, unfolded t]
  have set_ps: "set ?ps = wire_peer ` set (sn_directory sn)" using assms(2) by auto
  have "rs = concat (map peer_routes ?ps)" using tab by blast
  then have "set rs = (\<Union>p \<in> set ?ps. set (peer_routes p))" by (simp only: set_concat set_map image_image)
  then have "set rs = (\<Union>p \<in> wire_peer ` set (sn_directory sn). set (peer_routes p))" by (simp only: set_ps)
  moreover have "mesh ip = (case find (\<lambda>p. ParseAddr (MeshIP p) = Some ip) (rev ?ps) of None \<Rightarrow> None | Some p \<Rightarrow> Some (ID p))"
    using tab by blast
  ultimately show ?thesis using directory_mesh [OF uniq set_ps] by (simp only: UN_simps(10) simp_thms)
qed

lemma visible_unique:
  assumes "registry_ok s" "n \<in> set (nodes s)" "m \<in> set (nodes s)"
    "ParseAddr (mesh_ip n) = Some ip" "ParseAddr (mesh_ip m) = Some ip"
  shows "Server_State.node_id n = Server_State.node_id m"
proof -
  have e: "mesh_ip n = Addr_String ip" "mesh_ip m = Addr_String ip" using ParseAddr_canonical assms(4,5) by blast+
  have "(Server_State.node_id n, Addr_String ip) \<in> set (ip_view s)" "(Server_State.node_id m, Addr_String ip) \<in> set (ip_view s)"
    using assms(2,3) e by (auto simp: ip_view_def)
  moreover have "Addr_String ip \<noteq> []" by (rule Addr_String_nonempty)
  ultimately show ?thesis using assms(1) unfolding registry_ok_def unique_view_def by blast
qed

lemma directory_unique:
  assumes "registry_ok s"
  shows "mesh_unique (enrichNodes s (visible_nodes now owner s))"
  unfolding mesh_unique_def
proof (intro ballI allI impI)
  fix d e ip
  assume "d \<in> set (enrichNodes s (visible_nodes now owner s))" "e \<in> set (enrichNodes s (visible_nodes now owner s))"
    and p: "ParseAddr (mesh_ip (row d)) = Some ip" "ParseAddr (mesh_ip (row e)) = Some ip"
  then have "row d \<in> set (nodes s)" "row e \<in> set (nodes s)" by (auto simp: enriched_member visible_nodes_member)
  then show "Server_State.node_id (row d) = Server_State.node_id (row e)" using visible_unique [OF assms _ _ p] by blast
qed

text \<open>A row is found by its id alone.\<close>

lemma directory_row_unique:
  assumes "registry_ok s" "es = enrichNodes s (visible_nodes now owner s)" "d \<in> set es" "e \<in> set es"
    "Server_State.node_id (row d) = Server_State.node_id (row e)"
  shows "d = e"
proof -
  obtain n m where nm: "n \<in> set (nodes s)" "m \<in> set (nodes s)" "d = enrich s n" "e = enrich s m"
    using assms(2-4) by (auto simp: enriched_member visible_nodes_member)
  have "distinct (map Server_State.node_id (nodes s))"
    using assms(1) unfolding registry_ok_def unique_view_def ip_view_def by (simp add: comp_def)
  then have "n = m" using nm assms(5) by (metis distinct_map inj_onD row_enrich(2))
  then show ?thesis using nm by simp
qed

lemma installed_view:
  assumes "applyTopology resolve now (wire_topology sn) v = Some (v', hs)"
    and "sn_version sn = [] \<or> v_version v \<noteq> sn_version sn" and "sn_self sn \<in> set (sn_directory sn)"
    and "mesh_unique (sn_directory sn)"
  shows "set (subnetRoutes (v_packet v')) = (\<Union>e \<in> set (sn_directory sn). set (peer_routes (wire_peer e)))
    \<and> (\<forall>ip i. meshNodes (v_packet v') ip = Some i \<longleftrightarrow>
        (\<exists>e \<in> set (sn_directory sn). ParseAddr (mesh_ip (row e)) = Some ip \<and> Server_State.node_id (row e) = i))
    \<and> Packet_Path.node_id (v_packet v') = Packet_Path.node_id (v_packet v)
    \<and> meshIPv4 (v_packet v') = meshIPv4 (v_packet v) \<and> tun_open (v_packet v') = tun_open (v_packet v)
    \<and> firewall (v_packet v') = parseFirewallRules (Some (fw_mode (sn_firewall sn), fw_ports (sn_firewall sn)))
    \<and> (\<forall>r \<in> set (subnetRoutes (v_packet v')). route_ok r)"
proof -
  have w: "\<not> t_unchanged (wire_topology sn)" "t_version (wire_topology sn) = [] \<or> v_version v \<noteq> t_version (wire_topology sn)"
    "t_firewall (wire_topology sn) = Some (fw_mode (sn_firewall sn), fw_ports (sn_firewall sn))"
    using assms(2) by (simp_all add: wire_topology_def)
  note ap = applyTopology_Some [OF assms(1) w(1,2)]
  then have tab: "install_tables (wire_topology sn) = (v_dir v', meshNodes (v_packet v'), subnetRoutes (v_packet v'))" by blast
  show ?thesis
    using directory_tables [OF tab assms(3,4)] installed_routes_ok [OF tab] ap w(3) by simp
qed

text \<open>C1: the overlay, end to end.  Two nodes fetch their views from a coordinator whose registry is sound, with one
  credential and one after the other, and install them, under the identities and addresses that the coordinator
  has for them.  Then whatever the first takes from its TUN device and sends to the second passes all checks of
  the second and is injected there, unless the coordinator set a firewall for it.\<close>

theorem overlay_delivers:
  assumes cred: "session_cookie r = None" "networkTokenValid dg r s \<or> anyNodeTokenValid dg r s" and ok: "registry_ok s"
    and fetch: "bootstrap enc dg sha t r i body s = Some (Inr (Inr (Full A)), s1)"
      "bootstrap enc dg sha t r j body' s1 = Some (Inr (Inr (Full B)), s2)"
    and apply_a: "applyTopology resolve now (wire_topology A) va = Some (va', ha)" "v_version va \<noteq> sn_version A"
    and apply_b: "applyTopology resolve now' (wire_topology B) vb = Some (vb', hb)" "v_version vb \<noteq> sn_version B"
    and who: "Packet_Path.node_id (v_packet va) = i" "Packet_Path.node_id (v_packet vb) = j" "tun_open (v_packet vb)"
    and addr: "ParseAddr (mesh_ip (row (sn_self A))) = Some (meshIPv4 (v_packet va))"
      "ParseAddr (mesh_ip (row (sn_self B))) = Some (meshIPv4 (v_packet vb))" "meshIPv4 (v_packet vb) \<noteq> 0"
    and policy: "fw_mode (sn_firewall B) \<noteq> ''whitelist''"
    and send: "tunFrame (v_packet va') p = SendIP j p'" "20 \<le> ihl_of p"
  shows "\<exists>q. deliver (v_packet vb') i p' = Some q"
proof (rule two_snapshots [OF cred fetch])
  fix ns owner ls self self'
  let ?es = "enrichNodes s ns"
  assume ns: "ns = visible_nodes (unix t) owner s"
    and a: "A = make_snapshot enc sha owner i ?es self ls s1" "self \<in> set ?es" "Server_State.node_id (row self) = i"
    and b: "B = make_snapshot enc sha owner j ?es self' ls s2" "self' \<in> set ?es" "Server_State.node_id (row self') = j"
  have dir: "sn_directory A = ?es" "sn_self A = self" "sn_directory B = ?es" "sn_self B = self'"
    by (simp_all add: a(1) b(1) make_snapshot_def Let_def)
  have es: "?es = enrichNodes s (visible_nodes (unix t) owner s)" by (simp add: ns)
  have uniq: "mesh_unique ?es" unfolding ns by (rule directory_unique [OF ok])
  note va = installed_view [OF apply_a(1) disjI2 [OF apply_a(2)], unfolded dir, OF a(2) uniq]
  note vb = installed_view [OF apply_b(1) disjI2 [OF apply_b(2)], unfolded dir, OF b(2) uniq]
  have va_mesh: "meshNodes (v_packet va') ip = Some k \<longleftrightarrow>
      (\<exists>e \<in> set ?es. ParseAddr (mesh_ip (row e)) = Some ip \<and> Server_State.node_id (row e) = k)" for ip k
    using va by blast
  have mesh: "meshNodes (v_packet va') = meshNodes (v_packet vb')"
  proof (rule ext)
    fix ip
    have "meshNodes (v_packet va') ip = Some k \<longleftrightarrow> meshNodes (v_packet vb') ip = Some k" for k using va vb by simp
    then show "meshNodes (v_packet va') ip = meshNodes (v_packet vb') ip" by (metis option.exhaust)
  qed
  have own_a: "meshNodes (v_packet va') (meshIPv4 (v_packet va)) = Some i"
    using va_mesh [of "meshIPv4 (v_packet va)" i] a(2,3) addr(1) [unfolded dir] by blast
  have own_b: "isLocalMeshIP (v_packet vb') ip" if "meshNodes (v_packet vb') ip = Some j" for ip
  proof -
    obtain e where e: "e \<in> set ?es" "ParseAddr (mesh_ip (row e)) = Some ip" "Server_State.node_id (row e) = j"
      using vb \<open>meshNodes (v_packet vb') ip = Some j\<close> by blast
    then have "e = self'" using directory_row_unique [OF ok es e(1) b(2)] b(3) by simp
    then show ?thesis using e(2) addr(2,3) vb dir by (simp add: isLocalMeshIP_def localMeshIP_def)
  qed
  have top: "same_topology (v_packet va') (v_packet vb')"
    using va vb mesh own_a own_b who by (simp add: same_topology_def)
  have "firewall (v_packet vb') = None" using vb policy by (simp add: parseFirewallRules_def)
  moreover have "\<forall>r \<in> own_routes (v_packet va'). route_ok r" using va by (simp add: own_routes_def)
  ultimately show ?thesis
    using tun_to_tun [OF send] top va vb who by simp
qed

section \<open>A concrete overlay\<close>

text \<open>The view of a coordinator with a sound registry and no cached graph can always be installed.\<close>

lemma fresh_view_good:
  assumes "bootstrap enc dg sha t r i body s = Some (Inr (Inr (Full sn)), s')"
    and "session_cookie r = None" "networkTokenValid dg r s \<or> anyNodeTokenValid dg r s" "registry_ok s" "linkCache s = None"
  shows "good_links (t_links (wire_topology sn))"
proof (rule bootstrap_Full [OF assms(1-3)])
  fix ls self
  let ?ns = "visible_nodes (unix t) (accountTokenUser dg r s) s"
  assume sn: "sn = make_snapshot enc sha (accountTokenUser dg r s) i (enrichNodes s ?ns) self ls s'"
    and c: "cachedTopologyLinks sha t ?ns s = Some (Inr ls, s')"
  have "links sha t s ?ns = Some ls"
    using c assms(5) by (auto simp: cachedTopologyLinks_def Let_def split: option.splits if_splits)
  moreover have "[] \<notin> Server_State.node_id ` set ?ns"
  proof
    assume "[] \<in> Server_State.node_id ` set ?ns"
    then obtain n where "n \<in> set ?ns" "[] = Server_State.node_id n" by (rule imageE)
    then have "n \<in> set (nodes s)" "Server_State.node_id n = []" by (simp_all add: visible_nodes_member)
    then have "[] \<in> set (map fst (ip_view s))" by (force simp: ip_view_def)
    then show False using assms(4) by (simp add: registry_ok_def unique_view_def)
  qed
  ultimately have "good_links (map wire_edge ls)" using links_good wire_links_good by blast
  then show ?thesis by (simp add: sn make_snapshot_def wire_topology_def Let_def)
qed

lemma bootstrap_keeps:
  assumes "bootstrap enc dg sha t r i body s = Some (Inr (Inr (Full sn)), s')"
    and "session_cookie r = None" "networkTokenValid dg r s \<or> anyNodeTokenValid dg r s"
  obtains c where "s' = s\<lparr>linkCache := c\<rparr>"
  by (rule bootstrap_Full [OF assms]) (use cached_links_again in blast)

definition overlay_packet :: bytes where
  "overlay_packet = [69, 0, 0, 20, 0, 1, 0, 0, 64, 6, 102, 98, 10, 77, 0, 5, 10, 77, 0, 6]"

definition overlay_node :: "string \<Rightarrow> ipv4 \<Rightarrow> view" where
  "overlay_node i ip = sample_view\<lparr>v_packet := sample_node\<lparr>Packet_Path.node_id := i, meshIPv4 := ip\<rparr>, v_table := sample_table\<rparr>"

lemma overlay_node_facts:
  "Packet_Path.node_id (v_packet (overlay_node i ip)) = i" "meshIPv4 (v_packet (overlay_node i ip)) = ip"
  "mesh_prefix (v_packet (overlay_node i ip)) = 24" "tun_open (v_packet (overlay_node i ip))"
  "Peers.self_id (v_table (overlay_node i ip)) \<noteq> []" "v_version (overlay_node i ip) = []"
  by (simp_all add: overlay_node_def sample_view_def sample_node_def sample_table_def)

lemma unique_pair: "a \<noteq> b \<Longrightarrow> x \<noteq> y \<Longrightarrow> a \<noteq> [] \<Longrightarrow> b \<noteq> [] \<Longrightarrow> unique_view [(a, x), (b, y)]"
  by (auto simp: unique_view_def)

lemma view_server_ok: "registry_ok view_server" "linkCache view_server = None" "loadFirewall i view_server = \<lparr>fw_mode = ''allow_all'', fw_ports = []\<rparr>"
proof -
  have "ParseAddr (Addr_String 0x0A4D0005) \<noteq> ParseAddr (Addr_String 0x0A4D0006)" by simp
  then have "Addr_String 0x0A4D0005 \<noteq> Addr_String 0x0A4D0006" by metis
  then have "unique_view [(''n1'', Addr_String 0x0A4D0005), (''n2'', Addr_String 0x0A4D0006)]" by (intro unique_pair) simp_all
  moreover have "ip_view view_server = [(''n1'', Addr_String 0x0A4D0005), (''n2'', Addr_String 0x0A4D0006)]"
    by (simp add: ip_view_def view_server_def view_row_def)
  moreover have "revoked_nodes view_server = Map.empty"
    by (simp add: view_server_def net_server_def sample_server_def server.defs accounts.defs)
  ultimately show "registry_ok view_server" by (simp only: registry_ok_def) simp
qed (simp_all add: view_server_def net_server_def sample_server_def server.defs accounts.defs loadFirewall_def)

lemma snapshot_version_nonempty: "sn_version (make_snapshot enc sha owner i es self ls s) \<noteq> []"
  by (simp add: make_snapshot_def snapshot_version_def Let_def)

lemma overlay_sends:
  assumes "meshNodes n 0x0A4D0006 = Some ''n2''" "Packet_Path.node_id n = ''n1''" "meshIPv4 n = 0x0A4D0005" "mesh_prefix n = 24"
  shows "tunFrame n overlay_packet = SendIP ''n2'' overlay_packet"
proof -
  have "isTUNBroadcast n 0x0A4D0006 = False" "isLocalMeshIP n 0x0A4D0006 = False" "isLocalMeshIP n 0x0A4D0005"
    "ownerOf n 0x0A4D0006 = ''n2''" "drop_bit 4 (overlay_packet ! 0) = 4"
    using assms by (simp_all add: isTUNBroadcast_def Masked_def isLocalMeshIP_def localMeshIP_def ownerOf_def
        prefix_Contains_def overlay_packet_def drop_bit_word_numeral)
  moreover have "addr_at 16 overlay_packet = 0x0A4D0006" "addr_at 12 overlay_packet = 0x0A4D0005" "length overlay_packet = 20"
    by (simp_all add: overlay_packet_def addr_at_def slice_def be32_def)
  ultimately show ?thesis using assms(2) by (simp add: tunFrame_def Let_def)
qed

theorem overlay_delivers_witness:
  "\<exists>A B s1 s2 va' ha vb' hb.
     bootstrap sample_encoders sample_digest (\<lambda>_. replicate 32 0) 0 view_request ''n1'' None view_server = Some (Inr (Inr (Full A)), s1)
   \<and> bootstrap sample_encoders sample_digest (\<lambda>_. replicate 32 0) 0 view_request ''n2'' None s1 = Some (Inr (Inr (Full B)), s2)
   \<and> applyTopology (\<lambda>_. None) 5000 (wire_topology A) (overlay_node ''n1'' 0x0A4D0005) = Some (va', ha)
   \<and> applyTopology (\<lambda>_. None) 6000 (wire_topology B) (overlay_node ''n2'' 0x0A4D0006) = Some (vb', hb)
   \<and> tunFrame (v_packet va') overlay_packet = SendIP ''n2'' overlay_packet
   \<and> (\<exists>q. deliver (v_packet vb') ''n1'' overlay_packet = Some q)"
proof (rule view_answers [of sample_encoders "\<lambda>_. replicate 32 0"])
  fix A s1 B s2
  let ?sha = "\<lambda>_ :: string. replicate 32 (0 :: byte)" and ?va = "overlay_node ''n1'' 0x0A4D0005" and ?vb = "overlay_node ''n2'' 0x0A4D0006"
  assume f: "bootstrap sample_encoders sample_digest ?sha 0 view_request ''n1'' None view_server = Some (Inr (Inr (Full A)), s1)"
    "bootstrap sample_encoders sample_digest ?sha 0 view_request ''n2'' None s1 = Some (Inr (Inr (Full B)), s2)"
  note tok = view_facts(1) disjI2 [OF view_facts(2)]
  show ?thesis
  proof (rule two_snapshots [OF tok f])
    fix ns owner ls self self'
    assume ns: "ns = visible_nodes (unix 0) owner view_server"
      and a: "A = make_snapshot sample_encoders ?sha owner ''n1'' (enrichNodes view_server ns) self ls s1"
        "self \<in> set (enrichNodes view_server ns)" "Server_State.node_id (row self) = ''n1''"
      and b: "B = make_snapshot sample_encoders ?sha owner ''n2'' (enrichNodes view_server ns) self' ls s2"
        "self' \<in> set (enrichNodes view_server ns)" "Server_State.node_id (row self') = ''n2''"
    have dir: "sn_self A = self" "sn_self B = self'" "sn_links B = sn_links A" "sn_directory A = enrichNodes view_server ns"
      by (simp_all add: a(1) b(1) make_snapshot_def Let_def)
    have rows: "row self \<in> set (nodes view_server)" "row self' \<in> set (nodes view_server)"
      using a(2) b(2) by (auto simp: ns enriched_member visible_nodes_member)
    then have "row self = view_row ''n1'' 1 0x0A4D0005" "row self' = view_row ''n2'' 2 0x0A4D0006"
      using a(3) b(3) by (auto simp: view_server_def view_row_def)
    then have ip: "ParseAddr (mesh_ip (row self)) = Some 0x0A4D0005" "ParseAddr (mesh_ip (row self')) = Some 0x0A4D0006"
      by (simp_all add: view_row_def)
    have good: "good_links (t_links (wire_topology A))" by (rule fresh_view_good [OF f(1) tok view_server_ok(1,2)])
    then have good': "good_links (t_links (wire_topology B))" by (simp add: wire_topology_def dir)
    obtain va' ha where va: "applyTopology (\<lambda>_. None) 5000 (wire_topology A) ?va = Some (va', ha)"
      using applyTopology_returns [OF good overlay_node_facts(5)] by blast
    obtain vb' hb where vb: "applyTopology (\<lambda>_. None) 6000 (wire_topology B) ?vb = Some (vb', hb)"
      using applyTopology_returns [OF good' overlay_node_facts(5)] by blast
    have new: "v_version ?va \<noteq> sn_version A" "v_version ?vb \<noteq> sn_version B"
      using snapshot_version_nonempty unfolding overlay_node_facts a(1) b(1) by metis+
    have uniq: "mesh_unique (sn_directory A)" unfolding dir ns by (rule directory_unique [OF view_server_ok(1)])
    have "self \<in> set (sn_directory A)" "self' \<in> set (sn_directory A)" using a(2) b(2) by (simp_all only: dir)
    then have "meshNodes (v_packet va') 0x0A4D0006 = Some ''n2''"
      using installed_view [OF va disjI2 [OF new(1)], unfolded dir(1), OF _ uniq] ip(2) b(3) by blast
    moreover have "mesh_prefix (v_packet va') = 24"
      using va overlay_node_facts(3) by (auto simp: applyTopology_def Let_def split: if_splits prod.splits)
    moreover have keep: "Packet_Path.node_id (v_packet va') = ''n1''" "meshIPv4 (v_packet va') = 0x0A4D0005"
      using installed_view [OF va disjI2 [OF new(1)], unfolded dir(1), OF _ uniq] \<open>self \<in> set (sn_directory A)\<close>
      unfolding overlay_node_facts by blast+
    ultimately have send: "tunFrame (v_packet va') overlay_packet = SendIP ''n2'' overlay_packet" by (intro overlay_sends)
    have "\<exists>q. deliver (v_packet vb') ''n1'' overlay_packet = Some q"
    proof (rule overlay_delivers [OF tok view_server_ok(1) f va new(1) vb new(2) _ _ _ _ _ _ _ send])
      obtain c where c: "s1 = view_server\<lparr>linkCache := c\<rparr>" by (rule bootstrap_keeps [OF f(1) tok])
      have "anyNodeTokenValid sample_digest view_request s1" using view_facts(2) by (simp add: c)
      then obtain c' where "s2 = s1\<lparr>linkCache := c'\<rparr>" using bootstrap_keeps [OF f(2) view_facts(1)] by blast
      then have "sn_firewall B = loadFirewall ''n2'' view_server" by (simp add: c b(1) make_snapshot_def loadFirewall_def Let_def)
      then have "fw_mode (sn_firewall B) = ''allow_all''" by (simp add: view_server_ok)
      then show "fw_mode (sn_firewall B) \<noteq> ''whitelist''" by simp
      show "20 \<le> ihl_of overlay_packet" by (simp add: overlay_packet_def ihl_of_def)
    qed (simp_all add: overlay_node_facts dir ip)
    then show ?thesis using f va vb send by blast
  qed
qed

end
