(* ===== verification/Control_Channel.thy ===== *)
theory Control_Channel
  imports Bootstrap
begin

text \<open>
  The control channel of the coordinator (server/control.go, the client of server/types.go, update reports of
  server/update_status.go): the handshake and the loop of a connection, the dispatch of its frames to the handlers
  of the HTTP interface, the binding of connections to nodes, events, and the rendezvous for symmetric scans.  The
  loops of all connections run as a step relation over one state.  A node is bound to one connection at a time,
  the newest; every accepted acknowledgement answers a request; and a token of one node is good for all.
\<close>

section \<open>State\<close>

record symmetricRendezvous =
  rv_source :: string
  rv_target :: string
  rv_expires :: int

record updateResult =
  ur_status :: string
  ur_detail :: string
  ur_arch :: string
  ur_at :: int

record controlClient =
  invited :: bool
  invite :: string
  credential :: string

text \<open>A connection is named by its session number, which no two connections share.  \<open>conns\<close> are the connections whose
  loop runs, \<open>controls\<close> the bindings of connections to node ids, in the order of the map.\<close>

record control_state =
  srv :: server
  conns :: "nat \<rightharpoonup> controlClient"
  controls :: "(nat \<times> string) list"
  controlSessions :: nat
  rendezvous :: "string \<rightharpoonup> symmetricRendezvous"
  updateResults :: "(string \<times> updateResult) list"

text \<open>The body of a frame is what the JSON decoder makes of it for each of the shapes that the handlers ask for; the
  condition of a bootstrap has one level more for the empty body.\<close>

record frame_body =
  as_register :: "register_body option"
  as_node_id :: "string option"
  as_service :: "service option"
  as_telemetry :: "(string \<times> LinkMeasurement list) option"
  as_status :: "(string \<times> string \<times> string \<times> string) option"
  as_condition :: "string option option"
  as_scan :: "(string \<times> string) option"
  as_ack :: "(string \<times> string) option"

record controlFrame =
  f_method :: string
  f_path :: string
  f_body :: frame_body

datatype control_value =
    Registered register_answer
  | Stored
  | View bootstrap_answer
  | Service service
  | Delivered
  | Acknowledged

section \<open>Update reports\<close>

abbreviation day :: int where "day \<equiv> 24 * 60 * 60"

definition updateStatusValues :: "string list" where
  "updateStatusValues = [''updating'', ''restarting'', ''done'', ''failed'']"

definition store_result :: "int \<Rightarrow> string \<Rightarrow> updateResult \<Rightarrow> (string \<times> updateResult) list \<Rightarrow> (string \<times> updateResult) list" where
  "store_result now i res rs =
     AList.update i res (if 2048 \<le> length rs then filter (\<lambda>(_, x). now - day \<le> ur_at x) rs else rs)"

definition nodeUpdateStatus ::
    "(string \<Rightarrow> string) \<Rightarrow> int \<Rightarrow> request \<Rightarrow> (string \<times> string \<times> string \<times> string) option \<Rightarrow> control_state \<Rightarrow>
     unit reply \<times> control_state" where
  "nodeUpdateStatus dg t r body cs =
     (case auth dg t r (srv cs) of
        (Inl e, s) \<Rightarrow> (Inl e, cs\<lparr>srv := s\<rparr>)
      | (Inr _, s) \<Rightarrow>
        (case body of
           None \<Rightarrow> (Inl (400, ''invalid update status report''), cs\<lparr>srv := s\<rparr>)
         | Some (i, arch, st, detail) \<Rightarrow>
           if i = [] \<or> 128 < length i then (Inl (400, ''invalid update status report''), cs\<lparr>srv := s\<rparr>)
           else if st \<notin> set updateStatusValues then (Inl (400, ''invalid update status''), cs\<lparr>srv := s\<rparr>)
           else case requireNodeAccess dg (unix t) r i s of
             (Inl e, s1) \<Rightarrow> (Inl e, cs\<lparr>srv := s1\<rparr>)
           | (Inr _, s1) \<Rightarrow>
             (Inr (), cs\<lparr>srv := s1, updateResults :=
                store_result (unix t) i
                  \<lparr>ur_status = st, ur_detail = take 512 detail, ur_arch = (if validGoArch arch then arch else []), ur_at = unix t\<rparr>
                  (updateResults cs)\<rparr>)))"

definition updateStatusSnapshot :: "int \<Rightarrow> control_state \<Rightarrow> (string \<times> updateResult) list \<times> control_state" where
  "updateStatusSnapshot now cs =
     (let kept = filter (\<lambda>(_, x). now - day \<le> ur_at x) (updateResults cs) in (kept, cs\<lparr>updateResults := kept\<rparr>))"

section \<open>Dispatch\<close>

definition trim_prefix :: "string \<Rightarrow> string \<Rightarrow> string option" where
  "trim_prefix p s = (if take (length p) s = p then Some (drop (length p) s) else None)"

definition control_http :: "controlFrame \<Rightarrow> string \<Rightarrow> string \<Rightarrow> request" where
  "control_http fr cred iv =
     \<lparr>Method = f_method fr, Path = f_path fr, RemoteAddr = ''control'', X_Mesh_Token = cred, X_Mesh_Invite = iv,
      X_CSRF_Token = [], session_cookie = None, csrf_cookie = None\<rparr>"

type_synonym control_answer = "((string + control_value reply) \<times> control_state) option"

text \<open>\<open>None\<close> is a call that does not return, \<open>Inl\<close> a panic of the handler.\<close>

definition answer :: "('a \<Rightarrow> control_value) \<Rightarrow> control_state \<Rightarrow> 'a reply \<times> server \<Rightarrow> control_answer" where
  "answer f cs res = Some (Inr (map_sum id f (fst res)), cs\<lparr>srv := snd res\<rparr>)"

definition bootstrap_control ::
    "encoders \<Rightarrow> (string \<Rightarrow> string) \<Rightarrow> (string \<Rightarrow> bytes) \<Rightarrow> int \<Rightarrow> request \<Rightarrow> string \<Rightarrow> string option option \<Rightarrow>
     control_state \<Rightarrow> control_answer" where
  "bootstrap_control enc dg sha t r i body cs =
     map_option (\<lambda>(res, s). (map_sum id (map_sum id View) res, cs\<lparr>srv := s\<rparr>)) (bootstrap enc dg sha t r i body (srv cs))"

definition controlRequestWithAuth ::
    "encoders \<Rightarrow> (string \<Rightarrow> string) \<Rightarrow> (string \<Rightarrow> bytes) \<Rightarrow> int \<Rightarrow> bytes option \<Rightarrow> string \<Rightarrow> string \<Rightarrow> controlFrame \<Rightarrow>
     control_state \<Rightarrow> control_answer" where
  "controlRequestWithAuth enc dg sha t rnd cred iv fr cs =
     (let r = control_http fr cred iv; b = f_body fr; path = f_path fr; post = (f_method fr = ''POST''); get = (f_method fr = ''GET'') in
      if f_method fr = [] \<or> path = [] then Some (Inr (Inl (400, ''missing method or path'')), cs)
      else if post \<and> path = ''/v1/register'' then
        (case register dg sha t rnd r (as_register b) (srv cs) of None \<Rightarrow> None | Some res \<Rightarrow> answer Registered cs res)
      else if post \<and> path = ''/v1/services'' then answer (\<lambda>_. Stored) cs (service_set dg t r (as_service b) (srv cs))
      else if post \<and> path = ''/v1/telemetry'' then answer (\<lambda>_. Stored) cs (telemetry dg t r (as_telemetry b) (srv cs))
      else if post \<and> path = ''/v1/update-status'' then
        (case nodeUpdateStatus dg t r (as_status b) cs of (res, cs') \<Rightarrow> Some (Inr (map_sum id (\<lambda>_. Stored) res), cs'))
      else if get \<and> trim_prefix ''/v1/bootstrap/'' path \<noteq> None then
        bootstrap_control enc dg sha t r (the (trim_prefix ''/v1/bootstrap/'' path)) (as_condition b) cs
      else if get \<and> trim_prefix ''/v1/services/'' path \<noteq> None then
        (case split_on CHR ''/'' (the (trim_prefix ''/v1/services/'' path)) of
           [i, name] \<Rightarrow> answer Service cs (serviceDetails dg t r i name (srv cs))
         | _ \<Rightarrow> Some (Inr (Inl (400, ''invalid service path'')), cs))
      else Some (Inr (Inl (404, ''unknown control operation'')), cs))"

section \<open>Connections\<close>

text \<open>The handshake of the route, and the client that the accepted connection starts with: without a token header it
  carries the token of the coordinator.\<close>

definition handshake :: "(string \<Rightarrow> string) \<Rightarrow> int \<Rightarrow> request \<Rightarrow> server \<Rightarrow> bool \<times> server" where
  "handshake dg t r s =
     (if networkTokenValid dg r s \<or> anyNodeTokenValid dg r s then (True, s)
      else case allowInviteAttempt t (RemoteAddr r) (inviteAttempts s) of
        (False, att) \<Rightarrow> (False, s\<lparr>inviteAttempts := att\<rparr>)
      | (True, att) \<Rightarrow> consumeInvite t (X_Mesh_Invite r) (s\<lparr>inviteAttempts := att\<rparr>))"

definition new_client :: "request \<Rightarrow> server \<Rightarrow> controlClient" where
  "new_client r s =
     \<lparr>invited = (X_Mesh_Invite r \<noteq> []), invite = X_Mesh_Invite r,
      credential = (if X_Mesh_Token r = [] then network_token s else X_Mesh_Token r)\<rparr>"

definition controlWS_open :: "(string \<Rightarrow> string) \<Rightarrow> int \<Rightarrow> request \<Rightarrow> control_state \<Rightarrow> nat option \<times> control_state" where
  "controlWS_open dg t r cs =
     (case handshake dg t r (srv cs) of
        (False, s) \<Rightarrow> (None, cs\<lparr>srv := s\<rparr>)
      | (True, s) \<Rightarrow>
        (let c = controlSessions cs + 1 in
         (Some c, cs\<lparr>srv := s, controlSessions := c, conns := (conns cs)(c \<mapsto> new_client r s)\<rparr>)))"

definition controlWS_close :: "nat \<Rightarrow> control_state \<Rightarrow> control_state" where
  "controlWS_close c cs = cs\<lparr>conns := (conns cs)(c := None), controls := filter (\<lambda>(o', _). o' \<noteq> c) (controls cs)\<rparr>"

definition finishInvite :: "string \<Rightarrow> controlClient \<Rightarrow> controlClient" where
  "finishInvite token cl =
     cl\<lparr>credential := (if token \<noteq> [] then token else credential cl), invite := [], invited := False\<rparr>"

text \<open>What an invited connection does with the answer to its registration: the answer gets the coordinator's token if
  it has none, and the token becomes the credential.\<close>

definition enroll :: "string \<Rightarrow> register_answer \<Rightarrow> controlClient \<Rightarrow> register_answer \<times> controlClient" where
  "enroll token ans cl =
     (let ans' = (if ans_token ans = None \<and> token \<noteq> [] then ans\<lparr>ans_token := Some token\<rparr> else ans) in
      (ans', finishInvite [] (case ans_token ans' of None \<Rightarrow> cl | Some tk \<Rightarrow> if tk = [] then cl else finishInvite tk cl)))"

text \<open>The binding of a connection to the node that it registered, under \<^verbatim>\<open>controlMu\<close>: older connections of the node
  lose theirs, a newer one keeps it.  The answer says whether the connection was bound before.\<close>

definition rebind :: "nat \<Rightarrow> string \<Rightarrow> (nat \<times> string) list \<Rightarrow> bool \<times> (nat \<times> string) list" where
  "rebind c i bs =
     (let superseded = list_ex (\<lambda>(o', j). o' \<noteq> c \<and> j = i \<and> c < o') bs;
          kept = filter (\<lambda>(o', j). \<not> (o' \<noteq> c \<and> j = i \<and> \<not> c < o')) bs in
      (map_of kept c = Some i, if superseded then kept else AList.update c i kept))"

definition registeredControlID :: "nat \<Rightarrow> control_state \<Rightarrow> string" where
  "registeredControlID c cs = (case map_of (controls cs) c of None \<Rightarrow> [] | Some i \<Rightarrow> i)"

text \<open>An event goes to the first connection of the node that takes it; \<open>works\<close> tells which sends succeed.  The second
  component are the connections that are closed on the way.\<close>

fun send_first :: "(nat \<Rightarrow> bool) \<Rightarrow> nat list \<Rightarrow> bool \<times> nat list" where
  "send_first works [] = (False, [])"
| "send_first works (c # cs) =
     (if works c then (True, []) else case send_first works cs of (ok, dead) \<Rightarrow> (ok, c # dead))"

definition sendControlEvent :: "(nat \<Rightarrow> bool) \<Rightarrow> string \<Rightarrow> control_state \<Rightarrow> bool \<times> nat list" where
  "sendControlEvent works i cs = send_first works (map fst (filter (\<lambda>(_, j). j = i) (controls cs)))"

section \<open>The scan rendezvous\<close>

definition validSymmetricSessionID :: "string \<Rightarrow> bool" where
  "validSymmetricSessionID x = (case hex_decode x of None \<Rightarrow> False | Some bs \<Rightarrow> length bs = 16)"

abbreviation scan_window :: int where "scan_window \<equiv> 30 * second"

text \<open>The checks of a request for a scan, with the entry that they let through.\<close>

definition scan_entry :: "int \<Rightarrow> nat \<Rightarrow> (string \<times> string) option \<Rightarrow> control_state \<Rightarrow> (string \<times> symmetricRendezvous) reply" where
  "scan_entry t c body cs =
     (let source = registeredControlID c cs in
      if source = [] then Inl (409, ''control connection is not registered'')
      else case body of
        None \<Rightarrow> Inl (400, ''invalid symmetric scan request'')
      | Some (target, x) \<Rightarrow>
        if target = [] \<or> \<not> validSymmetricSessionID x then Inl (400, ''invalid symmetric scan request'')
        else case registeredNode source (srv cs) of
          None \<Rightarrow> Inl (404, ''source node not found'')
        | Some a \<Rightarrow>
          (case registeredNode target (srv cs) of
             None \<Rightarrow> Inl (404, ''target node not found'')
           | Some b \<Rightarrow>
             if nat_type a \<noteq> ''symmetric'' \<or> nat_type b \<noteq> ''cone'' \<or> role b \<noteq> ''superpeer'' \<or> endpoint a = []
             then Inl (409, ''nodes are not a symmetric-to-superpeer pair'')
             else Inr (x, \<lparr>rv_source = source, rv_target = target, rv_expires = t + scan_window\<rparr>)))"

definition open_scan :: "int \<Rightarrow> string \<Rightarrow> symmetricRendezvous \<Rightarrow> control_state \<Rightarrow> control_state" where
  "open_scan t x rv cs =
     cs\<lparr>rendezvous := (\<lambda>k. case rendezvous cs k of None \<Rightarrow> None | Some p \<Rightarrow> if rv_expires p < t then None else Some p)(x \<mapsto> rv)\<rparr>"

definition withdraw_scan :: "string \<Rightarrow> control_state \<Rightarrow> control_state" where
  "withdraw_scan x cs = cs\<lparr>rendezvous := (rendezvous cs)(x := None)\<rparr>"

definition symmetricScanRequest ::
    "(nat \<Rightarrow> bool) \<Rightarrow> int \<Rightarrow> nat \<Rightarrow> (string \<times> string) option \<Rightarrow> control_state \<Rightarrow> control_value reply \<times> control_state" where
  "symmetricScanRequest works t c body cs =
     (case scan_entry t c body cs of
        Inl e \<Rightarrow> (Inl e, cs)
      | Inr (x, rv) \<Rightarrow>
        (let cs1 = open_scan t x rv cs in
         if fst (sendControlEvent works (rv_target rv) cs1) then (Inr Delivered, cs1)
         else (Inl (503, ''target node is not connected''), withdraw_scan x cs1)))"

text \<open>The part of an acknowledgement under \<^verbatim>\<open>symmetricMu\<close>: the entry is taken out.\<close>

definition take_scan :: "int \<Rightarrow> string \<Rightarrow> string \<Rightarrow> string \<Rightarrow> control_state \<Rightarrow> bool \<times> control_state" where
  "take_scan t source target x cs =
     (case rendezvous cs x of
        None \<Rightarrow> (False, cs)
      | Some p \<Rightarrow>
        if rv_source p = source \<and> rv_target p = target \<and> t < rv_expires p then (True, withdraw_scan x cs) else (False, cs))"

definition symmetricScanACK ::
    "(nat \<Rightarrow> bool) \<Rightarrow> int \<Rightarrow> nat \<Rightarrow> (string \<times> string) option \<Rightarrow> control_state \<Rightarrow> control_value reply \<times> control_state" where
  "symmetricScanACK works t c body cs =
     (let target = registeredControlID c cs in
      if target = [] then (Inl (409, ''control connection is not registered''), cs)
      else case body of
        None \<Rightarrow> (Inl (400, ''invalid symmetric scan ACK''), cs)
      | Some (source, x) \<Rightarrow>
        if source = [] \<or> \<not> validSymmetricSessionID x then (Inl (400, ''invalid symmetric scan ACK''), cs)
        else case take_scan t source target x cs of
          (False, cs1) \<Rightarrow> (Inl (409, ''unknown or expired symmetric scan session''), cs1)
        | (True, cs1) \<Rightarrow>
          if fst (sendControlEvent works source cs1) then (Inr Acknowledged, cs1)
          else (Inl (503, ''source node is not connected''), cs1))"

section \<open>One frame\<close>

definition is_register :: "controlFrame \<Rightarrow> bool" where
  "is_register fr = (f_method fr = ''POST'' \<and> f_path fr = ''/v1/register'')"

text \<open>The answer to a frame, the client after it, and the node whose binding is due once the answer is sent.\<close>

definition after_frame ::
    "string \<Rightarrow> controlFrame \<Rightarrow> controlClient \<Rightarrow> control_value reply \<Rightarrow> control_value reply \<times> controlClient \<times> (string \<times> bool) option" where
  "after_frame token fr cl out =
     (case out of
        Inr (Registered ans) \<Rightarrow>
          (case (if invited cl then enroll token ans cl else (ans, cl)) of (ans', cl') \<Rightarrow>
             (Inr (Registered ans'), cl',
              (case as_node_id (f_body fr) of None \<Rightarrow> None | Some i \<Rightarrow> if i = [] then None else Some (i, ans_changed ans'))))
      | _ \<Rightarrow> (out, cl, None))"

definition is_scan :: "controlFrame \<Rightarrow> bool" where
  "is_scan fr = (f_method fr = ''POST'' \<and> f_path fr = ''/v1/symmetric-scan'')"

definition is_ack :: "controlFrame \<Rightarrow> bool" where
  "is_ack fr = (f_method fr = ''POST'' \<and> f_path fr = ''/v1/symmetric-scan/ack'')"

definition controlWS_dispatch ::
    "encoders \<Rightarrow> (string \<Rightarrow> string) \<Rightarrow> (string \<Rightarrow> bytes) \<Rightarrow> (nat \<Rightarrow> bool) \<Rightarrow> int \<Rightarrow> bytes option \<Rightarrow> nat \<Rightarrow> controlClient \<Rightarrow>
     controlFrame \<Rightarrow> control_state \<Rightarrow> control_answer" where
  "controlWS_dispatch enc dg sha works t rnd c cl fr cs =
     (if is_scan fr then (case symmetricScanRequest works t c (as_scan (f_body fr)) cs of (out, cs') \<Rightarrow> Some (Inr out, cs'))
      else if is_ack fr then (case symmetricScanACK works t c (as_ack (f_body fr)) cs of (out, cs') \<Rightarrow> Some (Inr out, cs'))
      else controlRequestWithAuth enc dg sha t rnd (credential cl) (invite cl) fr cs)"

definition pushTopology ::
    "encoders \<Rightarrow> (string \<Rightarrow> string) \<Rightarrow> (string \<Rightarrow> bytes) \<Rightarrow> int \<Rightarrow> controlClient \<Rightarrow> string \<Rightarrow> control_state \<Rightarrow> control_answer" where
  "pushTopology enc dg sha t cl i cs =
     controlRequestWithAuth enc dg sha t None (credential cl) []
       \<lparr>f_method = ''GET'', f_path = ''/v1/bootstrap/'' @ i,
        f_body = \<lparr>as_register = None, as_node_id = None, as_service = None, as_telemetry = None, as_status = None,
          as_condition = None, as_scan = None, as_ack = None\<rparr>\<rparr> cs"

text \<open>Who gets a push after a binding: every bound connection when the topology changed, else the connection itself if it
  was not bound to the node before.\<close>

definition push_targets :: "nat \<Rightarrow> string \<Rightarrow> bool \<Rightarrow> bool \<Rightarrow> (nat \<times> string) list \<Rightarrow> (nat \<times> string) list" where
  "push_targets c i changed synced bs = (if changed then bs else if synced then [] else [(c, i)])"

section \<open>The loops of all connections\<close>

text \<open>What the loop of a connection still has to do: bind a registration that it answered, or finish a scan request
  whose entry is stored.\<close>

datatype duty = Idle | Bind string bool | Deliver string string

record control_run =
  state :: control_state
  duties :: "nat \<Rightarrow> duty"

text \<open>The rendezvous as it is seen from outside: a request of a node for a scan by another, and an acknowledgement that
  was accepted.  Newest first.\<close>

datatype scan_event = Asked string string string int | Granted string string string int

fun event_session :: "scan_event \<Rightarrow> string" where
  "event_session (Asked source target x t) = x"
| "event_session (Granted source target x t) = x"

definition set_duty :: "nat \<Rightarrow> duty \<Rightarrow> control_run \<Rightarrow> control_run" where
  "set_duty c d run = run\<lparr>duties := (duties run)(c := d)\<rparr>"

text \<open>The steps of the coordinator.  The mutexes make each of them atomic, between them anything may happen; other
  requests change the database in any way.\<close>

inductive control_step ::
    "encoders \<Rightarrow> (string \<Rightarrow> string) \<Rightarrow> (string \<Rightarrow> bytes) \<Rightarrow> control_run \<times> scan_event list \<Rightarrow> control_run \<times> scan_event list \<Rightarrow> bool"
  for enc dg sha where
    accepted: "controlWS_open dg t r (state run) = (c, cs) \<Longrightarrow>
      control_step enc dg sha (run, es) (run\<lparr>state := cs, duties := (case c of None \<Rightarrow> duties run | Some k \<Rightarrow> (duties run)(k := Idle))\<rparr>, es)"
  | frame: "conns (state run) c = Some cl \<Longrightarrow> duties run c = Idle \<Longrightarrow> \<not> is_scan fr \<Longrightarrow> \<not> is_ack fr \<Longrightarrow>
      controlRequestWithAuth enc dg sha t rnd (credential cl) (invite cl) fr (state run) = Some (Inr out, cs) \<Longrightarrow>
      after_frame (network_token (srv cs)) fr cl out = (out', cl', due) \<Longrightarrow>
      control_step enc dg sha (run, es)
        (set_duty c (case due of None \<Rightarrow> Idle | Some (i, changed) \<Rightarrow> Bind i changed)
           (run\<lparr>state := cs\<lparr>conns := (conns cs)(c \<mapsto> cl')\<rparr>\<rparr>), es)"
  | frame_panics: "conns (state run) c = Some cl \<Longrightarrow> duties run c = Idle \<Longrightarrow>
      controlRequestWithAuth enc dg sha t rnd (credential cl) (invite cl) fr (state run) = Some (Inl msg, cs) \<Longrightarrow>
      control_step enc dg sha (run, es) (set_duty c Idle (run\<lparr>state := controlWS_close c cs\<rparr>), es)"
  | binds: "conns (state run) c = Some cl \<Longrightarrow> duties run c = Bind i changed \<Longrightarrow>
      rebind c i (controls (state run)) = (synced, bs) \<Longrightarrow>
      control_step enc dg sha (run, es) (set_duty c Idle (run\<lparr>state := (state run)\<lparr>controls := bs\<rparr>\<rparr>), es)"
  | pushes: "conns (state run) c = Some cl \<Longrightarrow> pushTopology enc dg sha t cl i (state run) = Some (Inr out, cs) \<Longrightarrow>
      control_step enc dg sha (run, es) (run\<lparr>state := cs\<rparr>, es)"
  | asks: "conns (state run) c = Some cl \<Longrightarrow> duties run c = Idle \<Longrightarrow> is_scan fr \<Longrightarrow>
      scan_entry t c (as_scan (f_body fr)) (state run) = Inr (x, rv) \<Longrightarrow>
      control_step enc dg sha (run, es)
        (set_duty c (Deliver (rv_target rv) x) (run\<lparr>state := open_scan t x rv (state run)\<rparr>),
         Asked (rv_source rv) (rv_target rv) x t # es)"
  | delivers: "duties run c = Deliver target x \<Longrightarrow> fst (sendControlEvent works target (state run)) \<Longrightarrow>
      control_step enc dg sha (run, es) (set_duty c Idle run, es)"
  | fails: "duties run c = Deliver target x \<Longrightarrow> \<not> fst (sendControlEvent works target (state run)) \<Longrightarrow>
      control_step enc dg sha (run, es) (set_duty c Idle (run\<lparr>state := withdraw_scan x (state run)\<rparr>), es)"
  | grants: "conns (state run) c = Some cl \<Longrightarrow> duties run c = Idle \<Longrightarrow>
      registeredControlID c (state run) = target \<Longrightarrow> target \<noteq> [] \<Longrightarrow> take_scan t source target x (state run) = (True, cs) \<Longrightarrow>
      control_step enc dg sha (run, es) (run\<lparr>state := cs\<rparr>, Granted source target x t # es)"
  | closes: "\<forall>target x. duties run c \<noteq> Deliver target x \<Longrightarrow>
      control_step enc dg sha (run, es) (set_duty c Idle (run\<lparr>state := controlWS_close c (state run)\<rparr>), es)"
  | others: "control_step enc dg sha (run, es) (run\<lparr>state := (state run)\<lparr>srv := s\<rparr>\<rparr>, es)"

definition control_start :: "server \<Rightarrow> control_run" where
  "control_start s =
     \<lparr>state = \<lparr>srv = s, conns = Map.empty, controls = [], controlSessions = 0, rendezvous = Map.empty, updateResults = []\<rparr>,
      duties = (\<lambda>_. Idle)\<rparr>"

section \<open>Bindings\<close>

lemma request_keeps:
  assumes "controlRequestWithAuth enc dg sha t rnd cred iv fr cs = Some (res, cs')"
  shows "conns cs' = conns cs \<and> controls cs' = controls cs \<and> controlSessions cs' = controlSessions cs \<and> rendezvous cs' = rendezvous cs"
proof -
  have "conns (snd (nodeUpdateStatus dg t r b cs)) = conns cs \<and> controls (snd (nodeUpdateStatus dg t r b cs)) = controls cs
      \<and> controlSessions (snd (nodeUpdateStatus dg t r b cs)) = controlSessions cs
      \<and> rendezvous (snd (nodeUpdateStatus dg t r b cs)) = rendezvous cs" for r b
    by (simp add: nodeUpdateStatus_def split: prod.split sum.split option.split)
  note upd = this [of "control_http fr cred iv" "as_status (f_body fr)"]
  show ?thesis
    using assms upd unfolding controlRequestWithAuth_def Let_def answer_def bootstrap_control_def
    by (auto split: if_split_asm option.split_asm prod.split_asm list.split_asm)
qed

definition bound_once :: "(nat \<times> string) list \<Rightarrow> bool" where
  "bound_once bs \<longleftrightarrow> distinct (map fst bs) \<and> (\<forall>a b i. map_of bs a = Some i \<longrightarrow> map_of bs b = Some i \<longrightarrow> a = b)"

lemma map_of_filter_keys:
  "distinct (map fst bs) \<Longrightarrow> map_of (filter P bs) a = (case map_of bs a of None \<Rightarrow> None | Some j \<Rightarrow> if P (a, j) then Some j else None)"
proof (induction bs)
  case (Cons b bs)
  have "map_of (filter P bs) a = None" if "map_of bs a = None"
    using that by (auto simp: map_of_eq_None_iff)
  then show ?case using Cons by (cases b) (auto simp: map_of_eq_None_iff)
qed simp

lemma list_ex_map_of: "distinct (map fst bs) \<Longrightarrow> list_ex (\<lambda>(a, j). P a j) bs \<longleftrightarrow> (\<exists>a j. map_of bs a = Some j \<and> P a j)"
  by (auto simp: list_ex_iff Bex_def map_of_eq_Some_iff)

text \<open>The connection that the node is bound to afterwards is the newest of the old one and the registering one.\<close>

definition newer_bound :: "nat \<Rightarrow> string \<Rightarrow> (nat \<times> string) list \<Rightarrow> bool" where
  "newer_bound c i bs = (\<exists>o'. map_of bs o' = Some i \<and> c < o')"

lemma rebind_map:
  assumes "rebind c i bs = (synced, bs')" "distinct (map fst bs)"
  shows "distinct (map fst bs') \<and> synced = (map_of bs c = Some i) \<and>
    map_of bs' a =
      (if a = c then (if newer_bound c i bs then map_of bs c else Some i)
       else if map_of bs a = Some i \<and> a < c then None else map_of bs a)"
proof -
  define kept where "kept = filter (\<lambda>(o', j). \<not> (o' \<noteq> c \<and> j = i \<and> \<not> c < o')) bs"
  have sup: "list_ex (\<lambda>(o', j). o' \<noteq> c \<and> j = i \<and> c < o') bs \<longleftrightarrow> newer_bound c i bs"
    using list_ex_map_of [OF assms(2), of "\<lambda>o' j. o' \<noteq> c \<and> j = i \<and> c < o'"] by (auto simp: newer_bound_def)
  have r: "synced = (map_of kept c = Some i)" "bs' = (if newer_bound c i bs then kept else AList.update c i kept)"
    using assms(1) unfolding rebind_def Let_def sup kept_def [symmetric] by simp_all
  have k: "map_of kept a = (if a \<noteq> c \<and> map_of bs a = Some i \<and> a < c then None else map_of bs a)" for a
    unfolding kept_def map_of_filter_keys [OF assms(2)] by (auto split: option.split)
  have "distinct (map fst kept)" unfolding kept_def using assms(2) by (rule distinct_map_filter)
  then have "distinct (map fst bs')" by (simp add: r(2) distinct_update)
  moreover have "map_of bs' a = (if a = c then (if newer_bound c i bs then map_of bs c else Some i)
       else if map_of bs a = Some i \<and> a < c then None else map_of bs a)"
    unfolding r(2) by (simp add: k update_conv')
  ultimately show ?thesis using r(1) by (simp add: k)
qed

lemma rebind_once:
  assumes "rebind c i bs = (synced, bs')" "bound_once bs"
  shows "bound_once bs'"
proof -
  have d: "distinct (map fst bs)" using assms(2) by (simp add: bound_once_def)
  note r = rebind_map [OF assms(1) d]
  have inj: "a = b" if "map_of bs a = Some j" "map_of bs b = Some j" for a b j
    using assms(2) that unfolding bound_once_def by blast
  have old: "map_of bs b = Some j" if "b \<noteq> c" "map_of bs' b = Some j" for b j
    using r [of b] that by (simp split: if_splits)
  have mixed: False if "b \<noteq> c" "map_of bs' c = Some j" "map_of bs' b = Some j" for b j
  proof -
    have b: "map_of bs b = Some j" "\<not> (j = i \<and> b < c)" using r [of b] that(1,3) by (auto split: if_splits)
    show False
    proof (cases "newer_bound c i bs")
      case True
      then have "map_of bs c = Some j" using r [of c] that(2) by simp
      then show False using inj b(1) that(1) by blast
    next
      case False
      then have "j = i" using r [of c] that(2) by simp
      then show False using False b that(1) by (auto simp: newer_bound_def)
    qed
  qed
  have "a = b" if ab: "map_of bs' a = Some j" "map_of bs' b = Some j" for a b j
  proof (cases "a = c \<or> b = c")
    case True
    then show ?thesis using mixed [of a j] mixed [of b j] ab by auto
  next
    case False
    then show ?thesis using inj [OF old old] ab by blast
  qed
  then show ?thesis unfolding bound_once_def using r by blast
qed

section \<open>Every node is bound once\<close>

definition bindings_ok :: "control_run \<Rightarrow> bool" where
  "bindings_ok run \<longleftrightarrow> bound_once (controls (state run)) \<and>
     (\<forall>c i. map_of (controls (state run)) c = Some i \<longrightarrow> i \<noteq> [] \<and> conns (state run) c \<noteq> None) \<and>
     (\<forall>c. conns (state run) c \<noteq> None \<longrightarrow> c \<le> controlSessions (state run)) \<and>
     (\<forall>c i changed. duties run c = Bind i changed \<longrightarrow> i \<noteq> [])"

lemma after_frame_due: "after_frame token fr cl out = (out', cl', Some (i, changed)) \<Longrightarrow> i \<noteq> []"
  by (auto simp: after_frame_def split: sum.splits control_value.splits prod.splits option.splits if_splits)

lemma bound_once_close: "bound_once bs \<Longrightarrow> bound_once (filter (\<lambda>(o', _). o' \<noteq> c) bs)"
  by (auto simp: bound_once_def map_of_filter_keys distinct_map_filter split: option.splits if_splits)

lemma bindings_ok_cong:
  assumes "bindings_ok run" "controls cs = controls (state run)" "conns cs = (conns (state run))(c \<mapsto> cl)"
    "conns (state run) c \<noteq> None" "controlSessions cs = controlSessions (state run)" "\<forall>i changed. d = Bind i changed \<longrightarrow> i \<noteq> []"
  shows "bindings_ok (set_duty c d (run\<lparr>state := cs\<rparr>))"
  using assms by (simp add: bindings_ok_def set_duty_def) blast

lemma bindings_ok_same:
  assumes "bindings_ok run" "controls (state run') = controls (state run)" "conns (state run') = conns (state run)"
    "controlSessions (state run') = controlSessions (state run)"
    "\<And>c i changed. duties run' c = Bind i changed \<Longrightarrow> duties run c = Bind i changed"
  shows "bindings_ok run'"
  using assms(1,5) unfolding bindings_ok_def assms(2-4) by blast

lemma bindings_ok_close:
  assumes "bindings_ok run" "controls cs = controls (state run)" "conns cs = conns (state run)"
    "controlSessions cs = controlSessions (state run)"
  shows "bindings_ok (set_duty c Idle (run\<lparr>state := controlWS_close c cs\<rparr>))"
proof -
  have "distinct (map fst (controls (state run)))" using assms(1) by (simp add: bindings_ok_def bound_once_def)
  note m = map_of_filter_keys [OF this]
  have "bound_once (filter (\<lambda>(o', _). o' \<noteq> c) (controls (state run)))"
    using assms(1) by (intro bound_once_close) (simp add: bindings_ok_def)
  then show ?thesis using assms
    by (simp add: bindings_ok_def set_duty_def controlWS_close_def m split: option.split)
qed

lemma controlWS_open_cases:
  assumes "controlWS_open dg t r cs = (k, cs')"
  obtains s where "k = None" "cs' = cs\<lparr>srv := s\<rparr>"
  | s where "k = Some (controlSessions cs + 1)"
      "cs' = cs\<lparr>srv := s, controlSessions := controlSessions cs + 1, conns := (conns cs)(controlSessions cs + 1 \<mapsto> new_client r s)\<rparr>"
  using assms by (auto simp: controlWS_open_def Let_def split: prod.splits bool.splits)

lemma bindings_step:
  assumes "control_step enc dg sha (run, es) (run', es')" "bindings_ok run"
  shows "bindings_ok run'"
  using assms
proof (cases rule: control_step.cases)
  case (accepted t r k cs)
  from accepted(3) show ?thesis
  proof (rule controlWS_open_cases)
    fix s assume "k = None" "cs = (state run)\<lparr>srv := s\<rparr>"
    then show ?thesis using assms(2) accepted by (simp add: bindings_ok_def)
  next
    fix s assume "k = Some (controlSessions (state run) + 1)"
      "cs = (state run)\<lparr>srv := s, controlSessions := controlSessions (state run) + 1,
         conns := (conns (state run))(controlSessions (state run) + 1 \<mapsto> new_client r s)\<rparr>"
    then show ?thesis using assms(2) accepted by (auto simp: bindings_ok_def le_Suc_eq)
  qed
next
  case (frame c cl fr t rnd out cs out' cl' due)
  have "\<forall>i changed. (case due of None \<Rightarrow> Idle | Some (i, changed) \<Rightarrow> Bind i changed) = Bind i changed \<longrightarrow> i \<noteq> []"
    using after_frame_due frame by (auto split: option.splits prod.splits)
  then show ?thesis using frame request_keeps [OF frame(7)] assms(2) by (auto intro!: bindings_ok_cong)
next
  case (frame_panics c cl t rnd fr msg cs)
  then show ?thesis using request_keeps [OF frame_panics(5)] assms(2) by (simp add: bindings_ok_close)
next
  case (binds c cl i changed synced bs)
  have d: "distinct (map fst (controls (state run)))" using assms(2) by (simp add: bindings_ok_def bound_once_def)
  have "i \<noteq> []" using binds(4) assms(2) unfolding bindings_ok_def by blast
  have old: "j \<noteq> [] \<and> conns (state run) a \<noteq> None" if "map_of (controls (state run)) a = Some j" for a j
    using assms(2) that unfolding bindings_ok_def by blast
  have "j \<noteq> [] \<and> conns (state run) a \<noteq> None" if a: "map_of bs a = Some j" for a j
  proof (cases "map_of (controls (state run)) a = Some j")
    case False
    then have "a = c" "j = i" using rebind_map [OF binds(5) d, of a] a by (simp_all split: if_splits)
    then show ?thesis using \<open>i \<noteq> []\<close> binds(3) by simp
  qed (use old in blast)
  then show ?thesis using rebind_once [OF binds(5)] assms(2) unfolding binds(1) bindings_ok_def set_duty_def by simp
next
  case (pushes c cl t i out cs)
  then show ?thesis using request_keeps [of enc dg sha t None "credential cl" "[]"] assms(2)
    unfolding pushTopology_def by (auto simp: bindings_ok_def)
next
  case closes
  then show ?thesis using assms(2) by (simp add: bindings_ok_close)
qed (auto simp: set_duty_def open_scan_def withdraw_scan_def take_scan_def split: option.splits if_splits
      elim!: bindings_ok_same intro: bindings_ok_same [OF assms(2)])

abbreviation control_reachable ::
    "encoders \<Rightarrow> (string \<Rightarrow> string) \<Rightarrow> (string \<Rightarrow> bytes) \<Rightarrow> server \<Rightarrow> control_run \<Rightarrow> scan_event list \<Rightarrow> bool" where
  "control_reachable enc dg sha s run es \<equiv> (control_step enc dg sha)\<^sup>*\<^sup>* (control_start s, []) (run, es)"

lemma bindings_reachable: "control_reachable enc dg sha s run es \<Longrightarrow> bindings_ok run"
proof (induction "(run, es)" arbitrary: run es rule: rtranclp_induct)
  case base
  then show ?case by (simp add: bindings_ok_def control_start_def bound_once_def)
next
  case (step mid)
  then show ?case using bindings_step by (cases mid) blast
qed

lemma send_first_ok: "fst (send_first works cs) \<longleftrightarrow> (\<exists>c \<in> set cs. works c)"
  by (induction cs) (auto split: prod.split)

lemma event_delivered:
  assumes "distinct (map fst (controls cs))"
  shows "fst (sendControlEvent works i cs) \<longleftrightarrow> (\<exists>c. map_of (controls cs) c = Some i \<and> works c)"
  using assms by (auto simp: sendControlEvent_def send_first_ok map_of_eq_Some_iff)

text \<open>C20: at every moment a node has at most one control connection, and events for the node go there and nowhere else.
  Whatever registers next, the node is bound afterwards to one connection, which was accepted no earlier than the
  one that registered: a delayed answer of an old connection never takes the binding from a newer one.\<close>

theorem control_binding:
  assumes "control_reachable enc dg sha s run es"
  shows "(\<forall>c i. registeredControlID c (state run) = i \<and> i \<noteq> [] \<longrightarrow>
      (\<forall>d. registeredControlID d (state run) = i \<longrightarrow> d = c) \<and>
      (\<forall>works. fst (sendControlEvent works i (state run)) = works c)) \<and>
    (\<forall>c i synced bs. rebind c i (controls (state run)) = (synced, bs) \<longrightarrow>
      (\<exists>a \<ge> c. \<forall>b. map_of bs b = Some i \<longleftrightarrow> b = a))"
proof (intro conjI allI impI, goal_cases)
  case (1 c i d)
  from 1(1) have "registeredControlID c (state run) = i" "i \<noteq> []" by simp_all
  then have "map_of (controls (state run)) c = Some i" "map_of (controls (state run)) d = Some i"
    using 1(2) by (simp_all add: registeredControlID_def split: option.splits)
  then show ?case using bindings_reachable [OF assms] unfolding bindings_ok_def bound_once_def by blast
next
  case (2 c i works)
  then have "registeredControlID c (state run) = i" "i \<noteq> []" by simp_all
  then have "map_of (controls (state run)) c = Some i" by (simp add: registeredControlID_def split: option.splits)
  then show ?case using bindings_reachable [OF assms] event_delivered [of "state run" works i]
    unfolding bindings_ok_def bound_once_def by metis
next
  case (3 c i synced bs)
  have once: "bound_once (controls (state run))" using bindings_reachable [OF assms] by (simp add: bindings_ok_def)
  have d: "distinct (map fst (controls (state run)))" using once by (simp add: bound_once_def)
  note r = rebind_map [OF 3 d]
  have uniq: "b = a" if "map_of bs a = Some i" "map_of bs b = Some i" for a b
    using rebind_once [OF 3 once] that unfolding bound_once_def by blast
  have "\<exists>a \<ge> c. map_of bs a = Some i"
  proof (cases "newer_bound c i (controls (state run))")
    case True
    then obtain a where "map_of (controls (state run)) a = Some i" "c < a" by (auto simp: newer_bound_def)
    then show ?thesis using r [of a] by (intro exI [of _ a]) simp
  next
    case False
    then show ?thesis using r [of c] by (intro exI [of _ c]) simp
  qed
  then show ?case using uniq by blast
qed

section \<open>Acknowledgements\<close>

definition last_on :: "string \<Rightarrow> scan_event list \<Rightarrow> scan_event option" where
  "last_on x es = find (\<lambda>e. event_session e = x) es"

fun log_ok :: "scan_event list \<Rightarrow> bool" where
  "log_ok [] = True"
| "log_ok (Asked source target x t # es) = log_ok es"
| "log_ok (Granted source target x t # es) =
     ((\<exists>t0. last_on x es = Some (Asked source target x t0) \<and> t < t0 + scan_window) \<and> log_ok es)"

text \<open>Every entry of the rendezvous stands for the last event on its session.\<close>

definition scans_ok :: "control_run \<Rightarrow> scan_event list \<Rightarrow> bool" where
  "scans_ok run es \<longleftrightarrow> log_ok es \<and> (\<forall>x p. rendezvous (state run) x = Some p \<longrightarrow>
     (\<exists>t0. last_on x es = Some (Asked (rv_source p) (rv_target p) x t0) \<and> rv_expires p = t0 + scan_window))"

lemma scans_keep: "scans_ok run es \<Longrightarrow> rendezvous (state run') = rendezvous (state run) \<Longrightarrow> scans_ok run' es"
  by (simp add: scans_ok_def)

lemma scans_step:
  assumes "control_step enc dg sha (run, es) (run', es')" "scans_ok run es"
  shows "scans_ok run' es'"
  using assms
proof (cases rule: control_step.cases)
  case (accepted t r k cs)
  have "rendezvous cs = rendezvous (state run)" using accepted(3) by (rule controlWS_open_cases) simp_all
  then show ?thesis using accepted assms(2) by (auto intro: scans_keep)
next
  case (frame c cl fr t rnd out cs out' cl' due)
  then show ?thesis using request_keeps [OF frame(7)] assms(2) by (auto simp: set_duty_def intro: scans_keep)
next
  case (frame_panics c cl t rnd fr msg cs)
  then show ?thesis using request_keeps [OF frame_panics(5)] assms(2) by (auto simp: set_duty_def controlWS_close_def intro: scans_keep)
next
  case (pushes c cl t i out cs)
  then show ?thesis using request_keeps [of enc dg sha t None "credential cl" "[]"] assms(2)
    unfolding pushTopology_def by (auto intro: scans_keep)
next
  case (asks c cl fr t x rv)
  have rv: "rv_expires rv = t + scan_window"
    using asks(6) by (auto simp: scan_entry_def Let_def split: option.splits if_splits)
  show ?thesis using assms(2) rv unfolding asks(1,2)
    by (auto simp: scans_ok_def set_duty_def open_scan_def last_on_def split: option.splits if_splits)
next
  case (fails c target x works)
  then show ?thesis using assms(2) by (auto simp: scans_ok_def set_duty_def withdraw_scan_def)
next
  case (grants c cl target t source x cs)
  obtain p where p: "rendezvous (state run) x = Some p" "rv_source p = source" "rv_target p = target" "t < rv_expires p"
    "cs = withdraw_scan x (state run)"
    using grants(7) by (auto simp: take_scan_def split: option.splits if_splits)
  then obtain t0 where "last_on x es = Some (Asked source target x t0)" "rv_expires p = t0 + scan_window"
    using assms(2) unfolding scans_ok_def by blast
  then have "log_ok es'" using assms(2) p(4) unfolding grants(2) scans_ok_def by simp
  then show ?thesis using assms(2) p(5) unfolding grants(1,2)
    by (auto simp: scans_ok_def withdraw_scan_def last_on_def split: if_splits)
qed (auto simp: set_duty_def controlWS_close_def intro: scans_keep)

lemma scans_reachable: "control_reachable enc dg sha s run es \<Longrightarrow> scans_ok run es"
proof (induction "(run, es)" arbitrary: run es rule: rtranclp_induct)
  case base
  then show ?case by (simp add: scans_ok_def control_start_def)
next
  case (step mid)
  then show ?case using scans_step by (cases mid) blast
qed

lemma log_ok_append: "log_ok (later @ es) \<Longrightarrow> log_ok es"
  by (induction later rule: log_ok.induct) auto

text \<open>C21: every accepted acknowledgement answers a request.  Before it, and with nothing on the same session in between,
  the acknowledged node asked for a scan by the acknowledging one, less than thirty seconds ago; so no request is
  acknowledged twice, by another node, or late, in whatever order the connections run.\<close>

theorem scan_ack_matches:
  assumes "control_reachable enc dg sha s run es" "es = later @ Granted source target x t # earlier"
  shows "\<exists>t0. find (\<lambda>e. event_session e = x) earlier = Some (Asked source target x t0) \<and> t < t0 + 30 * second"
proof -
  have "log_ok (Granted source target x t # earlier)"
    using scans_reachable [OF assms(1)] log_ok_append unfolding assms(2) scans_ok_def by blast
  then show ?thesis by (simp add: last_on_def)
qed

section \<open>Who may register whom\<close>

definition endpoint_of :: "string \<Rightarrow> server \<Rightarrow> string option" where
  "endpoint_of i s = map_option endpoint (registeredNode i s)"

lemma endpoint_of_map:
  "(\<And>n. Server_State.node_id (f n) = Server_State.node_id n) \<Longrightarrow>
   map_option endpoint (find (\<lambda>n. Server_State.node_id n = i) (map f ns)) =
     map_option (\<lambda>n. endpoint (f n)) (find (\<lambda>n. Server_State.node_id n = i) ns)"
  by (induction ns) auto

lemma set_role_endpoint: "endpoint_of i (set_role j rl s) = endpoint_of i s"
  unfolding endpoint_of_def registeredNode_def set_role_def
  by (simp add: endpoint_of_map if_distrib [where f = endpoint] cong: option.map_cong if_cong)

lemma apply_roles_endpoint: "endpoint_of i (snd (apply_roles super ns changed s)) = endpoint_of i s"
  by (induction super ns changed s rule: apply_roles.induct) (auto simp: set_role_endpoint)

lemma rebalance_after_endpoint: "endpoint_of i (rebalance_after now ttl pl s) = endpoint_of i s"
proof -
  obtain ch s' where s': "rebalanceRolesFor now (plan_account pl) s = (ch, s')" by force
  then have "endpoint_of i s' = endpoint_of i s" using apply_roles_endpoint by (metis rebalanceRolesFor_def snd_conv)
  then show ?thesis using s'
    by (simp add: rebalance_after_def invalidateLinkCache_def endpoint_of_def registeredNode_def)
qed

lemma fold_links_nodes: "nodes (snd (fold_links t i xs changed s)) = nodes s"
  by (induction t i xs changed s rule: fold_links.induct) (simp_all add: Let_def)

lemma heartbeat_endpoint: "endpoint_of j (heartbeat_links t i xs s) = endpoint_of j s"
  using fold_links_nodes [of t i xs False s]
  by (auto simp: heartbeat_links_def updateLinkMetrics_def endpoint_of_def registeredNode_def split: prod.split)

text \<open>A body that repeats the registered key of a node, with another endpoint.\<close>

definition renews :: "(string \<Rightarrow> bytes) \<Rightarrow> node \<Rightarrow> register_body \<Rightarrow> bool" where
  "renews sha n d \<longleftrightarrow> d_id d = Server_State.node_id n \<and> d_public d = public_key n \<and> mesh_ip n \<noteq> [] \<and>
     map_option (NodeID sha) (B64Decode (public_key n)) = Some (Server_State.node_id n) \<and>
     valid_body d \<and> validGoArch (d_goarch d) \<and> SplitHostPort (d_endpoint d) \<noteq> None \<and> d_mesh_ip d = [] \<and> d_role d \<noteq> ''superpeer''"

lemma register_known:
  assumes "session_cookie r = None" "networkTokenValid dg r s \<or> anyNodeTokenValid dg r s" "accountTokenUser dg r s = None"
    "X_Mesh_Invite r = []" "registeredNode i s = Some n" "role_overrides s i = None" "\<not> nodeRevoked i s" "renews sha n d"
  shows "\<exists>ans s'. register dg sha t rnd r (Some d) s = Some (Inr ans, s') \<and> endpoint_of i s' = Some (d_endpoint d)"
proof -
  have i: "Server_State.node_id n = i" using assms(5) by (auto simp: registeredNode_def dest: find_SomeD)
  have d: "d_id d = i" "d_public d = public_key n" "d_mesh_ip d = []" "mesh_ip n \<noteq> []" "overridden s d = d"
    using assms(5,6,8) i by (simp_all add: renews_def overridden_def)
  obtain pl where pl: "plan_registration sha None d s = Inr pl" "plan_previous pl = Some n" "plan_body pl = d\<lparr>d_capacity := clamp_capacity (d_capacity d)\<rparr>"
    using assms(5,7,8) i d by (auto simp: plan_registration_def renews_def Let_def)
  have c: "register_check dg sha t r (Some d) s = (Inr pl, s)"
    using token_request [OF assms(1,2)] pl(1) assms(3,4) by (simp add: register_check_def invited_owner_def Let_def)
  define s2 where "s2 = s\<lparr>nodes := map (\<lambda>m. if Server_State.node_id m = i then update_row (unix t) (TTL (config s)) (initial_role pl) (mesh_ip n) pl m else m) (nodes s)\<rparr>"
  have commit: "register_commit (unix t) pl s = Some (Inr (mesh_ip n), s2)"
    using pl(2,3) d by (simp add: register_commit_def claim_ip_def write_row_def s2_def Let_def)
  have "endpoint_of i s2 = Some (d_endpoint d)"
  proof -
    have "endpoint_of i s2 = map_option (\<lambda>m. endpoint (if Server_State.node_id m = i then
        update_row (unix t) (TTL (config s)) (initial_role pl) (mesh_ip n) pl m else m)) (registeredNode i s)"
      unfolding endpoint_of_def registeredNode_def s2_def
      by (simp add: endpoint_of_map update_row_def Let_def)
    then show ?thesis using assms(5) i pl(3) by (simp add: update_row_def Let_def)
  qed
  moreover have "\<exists>ans s3. register_finish dg t rnd r (mesh_ip n) pl s2 = (Inr ans, s3) \<and> endpoint_of i s3 = endpoint_of i s2"
    using assms(4) by (simp add: register_finish_def Let_def rebalance_after_endpoint heartbeat_endpoint)
  ultimately show ?thesis using c commit by (auto simp: register_def)
qed

text \<open>A credential of one node is good for all nodes.  With a valid token of any node, that of no account, a request
  passes the authorisation and the access check for every node, and it can register every known node anew with an
  endpoint of its choice: the public key is enough, and the token is never compared with the node.\<close>

lemma node_token_unbound:
  assumes "session_cookie r = None" "anyNodeTokenValid dg r s" "accountTokenUser dg r s = None" "X_Mesh_Invite r = []"
    "registeredNode i s = Some n" "role_overrides s i = None" "\<not> nodeRevoked i s" "renews sha n d"
  shows "auth dg t r s = (Inr (), s) \<and> requireNodeAccess dg now r j s = (Inr (), s) \<and>
    (\<exists>ans s'. register dg sha t rnd r (Some d) s = Some (Inr ans, s') \<and> endpoint_of i s' = Some (d_endpoint d))"
  using token_request [OF assms(1) disjI2 [OF assms(2)]] assms(3) register_known [OF assms(1) disjI2 [OF assms(2)] assms(3-8)]
  by (simp add: requireNodeAccess_def)

section \<open>A concrete coordinator\<close>

definition length_sha :: "string \<Rightarrow> bytes" where
  "length_sha x = replicate 32 (of_nat (length x))"

definition scan_id :: "bytes \<Rightarrow> string" where
  "scan_id key = NodeID length_sha key"

definition scan_node :: "bytes \<Rightarrow> string \<Rightarrow> string \<Rightarrow> ipv4 \<Rightarrow> node" where
  "scan_node key kind rl ip = (sample_node_row (scan_id key))\<lparr>public_key := B64Encode key, nat_type := kind, role := rl, mesh_ip := Addr_String ip\<rparr>"

definition scan_server :: server where
  "scan_server = sample_server\<lparr>nodes := [scan_node [1] ''symmetric'' ''client'' 0x0A420001, scan_node [1, 2] ''cone'' ''superpeer'' 0x0A420002],
     node_tokens := [\<lparr>nt_node = ''n1'', nt_hash = sample_digest ''t1'', nt_created = 0, nt_revoked = None\<rparr>]\<rparr>"

definition scan_body :: "bytes \<Rightarrow> string \<Rightarrow> register_body" where
  "scan_body key kind = \<lparr>d_id = scan_id key, d_public = B64Encode key, d_nat = kind, d_role = ''auto'', d_endpoint = ''5.6.7.8:9'',
     d_mesh_ip = [], d_capacity = 1, d_relay = None, d_links = [], d_goarch = [], d_lan = []\<rparr>"

lemma scan_ids: "scan_id [1] \<noteq> scan_id [1, 2]" "scan_id [1] \<noteq> []" "scan_id [1, 2] \<noteq> []"
  "length (scan_id [1]) = 32" "length (scan_id [1, 2]) = 32"
  by code_simp+

lemma scan_server_facts:
  "registeredNode (scan_id [1]) scan_server = Some (scan_node [1] ''symmetric'' ''client'' 0x0A420001)"
  "registeredNode (scan_id [1, 2]) scan_server = Some (scan_node [1, 2] ''cone'' ''superpeer'' 0x0A420002)"
  "role_overrides scan_server i = None" "\<not> nodeRevoked i scan_server" "network_token scan_server = ''net''"
  using scan_ids
  by (simp_all add: registeredNode_def scan_server_def scan_node_def sample_node_row_def nodeRevoked_def
      sample_server_def server.defs accounts.defs sample_accounts_def)

lemma scan_renew:
  assumes "scan_id key \<noteq> []" "length (scan_id key) = 32" "B64Encode key \<noteq> []" "length (B64Encode key) \<le> 256"
    "kind = ''symmetric'' \<or> kind = ''cone''"
  shows "renews length_sha (scan_node key kind rl ip) (scan_body key kind)"
proof -
  have "SplitHostPort ''5.6.7.8:9'' \<noteq> None" "validGoArch []" by code_simp+
  then show ?thesis using assms Addr_String_nonempty
    by (auto simp: renews_def scan_node_def scan_body_def sample_node_row_def B64Decode_Encode valid_body_def scan_id_def)
qed

lemma scan_renews:
  "renews length_sha (scan_node [1] ''symmetric'' ''client'' 0x0A420001) (scan_body [1] ''symmetric'')"
  "renews length_sha (scan_node [1, 2] ''cone'' ''superpeer'' 0x0A420002) (scan_body [1, 2] ''cone'')"
proof -
  have "B64Encode [1] \<noteq> []" "length (B64Encode [1]) \<le> 256" "B64Encode [1, 2] \<noteq> []" "length (B64Encode [1, 2]) \<le> 256" by code_simp+
  then show "renews length_sha (scan_node [1] ''symmetric'' ''client'' 0x0A420001) (scan_body [1] ''symmetric'')"
    "renews length_sha (scan_node [1, 2] ''cone'' ''superpeer'' 0x0A420002) (scan_body [1, 2] ''cone'')"
    using scan_ids by (intro scan_renew; simp)+
qed

lemma node_token_unbound_witness:
  "auth sample_digest 0 view_request scan_server = (Inr (), scan_server)
   \<and> (\<exists>ans s'. register sample_digest length_sha 0 None view_request (Some (scan_body [1, 2] ''cone'')) scan_server = Some (Inr ans, s')
        \<and> endpoint_of (scan_id [1, 2]) s' = Some ''5.6.7.8:9'')"
proof -
  have r: "session_cookie view_request = None" "anyNodeTokenValid sample_digest view_request scan_server"
    "accountTokenUser sample_digest view_request scan_server = None" "X_Mesh_Invite view_request = []"
    by (simp_all add: sample_request_def anyNodeTokenValid_def scan_server_def sample_server_def server.defs accounts.defs
        accountTokenUser_def account_of_token_def live_account_def sample_accounts_def sample_digest_def)
  show ?thesis
    using node_token_unbound [OF r scan_server_facts(2-4) scan_renews(2), of 0 0 "[]" None] by (simp add: scan_body_def)
qed

text \<open>A new connection that registers a node is bound to it.\<close>

lemma reach_bound:
  assumes run: "control_reachable enc dg sha s0 run es" "srv (state run) = s" and tok: "network_token s \<noteq> []"
    and reg: "\<And>r. r = control_http fr (network_token s) [] \<Longrightarrow> \<exists>ans s'. register dg sha 0 None r (as_register (f_body fr)) s = Some (Inr ans, s')"
    and fr: "f_method fr = ''POST''" "f_path fr = ''/v1/register''" "as_node_id (f_body fr) = Some i" "i \<noteq> []"
    and c: "c = controlSessions (state run) + 1" "rebind c i (controls (state run)) = (synced, bs)"
  obtains run' cl where "control_reachable enc dg sha s0 run' es" "srv (state run') = s" "controls (state run') = bs"
    "conns (state run') = (conns (state run))(c \<mapsto> cl)" "controlSessions (state run') = c"
    "duties run' = (duties run)(c := Idle)" "rendezvous (state run') = rendezvous (state run)"
proof -
  let ?r = "sample_request\<lparr>X_Mesh_Token := network_token s\<rparr>"
  let ?cl = "\<lparr>invited = False, invite = [], credential = network_token s\<rparr>"
  define s1 where "s1 = (state run)\<lparr>srv := s, controlSessions := c, conns := (conns (state run))(c \<mapsto> ?cl)\<rparr>"
  define run1 where "run1 = run\<lparr>state := s1, duties := (duties run)(c := Idle)\<rparr>"
  have "controlWS_open dg 0 ?r (state run) = (Some c, s1)"
    using run(2) tok by (simp add: controlWS_open_def handshake_def networkTokenValid_def new_client_def s1_def c(1) Let_def sample_request_def)
  from control_step.accepted [OF this, of enc sha es] have st1: "control_step enc dg sha (run, es) (run1, es)"
    by (simp add: run1_def)
  obtain ans s' where "register dg sha 0 None (control_http fr (network_token s) []) (as_register (f_body fr)) s = Some (Inr ans, s')"
    using reg by blast
  then have q: "controlRequestWithAuth enc dg sha 0 None (network_token s) [] fr s1 = Some (Inr (Inr (Registered ans)), s1\<lparr>srv := s'\<rparr>)"
    using fr by (simp add: controlRequestWithAuth_def answer_def s1_def)
  define run2 where "run2 = set_duty c (Bind i (ans_changed ans)) (run1\<lparr>state := (s1\<lparr>srv := s'\<rparr>)\<lparr>conns := (conns s1)(c \<mapsto> ?cl)\<rparr>\<rparr>)"
  have "control_step enc dg sha (run1, es) (run2, es)"
    using control_step.frame [of run1 c ?cl fr enc dg sha 0 None "Inr (Registered ans)" "s1\<lparr>srv := s'\<rparr>" "Inr (Registered ans)" ?cl
        "Some (i, ans_changed ans)" es] q fr
    by (simp add: run1_def run2_def s1_def is_scan_def is_ack_def after_frame_def)
  moreover define run3 where "run3 = set_duty c Idle (run2\<lparr>state := (state run2)\<lparr>controls := bs\<rparr>\<rparr>)"
  have "control_step enc dg sha (run2, es) (run3, es)"
    unfolding run3_def using c(2)
    by (intro control_step.binds) (simp_all add: run2_def run1_def set_duty_def s1_def)
  moreover have "control_step enc dg sha (run3, es) (run3\<lparr>state := (state run3)\<lparr>srv := s\<rparr>\<rparr>, es)" by (rule control_step.others)
  ultimately have "control_reachable enc dg sha s0 (run3\<lparr>state := (state run3)\<lparr>srv := s\<rparr>\<rparr>) es"
    using run(1) st1 by (meson rtranclp.rtrancl_into_rtrancl)
  then show ?thesis
    by (rule that [where cl = ?cl]) (simp_all add: run3_def run2_def run1_def set_duty_def s1_def)
qed

definition scan_frame :: "string \<Rightarrow> string \<Rightarrow> register_body option \<Rightarrow> string option \<Rightarrow> (string \<times> string) option \<Rightarrow> controlFrame" where
  "scan_frame m p reg i scan = \<lparr>f_method = m, f_path = p, f_body = \<lparr>as_register = reg, as_node_id = i, as_service = None,
     as_telemetry = None, as_status = None, as_condition = None, as_scan = scan, as_ack = None\<rparr>\<rparr>"

abbreviation scan_session :: string where "scan_session \<equiv> ''000102030405060708090a0b0c0d0e0f''"

lemma scan_session_ok: "validSymmetricSessionID scan_session"
  by code_simp

lemma idle_again: "(\<lambda>_. Idle)(c := Idle) = (\<lambda>_. Idle)"
  by auto

lemma two_bound:
  obtains run cl1 cl2 where "control_reachable sample_encoders sample_digest length_sha scan_server run []"
    "srv (state run) = scan_server" "controls (state run) = [(1, scan_id [1]), (2, scan_id [1, 2])]"
    "conns (state run) = [1 \<mapsto> cl1, 2 \<mapsto> cl2]" "duties run = (\<lambda>_. Idle)"
proof -
  have tok: "network_token scan_server \<noteq> []" by (simp add: scan_server_facts)
  have req: "session_cookie r = None" "networkTokenValid sample_digest r scan_server \<or> anyNodeTokenValid sample_digest r scan_server"
    "accountTokenUser sample_digest r scan_server = None" "X_Mesh_Invite r = []"
    if "r = control_http fr (network_token scan_server) []" for r fr
    unfolding that
    by (simp_all add: control_http_def networkTokenValid_def scan_server_facts accountTokenUser_def account_of_token_def
        live_account_def scan_server_def sample_server_def server.defs accounts.defs sample_accounts_def sample_digest_def)
  have reg: "\<exists>ans s'. register sample_digest length_sha 0 None r (Some d) scan_server = Some (Inr ans, s')"
    if "r = control_http fr (network_token scan_server) []" "registeredNode i scan_server = Some n" "renews length_sha n d" for r fr i n d
    using register_known [OF req [OF that(1)] that(2) scan_server_facts(3,4) that(3)] by blast
  let ?f1 = "scan_frame ''POST'' ''/v1/register'' (Some (scan_body [1] ''symmetric'')) (Some (scan_id [1])) None"
  let ?f2 = "scan_frame ''POST'' ''/v1/register'' (Some (scan_body [1, 2] ''cone'')) (Some (scan_id [1, 2])) None"
  have start: "control_reachable sample_encoders sample_digest length_sha scan_server (control_start scan_server) []" by simp
  have b1: "rebind 1 (scan_id [1]) (controls (state (control_start scan_server))) = (False, [(1, scan_id [1])])"
    by (simp add: rebind_def control_start_def)
  obtain run1 cl1 where r1: "control_reachable sample_encoders sample_digest length_sha scan_server run1 []"
    "srv (state run1) = scan_server" "controls (state run1) = [(1, scan_id [1])]" "conns (state run1) = [1 \<mapsto> cl1]"
    "controlSessions (state run1) = 1" "duties run1 = (\<lambda>_. Idle)"
    by (rule reach_bound [OF start _ tok _ _ _ _ scan_ids(2) _ b1, where fr = ?f1])
      (use reg [OF _ scan_server_facts(1) scan_renews(1)] in \<open>auto simp: control_start_def scan_frame_def fun_eq_iff\<close>)
  have b2: "rebind 2 (scan_id [1, 2]) (controls (state run1)) = (False, [(1, scan_id [1]), (2, scan_id [1, 2])])"
    using scan_ids(1) by (auto simp: rebind_def r1)
  show ?thesis
    by (rule reach_bound [OF r1(1,2) tok _ _ _ _ scan_ids(3) _ b2, where fr = ?f2])
      (use reg [OF _ scan_server_facts(2) scan_renews(2)] r1 that in \<open>auto simp: scan_frame_def idle_again\<close>)
qed

theorem control_binding_witness:
  "\<exists>run. control_reachable sample_encoders sample_digest length_sha scan_server run []
     \<and> registeredControlID 2 (state run) = scan_id [1, 2]
     \<and> (\<forall>works. fst (sendControlEvent works (scan_id [1, 2]) (state run)) = works 2)"
proof (rule two_bound)
  fix run
  assume r: "control_reachable sample_encoders sample_digest length_sha scan_server run []"
    "controls (state run) = [(1, scan_id [1]), (2, scan_id [1, 2])]"
  then have i: "registeredControlID 2 (state run) = scan_id [1, 2]" by (simp add: registeredControlID_def)
  have "\<forall>works. fst (sendControlEvent works (scan_id [1, 2]) (state run)) = works 2"
    by (rule conjunct2 [OF conjunct1 [OF control_binding [OF r(1)], rule_format, OF conjI [OF i scan_ids(3)]]])
  then show ?thesis using r(1) i by (intro exI [of _ run] conjI)
qed

lemma scan_entry_sample:
  assumes "srv cs = scan_server" "controls cs = [(1, scan_id [1]), (2, scan_id [1, 2])]"
  shows "scan_entry t 1 (Some (scan_id [1, 2], scan_session)) cs =
    Inr (scan_session, \<lparr>rv_source = scan_id [1], rv_target = scan_id [1, 2], rv_expires = t + scan_window\<rparr>)"
  using assms scan_ids scan_server_facts scan_session_ok
  by (simp add: scan_entry_def registeredControlID_def scan_node_def sample_node_row_def)

theorem scan_ack_matches_witness:
  "\<exists>run. control_reachable sample_encoders sample_digest length_sha scan_server run
      [Granted (scan_id [1]) (scan_id [1, 2]) scan_session 5, Asked (scan_id [1]) (scan_id [1, 2]) scan_session 0]
     \<and> (\<exists>t0. find (\<lambda>e. event_session e = scan_session) [Asked (scan_id [1]) (scan_id [1, 2]) scan_session 0]
          = Some (Asked (scan_id [1]) (scan_id [1, 2]) scan_session t0) \<and> 5 < t0 + 30 * second)"
proof (rule two_bound)
  fix run cl1 cl2
  assume r: "control_reachable sample_encoders sample_digest length_sha scan_server run []"
    "srv (state run) = scan_server" "controls (state run) = [(1, scan_id [1]), (2, scan_id [1, 2])]"
    "conns (state run) = [1 \<mapsto> cl1, 2 \<mapsto> cl2]" "duties run = (\<lambda>_. Idle)"
  let ?rv = "\<lparr>rv_source = scan_id [1], rv_target = scan_id [1, 2], rv_expires = scan_window\<rparr>"
  let ?fr = "scan_frame ''POST'' ''/v1/symmetric-scan'' None None (Some (scan_id [1, 2], scan_session))"
  define run1 where "run1 = set_duty 1 (Deliver (scan_id [1, 2]) scan_session) (run\<lparr>state := open_scan 0 scan_session ?rv (state run)\<rparr>)"
  have "control_step sample_encoders sample_digest length_sha (run, []) (run1, [Asked (scan_id [1]) (scan_id [1, 2]) scan_session 0])"
    using control_step.asks [of run 1 cl1 ?fr 0 scan_session ?rv sample_encoders sample_digest length_sha "[]"] r
      scan_entry_sample [OF r(2,3), of 0]
    by (simp add: run1_def is_scan_def scan_frame_def)
  moreover define run2 where "run2 = run1\<lparr>state := withdraw_scan scan_session (state run1)\<rparr>"
  have "take_scan 5 (scan_id [1]) (scan_id [1, 2]) scan_session (state run1) = (True, withdraw_scan scan_session (state run1))"
    by (simp add: run1_def set_duty_def take_scan_def open_scan_def)
  then have "control_step sample_encoders sample_digest length_sha (run1, [Asked (scan_id [1]) (scan_id [1, 2]) scan_session 0])
      (run2, [Granted (scan_id [1]) (scan_id [1, 2]) scan_session 5, Asked (scan_id [1]) (scan_id [1, 2]) scan_session 0])"
    using r scan_ids unfolding run2_def
    by (intro control_step.grants [where c = 2]) (simp_all add: run1_def set_duty_def open_scan_def registeredControlID_def)
  ultimately have run2: "control_reachable sample_encoders sample_digest length_sha scan_server run2
      [Granted (scan_id [1]) (scan_id [1, 2]) scan_session 5, Asked (scan_id [1]) (scan_id [1, 2]) scan_session 0]"
    using r(1) by (meson rtranclp.rtrancl_into_rtrancl)
  show ?thesis using run2 scan_ack_matches [OF run2, of "[]"] by auto
qed

section \<open>The handshake\<close>

text \<open>The rendezvous works.  When a node behind a symmetric NAT asks for a scan by a superpeer, both are bound and
  their connections take events, the request is delivered; the acknowledgement of the superpeer within thirty
  seconds reaches the node, a second one is refused, and so is one of any other connection.\<close>

lemma scan_handshake:
  assumes "bound_once (controls cs)" "map_of (controls cs) c = Some source" "map_of (controls cs) d = Some target"
    "source \<noteq> []" "target \<noteq> []" "works c" "works d"
    and "registeredNode source (srv cs) = Some a" "nat_type a = ''symmetric''" "endpoint a \<noteq> []"
    and "registeredNode target (srv cs) = Some b" "nat_type b = ''cone''" "role b = ''superpeer''"
    and "validSymmetricSessionID x"
    and ask: "symmetricScanRequest works t c (Some (target, x)) cs = (out, cs1)"
    and ack: "symmetricScanACK works t1 d (Some (source, x)) cs1 = (out1, cs2)" "t1 < t + 30 * second"
  shows "out = Inr Delivered \<and> out1 = Inr Acknowledged
    \<and> fst (symmetricScanACK works t2 d (Some (source, x)) cs2) = Inl (409, ''unknown or expired symmetric scan session'')
    \<and> (e \<noteq> d \<longrightarrow> (\<exists>err. fst (symmetricScanACK works t2 e (Some (source, x)) cs1) = Inl err))"
proof -
  have d: "distinct (map fst (controls cs))" using assms(1) by (simp add: bound_once_def)
  let ?rv = "\<lparr>rv_source = source, rv_target = target, rv_expires = t + scan_window\<rparr>"
  have entry: "scan_entry t c (Some (target, x)) cs = Inr (x, ?rv)"
    using assms(2,4,5,8-14) by (simp add: scan_entry_def registeredControlID_def)
  have "fst (sendControlEvent works target (open_scan t x ?rv cs))"
    using event_delivered [of "open_scan t x ?rv cs" works target] d assms(3,7) by (auto simp: open_scan_def)
  then have cs1: "out = Inr Delivered" "cs1 = open_scan t x ?rv cs"
    using ask entry by (simp_all add: symmetricScanRequest_def Let_def)
  have ctl: "controls cs1 = controls cs" "rendezvous cs1 x = Some ?rv" by (simp_all add: cs1 open_scan_def)
  have take: "take_scan t1 source target x cs1 = (True, withdraw_scan x cs1)"
    using ack(2) by (simp add: take_scan_def ctl)
  have "fst (sendControlEvent works source (withdraw_scan x cs1))"
    using event_delivered [of "withdraw_scan x cs1" works source] d assms(2,6) by (auto simp: withdraw_scan_def ctl)
  then have cs2: "out1 = Inr Acknowledged" "cs2 = withdraw_scan x cs1"
    using ack(1) take assms(3-5,14) by (simp_all add: symmetricScanACK_def registeredControlID_def ctl Let_def)
  have "fst (symmetricScanACK works t2 d (Some (source, x)) cs2) = Inl (409, ''unknown or expired symmetric scan session'')"
    using assms(3-5,14) by (simp add: symmetricScanACK_def registeredControlID_def ctl cs2 withdraw_scan_def take_scan_def Let_def)
  moreover have "\<exists>err. fst (symmetricScanACK works t2 e (Some (source, x)) cs1) = Inl err" if "e \<noteq> d"
  proof -
    have "map_of (controls cs) e \<noteq> Some target" using assms(1,3) that unfolding bound_once_def by blast
    then have "registeredControlID e cs1 \<noteq> target" using assms(5)
      by (cases "map_of (controls cs) e") (auto simp: registeredControlID_def ctl)
    then show ?thesis using assms(4,14) by (simp add: symmetricScanACK_def take_scan_def ctl Let_def)
  qed
  ultimately show ?thesis using cs1(1) cs2(1) by blast
qed

definition scan_state :: control_state where
  "scan_state = \<lparr>srv = scan_server, conns = Map.empty, controls = [(1, scan_id [1]), (2, scan_id [1, 2])], controlSessions = 2,
     rendezvous = Map.empty, updateResults = []\<rparr>"

lemma scan_handshake_witness:
  "\<exists>out cs1 out1 cs2. symmetricScanRequest (\<lambda>_. True) 0 1 (Some (scan_id [1, 2], scan_session)) scan_state = (out, cs1)
     \<and> symmetricScanACK (\<lambda>_. True) 5 2 (Some (scan_id [1], scan_session)) cs1 = (out1, cs2)
     \<and> out = Inr Delivered \<and> out1 = Inr Acknowledged"
proof -
  obtain out cs1 where ask: "symmetricScanRequest (\<lambda>_. True) 0 1 (Some (scan_id [1, 2], scan_session)) scan_state = (out, cs1)" by force
  obtain out1 cs2 where ack: "symmetricScanACK (\<lambda>_. True) 5 2 (Some (scan_id [1], scan_session)) cs1 = (out1, cs2)" by force
  have b: "bound_once (controls scan_state)" "map_of (controls scan_state) 1 = Some (scan_id [1])"
    "map_of (controls scan_state) 2 = Some (scan_id [1, 2])"
    using scan_ids(1) by (auto simp: scan_state_def bound_once_def)
  have n: "registeredNode (scan_id [1]) (srv scan_state) = Some (scan_node [1] ''symmetric'' ''client'' 0x0A420001)"
    "nat_type (scan_node [1] ''symmetric'' ''client'' 0x0A420001) = ''symmetric''"
    "endpoint (scan_node [1] ''symmetric'' ''client'' 0x0A420001) \<noteq> []"
    "registeredNode (scan_id [1, 2]) (srv scan_state) = Some (scan_node [1, 2] ''cone'' ''superpeer'' 0x0A420002)"
    "nat_type (scan_node [1, 2] ''cone'' ''superpeer'' 0x0A420002) = ''cone''"
    "role (scan_node [1, 2] ''cone'' ''superpeer'' 0x0A420002) = ''superpeer''"
    by (simp_all add: scan_state_def scan_server_facts, simp_all add: scan_node_def sample_node_row_def)
  have "out = Inr Delivered \<and> out1 = Inr Acknowledged"
    using scan_handshake [OF b scan_ids(2,3) _ _ n scan_session_ok ask ack] by simp
  then show ?thesis using ask ack by blast
qed

end
