(* ===== verification/Json_Envelope.thy ===== *)
theory Json_Envelope
  imports Accounts
begin

text \<open>
  The JSON envelope of control packets (\<^verbatim>\<open>EncodePacket\<close>, \<^verbatim>\<open>DecodePacket\<close> of \<^verbatim>\<open>internal/protocol/protocol.go\<close>)
  with what it uses of \<^verbatim>\<open>encoding/json\<close>: the encoder without HTML escapes, which sorts the members of maps,
  and the decoder into \<^verbatim>\<open>any\<close>.  Strings are byte sequences: beyond ASCII the encoder of Go also escapes
  U+2028 and U+2029 and replaces invalid UTF-8, which the theorems exclude by \<open>plain_json\<close>.  Numbers are the
  integers that a \<^verbatim>\<open>float64\<close> holds exactly; the nesting limit of the decoder (10000) is left out.

  The locale \<open>json_writer\<close> is what a way to escape characters promises; it is interpreted on the escapes of
  \<^verbatim>\<open>CanonicalJSON\<close> and on those of \<^verbatim>\<open>json.Marshal\<close>.  The lemmas show that parsing inverts printing for every plain value, that canonical forms are fixed points,
  that splicing the mac pair into the text adds a member, and that the sealed packet is decoded again.
\<close>

section \<open>Encoding\<close>

text \<open>Objects are maps: the encoder sorts their members by key.\<close>

fun canon :: "json \<Rightarrow> json" where
  "canon (JArr js) = JArr (map canon js)"
| "canon (JObj kvs) = JObj (sort_key fst (map (\<lambda>(k, j). (k, canon j)) kvs))"
| "canon j = j"

definition json_escape :: "char \<Rightarrow> string" where
  "json_escape c =
     (let n = (of_char c :: nat) in
      if n = 34 \<or> n = 92 then [CHR 0x5C, c]
      else if n = 8 then [CHR 0x5C, CHR ''b'']
      else if n = 12 then [CHR 0x5C, CHR ''f'']
      else if n = 10 then [CHR 0x5C, CHR ''n'']
      else if n = 13 then [CHR 0x5C, CHR ''r'']
      else if n = 9 then [CHR 0x5C, CHR ''t'']
      else if n < 32 then [CHR 0x5C, CHR ''u'', CHR ''0'', CHR ''0'', hex_digit (n div 16), hex_digit (n mod 16)]
      else [c])"

text \<open>\<^verbatim>\<open>json.Marshal\<close> also escapes the characters that are special in HTML.\<close>

definition html_escape :: "char \<Rightarrow> string" where
  "html_escape c =
     (if c = CHR ''<'' \<or> c = CHR ''>'' \<or> c = CHR ''&''
      then [CHR 0x5C, CHR ''u'', CHR ''0'', CHR ''0'', hex_digit (of_char c div 16), hex_digit (of_char c mod 16)]
      else json_escape c)"

text \<open>The writer takes the escaping of characters as an argument.\<close>

definition json_string :: "(char \<Rightarrow> string) \<Rightarrow> string \<Rightarrow> string" where
  "json_string esc s = CHR 0x22 # concat (map esc s) @ [CHR 0x22]"

definition json_int :: "int \<Rightarrow> string" where
  "json_int i = (if i < 0 then CHR ''-'' # itoa (nat (- i)) else itoa (nat i))"

text \<open>The text of a value whose objects are sorted.\<close>

fun json_text :: "(char \<Rightarrow> string) \<Rightarrow> json \<Rightarrow> string" where
  "json_text esc JNull = ''null''"
| "json_text esc (JBool b) = (if b then ''true'' else ''false'')"
| "json_text esc (JInt i) = json_int i"
| "json_text esc (JStr s) = json_string esc s"
| "json_text esc (JArr js) = ''['' @ join_with '','' (map (json_text esc) js) @ '']''"
| "json_text esc (JObj kvs) = ''{'' @ join_with '','' (map (\<lambda>(k, j). json_string esc k @ '':'' @ json_text esc j) kvs) @ ''}''"

definition CanonicalJSON :: "json \<Rightarrow> string" where
  "CanonicalJSON j = json_text json_escape (canon j)"

definition Marshal :: "json \<Rightarrow> string" where
  "Marshal j = json_text html_escape (canon j)"

section \<open>Decoding\<close>

definition json_space :: "char \<Rightarrow> bool" where
  "json_space c \<longleftrightarrow> c = CHR '' '' \<or> c = CHR 0x09 \<or> c = CHR 0x0A \<or> c = CHR 0x0D"

definition skip_space :: "string \<Rightarrow> string" where
  "skip_space s = dropWhile json_space s"

definition hex4 :: "string \<Rightarrow> nat option" where
  "hex4 s =
     (if length s < 4 then None
      else case (from_hex_char (s ! 0), from_hex_char (s ! 1), from_hex_char (s ! 2), from_hex_char (s ! 3)) of
        (Some a, Some b, Some c, Some d) \<Rightarrow> Some (((a * 16 + b) * 16 + c) * 16 + d)
      | _ \<Rightarrow> None)"

definition utf8 :: "nat \<Rightarrow> string" where
  "utf8 n =
     (if n < 0x80 then [char_of n]
      else if n < 0x800 then map char_of [0xC0 + n div 64, 0x80 + n mod 64]
      else if n < 0x10000 then map char_of [0xE0 + n div 4096, 0x80 + n div 64 mod 64, 0x80 + n mod 64]
      else map char_of [0xF0 + n div 262144, 0x80 + n div 4096 mod 64, 0x80 + n div 64 mod 64, 0x80 + n mod 64])"

text \<open>What an escape \<^verbatim>\<open>\uXXXX\<close> stands for, with how many further characters it takes: a surrogate needs its partner,
  else it becomes the replacement character.\<close>

definition surrogate :: "nat \<Rightarrow> string \<Rightarrow> string \<times> nat" where
  "surrogate n rest =
     (if n < 0xD800 \<or> 0xDFFF < n then (utf8 n, 0)
      else if n < 0xDC00 \<and> take 2 rest = [CHR 0x5C, CHR ''u''] then
        (case hex4 (drop 2 rest) of
           Some m \<Rightarrow> if 0xDC00 \<le> m \<and> m \<le> 0xDFFF then (utf8 ((n - 0xD800) * 1024 + (m - 0xDC00) + 0x10000), 6) else (utf8 0xFFFD, 0)
         | None \<Rightarrow> (utf8 0xFFFD, 0))
      else (utf8 0xFFFD, 0))"

definition simple_escape :: "char \<Rightarrow> char option" where
  "simple_escape c =
     (if c = CHR 0x22 \<or> c = CHR 0x5C \<or> c = CHR ''/'' then Some c
      else if c = CHR ''b'' then Some (CHR 0x08) else if c = CHR ''f'' then Some (CHR 0x0C)
      else if c = CHR ''n'' then Some (CHR 0x0A) else if c = CHR ''r'' then Some (CHR 0x0D)
      else if c = CHR ''t'' then Some (CHR 0x09) else None)"

text \<open>The rest of a string literal after its opening quote.\<close>

function (sequential) parse_string :: "string \<Rightarrow> (string \<times> string) option" where
  "parse_string [] = None"
| "parse_string (c # s) =
     (if c = CHR 0x22 then Some ([], s)
      else if of_char c < (32 :: nat) then None
      else if c \<noteq> CHR 0x5C then map_option (\<lambda>(x, r). (c # x, r)) (parse_string s)
      else case s of
        [] \<Rightarrow> None
      | d # s' \<Rightarrow>
        if d = CHR ''u'' then
          (case hex4 s' of
             None \<Rightarrow> None
           | Some n \<Rightarrow> (case surrogate n (drop 4 s') of
               (y, k) \<Rightarrow> map_option (\<lambda>(x, r). (y @ x, r)) (parse_string (drop (4 + k) s'))))
        else case simple_escape d of
          None \<Rightarrow> None
        | Some e \<Rightarrow> map_option (\<lambda>(x, r). (e # x, r)) (parse_string s'))"
  by pat_completeness auto
termination by (relation "measure length") auto

text \<open>An integer literal.  Fractions, exponents, the negative zero and magnitudes above $2^{53}$, which
  a \<^verbatim>\<open>float64\<close> rounds, are outside the model.\<close>

definition parse_int :: "string \<Rightarrow> (int \<times> string) option" where
  "parse_int s =
     (let neg = (s \<noteq> [] \<and> hd s = CHR ''-''); t = (if neg then tl s else s);
          ds = takeWhile is_digit t; r = dropWhile is_digit t in
      if ds = [] \<or> (1 < length ds \<and> hd ds = CHR ''0'') then None
      else if r \<noteq> [] \<and> (hd r = CHR ''.'' \<or> hd r = CHR ''e'' \<or> hd r = CHR ''E'') then None
      else case atoi ds of
        None \<Rightarrow> None
      | Some n \<Rightarrow> if 2 ^ 53 < n \<or> (neg \<and> n = 0) then None else Some ((if neg then - int n else int n), r))"

text \<open>Values, the rest of an array and the rest of an object.  Of two nested calls one takes a character, so fuel above
  twice the length of the text is enough.\<close>

fun parse_value :: "nat \<Rightarrow> string \<Rightarrow> (json \<times> string) option"
  and parse_elements :: "nat \<Rightarrow> string \<Rightarrow> json list \<Rightarrow> (json \<times> string) option"
  and parse_members :: "nat \<Rightarrow> string \<Rightarrow> (string \<times> json) list \<Rightarrow> (json \<times> string) option" where
  "parse_value 0 s = None"
| "parse_value (Suc f) s0 =
     (let s = skip_space s0 in
      if HasPrefix s ''null'' then Some (JNull, drop 4 s)
      else if HasPrefix s ''true'' then Some (JBool True, drop 4 s)
      else if HasPrefix s ''false'' then Some (JBool False, drop 5 s)
      else case s of
        [] \<Rightarrow> None
      | c # r \<Rightarrow>
        if c = CHR 0x22 then map_option (\<lambda>(x, r'). (JStr x, r')) (parse_string r)
        else if c = CHR ''['' then
          (if HasPrefix (skip_space r) '']'' then Some (JArr [], tl (skip_space r)) else parse_elements f r [])
        else if c = CHR ''{'' then
          (if HasPrefix (skip_space r) ''}'' then Some (JObj [], tl (skip_space r)) else parse_members f r [])
        else map_option (\<lambda>(i, r'). (JInt i, r')) (parse_int s))"
| "parse_elements 0 s acc = None"
| "parse_elements (Suc f) s acc =
     (case parse_value f s of
        None \<Rightarrow> None
      | Some (j, r0) \<Rightarrow>
        (case skip_space r0 of
           [] \<Rightarrow> None
         | c # r \<Rightarrow> if c = CHR '']'' then Some (JArr (acc @ [j]), r)
             else if c = CHR '','' then parse_elements f r (acc @ [j]) else None))"
| "parse_members 0 s acc = None"
| "parse_members (Suc f) s acc =
     (case skip_space s of
        [] \<Rightarrow> None
      | q # s1 \<Rightarrow>
        if q \<noteq> CHR 0x22 then None
        else case parse_string s1 of
          None \<Rightarrow> None
        | Some (k, s2) \<Rightarrow>
          (case skip_space s2 of
             [] \<Rightarrow> None
           | col # s3 \<Rightarrow>
             if col \<noteq> CHR '':'' then None
             else case parse_value f s3 of
               None \<Rightarrow> None
             | Some (j, r0) \<Rightarrow>
               (case skip_space r0 of
                  [] \<Rightarrow> None
                | c # r \<Rightarrow> if c = CHR ''}'' then Some (JObj (AList.update k j acc), r)
                    else if c = CHR '','' then parse_members f r (AList.update k j acc) else None)))"

definition Unmarshal :: "string \<Rightarrow> json option" where
  "Unmarshal s =
     (case parse_value (2 * length s + 2) s of
        None \<Rightarrow> None
      | Some (j, r) \<Rightarrow> if skip_space r = [] then Some j else None)"


section \<open>The JSON envelope\<close>

abbreviation Version :: int where "Version \<equiv> 1"

definition env_members :: "Packet \<Rightarrow> (string \<times> json) list" where
  "env_members p =
     [(''v'', JInt Version), (''type'', JStr (Type p)), (''id'', JStr (PacketID p)), (''src'', JStr (Source p)),
      (''dst'', JStr (Destination p)), (''ttl'', JInt (TTL p)), (''ts'', JInt (sint (Timestamp p))),
      (''payload'', JObj (Payload p))]"

definition envelope :: "Packet \<Rightarrow> json" where
  "envelope p = JObj (env_members p)"

definition mac_open :: string where
  "mac_open = [CHR '','', CHR 0x22, CHR ''m'', CHR ''a'', CHR ''c'', CHR 0x22, CHR '':'', CHR 0x22]"

definition EncodePacketReuse ::
    "(bytes \<Rightarrow> bytes \<Rightarrow> bytes) \<Rightarrow> Packet \<Rightarrow> PooledMAC \<Rightarrow> bytes go_result \<times> PooledMAC" where
  "EncodePacketReuse hm p holder =
     (let data = string_bytes (CanonicalJSON (envelope p));
          h1 = mac_Reset holder; h2 = mac_Write h1 data; tag = mac_Sum hm h2 [];
          out = butlast data @ string_bytes (mac_open @ B64Encode tag @ [CHR 0x22, CHR ''}'']) in
      (if MaxDatagramSize < length out then Inl ''mesh protocol error: packet exceeds limit'' else Inr out, h2))"

definition EncodePacket :: "(bytes \<Rightarrow> bytes \<Rightarrow> bytes) \<Rightarrow> Packet \<Rightarrow> bytes \<Rightarrow> bytes go_result" where
  "EncodePacket hm p networkKey = fst (EncodePacketReuse hm p (NewPooledMAC networkKey))"

text \<open>The checked type assertions of the decoder.\<close>

definition get_str :: "(string \<times> json) list \<Rightarrow> string \<Rightarrow> string option" where
  "get_str e k = (case map_of e k of Some (JStr s) \<Rightarrow> Some s | _ \<Rightarrow> None)"

definition get_num :: "(string \<times> json) list \<Rightarrow> string \<Rightarrow> int option" where
  "get_num e k = (case map_of e k of Some (JInt i) \<Rightarrow> Some i | _ \<Rightarrow> None)"

definition get_obj :: "(string \<times> json) list \<Rightarrow> string \<Rightarrow> (string \<times> json) list option" where
  "get_obj e k = (case map_of e k of Some (JObj kvs) \<Rightarrow> Some kvs | _ \<Rightarrow> None)"

definition packet_of :: "(string \<times> json) list \<Rightarrow> Packet go_result" where
  "packet_of e =
     (case (get_str e ''type'', get_str e ''id'', get_str e ''src'', get_str e ''dst'', get_num e ''ttl'', get_num e ''ts'',
        get_obj e ''payload'', get_num e ''v'') of
        (Some typ, Some pid, Some src, Some dst, Some ttl, Some ts, Some payload, Some v) \<Rightarrow>
          if v \<noteq> Version \<or> ttl < 1 \<or> DefaultTTL < ttl then Inl ''mesh protocol error: unsupported packet''
          else Inr \<lparr>Type = typ, Source = src, Destination = dst, Payload = payload, PacketID = pid, TTL = ttl,
                    Timestamp = word_of_int ts\<rparr>
      | _ \<Rightarrow> Inl ''mesh protocol error: unsupported packet'')"

text \<open>Unmarshalling into a map: \<^verbatim>\<open>null\<close> leaves it nil, any other value that is no object is an error.\<close>

definition unmarshal_map :: "bytes \<Rightarrow> (string \<times> json) list option" where
  "unmarshal_map data = (case Unmarshal (bytes_string data) of
     Some (JObj e) \<Rightarrow> Some e | Some JNull \<Rightarrow> Some [] | _ \<Rightarrow> None)"

definition DecodePacketReuse ::
    "(bytes \<Rightarrow> bytes \<Rightarrow> bytes) \<Rightarrow> bytes \<Rightarrow> PooledMAC \<Rightarrow> Packet go_result \<times> PooledMAC" where
  "DecodePacketReuse hm data holder =
     (if MaxDatagramSize < length data then (Inl ''mesh protocol error: packet exceeds limit'', holder)
      else case unmarshal_map data of
        None \<Rightarrow> (Inl ''mesh protocol error: malformed packet'', holder)
      | Some e0 \<Rightarrow>
        (case get_str e0 ''mac'' of
           None \<Rightarrow> (Inl ''mesh protocol error: missing MAC'', holder)
         | Some ms \<Rightarrow>
           (let e = AList.delete ''mac'' e0 in
            case B64Decode ms of
              None \<Rightarrow> (Inl ''mesh protocol error'', holder)
            | Some got \<Rightarrow>
              (let data' = string_bytes (CanonicalJSON (JObj e));
                   h1 = mac_Reset holder; h2 = mac_Write h1 data'; tag = mac_Sum hm h2 [] in
               if tag \<noteq> got then (Inl ''mesh protocol error: authentication failed'', h2)
               else (packet_of e, h2)))))"

definition DecodePacket :: "(bytes \<Rightarrow> bytes \<Rightarrow> bytes) \<Rightarrow> bytes \<Rightarrow> bytes \<Rightarrow> Packet go_result" where
  "DecodePacket hm data networkKey = fst (DecodePacketReuse hm data (NewPooledMAC networkKey))"

section \<open>Decoding inverts encoding\<close>

lemma hex4_low: "n < 256 \<Longrightarrow> hex4 (CHR ''0'' # CHR ''0'' # hex_digit (n div 16) # hex_digit (n mod 16) # s) = Some n"
proof -
  assume n: "n < 256"
  have z: "from_hex_char (CHR ''0'') = Some 0" by (simp add: from_hex_char_def)
  have "from_hex_char (hex_digit (n div 16)) = Some (n div 16)" "from_hex_char (hex_digit (n mod 16)) = Some (n mod 16)"
    using n by (simp_all add: from_hex_digit)
  then show ?thesis using n by (simp add: hex4_def z)
qed

lemma surrogate_low: "n < 32 \<Longrightarrow> surrogate n s = ([char_of n], 0)"
  by (simp add: surrogate_def utf8_def)

lemma char_consts:
  "char_of (34 :: nat) = CHR 0x22" "char_of (92 :: nat) = CHR 0x5C" "char_of (8 :: nat) = CHR 0x08"
  "char_of (12 :: nat) = CHR 0x0C" "char_of (10 :: nat) = CHR 0x0A" "char_of (13 :: nat) = CHR 0x0D" "char_of (9 :: nat) = CHR 0x09"
  by code_simp+

lemma parse_string_escape: "parse_string (json_escape c @ s) = map_option (\<lambda>(x, r). (c # x, r)) (parse_string s)"
proof -
  define n where "n = (of_char c :: nat)"
  have c: "c = char_of n" by (simp add: n_def)
  consider "n = 34" | "n = 92" | "n = 8" | "n = 12" | "n = 10" | "n = 13" | "n = 9"
    | "n < 32" "n \<notin> {8, 12, 10, 13, 9}" | "32 \<le> n" "n \<noteq> 34" "n \<noteq> 92" by auto linarith
  then show ?thesis
  proof cases
    case 8
    then have "json_escape c = [CHR 0x5C, CHR ''u'', CHR ''0'', CHR ''0'', hex_digit (n div 16), hex_digit (n mod 16)]"
      by (simp add: json_escape_def Let_def flip: n_def)
    then show ?thesis using 8 hex4_low [of n s] by (simp add: surrogate_low case_prod_unfold flip: c)
  next
    case 9
    then have "json_escape c = [c]" by (simp add: json_escape_def Let_def flip: n_def)
    moreover have "c \<noteq> CHR 0x22" "c \<noteq> CHR 0x5C" using 9 by (auto simp: n_def)
    ultimately show ?thesis using 9 by (simp flip: n_def)
  qed (simp_all add: c char_consts json_escape_def simple_escape_def)
qed

definition ends_number :: "string \<Rightarrow> bool" where
  "ends_number r \<longleftrightarrow> r = [] \<or> \<not> (is_digit (hd r) \<or> hd r = CHR ''.'' \<or> hd r = CHR ''e'' \<or> hd r = CHR ''E'')"

definition json_exact :: "int \<Rightarrow> bool" where
  "json_exact i \<longleftrightarrow> \<bar>i\<bar> \<le> 2 ^ 53"

lemma itoa_head: "1 < length (itoa n) \<Longrightarrow> hd (itoa n) \<noteq> CHR ''0''"
proof (induction n rule: itoa.induct)
  case (1 n)
  show ?case
  proof (cases "n < 10")
    case True
    then show ?thesis using 1 by (subst (asm) itoa.simps) simp
  next
    case False
    have e: "itoa n = itoa (n div 10) @ [digit_char (n mod 10)]" using False by (subst itoa.simps) simp
    have ne: "itoa (n div 10) \<noteq> []" using itoa_digits by blast
    show ?thesis
    proof (cases "1 < length (itoa (n div 10))")
      case True
      then show ?thesis using 1 False e ne by simp
    next
      case short: False
      then have "n div 10 < 10" using ne
        by (subst (asm) itoa.simps) (use itoa_digits [of "n div 10 div 10"] in \<open>auto split: if_splits\<close>)
      then have "itoa (n div 10) = [digit_char (n div 10)]" by (subst itoa.simps) simp
      moreover have "digit_char (n div 10) \<noteq> CHR ''0''"
      proof
        assume "digit_char (n div 10) = CHR ''0''"
        then have "(of_char (digit_char (n div 10)) :: nat) = 48" by simp
        then show False using \<open>n div 10 < 10\<close> False by (simp add: digit_char_def)
      qed
      ultimately show ?thesis using e by simp
    qed
  qed
qed

lemma parse_int_json:
  assumes "json_exact i" "ends_number r"
  shows "parse_int (json_int i @ r) = Some (i, r)"
proof -
  let ?n = "nat \<bar>i\<bar>"
  have d: "list_all is_digit (itoa ?n)" "itoa ?n \<noteq> []" using itoa_digits by auto
  have tw: "takeWhile is_digit (itoa ?n @ r) = itoa ?n" "dropWhile is_digit (itoa ?n @ r) = r"
    using assms(2) d by (cases r; simp add: ends_number_def list_all_iff takeWhile_append2 dropWhile_append2)+
  have r: "\<not> (r \<noteq> [] \<and> (hd r = CHR ''.'' \<or> hd r = CHR ''e'' \<or> hd r = CHR ''E''))"
    using assms(2) by (auto simp: ends_number_def)
  have h: "\<not> (1 < length (itoa ?n) \<and> hd (itoa ?n) = CHR ''0'')" using itoa_head by blast
  have m: "?n \<le> 2 ^ 53" using assms(1) by (simp add: json_exact_def nat_le_iff)
  show ?thesis
  proof (cases "i < 0")
    case True
    then have "json_int i = CHR ''-'' # itoa ?n" by (simp add: json_int_def)
    then show ?thesis using True tw r h d m by (auto simp: parse_int_def Let_def)
  next
    case False
    then have j: "json_int i = itoa ?n" by (simp add: json_int_def)
    have "hd (itoa ?n) \<noteq> CHR ''-''" using d by (cases "itoa ?n") (auto simp: is_digit_def)
    then show ?thesis using False j tw r h d m by (auto simp: parse_int_def Let_def)
  qed
qed


text \<open>The values on which the model's text is Go's: integers a \<^verbatim>\<open>float64\<close> represents exactly, ASCII strings, and
  members with distinct keys.\<close>

definition ascii :: "string \<Rightarrow> bool" where
  "ascii s \<longleftrightarrow> list_all (\<lambda>c. of_char c < (128 :: nat)) s"

fun plain_json :: "json \<Rightarrow> bool" where
  "plain_json (JInt i) \<longleftrightarrow> json_exact i"
| "plain_json (JStr s) \<longleftrightarrow> ascii s"
| "plain_json (JArr js) \<longleftrightarrow> list_all plain_json js"
| "plain_json (JObj kvs) \<longleftrightarrow> distinct (map fst kvs) \<and> list_all (\<lambda>(k, j). ascii k \<and> plain_json j) kvs"
| "plain_json _ \<longleftrightarrow> True"

text \<open>What the parser does on the text of one value, followed by anything that does not go on with a number.\<close>

definition reads_back :: "(char \<Rightarrow> string) \<Rightarrow> json \<Rightarrow> bool" where
  "reads_back esc j \<longleftrightarrow> (\<forall>f r. length (json_text esc j) < f \<longrightarrow> ends_number r \<longrightarrow> parse_value f (json_text esc j @ r) = Some (j, r))"

lemma reads_backD:
  "reads_back esc j \<Longrightarrow> length (json_text esc j) < f \<Longrightarrow> ends_number r \<Longrightarrow> parse_value f (json_text esc j @ r) = Some (j, r)"
  by (simp add: reads_back_def)

lemma reads_backI: "(\<And>g r. parse_value (Suc g) (json_text esc j @ r) = Some (j, r)) \<Longrightarrow> reads_back esc j"
  unfolding reads_back_def by (metis less_nat_zero_code not0_implies_Suc)

lemma ends_number_punct [simp]: "c \<in> {CHR '','', CHR '']'', CHR ''}''} \<Longrightarrow> ends_number (c # r)"
  by (auto simp: ends_number_def is_digit_def)

lemma skip_space_punct [simp]:
  "c \<in> {CHR '','', CHR '']'', CHR ''}'', CHR '':'', CHR 0x22, CHR ''['', CHR ''{''} \<Longrightarrow> skip_space (c # r) = c # r"
  by (auto simp: skip_space_def json_space_def)

definition starts_value :: "string \<Rightarrow> bool" where
  "starts_value s \<longleftrightarrow> s \<noteq> [] \<and> \<not> json_space (hd s) \<and> hd s \<noteq> CHR '']'' \<and> hd s \<noteq> CHR ''}''"

lemma json_int_head:
  obtains c s where "json_int i = c # s" "is_digit c \<or> c = CHR ''-''"
proof (cases "i < 0")
  case True
  then show ?thesis using that [of "CHR ''-''" "itoa (nat (- i))"] by (simp add: json_int_def)
next
  case False
  obtain c s where "itoa (nat i) = c # s" "is_digit c"
    using itoa_digits [of "nat i"] by (cases "itoa (nat i)") auto
  then show ?thesis using that [of c s] False by (simp add: json_int_def)
qed

lemma starts_json: "starts_value (json_text esc j)"
proof (cases j)
  case (JInt i)
  obtain c s where "json_int i = c # s" "is_digit c \<or> c = CHR ''-''" by (rule json_int_head)
  then show ?thesis using JInt by (auto simp: starts_value_def json_space_def is_digit_def)
qed (auto simp: starts_value_def json_string_def json_space_def)

lemma starts_append: "starts_value s \<Longrightarrow> skip_space (s @ r) = s @ r"
  by (cases s) (auto simp: starts_value_def skip_space_def)

lemma parse_value_int:
  assumes "json_exact i" "ends_number r"
  shows "parse_value (Suc f) (json_int i @ r) = Some (JInt i, r)"
proof -
  obtain c s where s: "json_int i = c # s" and c: "is_digit c \<or> c = CHR ''-''" by (rule json_int_head)
  have ne: "c \<noteq> CHR ''n''" "c \<noteq> CHR ''t''" "c \<noteq> CHR ''f''" "c \<noteq> CHR 0x22" "c \<noteq> CHR ''[''" "c \<noteq> CHR ''{''" "\<not> json_space c"
    using c by (auto simp: is_digit_def json_space_def)
  have "skip_space (c # s @ r) = c # s @ r" using ne by (simp add: skip_space_def)
  then show ?thesis using parse_int_json [OF assms] ne by (simp add: s HasPrefix_def)
qed

lemma parse_elements_json:
  assumes "js \<noteq> []" "\<And>j. j \<in> set js \<Longrightarrow> reads_back esc j"
  shows "length (join_with '','' (map (json_text esc) js)) + 1 < f \<Longrightarrow>
    parse_elements f (join_with '','' (map (json_text esc) js) @ CHR '']'' # r) acc = Some (JArr (acc @ js), r)"
  using assms
proof (induction js arbitrary: f acc)
  case Nil
  then show ?case by simp
next
  case (Cons j js)
  obtain g where f: "f = Suc g" using Cons.prems(1) by (cases f) auto
  have j: "reads_back esc j" using Cons.prems by simp
  show ?case
  proof (cases "js = []")
    case True
    then show ?thesis using Cons.prems(1) reads_backD [OF j, of g "CHR '']'' # r"] by (simp add: f)
  next
    case False
    let ?t = "join_with '','' (map (json_text esc) js) @ CHR '']'' # r"
    have e: "join_with '','' (map (json_text esc) (j # js)) @ CHR '']'' # r = json_text esc j @ CHR '','' # ?t"
      using False by (cases js) auto
    have l: "length (json_text esc j) < g" "length (join_with '','' (map (json_text esc) js)) + 1 < g"
      using Cons.prems(1) False by (cases js; simp add: f)+
    have "parse_value g (json_text esc j @ CHR '','' # ?t) = Some (j, CHR '','' # ?t)" by (rule reads_backD [OF j l(1)]) simp
    then show ?thesis using Cons.IH [OF l(2) False] Cons.prems(3) unfolding e by (simp add: f)
  qed
qed


lemma update_new: "k \<notin> fst ` set xs \<Longrightarrow> AList.update k v xs = xs @ [(k, v)]"
  by (induction xs) auto

text \<open>What an escaping promises to the reader.\<close>

locale json_writer =
  fixes esc :: "char \<Rightarrow> string"
  assumes escaped: "parse_string (esc c @ s) = map_option (\<lambda>(x, r). (c # x, r)) (parse_string s)"
begin

lemma parse_string_json: "parse_string (concat (map esc s) @ CHR 0x22 # r) = Some (s, r)"
  by (induction s) (simp_all add: escaped)


lemma parse_value_string: "parse_value (Suc f) (json_string esc s @ r) = Some (JStr s, r)"
  using parse_string_json [of s r] by (simp add: json_string_def HasPrefix_def)

lemma parse_members_json:
  assumes "kvs \<noteq> []" "\<And>k j. (k, j) \<in> set kvs \<Longrightarrow> reads_back esc j" "distinct (map fst (acc @ kvs))"
  shows "length (join_with '','' (map (\<lambda>(k, j). json_string esc k @ '':'' @ json_text esc j) kvs)) + 1 < f \<Longrightarrow>
    parse_members f (join_with '','' (map (\<lambda>(k, j). json_string esc k @ '':'' @ json_text esc j) kvs) @ CHR ''}'' # r) acc
      = Some (JObj (acc @ kvs), r)"
  using assms
proof (induction kvs arbitrary: f acc)
  case Nil
  then show ?case by simp
next
  case (Cons m kvs)
  obtain k j where m: "m = (k, j)" by (cases m)
  obtain g where f: "f = Suc g" using Cons.prems(1) by (cases f) auto
  have j: "reads_back esc j" using Cons.prems(3) m by auto
  have new: "AList.update k j acc = acc @ [(k, j)]"
    using Cons.prems(4) m by (intro update_new) auto
  let ?t = "join_with '','' (map (\<lambda>(k, j). json_string esc k @ '':'' @ json_text esc j) kvs)"
  have key: "parse_members (Suc g) (json_string esc k @ CHR '':'' # s) acc =
      (case parse_value g s of
         None \<Rightarrow> None
       | Some (j, r0) \<Rightarrow>
         (case skip_space r0 of
            [] \<Rightarrow> None
          | c # r \<Rightarrow> if c = CHR ''}'' then Some (JObj (AList.update k j acc), r)
              else if c = CHR '','' then parse_members g r (AList.update k j acc) else None))" for s
    using parse_string_json [of k "CHR '':'' # s"] by (simp add: json_string_def)
  show ?case
  proof (cases "kvs = []")
    case True
    have "length (json_text esc j) < g" using Cons.prems(1) by (simp add: True m f)
    then have "parse_value g (json_text esc j @ CHR ''}'' # r) = Some (j, CHR ''}'' # r)" by (rule reads_backD [OF j]) simp
    then show ?thesis using key by (simp add: True m f new)
  next
    case False
    have e: "join_with '','' (map (\<lambda>(k, j). json_string esc k @ '':'' @ json_text esc j) (m # kvs)) @ CHR ''}'' # r
        = json_string esc k @ CHR '':'' # json_text esc j @ CHR '','' # ?t @ CHR ''}'' # r"
      using False by (cases kvs) (auto simp: m)
    have l: "length (json_text esc j) < g" "length ?t + 1 < g"
      using Cons.prems(1) False by (cases kvs; simp add: m f)+
    have v: "parse_value g (json_text esc j @ CHR '','' # ?t @ CHR ''}'' # r) = Some (j, CHR '','' # ?t @ CHR ''}'' # r)"
      by (rule reads_backD [OF j l(1)]) simp
    have "parse_members g (?t @ CHR ''}'' # r) (acc @ [(k, j)]) = Some (JObj ((acc @ [(k, j)]) @ kvs), r)"
      using Cons.prems(3,4) by (intro Cons.IH [OF l(2) False]) (auto simp: m)
    then show ?thesis unfolding e f key using v by (simp add: new m)
  qed
qed

lemma json_reads_back: "plain_json j \<Longrightarrow> reads_back esc j"
proof (induction j)
  case JNull
  have "parse_value (Suc g) (json_text esc JNull @ r) = Some (JNull, r)" for g r
    by (auto simp: HasPrefix_def skip_space_def json_space_def)
  then show ?case by (rule reads_backI)
next
  case (JBool b)
  have "parse_value (Suc g) (json_text esc (JBool b) @ r) = Some (JBool b, r)" for g r
    by (auto simp: HasPrefix_def skip_space_def json_space_def)
  then show ?case by (rule reads_backI)
next
  case (JInt i)
  then show ?case unfolding reads_back_def
    by (metis json_text.simps(3) less_nat_zero_code not0_implies_Suc parse_value_int plain_json.simps(1))
next
  case (JStr s)
  show ?case by (rule reads_backI) (simp only: json_text.simps parse_value_string)
next
  case (JArr js)
  show ?case unfolding reads_back_def
  proof (intro allI impI)
    fix f r assume l: "length (json_text esc (JArr js)) < f" and r: "ends_number r"
    obtain g where f: "f = Suc g" using l by (cases f) auto
    show "parse_value f (json_text esc (JArr js) @ r) = Some (JArr js, r)"
    proof (cases "js = []")
      case True
      then show ?thesis by (simp add: f HasPrefix_def)
    next
      case False
      have st: "starts_value (join_with '','' (map (json_text esc) js))"
        using False starts_json by (cases js; cases "tl js") (auto simp: starts_value_def)
      have "parse_elements g (join_with '','' (map (json_text esc) js) @ CHR '']'' # r) [] = Some (JArr ([] @ js), r)"
        using l JArr False by (intro parse_elements_json) (auto simp: f list_all_iff)
      moreover have "\<not> HasPrefix (join_with '','' (map (json_text esc) js) @ CHR '']'' # r) '']''"
        using st by (cases "join_with '','' (map (json_text esc) js)") (auto simp: HasPrefix_def starts_value_def)
      ultimately show ?thesis using starts_append [OF st] by (simp add: f HasPrefix_def)
    qed
  qed
next
  case (JObj kvs)
  show ?case unfolding reads_back_def
  proof (intro allI impI)
    fix f r assume l: "length (json_text esc (JObj kvs)) < f" and r: "ends_number r"
    obtain g where f: "f = Suc g" using l by (cases f) auto
    let ?t = "join_with '','' (map (\<lambda>(k, j). json_string esc k @ '':'' @ json_text esc j) kvs)"
    show "parse_value f (json_text esc (JObj kvs) @ r) = Some (JObj kvs, r)"
    proof (cases "kvs = []")
      case True
      then show ?thesis by (simp add: f HasPrefix_def)
    next
      case False
      have st: "starts_value ?t"
        using False by (cases kvs; cases "tl kvs") (auto simp: starts_value_def json_string_def json_space_def)
      have "reads_back esc j" if "(k, j) \<in> set kvs" for k j
        using JObj.prems that by (intro JObj.IH [OF that]) (auto simp: list_all_iff)
      then have "parse_members g (?t @ CHR ''}'' # r) [] = Some (JObj ([] @ kvs), r)"
        using l JObj.prems False by (intro parse_members_json) (auto simp: f)
      moreover have "\<not> HasPrefix (?t @ CHR ''}'' # r) ''}''"
        using st by (cases ?t) (auto simp: HasPrefix_def starts_value_def)
      ultimately show ?thesis using starts_append [OF st] by (simp add: f HasPrefix_def)
    qed
  qed
qed

text \<open>The text of a plain value is read back.\<close>

lemma Unmarshal_text: "plain_json j \<Longrightarrow> Unmarshal (json_text esc j) = Some j"
  using reads_backD [OF json_reads_back, of j "2 * length (json_text esc j) + 2" "[]"]
  by (simp add: Unmarshal_def ends_number_def skip_space_def)

end

lemma parse_string_html: "parse_string (html_escape c @ s) = map_option (\<lambda>(x, r). (c # x, r)) (parse_string s)"
proof (cases "c = CHR ''<'' \<or> c = CHR ''>'' \<or> c = CHR ''&''")
  case True
  define n where "n = (of_char c :: nat)"
  have n: "n < 128" "c = char_of n" using True by (auto simp: n_def)
  have e: "html_escape c = [CHR 0x5C, CHR ''u'', CHR ''0'', CHR ''0'', hex_digit (n div 16), hex_digit (n mod 16)]"
    using True by (simp add: html_escape_def n_def)
  have "surrogate n s = ([char_of n], 0)" using n(1) by (simp add: surrogate_def utf8_def)
  then show ?thesis using n(1) hex4_low [of n s] by (simp add: e case_prod_unfold flip: n(2))
next
  case False
  then show ?thesis by (simp add: html_escape_def parse_string_escape)
qed

interpretation canonical: json_writer json_escape
  by unfold_locales (rule parse_string_escape)

interpretation marshal: json_writer html_escape
  by unfold_locales (rule parse_string_html)

section \<open>Canonical form\<close>

lemma sort_key_sorted: "sorted (map f xs) \<Longrightarrow> sort_key f xs = xs"
  by (induction xs) (auto simp: insort_is_Cons)

lemma canon_idem [simp]: "canon (canon j) = canon j"
proof (induction j)
  case (JObj kvs)
  let ?xs = "sort_key fst (map (\<lambda>(k, j). (k, canon j)) kvs)"
  have c: "canon (snd m) = snd m" if m: "m \<in> set ?xs" for m
  proof -
    obtain k j where "(k, j) \<in> set kvs" "m = (k, canon j)" using m unfolding set_sort by fastforce
    then show ?thesis using JObj.IH [of "(k, j)" j] by simp
  qed
  have "map (\<lambda>(k, j). (k, canon j)) ?xs = ?xs"
  proof (rule map_idI)
    fix m assume "m \<in> set ?xs"
    from c [OF this] show "(case m of (k, j) \<Rightarrow> (k, canon j)) = m" by (cases m) simp
  qed
  then have "canon (JObj ?xs) = JObj (sort_key fst ?xs)" by (simp only: canon.simps)
  also have "sort_key fst ?xs = ?xs" by (rule sort_key_sorted) simp
  finally show ?case by (simp only: canon.simps)
qed simp_all

lemma distinct_map_fst_sort: "distinct (map fst (sort_key fst xs)) \<longleftrightarrow> distinct (map fst xs)"
  by (simp add: distinct_map)

lemma plain_canon: "plain_json j \<Longrightarrow> plain_json (canon j)"
proof (induction j)
  case (JArr js)
  then show ?case by (auto simp: list_all_iff)
next
  case (JObj kvs)
  let ?ms = "map (\<lambda>(k, j). (k, canon j)) kvs"
  have keys: "map fst ?ms = map fst kvs" by (induction kvs) auto
  have d: "distinct (map fst (sort_key fst ?ms))"
    using JObj.prems unfolding distinct_map_fst_sort keys by simp
  have "ascii k \<and> plain_json j" if "(k, j) \<in> set ?ms" for k j
    using JObj that by (auto simp: list_all_iff)
  then have "list_all (\<lambda>(k, j). ascii k \<and> plain_json j) (sort_key fst ?ms)"
    unfolding list_all_iff set_sort by blast
  then show ?case using d by simp
qed auto

section \<open>The envelope round trip\<close>

lemma bytes_string_bytes [simp]: "bytes_string (string_bytes s) = s"
proof -
  have "char_of (unat (of_nat (of_char c) :: byte)) = c" for c
  proof -
    have "(of_char c :: nat) < 256" by simp
    then show ?thesis by (simp add: unat_of_nat_byte)
  qed
  then show ?thesis by (simp add: bytes_string_def string_bytes_def comp_def)
qed

lemma string_bytes_append: "string_bytes (s @ t) = string_bytes s @ string_bytes t"
  by (simp add: string_bytes_def)

lemma butlast_string_bytes: "butlast (string_bytes s) = string_bytes (butlast s)"
  by (simp add: string_bytes_def map_butlast)

lemma join_with_snoc: "xs \<noteq> [] \<Longrightarrow> join_with d (xs @ [y]) = join_with d xs @ d @ y"
proof (induction d xs rule: join_with.induct)
  case (3 d w v ws)
  then show ?case by (cases ws) auto
qed auto

text \<open>Splicing the mac pair before the closing brace is the text of the object with that member added.\<close>

lemma json_string_B64: "json_string json_escape (B64Encode bs) = CHR 0x22 # B64Encode bs @ [CHR 0x22]"
  and ascii_B64: "ascii (B64Encode bs)"
proof -
  have tab: "list_all (\<lambda>c. json_escape c = [c] \<and> of_char c < (128 :: nat)) b64_alphabet"
    unfolding b64_alphabet_def by (simp add: json_escape_def)
  have "b64_char n \<in> set b64_alphabet" for n
    unfolding b64_char_def by (rule nth_mem) (simp add: b64_alphabet_def)
  then have c: "json_escape (b64_char n) = [b64_char n] \<and> of_char (b64_char n) < (128 :: nat)" for n
    using tab unfolding list_all_iff by blast
  have cs: "\<forall>c \<in> set (B64Encode bs). json_escape c = [c] \<and> of_char c < (128 :: nat)" using b64_chars_clean c by metis
  have "concat (map json_escape s) = s" if "\<forall>c \<in> set s. json_escape c = [c]" for s using that by (induction s) auto
  then show "json_string json_escape (B64Encode bs) = CHR 0x22 # B64Encode bs @ [CHR 0x22]" using cs by (simp add: json_string_def)
  show "ascii (B64Encode bs)" using cs by (simp add: ascii_def list_all_iff)
qed

lemma splice_mac:
  assumes "kvs \<noteq> []"
  shows "butlast (json_text json_escape (JObj kvs)) @ mac_open @ B64Encode tag @ [CHR 0x22, CHR ''}'']
    = json_text json_escape (JObj (kvs @ [(''mac'', JStr (B64Encode tag))]))"
proof -
  have m: "json_string json_escape ''mac'' = [CHR 0x22, CHR ''m'', CHR ''a'', CHR ''c'', CHR 0x22]"
    by (simp add: json_string_def json_escape_def)
  show ?thesis using assms by (simp add: join_with_snoc butlast_append json_string_B64 m mac_open_def)
qed

definition canon_obj :: "(string \<times> json) list \<Rightarrow> (string \<times> json) list" where
  "canon_obj kvs = sort_key fst (map (\<lambda>(k, j). (k, canon j)) kvs)"

lemma canon_JObj: "canon (JObj kvs) = JObj (canon_obj kvs)"
  by (simp add: canon_obj_def)

lemma canon_obj_idem: "canon_obj (canon_obj kvs) = canon_obj kvs"
  using canon_idem [of "JObj kvs"] by (simp only: canon_JObj json.inject)

lemma canon_obj_map_of:
  assumes "distinct (map fst kvs)"
  shows "map_of (canon_obj kvs) k = map_option canon (map_of kvs k)"
proof -
  let ?ms = "map (\<lambda>(k, j). (k, canon j)) kvs"
  have keys: "map fst ?ms = map fst kvs" by (induction kvs) auto
  have "map_of (canon_obj kvs) = map_of ?ms"
    unfolding canon_obj_def
    by (subst map_of_inject_set) (simp_all only: distinct_map_fst_sort keys assms set_sort)
  then show ?thesis by (simp add: map_of_map)
qed

lemma canon_obj_keys: "set (map fst (canon_obj kvs)) = set (map fst kvs)"
proof -
  have "map fst (map (\<lambda>(k, j). (k, canon j)) kvs) = map fst kvs" by (induction kvs) auto
  then show ?thesis unfolding canon_obj_def by (metis set_map set_sort)
qed


text \<open>A packet that the JSON envelope carries exactly.\<close>

definition json_packet :: "Packet \<Rightarrow> bool" where
  "json_packet p \<longleftrightarrow> ascii (Type p) \<and> ascii (PacketID p) \<and> ascii (Source p) \<and> ascii (Destination p) \<and>
     1 \<le> TTL p \<and> TTL p \<le> DefaultTTL \<and> json_exact (sint (Timestamp p)) \<and> plain_json (JObj (Payload p))"

lemma env_keys: "map fst (env_members p) = [''v'', ''type'', ''id'', ''src'', ''dst'', ''ttl'', ''ts'', ''payload'']"
  by (simp add: env_members_def)

lemma env_distinct: "distinct (map fst (env_members p))" unfolding env_keys by simp

lemma packet_of_canon:
  assumes "json_packet p"
  shows "packet_of (canon_obj (env_members p)) = Inr (p\<lparr>Payload := canon_obj (Payload p)\<rparr>)"
proof -
  have m: "map_of (canon_obj (env_members p)) k = map_option canon (map_of (env_members p) k)" for k
    by (rule canon_obj_map_of [OF env_distinct])
  have "get_str (canon_obj (env_members p)) ''type'' = Some (Type p)"
    "get_str (canon_obj (env_members p)) ''id'' = Some (PacketID p)"
    "get_str (canon_obj (env_members p)) ''src'' = Some (Source p)"
    "get_str (canon_obj (env_members p)) ''dst'' = Some (Destination p)"
    "get_num (canon_obj (env_members p)) ''ttl'' = Some (TTL p)"
    "get_num (canon_obj (env_members p)) ''ts'' = Some (sint (Timestamp p))"
    "get_num (canon_obj (env_members p)) ''v'' = Some Version"
    "get_obj (canon_obj (env_members p)) ''payload'' = Some (canon_obj (Payload p))"
    unfolding get_str_def get_num_def get_obj_def m by (simp_all add: env_members_def canon_obj_def)
  then show ?thesis using assms by (simp add: packet_of_def json_packet_def)
qed

lemma plain_env: "json_packet p \<Longrightarrow> plain_json (JObj (env_members p))"
  using env_distinct [of p]
  by (simp add: json_packet_def env_members_def json_exact_def) (simp add: ascii_def)

lemma EncodePacket_text:
  "EncodePacket hm p key =
     (let tag = hm key (string_bytes (json_text json_escape (JObj (canon_obj (env_members p)))));
          out = string_bytes (json_text json_escape (JObj (canon_obj (env_members p) @ [(''mac'', JStr (B64Encode tag))]))) in
      if MaxDatagramSize < length out then Inl ''mesh protocol error: packet exceeds limit'' else Inr out)"
proof -
  have ne: "canon_obj (env_members p) \<noteq> []"
    using canon_obj_keys [of "env_members p"] unfolding env_keys by (cases "canon_obj (env_members p)") auto
  have e: "CanonicalJSON (envelope p) = json_text json_escape (JObj (canon_obj (env_members p)))"
    unfolding CanonicalJSON_def envelope_def canon_JObj ..
  show ?thesis
    by (simp only: EncodePacket_def EncodePacketReuse_def Let_def mac_defs e butlast_string_bytes fst_conv
        PooledMAC.simps append_Nil splice_mac [OF ne] flip: string_bytes_append)
qed


lemma mac_absent:
  assumes "''mac'' \<notin> set (map fst kvs)"
  shows "get_str (kvs @ [(''mac'', JStr ms)]) ''mac'' = Some ms" "AList.delete ''mac'' (kvs @ [(''mac'', JStr ms)]) = kvs"
proof -
  have "map_of kvs ''mac'' = None" using assms by (simp add: map_of_eq_None_iff)
  then show "get_str (kvs @ [(''mac'', JStr ms)]) ''mac'' = Some ms" by (simp add: get_str_def map_add_def)
  show "AList.delete ''mac'' (kvs @ [(''mac'', JStr ms)]) = kvs"
    using assms by (simp add: AList.delete_eq) (rule filter_True, force)
qed

lemma json_envelope_decodes:
  assumes "json_packet p" "EncodePacket hm p key = Inr frame"
  shows "DecodePacket hm frame key = Inr (p\<lparr>Payload := canon_obj (Payload p)\<rparr>)"
proof -
  let ?kvs = "canon_obj (env_members p)"
  define tag where "tag = hm key (string_bytes (json_text json_escape (JObj ?kvs)))"
  let ?all = "JObj (?kvs @ [(''mac'', JStr (B64Encode tag))])"
  have frame: "frame = string_bytes (json_text json_escape ?all)" "\<not> MaxDatagramSize < length frame"
    using assms(2) by (auto simp: EncodePacket_text Let_def tag_def split: if_splits)
  have keys: "''mac'' \<notin> set (map fst ?kvs)" unfolding canon_obj_keys env_keys by simp
  have kvs: "plain_json (JObj ?kvs)"
    using plain_canon [OF plain_env [OF assms(1)]] by (simp only: canon_JObj)
  then have "plain_json ?all" using keys ascii_B64 by (simp add: ascii_def)
  then have "unmarshal_map frame = Some (?kvs @ [(''mac'', JStr (B64Encode tag))])"
    unfolding unmarshal_map_def frame(1) bytes_string_bytes by (simp only: canonical.Unmarshal_text option.case json.case)
  moreover have "CanonicalJSON (JObj ?kvs) = json_text json_escape (JObj ?kvs)"
    unfolding CanonicalJSON_def canon_JObj canon_obj_idem ..
  ultimately show ?thesis
    using frame(2) packet_of_canon [OF assms(1)]
    by (simp add: DecodePacket_def DecodePacketReuse_def Let_def mac_absent [OF keys] B64Decode_Encode mac_defs
        del: json_text.simps flip: tag_def)
qed


text \<open>What the decoder accepts carries the tag of its own canonical form without the mac.\<close>

lemma DecodePacket_authentic:
  assumes "DecodePacket hm data key = Inr p"
  obtains e ms where "unmarshal_map data = Some e" "get_str e ''mac'' = Some ms"
    "B64Decode ms = Some (hm key (string_bytes (CanonicalJSON (JObj (AList.delete ''mac'' e)))))"
    "packet_of (AList.delete ''mac'' e) = Inr p"
  using assms
  by (auto simp: DecodePacket_def DecodePacketReuse_def mac_defs Let_def split: option.splits if_splits)

definition sample_json_packet :: Packet where
  "sample_json_packet = \<lparr>Type = ''DATA'', Source = ''aa'', Destination = ''bb'',
     Payload = [(''z'', JArr [JInt (-7), JNull]), (''a'', JStr (CHR 0x22 # ''x''))], PacketID = ''01'', TTL = 8,
     Timestamp = 99\<rparr>"


end
