(* ===== verification/Sockets.thy ===== *)
theory Sockets
  imports Mesh_Prelude "HOL-Library.AList"
begin

text \<open>
  The UDP sockets of a node behind a symmetric NAT: one primary socket and one socket per superpeer
  (\<^verbatim>\<open>mesh-node/keepalive.go\<close>, \<^verbatim>\<open>mesh-node/symmetric.go\<close>, \<^verbatim>\<open>mesh-node/recovery.go\<close>, \<^verbatim>\<open>mesh-node/transport.go\<close>).

  A socket is a handle; \<open>sock_closed\<close> are the handles that were closed.  The map of per-superpeer
  sockets is an association list whose order stands for Go's map iteration order.  What
  \<^verbatim>\<open>net.ListenUDP\<close> returns is an argument.  Windows firewall updates are left out.
\<close>

section \<open>The code\<close>

record sock_state =
  conn :: "nat option"
  symmetricConns :: "(string \<times> nat) list"
  symmetricReady :: bool
  sock_closed :: "nat set"
  receiveStarted :: bool
  receiveSockets :: "nat set"
  networkGen :: nat

definition close_sock :: "nat \<Rightarrow> sock_state \<Rightarrow> sock_state" where
  "close_sock c s = s\<lparr>sock_closed := insert c (sock_closed s)\<rparr>"

definition connForPeer :: "string \<Rightarrow> string \<Rightarrow> sock_state \<Rightarrow> nat option" where
  "connForPeer natType p s =
     (if natType = ''symmetric'' then
        (case map_of (symmetricConns s) p of Some c \<Rightarrow> Some c | None \<Rightarrow> conn s)
      else conn s)"

definition symmetricTransportReady :: "string \<Rightarrow> sock_state \<Rightarrow> bool" where
  "symmetricTransportReady p s \<longleftrightarrow> map_of (symmetricConns s) p \<noteq> None"

definition symmetricTransportCount :: "sock_state \<Rightarrow> nat" where
  "symmetricTransportCount s = length (symmetricConns s)"

definition addReceiveSocket :: "nat \<Rightarrow> sock_state \<Rightarrow> sock_state" where
  "addReceiveSocket c s =
     (if receiveStarted s then s\<lparr>receiveSockets := insert c (receiveSockets s)\<rparr> else s)"

definition finishUDPConnReplacement :: "nat option \<Rightarrow> sock_state \<Rightarrow> sock_state" where
  "finishUDPConnReplacement old s = (case old of None \<Rightarrow> s | Some c \<Rightarrow> close_sock c s)"

definition replaceUDPConn :: "nat \<Rightarrow> sock_state \<Rightarrow> sock_state" where
  "replaceUDPConn fresh s =
     (let old = conn s; s1 = s\<lparr>conn := Some fresh\<rparr>
      in addReceiveSocket fresh (finishUDPConnReplacement old s1))"

definition installSymmetricConn :: "string \<Rightarrow> nat \<Rightarrow> sock_state \<Rightarrow> bool \<times> sock_state" where
  "installSymmetricConn p fresh s =
     (let primary = (length (symmetricConns s) = 0);
          s1 = s\<lparr>symmetricConns := AList.update p fresh (symmetricConns s), symmetricReady := True\<rparr>;
          s2 = (if primary then replaceUDPConn fresh s1 else s1)
      in (primary, addReceiveSocket fresh s2))"

text \<open>\<^verbatim>\<open>rebindUDPConn\<close>: \<open>listen\<close> is the socket for the old port, \<open>fallback\<close> one for an ephemeral port, which
  is tried only when the configured port is 0.\<close>

definition rebindUDPConn :: "nat \<Rightarrow> nat option \<Rightarrow> nat option \<Rightarrow> sock_state \<Rightarrow> bool \<times> sock_state" where
  "rebindUDPConn port listen fallback s =
     (case conn s of
        None \<Rightarrow> (False, s)
      | Some old \<Rightarrow>
          (let s1 = close_sock old s in
           case (case listen of Some c \<Rightarrow> Some c | None \<Rightarrow> if port = 0 then fallback else None) of
             None \<Rightarrow> (False, s1)
           | Some fresh \<Rightarrow>
               (True, addReceiveSocket fresh (finishUDPConnReplacement (Some old)
                  (s1\<lparr>networkGen := networkGen s1 + 1, conn := Some fresh\<rparr>)))))"

text \<open>The sockets' part of \<^verbatim>\<open>resetTransportState\<close>.\<close>

definition resetTransportConns :: "sock_state \<Rightarrow> sock_state" where
  "resetTransportConns s =
     (let others = {c \<in> snd ` set (symmetricConns s). Some c \<noteq> conn s}
      in s\<lparr>sock_closed := sock_closed s \<union> others, symmetricConns := [], symmetricReady := False\<rparr>)"

text \<open>The sockets' part of \<^verbatim>\<open>resetSymmetricRelay\<close>.  The loop that looks for a replacement runs before the
  dead entry is deleted and takes the first entry of the iteration.\<close>

definition resetSymmetricRelay :: "string \<Rightarrow> nat option \<Rightarrow> sock_state \<Rightarrow> sock_state" where
  "resetSymmetricRelay p listen s =
     (let primary = conn s;
          dead = map_of (symmetricConns s) p;
          wasPrimary = (dead \<noteq> None \<and> dead = primary);
          promote = (if wasPrimary then (case symmetricConns s of [] \<Rightarrow> None | e # _ \<Rightarrow> Some (snd e)) else None);
          closeConn = (if wasPrimary then None else dead);
          s1 = s\<lparr>symmetricConns := AList.delete p (symmetricConns s)\<rparr>;
          promote = (if wasPrimary \<and> promote = None then listen else promote);
          s2 = (case promote of None \<Rightarrow> s1 | Some c \<Rightarrow> replaceUDPConn c s1)
      in (case closeConn of None \<Rightarrow> s2 | Some c \<Rightarrow> close_sock c s2))"

section \<open>Invariant\<close>

text \<open>Every socket that sends may be used: the primary one and those of the superpeers are open.\<close>

definition socks_ok :: "sock_state \<Rightarrow> bool" where
  "socks_ok s \<longleftrightarrow> distinct (map fst (symmetricConns s))
     \<and> (\<forall>c \<in> set_option (conn s) \<union> snd ` set (symmetricConns s). c \<notin> sock_closed s)"

lemma set_delete_conns: "set (AList.delete p xs) = {(q, c) \<in> set xs. q \<noteq> p}"
  by (auto simp: AList.delete_eq)

lemma set_update_conns: "set (AList.update p c xs) \<subseteq> insert (p, c) (set xs)"
  by (induction xs) auto

lemma addReceiveSocket_frame [simp]:
  "conn (addReceiveSocket c s) = conn s" "symmetricConns (addReceiveSocket c s) = symmetricConns s"
  "sock_closed (addReceiveSocket c s) = sock_closed s"
  by (simp_all add: addReceiveSocket_def)

lemma connForPeer_open:
  "socks_ok s \<Longrightarrow> connForPeer natType p s = Some c \<Longrightarrow> c \<notin> sock_closed s"
proof -
  assume ok: "socks_ok s" and c: "connForPeer natType p s = Some c"
  have "conn s = Some c \<or> map_of (symmetricConns s) p = Some c"
    using c by (auto simp: connForPeer_def split: if_splits option.splits)
  then have "c \<in> set_option (conn s) \<union> snd ` set (symmetricConns s)"
    by (auto dest!: map_of_SomeD intro: rev_image_eqI)
  then show ?thesis using ok by (auto simp: socks_ok_def)
qed

text \<open>Changing transports never leaves the node sending on a closed socket.  Installing a fresh socket
  for a superpeer, and rebinding the primary socket followed by the reset of the transports (the
  sequence of a network recovery), keep every socket that a packet can be sent on open; the
  superpeer's packets then use the installed socket.\<close>

lemma transports_stay_open:
  assumes "socks_ok s" "fresh \<notin> sock_closed s" "fresh \<notin> snd ` set (symmetricConns s)" "conn s \<noteq> Some fresh"
  shows "socks_ok (snd (installSymmetricConn p fresh s))
    \<and> socks_ok (resetTransportConns s)
    \<and> (fst (rebindUDPConn port (Some fresh) fb s)
        \<longrightarrow> socks_ok (resetTransportConns (snd (rebindUDPConn port (Some fresh) fb s))))
    \<and> connForPeer ''symmetric'' p (snd (installSymmetricConn p fresh s)) = Some fresh"
proof (intro conjI impI)
  show "socks_ok (resetTransportConns s)"
    using assms(1) by (auto simp: socks_ok_def resetTransportConns_def Let_def)
  have upd: "snd ` set (AList.update p fresh (symmetricConns s)) \<subseteq> insert fresh (snd ` set (symmetricConns s))"
    using set_update_conns [of p fresh "symmetricConns s"] by auto
  show "socks_ok (snd (installSymmetricConn p fresh s))"
  proof (cases "symmetricConns s = []")
    case True
    then show ?thesis using assms
      by (auto simp: socks_ok_def installSymmetricConn_def replaceUDPConn_def finishUDPConnReplacement_def
          close_sock_def Let_def split: option.splits)
  next
    case False
    have "c \<notin> sock_closed s" if "c \<in> snd ` set (AList.update p fresh (symmetricConns s))" for c
      using that upd assms(1,2) by (auto simp: socks_ok_def)
    then show ?thesis using False assms(1)
      by (simp add: socks_ok_def installSymmetricConn_def Let_def distinct_update) blast
  qed
  show "socks_ok (resetTransportConns (snd (rebindUDPConn port (Some fresh) fb s)))"
    if "fst (rebindUDPConn port (Some fresh) fb s)"
    using assms that
    by (auto simp: socks_ok_def rebindUDPConn_def resetTransportConns_def finishUDPConnReplacement_def
        close_sock_def Let_def split: option.splits)
  show "connForPeer ''symmetric'' p (snd (installSymmetricConn p fresh s)) = Some fresh"
    by (simp add: connForPeer_def installSymmetricConn_def replaceUDPConn_def finishUDPConnReplacement_def
        close_sock_def Let_def update_conv' split: option.splits)
qed

definition sample_socks :: sock_state where
  "sample_socks = \<lparr>conn = Some 0, symmetricConns = [], symmetricReady = False, sock_closed = {},
     receiveStarted = True, receiveSockets = {0}, networkGen = 0\<rparr>"

lemma transports_stay_open_witness:
  "socks_ok (snd (installSymmetricConn ''r'' 1 sample_socks))
   \<and> connForPeer ''symmetric'' ''r'' (snd (installSymmetricConn ''r'' 1 sample_socks)) = Some 1"
  using transports_stay_open [of sample_socks 1 "''r''"] by (simp add: sample_socks_def socks_ok_def)

text \<open>Resetting the superpeer whose socket is the primary one closes the primary socket.  The first
  superpeer's socket doubles as the primary one; when its edge dies and it is the entry that the
  map iteration yields first (always, when it is the only one), \<^verbatim>\<open>resetSymmetricRelay\<close> promotes the
  dead socket to itself and closes it, so every later packet is sent on a closed socket.\<close>

lemma reset_relay_closes_primary:
  assumes "symmetricConns s = (p, c) # rest" "conn s = Some c"
  shows "conn (resetSymmetricRelay p listen s) = Some c \<and> c \<in> sock_closed (resetSymmetricRelay p listen s)"
  using assms
  by (simp add: resetSymmetricRelay_def replaceUDPConn_def finishUDPConnReplacement_def close_sock_def Let_def)

lemma reset_relay_closes_primary_witness:
  "conn (resetSymmetricRelay ''r'' (Some 2) (snd (installSymmetricConn ''r'' 1 sample_socks))) = Some 1
   \<and> 1 \<in> sock_closed (resetSymmetricRelay ''r'' (Some 2) (snd (installSymmetricConn ''r'' 1 sample_socks)))"
  by (rule reset_relay_closes_primary [where rest = "[]"])
     (simp_all add: installSymmetricConn_def sample_socks_def replaceUDPConn_def finishUDPConnReplacement_def
        close_sock_def addReceiveSocket_def Let_def)

text \<open>Rebinding alone strands the first superpeer.  After the first superpeer's socket became the
  primary one, a successful rebind of the primary socket that is not followed by a transport reset
  (as after a control reconnect that finds the endpoint unchanged) leaves the superpeer's packets
  on the closed socket.\<close>

lemma rebind_strands_first_relay:
  assumes "symmetricConns s = []" "c \<noteq> fresh"
  shows "fst (rebindUDPConn port (Some fresh) fb (snd (installSymmetricConn p c s)))
    \<and> connForPeer ''symmetric'' p (snd (rebindUDPConn port (Some fresh) fb (snd (installSymmetricConn p c s)))) = Some c
    \<and> c \<in> sock_closed (snd (rebindUDPConn port (Some fresh) fb (snd (installSymmetricConn p c s))))"
  using assms
  by (simp add: rebindUDPConn_def installSymmetricConn_def replaceUDPConn_def finishUDPConnReplacement_def
      close_sock_def connForPeer_def Let_def split: option.splits)

lemma rebind_strands_first_relay_witness:
  "1 \<in> sock_closed (snd (rebindUDPConn 0 (Some 2) None (snd (installSymmetricConn ''r'' 1 sample_socks))))"
  using rebind_strands_first_relay [of sample_socks 1 2 0 None "''r''"] by (simp add: sample_socks_def)

end
