(* ===== verification/Scan_Sessions.thy ===== *)
theory Scan_Sessions
  imports Peers
begin

text \<open>
  Bookkeeping of symmetric-NAT scans on a superpeer (\<^verbatim>\<open>mesh-node/keepalive.go\<close>, \<^verbatim>\<open>mesh-node/symmetric.go\<close>,
  \<^verbatim>\<open>mesh-node/discovery.go\<close>, \<^verbatim>\<open>mesh-node/recovery.go\<close>): starting, refining, completing and cancelling scans.

  A scan goroutine is cancelled by closing its channel, and closing a closed channel is a Go panic, so
  \<open>close_chan\<close> is partial.  Every critical section of the mutex \<^verbatim>\<open>symmetricMu\<close> is one function, and
  \<open>scan_step\<close> makes one step of each; handlers that enter the mutex twice are two steps, between which
  anything may happen.  The theorems show that no interleaving closes a channel twice, and that at
  most one scan per peer is alive, namely the registered one.
\<close>

section \<open>State\<close>

record scan_job =
  job_peer :: string
  job_endpoint :: string
  job_session :: string
  job_cancel :: nat

record scan_state =
  symmetricScans :: "(string \<times> nat) list"
  symmetricSessions :: "string \<rightharpoonup> string"
  symmetricConnected :: "string set"
  symmetricBurstAt :: "string \<rightharpoonup> time"
  symmetricBurstSess :: "string \<rightharpoonup> string"
  closed :: "nat set"
  next_chan :: nat
  running :: "scan_job list"

text \<open>\<^verbatim>\<open>close(c)\<close>; None is the panic of a double close.\<close>

definition close_chan :: "nat \<Rightarrow> scan_state \<Rightarrow> scan_state option" where
  "close_chan c s = (if c \<in> closed s then None else Some (s\<lparr>closed := insert c (closed s)\<rparr>))"

definition drop_scan :: "string \<Rightarrow> scan_state \<Rightarrow> scan_state" where
  "drop_scan p s = s\<lparr>symmetricScans := AList.delete p (symmetricScans s)\<rparr>"

definition drop_session :: "string \<Rightarrow> scan_state \<Rightarrow> scan_state" where
  "drop_session p s = s\<lparr>symmetricSessions := (symmetricSessions s)(p := None)\<rparr>"

definition drop_burst :: "string \<Rightarrow> scan_state \<Rightarrow> scan_state" where
  "drop_burst p s = s\<lparr>symmetricBurstAt := (symmetricBurstAt s)(p := None),
     symmetricBurstSess := (symmetricBurstSess s)(p := None)\<rparr>"

definition session_of :: "scan_state \<Rightarrow> string \<Rightarrow> string" where
  "session_of s p = (case symmetricSessions s p of Some x \<Rightarrow> x | None \<Rightarrow> [])"

section \<open>Operations\<close>

text \<open>The scan that is being replaced is removed from both maps and cancelled.\<close>

definition cancel_existing :: "string \<Rightarrow> scan_state \<Rightarrow> scan_state option" where
  "cancel_existing p s =
     (case map_of (symmetricScans s) p of
        None \<Rightarrow> Some s
      | Some c \<Rightarrow> close_chan c (drop_session p (drop_scan p s)))"

definition startSymmetricScan ::
    "bool \<Rightarrow> string \<Rightarrow> string \<Rightarrow> string \<Rightarrow> bool \<Rightarrow> scan_state \<Rightarrow> scan_state option" where
  "startSymmetricScan live p endpoint sessionID force s =
     (if map_of (symmetricScans s) p \<noteq> None \<and> \<not> force \<and> session_of s p = sessionID then Some s
      else case cancel_existing p s of
        None \<Rightarrow> None
      | Some s1 \<Rightarrow>
          (let s2 = (if \<not> live then s1\<lparr>symmetricConnected := symmetricConnected s1 - {p}\<rparr> else s1)
           in if p \<in> symmetricConnected s2 \<and> \<not> force then Some s2
              else Some (s2\<lparr>symmetricScans := AList.update p (next_chan s2) (symmetricScans s2),
                     symmetricSessions := (symmetricSessions s2)(p \<mapsto> sessionID),
                     next_chan := next_chan s2 + 1,
                     running := \<lparr>job_peer = p, job_endpoint = endpoint, job_session = sessionID,
                                 job_cancel = next_chan s2\<rparr> # running s2\<rparr>)))"

definition completeSymmetricScan :: "string \<Rightarrow> string \<Rightarrow> scan_state \<Rightarrow> scan_state option" where
  "completeSymmetricScan p sessionID s =
     (case map_of (symmetricScans s) p of
        None \<Rightarrow> Some s
      | Some cancel \<Rightarrow>
          (if session_of s p \<noteq> sessionID then Some s
           else map_option (\<lambda>s1. s1\<lparr>symmetricConnected := insert p (symmetricConnected s1)\<rparr>)
                  (close_chan cancel (drop_session p (drop_scan p s)))))"

text \<open>The deferred cleanup of \<^verbatim>\<open>scanSymmetricNeighbor\<close> when its goroutine ends.\<close>

definition scan_exit :: "scan_job \<Rightarrow> scan_state \<Rightarrow> scan_state" where
  "scan_exit j s =
     (let s1 = (if map_of (symmetricScans s) (job_peer j) = Some (job_cancel j)
                then drop_session (job_peer j) (drop_scan (job_peer j) s) else s)
      in s1\<lparr>running := removeAll j (running s1)\<rparr>)"

text \<open>The loops over \<^verbatim>\<open>symmetricScans\<close> that cancel the listed entries.\<close>

fun cancel_each :: "(string \<Rightarrow> scan_state \<Rightarrow> scan_state) \<Rightarrow> (string \<times> nat) list \<Rightarrow> scan_state \<Rightarrow> scan_state option" where
  "cancel_each f [] s = Some s"
| "cancel_each f ((p, c) # es) s =
     (case close_chan c (drop_scan p s) of None \<Rightarrow> None | Some s1 \<Rightarrow> cancel_each f es (f p s1))"

definition cancelObsoleteSymmetricScans :: "string set \<Rightarrow> scan_state \<Rightarrow> scan_state option" where
  "cancelObsoleteSymmetricScans nbrs s =
     cancel_each (\<lambda>p s. drop_burst p ((drop_session p s)\<lparr>symmetricConnected := symmetricConnected s - {p}\<rparr>))
       (filter (\<lambda>(p, _). p \<notin> nbrs) (symmetricScans s)) s"

text \<open>The part of \<^verbatim>\<open>resetTransportState\<close> under \<^verbatim>\<open>symmetricMu\<close>.\<close>

definition resetTransportScans :: "scan_state \<Rightarrow> scan_state option" where
  "resetTransportScans s =
     map_option (\<lambda>s1. s1\<lparr>symmetricSessions := Map.empty, symmetricConnected := {},
         symmetricBurstAt := Map.empty, symmetricBurstSess := Map.empty\<rparr>)
       (cancel_each (\<lambda>p s. s) (symmetricScans s) s)"

text \<open>The part of \<^verbatim>\<open>resetSymmetricRelay\<close> under \<^verbatim>\<open>symmetricMu\<close>.\<close>

definition resetRelayScan :: "string \<Rightarrow> scan_state \<Rightarrow> scan_state option" where
  "resetRelayScan p s =
     map_option (\<lambda>s1. drop_burst p ((drop_session p s1)\<lparr>symmetricConnected := symmetricConnected s1 - {p}\<rparr>))
       (case map_of (symmetricScans s) p of
          None \<Rightarrow> Some s
        | Some c \<Rightarrow> close_chan c (drop_scan p s))"

text \<open>The first critical section of \<^verbatim>\<open>handleSymmetricScanEvent\<close>; it then calls \<^verbatim>\<open>startSymmetricScan\<close>.\<close>

definition armScanEvent :: "string \<Rightarrow> string \<Rightarrow> scan_state \<Rightarrow> scan_state option" where
  "armScanEvent p sessionID s =
     map_option (\<lambda>s1. drop_burst p (s1\<lparr>symmetricConnected := symmetricConnected s1 - {p},
         symmetricSessions := (symmetricSessions s1)(p \<mapsto> sessionID)\<rparr>))
       (cancel_existing p s)"

definition handleSymmetricScanEvent ::
    "string \<Rightarrow> (string \<rightharpoonup> peer) \<Rightarrow> time \<Rightarrow> string \<Rightarrow> string \<Rightarrow> string \<Rightarrow> scan_state \<Rightarrow> scan_state option" where
  "handleSymmetricScanEvent role nbrs now p sessionID endpoint s =
     (if role \<noteq> ''superpeer'' \<or> p = [] \<or> sessionID = [] \<or> endpoint = [] then Some s
      else case nbrs p of
        None \<Rightarrow> Some s
      | Some q \<Rightarrow>
          (if NAT q \<noteq> ''symmetric'' then Some s
           else Option.bind (armScanEvent p sessionID s)
                  (startSymmetricScan (usable now (Some q)) p endpoint sessionID True)))"

text \<open>The critical section of \<^verbatim>\<open>handleSymmetricBurst\<close>: whether the burst goes on to \<^verbatim>\<open>startSymmetricScan\<close>.\<close>

definition noteBurst :: "time \<Rightarrow> string \<Rightarrow> string \<Rightarrow> scan_state \<Rightarrow> bool \<times> scan_state" where
  "noteBurst now p sessionID s =
     (let armed = session_of s p;
          recent = (case symmetricBurstAt s p of Some t \<Rightarrow> now - t < 5000 | None \<Rightarrow> False);
          previousSession = (case symmetricBurstSess s p of Some x \<Rightarrow> x | None \<Rightarrow> [])
      in if armed \<noteq> [] \<and> sessionID \<noteq> armed then (False, s)
         else if previousSession = sessionID \<and> recent then (False, s)
         else (True, s\<lparr>symmetricBurstAt := (symmetricBurstAt s)(p \<mapsto> now),
                symmetricBurstSess := (symmetricBurstSess s)(p \<mapsto> sessionID)\<rparr>))"

definition handleSymmetricBurst ::
    "string \<Rightarrow> (string \<rightharpoonup> peer) \<Rightarrow> time \<Rightarrow> Packet \<Rightarrow> string \<Rightarrow> scan_state \<Rightarrow> scan_state option" where
  "handleSymmetricBurst role nbrs now packet observed s =
     (if role \<noteq> ''superpeer'' then Some s
      else case nbrs (Source packet) of
        None \<Rightarrow> Some s
      | Some q \<Rightarrow>
          (if NAT q \<noteq> ''symmetric'' then Some s
           else case noteBurst now (Source packet) (payloadString packet ''session_id'') s of
             (False, s1) \<Rightarrow> Some s1
           | (True, s1) \<Rightarrow>
               startSymmetricScan (usable now (Some q)) (Source packet) observed
                 (payloadString packet ''session_id'') (observed \<noteq> Endpoint q) s1))"

section \<open>Steps\<close>

definition scan_init :: scan_state where
  "scan_init = \<lparr>symmetricScans = [], symmetricSessions = Map.empty, symmetricConnected = {},
     symmetricBurstAt = Map.empty, symmetricBurstSess = Map.empty, closed = {}, next_chan = 0, running = []\<rparr>"

datatype scan_op =
    StartScan bool string string string bool
  | CompleteScan string string
  | ExitScan scan_job
  | CancelObsolete "string set"
  | ResetTransport
  | ResetRelay string
  | ArmEvent string string
  | NoteBurst time string string

fun scan_step :: "scan_op \<Rightarrow> scan_state \<Rightarrow> scan_state option" where
  "scan_step (StartScan live p e sid force) s = startSymmetricScan live p e sid force s"
| "scan_step (CompleteScan p sid) s = completeSymmetricScan p sid s"
| "scan_step (ExitScan j) s = Some (if j \<in> set (running s) then scan_exit j s else s)"
| "scan_step (CancelObsolete nbrs) s = cancelObsoleteSymmetricScans nbrs s"
| "scan_step ResetTransport s = resetTransportScans s"
| "scan_step (ResetRelay p) s = resetRelayScan p s"
| "scan_step (ArmEvent p sid) s = armScanEvent p sid s"
| "scan_step (NoteBurst now p sid) s = Some (snd (noteBurst now p sid s))"

inductive scan_reach :: "scan_state \<Rightarrow> bool" where
  scan_start: "scan_reach scan_init"
| scan_next: "scan_reach s \<Longrightarrow> scan_step op s = Some s' \<Longrightarrow> scan_reach s'"

section \<open>Invariant\<close>

text \<open>Registered channels are distinct, open and allocated, and an open running scan is the registered one
  of its peer.\<close>

definition scan_ok :: "scan_state \<Rightarrow> bool" where
  "scan_ok s \<longleftrightarrow> distinct (map fst (symmetricScans s)) \<and> distinct (map snd (symmetricScans s))
     \<and> (\<forall>(p, c) \<in> set (symmetricScans s). c \<notin> closed s \<and> c < next_chan s)
     \<and> (\<forall>c \<in> closed s. c < next_chan s) \<and> distinct (map job_cancel (running s))
     \<and> (\<forall>j \<in> set (running s). job_cancel j < next_chan s
          \<and> (job_cancel j \<notin> closed s \<longrightarrow> (job_peer j, job_cancel j) \<in> set (symmetricScans s)))"

lemma scan_ok_init: "scan_ok scan_init"
  by (simp add: scan_ok_def scan_init_def)

lemma set_delete: "set (AList.delete p xs) = {(q, c) \<in> set xs. q \<noteq> p}"
  by (auto simp: AList.delete_eq)

text \<open>Removing an entry and closing its channel, the common core of every cancellation.\<close>

lemma close_registered:
  assumes "scan_ok s" "(p, c) \<in> set (symmetricScans s)"
  shows "\<exists>s1. close_chan c (drop_scan p s) = Some s1 \<and> scan_ok s1
    \<and> set (symmetricScans s1) = {(q, d) \<in> set (symmetricScans s). q \<noteq> p}
    \<and> running s1 = running s \<and> symmetricSessions s1 = symmetricSessions s
    \<and> symmetricConnected s1 = symmetricConnected s \<and> closed s1 = insert c (closed s)"
proof -
  let ?s1 = "(drop_scan p s)\<lparr>closed := insert c (closed s)\<rparr>"
  have opn: "c \<notin> closed s" "c < next_chan s" using assms by (auto simp: scan_ok_def)
  have uniq: "q = p" if "(q, c) \<in> set (symmetricScans s)" for q
    using that assms by (metis (no_types, lifting) distinct_map inj_onD prod.inject scan_ok_def snd_conv)
  have pc: "d = c" if "(p, d) \<in> set (symmetricScans s)" for d
    using that assms by (metis (no_types, lifting) distinct_map inj_onD prod.inject scan_ok_def fst_conv)
  have "distinct (map snd (AList.delete p (symmetricScans s)))"
    using assms(1) by (simp add: AList.delete_eq scan_ok_def distinct_map_filter)
  moreover have "distinct (map fst (AList.delete p (symmetricScans s)))"
    using assms(1) by (simp add: distinct_delete scan_ok_def)
  moreover have "d \<notin> insert c (closed s) \<and> d < next_chan s" if "(q, d) \<in> set (symmetricScans s)" "q \<noteq> p" for q d
    using that uniq assms(1) by (auto simp: scan_ok_def)
  moreover have "d < next_chan s" if "d \<in> insert c (closed s)" for d
    using that opn assms(1) by (auto simp: scan_ok_def)
  moreover have "job_cancel j < next_chan s \<and> (job_cancel j \<notin> insert c (closed s)
      \<longrightarrow> (job_peer j, job_cancel j) \<in> set (symmetricScans s) \<and> job_peer j \<noteq> p)" if "j \<in> set (running s)" for j
    using that pc assms(1) by (auto simp: scan_ok_def)
  ultimately have "scan_ok ?s1"
    using assms(1) unfolding scan_ok_def drop_scan_def by (simp add: set_delete) blast
  moreover have "close_chan c (drop_scan p s) = Some ?s1"
    using opn by (simp add: close_chan_def drop_scan_def)
  ultimately show ?thesis by (auto simp: drop_scan_def set_delete)
qed

lemma close_reg_mapped:
  assumes "scan_ok s" "map_of (symmetricScans s) p = Some c"
  shows "\<exists>s1. close_chan c (drop_scan p s) = Some s1 \<and> scan_ok s1
    \<and> set (symmetricScans s1) = {(q, d) \<in> set (symmetricScans s). q \<noteq> p}
    \<and> running s1 = running s \<and> symmetricSessions s1 = symmetricSessions s
    \<and> symmetricConnected s1 = symmetricConnected s \<and> closed s1 = insert c (closed s)"
  using close_registered [OF assms(1) map_of_SomeD [OF assms(2)]] .

lemma scan_ok_frame [simp]:
  "scan_ok (drop_session p s) = scan_ok s" "scan_ok (drop_burst p s) = scan_ok s"
  "scan_ok (s\<lparr>symmetricConnected := C\<rparr>) = scan_ok s" "scan_ok (s\<lparr>symmetricSessions := S\<rparr>) = scan_ok s"
  "scan_ok (s\<lparr>symmetricBurstAt := A\<rparr>) = scan_ok s" "scan_ok (s\<lparr>symmetricBurstSess := B\<rparr>) = scan_ok s"
  by (simp_all add: scan_ok_def drop_session_def drop_burst_def)

lemma drop_session_frame [simp]:
  "symmetricScans (drop_session p s) = symmetricScans s" "symmetricScans (drop_burst p s) = symmetricScans s"
  "running (drop_session p s) = running s" "next_chan (drop_session p s) = next_chan s"
  by (simp_all add: drop_session_def drop_burst_def)

lemma close_drop_session: "close_chan c (drop_session p s) = map_option (drop_session p) (close_chan c s)"
  by (simp add: close_chan_def drop_session_def)

lemma drop_session_scan: "drop_session p (drop_scan q s) = drop_scan q (drop_session p s)"
  by (simp add: drop_scan_def drop_session_def)

lemma cancel_existing_ok:
  assumes "scan_ok s"
  shows "\<exists>s1. cancel_existing p s = Some s1 \<and> scan_ok s1 \<and> p \<notin> fst ` set (symmetricScans s1)"
proof (cases "map_of (symmetricScans s) p")
  case None
  then have "p \<notin> fst ` set (symmetricScans s)" by (simp add: map_of_eq_None_iff)
  then show ?thesis using assms None by (simp add: cancel_existing_def)
next
  case (Some c)
  from close_reg_mapped [OF assms Some] show ?thesis
    by (auto simp: cancel_existing_def Some close_drop_session)
qed

lemma register_ok:
  assumes "scan_ok s" "p \<notin> fst ` set (symmetricScans s)"
  shows "scan_ok (s\<lparr>symmetricScans := AList.update p (next_chan s) (symmetricScans s),
      symmetricSessions := S, next_chan := next_chan s + 1,
      running := \<lparr>job_peer = p, job_endpoint = e, job_session = x, job_cancel = next_chan s\<rparr> # running s\<rparr>)"
proof -
  have upd: "AList.update p v xs = xs @ [(p, v)]" if "p \<notin> fst ` set xs" for v and xs :: "(string \<times> nat) list"
    using that by (induction xs) auto
  have fresh: "next_chan s \<notin> snd ` set (symmetricScans s)" "next_chan s \<notin> closed s"
    "next_chan s \<notin> job_cancel ` set (running s)"
    using assms(1) by (auto simp: scan_ok_def)
  show ?thesis
    using assms fresh by (auto simp: scan_ok_def upd)
qed

lemma start_ok:
  assumes "scan_ok s"
  shows "\<exists>s1. startSymmetricScan live p e sid force s = Some s1 \<and> scan_ok s1"
proof -
  obtain s1 where s1: "cancel_existing p s = Some s1" "scan_ok s1" "p \<notin> fst ` set (symmetricScans s1)"
    using cancel_existing_ok [OF assms] by blast
  let ?s2 = "if \<not> live then s1\<lparr>symmetricConnected := symmetricConnected s1 - {p}\<rparr> else s1"
  have s2: "scan_ok ?s2" "p \<notin> fst ` set (symmetricScans ?s2)" using s1 by simp_all
  show ?thesis
    using assms s1(1) s2 register_ok [OF s2]
    by (simp add: startSymmetricScan_def Let_def)
qed

lemma complete_ok:
  assumes "scan_ok s"
  shows "\<exists>s1. completeSymmetricScan p sid s = Some s1 \<and> scan_ok s1"
proof (cases "map_of (symmetricScans s) p")
  case (Some c)
  from close_reg_mapped [OF assms Some] show ?thesis
    using assms by (auto simp: completeSymmetricScan_def Some close_drop_session)
qed (use assms in \<open>auto simp: completeSymmetricScan_def\<close>)

lemma exit_ok:
  assumes "scan_ok s" "j \<in> set (running s)"
  shows "scan_ok (scan_exit j s)"
proof -
  have uniq: "i = j" if "i \<in> set (running s)" "job_cancel i = job_cancel j" for i
    using that assms by (metis (no_types, lifting) distinct_map inj_onD scan_ok_def)
  have rm: "distinct (map job_cancel (removeAll j (running s)))"
    using assms(1) by (simp add: scan_ok_def distinct_map distinct_removeAll inj_on_diff)
  show ?thesis
  proof (cases "map_of (symmetricScans s) (job_peer j) = Some (job_cancel j)")
    case False
    then show ?thesis using assms(1) rm by (auto simp: scan_exit_def Let_def scan_ok_def)
  next
    case True
    let ?xs = "AList.delete (job_peer j) (symmetricScans s)"
    have d: "distinct (map fst ?xs)" "distinct (map snd ?xs)"
      using assms(1) by (simp_all add: AList.delete_eq scan_ok_def distinct_map_filter)
    have pc: "c = job_cancel j" if "(job_peer j, c) \<in> set (symmetricScans s)" for c
      using that True assms(1) by (metis map_of_is_SomeI option.inject scan_ok_def)
    have keep: "job_cancel i < next_chan s \<and> (job_cancel i \<notin> closed s \<longrightarrow> (job_peer i, job_cancel i) \<in> set ?xs)"
      if "i \<in> set (removeAll j (running s))" for i
    proof -
      have i: "i \<in> set (running s)" "i \<noteq> j" using that by auto
      have "job_peer i \<noteq> job_peer j" if "(job_peer i, job_cancel i) \<in> set (symmetricScans s)"
        using that pc uniq i by metis
      then show ?thesis using i assms(1) by (auto simp: scan_ok_def set_delete)
    qed
    have reg: "\<forall>(p, c) \<in> set ?xs. c \<notin> closed s \<and> c < next_chan s" "\<forall>c \<in> closed s. c < next_chan s"
      using assms(1) by (auto simp: scan_ok_def set_delete)
    have "scan_exit j s = s\<lparr>symmetricScans := ?xs, symmetricSessions := (symmetricSessions s)(job_peer j := None),
        running := removeAll j (running s)\<rparr>"
      using True by (simp add: scan_exit_def Let_def drop_scan_def drop_session_def)
    then show ?thesis using d rm keep reg by (simp add: scan_ok_def del: set_removeAll)
  qed
qed

lemma cancel_each_ok:
  assumes "scan_ok s" "set es \<subseteq> set (symmetricScans s)" "distinct (map fst es)"
    and f: "\<And>p s. scan_ok (f p s) = scan_ok s" "\<And>p s. symmetricScans (f p s) = symmetricScans s"
  shows "\<exists>s1. cancel_each f es s = Some s1 \<and> scan_ok s1"
  using assms(1-3)
proof (induction es arbitrary: s)
  case (Cons e es)
  obtain p c where e: "e = (p, c)" by (cases e)
  obtain s1 where s1: "close_chan c (drop_scan p s) = Some s1" "scan_ok s1"
    "set (symmetricScans s1) = {(q, d) \<in> set (symmetricScans s). q \<noteq> p}"
    using close_registered [OF Cons.prems(1), of p c] Cons.prems(2) e by auto
  have "set es \<subseteq> set (symmetricScans (f p s1))"
    using Cons.prems(2,3) s1(3) by (auto simp: f e image_iff)
  then show ?case using Cons.IH [of "f p s1"] Cons.prems(3) s1 by (simp add: e f)
qed simp

lemma scan_step_ok:
  assumes "scan_ok s"
  shows "\<exists>s'. scan_step op s = Some s' \<and> scan_ok s'"
proof (cases op)
  case (StartScan live p e sid force)
  then show ?thesis using start_ok [OF assms] by simp
next
  case (CompleteScan p sid)
  then show ?thesis using complete_ok [OF assms] by simp
next
  case (ExitScan j)
  then show ?thesis using exit_ok [OF assms] assms by simp
next
  case (CancelObsolete nbrs)
  have "distinct (map fst (filter (\<lambda>(p, _). p \<notin> nbrs) (symmetricScans s)))"
    using assms by (simp add: scan_ok_def distinct_map_filter)
  then show ?thesis using CancelObsolete
    cancel_each_ok [OF assms, of "filter (\<lambda>(p, _). p \<notin> nbrs) (symmetricScans s)"
      "\<lambda>p s. drop_burst p ((drop_session p s)\<lparr>symmetricConnected := symmetricConnected s - {p}\<rparr>)"]
    by (auto simp: cancelObsoleteSymmetricScans_def)
next
  case ResetTransport
  have "distinct (map fst (symmetricScans s))" using assms by (simp add: scan_ok_def)
  then show ?thesis using ResetTransport cancel_each_ok [OF assms, of "symmetricScans s" "\<lambda>p s. s"]
    by (auto simp: resetTransportScans_def)
next
  case (ResetRelay p)
  show ?thesis
  proof (cases "map_of (symmetricScans s) p")
    case (Some c)
    from close_reg_mapped [OF assms Some] show ?thesis using ResetRelay Some
      by (auto simp: resetRelayScan_def)
  qed (use assms ResetRelay in \<open>auto simp: resetRelayScan_def\<close>)
next
  case (ArmEvent p sid)
  then show ?thesis using cancel_existing_ok [OF assms, of p] by (auto simp: armScanEvent_def)
next
  case (NoteBurst now p sid)
  then show ?thesis using assms by (simp add: noteBurst_def Let_def)
qed

lemma scan_reach_ok: "scan_reach s \<Longrightarrow> scan_ok s"
proof (induction rule: scan_reach.induct)
  case (scan_next s op s')
  then show ?case using scan_step_ok [of s op] by auto
qed (rule scan_ok_init)

text \<open>C11: scan bookkeeping never panics and keeps one scan per peer.  After any interleaving of its critical
  sections, every next step succeeds (no channel is closed twice), two scans that are still running
  uncancelled belong to different peers, and each is the scan that is registered for its peer.\<close>

theorem scans_never_double_close:
  assumes "scan_reach s"
  shows "(\<exists>s'. scan_step op s = Some s')
    \<and> (\<forall>i \<in> set (running s). \<forall>j \<in> set (running s). job_cancel i \<notin> closed s \<and> job_cancel j \<notin> closed s
         \<and> job_peer i = job_peer j \<longrightarrow> i = j)
    \<and> (\<forall>j \<in> set (running s). job_cancel j \<notin> closed s
         \<longrightarrow> map_of (symmetricScans s) (job_peer j) = Some (job_cancel j))"
proof -
  have ok: "scan_ok s" by (rule scan_reach_ok [OF assms])
  have reg: "map_of (symmetricScans s) (job_peer j) = Some (job_cancel j)"
    if "j \<in> set (running s)" "job_cancel j \<notin> closed s" for j
    using ok that by (auto simp: scan_ok_def)
  have "i = j" if "i \<in> set (running s)" "j \<in> set (running s)" "job_cancel i \<notin> closed s"
    "job_cancel j \<notin> closed s" "job_peer i = job_peer j" for i j
    using reg [of i] reg [of j] that ok
    by (metis (no_types, lifting) distinct_map inj_onD option.inject scan_ok_def)
  then show ?thesis using scan_step_ok [OF ok, of op] reg by blast
qed

definition sample_scan :: scan_state where
  "sample_scan = the (scan_step (StartScan False ''p'' ''e'' ''s2'' True)
     (the (scan_step (StartScan False ''p'' ''e'' ''s1'' False) scan_init)))"

theorem scans_never_double_close_witness:
  "length (running sample_scan) = 2 \<and> (\<exists>s'. scan_step (CompleteScan ''p'' ''s2'') sample_scan = Some s')"
proof -
  let ?s1 = "the (scan_step (StartScan False ''p'' ''e'' ''s1'' False) scan_init)"
  have "scan_step (StartScan False ''p'' ''e'' ''s1'' False) scan_init = Some ?s1"
    "scan_step (StartScan False ''p'' ''e'' ''s2'' True) ?s1 = Some sample_scan"
    "length (running sample_scan) = 2"
    by (simp_all add: sample_scan_def startSymmetricScan_def cancel_existing_def scan_init_def close_chan_def
        drop_session_def drop_scan_def Let_def)
  then show ?thesis
    using scans_never_double_close [of sample_scan "CompleteScan ''p'' ''s2''"] scan_start scan_next by blast
qed

end
