(* ===== verification/Dedup.thy ===== *)
theory Dedup
  imports Mesh_Prelude
begin

text \<open>
  Duplicate suppression and packet numbering of the node (\<^verbatim>\<open>mesh-node/tun_forward.go\<close>): the sharded
  sliding window over fast-path packet ids (\<^verbatim>\<open>fastShard\<close>, \<^verbatim>\<open>rememberFast\<close>), the set of control packet
  ids (\<^verbatim>\<open>remember\<close>) and the compare-and-swap counter behind \<^verbatim>\<open>nextPacketID\<close>.

  The locale \<open>replay_window\<close> is the contract of a duplicate filter whose memory is a bounded queue
  per class of ids; it is interpreted on the ring buffers of the code.  The counter is a step
  relation over threads that interleave between the load and the compare-and-swap.
\<close>

section \<open>The sharded filter\<close>

abbreviation fastSeenShards :: nat where "fastSeenShards \<equiv> 64"
abbreviation fastSeenCapacity :: nat where "fastSeenCapacity \<equiv> 10000"

definition fastSeenRingCap :: nat where "fastSeenRingCap = fastSeenCapacity div fastSeenShards"

record shard =
  fastSeen :: "bytes set"
  fastSeenRing :: "bytes list"
  fastSeenNext :: nat

definition empty_shard :: shard where
  "empty_shard = \<lparr>fastSeen = {}, fastSeenRing = [], fastSeenNext = 0\<rparr>"

definition fastShard :: "bytes \<Rightarrow> nat" where
  "fastShard pid = unat (fold (\<lambda>b h. (h XOR ucast b) * 16777619) pid (2166136261 :: 32 word)) mod fastSeenShards"

definition remember_shard :: "bytes \<Rightarrow> shard \<Rightarrow> bool \<times> shard" where
  "remember_shard pid s =
     (if pid \<in> fastSeen s then (False, s)
      else (let s1 = (if length (fastSeenRing s) < fastSeenRingCap
              then s\<lparr>fastSeenRing := fastSeenRing s @ [pid]\<rparr>
              else (let nx = fastSeenNext s + 1
                    in s\<lparr>fastSeen := fastSeen s - {fastSeenRing s ! fastSeenNext s},
                         fastSeenRing := (fastSeenRing s)[fastSeenNext s := pid],
                         fastSeenNext := (if nx = fastSeenRingCap then 0 else nx)\<rparr>))
            in (True, s1\<lparr>fastSeen := insert pid (fastSeen s1)\<rparr>)))"

definition rememberFast :: "bytes \<Rightarrow> (nat \<Rightarrow> shard) \<Rightarrow> bool \<times> (nat \<Rightarrow> shard)" where
  "rememberFast pid n =
     (let si = fastShard pid; (ok, s) = remember_shard pid (n si) in (ok, n(si := s)))"

definition fastSeenCount :: "(nat \<Rightarrow> shard) \<Rightarrow> nat" where
  "fastSeenCount n = (\<Sum>i < fastSeenShards. card (fastSeen (n i)))"

section \<open>Control packets\<close>

text \<open>\<^verbatim>\<open>remember\<close>: over the limit it deletes the first key of the map's iteration order, which Go leaves
  open; \<open>pick\<close> is that choice.\<close>

definition remember :: "(string set \<Rightarrow> string) \<Rightarrow> string \<Rightarrow> string set \<Rightarrow> bool \<times> string set" where
  "remember pick pid seen =
     (if pid \<in> seen then (False, seen)
      else (let seen1 = insert pid seen
            in (True, if 10000 < card seen1 then seen1 - {pick seen1} else seen1)))"

section \<open>Packet numbers\<close>

text \<open>\<open>loaded t\<close> is the value thread \<open>t\<close> read before its compare-and-swap; \<open>issued\<close> are the ids the calls
  returned, newest first.\<close>

record id_source =
  packetPrefix :: bytes
  packetCounter :: "64 word"
  loaded :: "nat \<Rightarrow> 64 word option"
  issued :: "(nat \<times> bytes) list"

definition id_load :: "nat \<Rightarrow> id_source \<Rightarrow> id_source option" where
  "id_load t s = (if loaded s t \<noteq> None \<or> packetCounter s = - 1 then None
     else Some (s\<lparr>loaded := (loaded s)(t \<mapsto> packetCounter s)\<rparr>))"

definition id_cas :: "nat \<Rightarrow> id_source \<Rightarrow> id_source option" where
  "id_cas t s = (case loaded s t of
       None \<Rightarrow> None
     | Some previous \<Rightarrow>
         (let count = previous + 1; s1 = s\<lparr>loaded := (loaded s)(t := None)\<rparr>
          in if packetCounter s = previous
             then Some (s1\<lparr>packetCounter := count, issued := (t, packetPrefix s @ put_be64 count) # issued s\<rparr>)
             else Some s1))"

inductive id_reach :: "bytes \<Rightarrow> id_source \<Rightarrow> bool" for prefix :: bytes where
  id_init: "id_reach prefix \<lparr>packetPrefix = prefix, packetCounter = 0, loaded = \<lambda>_. None, issued = []\<rparr>"
| id_step_load: "id_reach prefix s \<Longrightarrow> id_load t s = Some s' \<Longrightarrow> id_reach prefix s'"
| id_step_cas: "id_reach prefix s \<Longrightarrow> id_cas t s = Some s' \<Longrightarrow> id_reach prefix s'"

section \<open>The contract of a replay window\<close>

definition push_bounded :: "nat \<Rightarrow> 'a \<Rightarrow> 'a list \<Rightarrow> 'a list" where
  "push_bounded cap x w = (if length w < cap then w @ [x] else tl w @ [x])"

fun run_filter :: "('a \<Rightarrow> 's \<Rightarrow> bool \<times> 's) \<Rightarrow> 'a list \<Rightarrow> 's \<Rightarrow> bool list \<times> 's" where
  "run_filter f [] s = ([], s)"
| "run_filter f (x # xs) s =
     (let (b, s1) = f x s; (bs, s2) = run_filter f xs s1 in (b # bs, s2))"

text \<open>How many of the ids of one class a run accepted.\<close>

definition accepted :: "('a \<Rightarrow> 'k) \<Rightarrow> 'k \<Rightarrow> 'a list \<Rightarrow> bool list \<Rightarrow> nat" where
  "accepted cls k xs bs = length (filter (\<lambda>(x, b). b \<and> cls x = k) (zip xs bs))"

locale replay_window =
  fixes accept :: "'a \<Rightarrow> 's \<Rightarrow> bool \<times> 's"
    and window :: "'k \<Rightarrow> 's \<Rightarrow> 'a list"
    and cls :: "'a \<Rightarrow> 'k"
    and inv :: "'s \<Rightarrow> bool"
    and cap :: nat
  assumes cap_pos: "0 < cap"
    and inv_accept: "inv s \<Longrightarrow> inv (snd (accept x s))"
    and window_len: "inv s \<Longrightarrow> length (window k s) \<le> cap"
    and accept_iff: "inv s \<Longrightarrow> fst (accept x s) \<longleftrightarrow> x \<notin> set (window (cls x) s)"
    and window_accept: "inv s \<Longrightarrow> window k (snd (accept x s)) =
      (if k = cls x \<and> fst (accept x s) then push_bounded cap x (window k s) else window k s)"
begin

lemma run_inv: "inv s \<Longrightarrow> inv (snd (run_filter accept xs s))"
proof (induction xs arbitrary: s)
  case (Cons x xs)
  from Cons.IH [OF inv_accept [OF Cons.prems, of x]] show ?case by (simp add: case_prod_unfold Let_def)
qed simp

lemma run_hold:
  assumes "inv s" "window (cls x) s = pre @ x # post" "run_filter accept xs s = (bs, s')"
    "length post + accepted cls (cls x) xs bs < cap"
  shows "x \<in> set (window (cls x) s')"
  using assms
proof (induction xs arbitrary: s bs pre post)
  case Nil
  then show ?case by simp
next
  case (Cons y ys)
  obtain b s1 where b: "accept y s = (b, s1)" by (cases "accept y s")
  obtain bs1 where bs1: "run_filter accept ys s1 = (bs1, s')" and bs: "bs = b # bs1"
    using Cons.prems(3) b by (auto simp: Let_def case_prod_unfold prod_eq_iff)
  have inv1: "inv s1" using inv_accept [OF Cons.prems(1), of y] b by simp
  have w1: "window (cls x) s1 = (if cls x = cls y \<and> b then push_bounded cap y (window (cls x) s)
      else window (cls x) s)"
    using window_accept [OF Cons.prems(1), of "cls x" y] b by simp
  show ?case
  proof (cases "cls x = cls y \<and> b")
    case False
    then have "length post + accepted cls (cls x) ys bs1 < cap"
      using Cons.prems(4) by (auto simp: accepted_def bs)
    moreover have "window (cls x) s1 = pre @ x # post" using w1 False Cons.prems(2) by simp
    ultimately show ?thesis using Cons.IH [OF inv1 _ bs1] by blast
  next
    case True
    then have cnt: "length (post @ [y]) + accepted cls (cls x) ys bs1 < cap"
      using Cons.prems(4) by (simp add: accepted_def bs)
    have "pre \<noteq> [] \<or> length (pre @ x # post) < cap" using cnt by auto
    then have "\<exists>pre'. window (cls x) s1 = pre' @ x # (post @ [y])"
      using w1 True Cons.prems(2) by (cases pre) (auto simp: push_bounded_def)
    then obtain pre' where "window (cls x) s1 = pre' @ x # (post @ [y])" ..
    from Cons.IH [OF inv1 this bs1 cnt] show ?thesis .
  qed
qed

text \<open>An id that was accepted is rejected until \<open>cap\<close> other ids of its class were accepted, and an id
  that never arrived is accepted.\<close>

lemma recent_rejected:
  assumes "inv s" "run_filter accept (x # xs) s = (True # bs, s')" "accepted cls (cls x) xs bs < cap"
  shows "\<not> fst (accept x s')"
proof -
  obtain s1 where s1: "accept x s = (True, s1)" and r: "run_filter accept xs s1 = (bs, s')"
    using assms(2) by (auto simp: Let_def case_prod_unfold prod_eq_iff)
  have inv1: "inv s1" using inv_accept [OF assms(1), of x] s1 by simp
  have "window (cls x) s1 = push_bounded cap x (window (cls x) s)"
    using window_accept [OF assms(1), of "cls x" x] s1 by simp
  then have "\<exists>pre. window (cls x) s1 = pre @ x # []" by (auto simp: push_bounded_def)
  then obtain pre where "window (cls x) s1 = pre @ x # []" ..
  from run_hold [OF inv1 this r] assms(3) have "x \<in> set (window (cls x) s')" by simp
  moreover have "inv s'" using run_inv [OF inv1, of xs] r by simp
  ultimately show ?thesis using accept_iff by blast
qed

lemma window_subset: "inv s \<Longrightarrow> set (window k (snd (run_filter accept xs s))) \<subseteq> set (window k s) \<union> set xs"
proof (induction xs arbitrary: s)
  case (Cons y ys)
  have "set (push_bounded cap y w) \<subseteq> insert y (set w)" for w
    by (cases w) (auto simp: push_bounded_def)
  then have "set (window k (snd (accept y s))) \<subseteq> insert y (set (window k s))"
    using window_accept [OF Cons.prems, of k y] by auto
  then show ?case using Cons.IH [OF inv_accept [OF Cons.prems, of y]]
    by (auto simp: Let_def case_prod_unfold)
qed simp

lemma unseen_accepted:
  assumes "inv s" "x \<notin> set (window (cls x) s)" "x \<notin> set xs"
  shows "fst (accept x (snd (run_filter accept xs s)))"
  using window_subset [OF assms(1), of "cls x" xs] run_inv [OF assms(1), of xs] assms(2,3)
  by (auto simp: accept_iff)

end

section \<open>The ring buffers are replay windows\<close>

lemma fastSeenRingCap_val: "fastSeenRingCap = 156"
  by (simp add: fastSeenRingCap_def)

definition shard_ok :: "shard \<Rightarrow> bool" where
  "shard_ok s \<longleftrightarrow> fastSeen s = set (fastSeenRing s) \<and> distinct (fastSeenRing s)
     \<and> length (fastSeenRing s) \<le> fastSeenRingCap \<and> fastSeenNext s < fastSeenRingCap
     \<and> (length (fastSeenRing s) < fastSeenRingCap \<longrightarrow> fastSeenNext s = 0)"

text \<open>The ids a shard remembers, oldest first.\<close>

definition shard_window :: "shard \<Rightarrow> bytes list" where
  "shard_window s = drop (fastSeenNext s) (fastSeenRing s) @ take (fastSeenNext s) (fastSeenRing s)"

lemma set_shard_window [simp]: "set (shard_window s) = set (fastSeenRing s)"
proof -
  have "set (drop k xs) \<union> set (take k xs) = set xs" for k and xs :: "bytes list"
    by (metis append_take_drop_id set_append sup_commute)
  then show ?thesis by (simp add: shard_window_def)
qed

lemma remember_shard_fst: "fst (remember_shard pid s) \<longleftrightarrow> pid \<notin> fastSeen s"
  by (simp add: remember_shard_def Let_def)

lemma set_update_distinct:
  "distinct xs \<Longrightarrow> i < length xs \<Longrightarrow> set (xs[i := x]) = insert x (set xs - {xs ! i})"
  by (auto simp: set_update_distinct in_set_conv_nth nth_list_update distinct_conv_nth)

lemma remember_shard_ok:
  assumes "shard_ok s"
  shows "shard_ok (snd (remember_shard pid s))"
proof -
  have "distinct (xs[i := x])" if "distinct xs" "x \<notin> set xs" for xs :: "bytes list" and i x
    using that by (simp add: distinct_list_update)
  then show ?thesis
    using assms set_update_distinct [of "fastSeenRing s" "fastSeenNext s" pid]
    by (auto simp: remember_shard_def shard_ok_def Let_def)
qed

lemma remember_shard_window:
  assumes "shard_ok s"
  shows "shard_window (snd (remember_shard pid s)) =
    (if fst (remember_shard pid s) then push_bounded fastSeenRingCap pid (shard_window s)
     else shard_window s)"
proof (cases "pid \<in> fastSeen s")
  case True
  then show ?thesis by (simp add: remember_shard_def)
next
  case new: False
  show ?thesis
  proof (cases "length (fastSeenRing s) < fastSeenRingCap")
    case True
    with assms new show ?thesis
      by (simp add: remember_shard_def shard_window_def push_bounded_def shard_ok_def Let_def)
  next
    case False
    then have len: "length (fastSeenRing s) = fastSeenRingCap" and nx: "fastSeenNext s < fastSeenRingCap"
      using assms by (auto simp: shard_ok_def)
    let ?r = "fastSeenRing s" and ?k = "fastSeenNext s"
    have upd: "drop (Suc ?k) (?r[?k := pid]) = drop (Suc ?k) ?r"
      "take (Suc ?k) (?r[?k := pid]) = take ?k ?r @ [pid]" "tl (drop ?k ?r) = drop (Suc ?k) ?r"
      using len nx by (simp_all add: take_Suc_conv_app_nth drop_Suc [symmetric] tl_drop)
    have full: "drop ?k ?r \<noteq> []" using len nx by simp
    have wrap: "?r[?k := pid] = take ?k ?r @ [pid]" "drop (Suc ?k) ?r = []" if "Suc ?k = fastSeenRingCap"
      using that len upd(2) by simp_all
    show ?thesis
      using new False len upd full wrap
      by (auto simp: remember_shard_def shard_window_def push_bounded_def Let_def)
  qed
qed

definition fast_ok :: "(nat \<Rightarrow> shard) \<Rightarrow> bool" where
  "fast_ok n \<longleftrightarrow> (\<forall>i. shard_ok (n i))"

lemma rememberFast_simps:
  "fst (rememberFast pid n) = fst (remember_shard pid (n (fastShard pid)))"
  "snd (rememberFast pid n) = n(fastShard pid := snd (remember_shard pid (n (fastShard pid))))"
  by (simp_all add: rememberFast_def Let_def case_prod_unfold)

interpretation fast: replay_window rememberFast "\<lambda>k n. shard_window (n k)" fastShard fast_ok fastSeenRingCap
proof
  show "0 < fastSeenRingCap" by (simp add: fastSeenRingCap_val)
  show "fast_ok (snd (rememberFast x s))" if "fast_ok s" for x s
    using that remember_shard_ok by (simp add: fast_ok_def rememberFast_simps)
  show "length (shard_window (s k)) \<le> fastSeenRingCap" if "fast_ok s" for k s
  proof -
    have "shard_ok (s k)" using that by (simp add: fast_ok_def)
    then show ?thesis by (auto simp: shard_ok_def shard_window_def)
  qed
  show "fst (rememberFast x s) \<longleftrightarrow> x \<notin> set (shard_window (s (fastShard x)))" if "fast_ok s" for x s
    using that by (simp add: fast_ok_def shard_ok_def rememberFast_simps remember_shard_fst)
  show "shard_window (snd (rememberFast x s) k) =
      (if k = fastShard x \<and> fst (rememberFast x s)
       then push_bounded fastSeenRingCap x (shard_window (s k)) else shard_window (s k))"
    if "fast_ok s" for k x s
    using that remember_shard_window [of "s (fastShard x)" x]
    by (simp add: fast_ok_def rememberFast_simps)
qed

lemma card_fastSeen: "fast_ok n \<Longrightarrow> card (fastSeen (n i)) \<le> fastSeenRingCap"
  using card_length [of "fastSeenRing (n i)"] by (auto simp: fast_ok_def shard_ok_def intro: order.trans)

lemma run_filter_append:
  "run_filter f (xs @ ys) s = (let (b1, s1) = run_filter f xs s; (b2, s2) = run_filter f ys s1
     in (b1 @ b2, s2))"
  by (induction xs arbitrary: s) (auto simp: Let_def case_prod_unfold)

lemma length_run_filter: "length (fst (run_filter f xs s)) = length xs"
  by (induction xs arbitrary: s) (auto simp: Let_def case_prod_unfold)

lemma fast_ok_empty: "fast_ok (\<lambda>_. empty_shard)"
  by (simp add: fast_ok_def shard_ok_def empty_shard_def fastSeenRingCap_val)

lemma fastSeenCount_bound: "fast_ok n \<Longrightarrow> fastSeenCount n \<le> 9984"
proof -
  assume "fast_ok n"
  then have "fastSeenCount n \<le> (\<Sum>i < fastSeenShards. fastSeenRingCap)"
    unfolding fastSeenCount_def using card_fastSeen by (intro sum_mono) auto
  then show ?thesis by (simp add: fastSeenRingCap_val)
qed

text \<open>C29: fast-path duplicate suppression is exact within its window.  Started empty and fed any sequence
  of packet ids, the filter rejects an accepted id as long as fewer than 156 other ids of its shard
  were accepted since, it accepts every id that did not arrive before, and it keeps at most 9984
  ids.\<close>

theorem fast_dedup_exact:
  assumes "run_filter rememberFast (before @ x # between) (\<lambda>_. empty_shard) = (bs0 @ True # bs, n)"
    and "length bs0 = length before" "accepted fastShard (fastShard x) between bs < 156"
    and "y \<notin> set before" "y \<noteq> x" "y \<notin> set between"
  shows "\<not> fst (rememberFast x n) \<and> fst (rememberFast y n) \<and> fastSeenCount n \<le> 9984"
proof -
  obtain b1 t1 where r1: "run_filter rememberFast before (\<lambda>_. empty_shard) = (b1, t1)"
    by (cases "run_filter rememberFast before (\<lambda>_. empty_shard)")
  obtain b2 t2 where r2: "run_filter rememberFast (x # between) t1 = (b2, t2)"
    by (cases "run_filter rememberFast (x # between) t1")
  have "length b1 = length before" using length_run_filter [of rememberFast before] r1 by (metis fst_conv)
  moreover have "(b1 @ b2, t2) = (bs0 @ True # bs, n)"
    using assms(1) r1 r2 by (simp add: run_filter_append del: run_filter.simps)
  ultimately have eq: "b2 = True # bs" "t2 = n" using assms(2) by auto
  have ok1: "fast_ok t1" using fast.run_inv [OF fast_ok_empty, of before] r1 by simp
  have okn: "fast_ok n" using fast.run_inv [OF ok1, of "x # between"] r2 eq by simp
  have "\<not> fst (rememberFast x n)"
    using fast.recent_rejected [OF ok1, of x between bs n] r2 eq assms(3)
    by (simp add: fastSeenRingCap_val del: run_filter.simps)
  moreover have "fst (rememberFast y n)"
    using fast.unseen_accepted [OF fast_ok_empty, of y "before @ x # between"] assms
    by (simp add: empty_shard_def shard_window_def)
  ultimately show ?thesis using fastSeenCount_bound [OF okn] by simp
qed

theorem fast_dedup_exact_witness:
  "\<not> fst (rememberFast (replicate 12 1) (snd (rememberFast (replicate 12 1) (\<lambda>_. empty_shard))))
   \<and> fst (rememberFast (replicate 12 2) (snd (rememberFast (replicate 12 1) (\<lambda>_. empty_shard))))"
proof -
  let ?x = "replicate 12 (1 :: byte)" and ?y = "replicate 12 (2 :: byte)"
  have "fst (rememberFast ?x (\<lambda>_. empty_shard))"
    by (simp add: rememberFast_simps remember_shard_fst empty_shard_def del: replicate.simps)
  then have r: "run_filter rememberFast ([] @ ?x # []) (\<lambda>_. empty_shard)
      = ([] @ True # [], snd (rememberFast ?x (\<lambda>_. empty_shard)))"
    by (simp add: Let_def case_prod_unfold)
  have "?y \<noteq> ?x" by (simp add: replicate_eq_replicate)
  from fast_dedup_exact [OF r _ _ _ this] show ?thesis by (simp add: accepted_def)
qed

lemma put_be64_inject: "put_be64 a = put_be64 b \<longleftrightarrow> a = b"
  by (metis be_put_be(3))

lemma word_less_succ: "(c :: 64 word) \<noteq> - 1 \<Longrightarrow> c < c + 1"
proof -
  assume c: "c \<noteq> - 1"
  have lt: "unat c < 18446744073709551616" by (rule unat_64_lt)
  have "unat c \<noteq> unat (- 1 :: 64 word)" using c by (metis unsigned_word_eqI)
  then have "unat c \<noteq> 18446744073709551615" by (simp add: unsigned_minus_1_eq_mask mask_eq_exp_minus_1)
  with lt have "unat (c + 1) = unat c + 1" by (simp add: unat_word_ariths)
  then show ?thesis by (simp add: word_less_nat_alt)
qed

definition issued_ok :: "bytes \<Rightarrow> id_source \<Rightarrow> bool" where
  "issued_ok prefix s \<longleftrightarrow> packetPrefix s = prefix \<and> distinct (map snd (issued s))
     \<and> (\<forall>(t, i) \<in> set (issued s). \<exists>c. i = prefix @ put_be64 c \<and> c \<le> packetCounter s)
     \<and> (\<forall>t. loaded s t \<noteq> Some (- 1))"

lemma issued_ok_reach: "id_reach prefix s \<Longrightarrow> issued_ok prefix s"
proof (induction rule: id_reach.induct)
  case id_init
  then show ?case by (simp add: issued_ok_def)
next
  case (id_step_load s t s')
  then show ?case by (auto simp: id_load_def issued_ok_def split: if_splits)
next
  case (id_step_cas s t s')
  then obtain c where c: "loaded s t = Some c" by (auto simp: id_cas_def split: option.splits)
  show ?case
  proof (cases "packetCounter s = c")
    case False
    with id_step_cas c show ?thesis by (auto simp: id_cas_def issued_ok_def Let_def split: if_splits)
  next
    case True
    have "c \<noteq> - 1" using id_step_cas.IH c by (auto simp: issued_ok_def)
    then have lt: "c < c + 1" by (rule word_less_succ)
    have old: "\<exists>d. i = prefix @ put_be64 d \<and> d \<le> c" if "(u, i) \<in> set (issued s)" for u i
      using id_step_cas.IH that True by (auto simp: issued_ok_def)
    have "prefix @ put_be64 (c + 1) \<notin> snd ` set (issued s)"
    proof
      assume "prefix @ put_be64 (c + 1) \<in> snd ` set (issued s)"
      then obtain u where "(u, prefix @ put_be64 (c + 1)) \<in> set (issued s)" by auto
      from old [OF this] obtain d where "put_be64 (c + 1) = put_be64 d" "d \<le> c" by auto
      then show False using lt by (simp add: put_be64_inject)
    qed
    moreover have "s' = s\<lparr>loaded := (loaded s)(t := None), packetCounter := c + 1,
        issued := (t, packetPrefix s @ put_be64 (c + 1)) # issued s\<rparr>"
      using id_step_cas.hyps(2) c True by (simp add: id_cas_def Let_def)
    ultimately show ?thesis
      using id_step_cas.IH lt old by (fastforce simp: issued_ok_def)
  qed
qed

text \<open>Packet numbers are unique under concurrency.  However many threads interleave between reading
  the counter and swapping it, every packet id handed out is different from all earlier ones.\<close>

lemma packet_ids_unique:
  assumes "id_reach prefix s"
  shows "distinct (map snd (issued s))"
  using issued_ok_reach [OF assms] by (simp add: issued_ok_def)

definition sample_race :: id_source where
  "sample_race = (let s0 = \<lparr>packetPrefix = [1, 2, 3, 4], packetCounter = 0, loaded = \<lambda>_. None, issued = []\<rparr>
     in the (id_cas 1 (the (id_load 1 (the (id_cas 1 (the (id_cas 0 (the (id_load 1 (the (id_load 0 s0))))))))))))"

lemma packet_ids_unique_witness:
  "length (issued sample_race) = 2 \<and> distinct (map snd (issued sample_race))"
proof -
  have "id_reach [1, 2, 3, 4] sample_race"
    unfolding sample_race_def Let_def
    by (rule id_step_cas [rotated], rule option.collapse [symmetric], simp add: id_cas_def id_load_def Let_def,
        rule id_step_load [rotated], rule option.collapse [symmetric], simp add: id_cas_def id_load_def Let_def,
        rule id_step_cas [rotated], rule option.collapse [symmetric], simp add: id_cas_def id_load_def Let_def,
        rule id_step_cas [rotated], rule option.collapse [symmetric], simp add: id_cas_def id_load_def Let_def,
        rule id_step_load [rotated], rule option.collapse [symmetric], simp add: id_cas_def id_load_def Let_def,
        rule id_step_load [rotated], rule option.collapse [symmetric], simp add: id_cas_def id_load_def Let_def,
        rule id_init)
  moreover have "length (issued sample_race) = 2"
    by (simp add: sample_race_def id_cas_def id_load_def Let_def)
  ultimately show ?thesis by (blast intro: packet_ids_unique)
qed

end
