(* ===== verification/Reassembly.thy ===== *)
theory Reassembly
  imports Checksum Backoff "HOL-Library.AList"
begin

text \<open>
  Reassembly of fragmented overlay packets (\<^verbatim>\<open>mesh-node/keepalive.go\<close>: \<^verbatim>\<open>acceptIPFragment\<close>,
  \<^verbatim>\<open>acceptIPFragmentAt\<close>) and the choice of a delivery queue (\<^verbatim>\<open>mesh-node/dataplane.go\<close>:
  \<^verbatim>\<open>enqueueDeliver\<close>).

  The map of partial packets is an association list, whose order stands for the unspecified order in
  which Go iterates it: at the limit of 128 partial packets the head is the one that is evicted.
  The theorems bound the memory an authenticated peer can occupy and show that a packet whose
  fragments arrive in any order, each any number of times, is delivered exactly once and intact.
\<close>

section \<open>The code\<close>

abbreviation maxTUN_bytes :: nat where "maxTUN_bytes \<equiv> 1350"

record reassembly =
  totalBytes :: nat
  frag_count :: nat
  chunks :: "nat \<rightharpoonup> bytes"
  receivedAt :: time

text \<open>\<^verbatim>\<open>binary.BigEndian.Uint16\<close> of the fragment header, see \<^verbatim>\<open>be16n\<close>.\<close>

definition frag_index :: "bytes \<Rightarrow> nat" where "frag_index plain = be16n (slice 8 10 plain)"
definition frag_total :: "bytes \<Rightarrow> nat" where "frag_total plain = be16n (slice 10 12 plain)"

text \<open>The 49-character key: the source padded with NUL to 32 characters, a colon, the fragment id in
  hexadecimal; a longer source takes the concatenating branch.\<close>

definition state_key :: "string \<Rightarrow> bytes \<Rightarrow> string" where
  "state_key source fragmentID =
     (if length source \<le> 32
      then source @ replicate (32 - length source) (char_of (0 :: nat)) @ '':'' @ hex_encode fragmentID
      else source @ '':'' @ hex_encode fragmentID)"

text \<open>The loop that joins the chunks; a missing part ends the function without delivery.\<close>

fun join_parts :: "(nat \<rightharpoonup> bytes) \<Rightarrow> nat list \<Rightarrow> bytes \<Rightarrow> bytes option" where
  "join_parts cs [] scratch = Some scratch"
| "join_parts cs (i # is) scratch =
     (case cs i of None \<Rightarrow> None | Some chunk \<Rightarrow> join_parts cs is (scratch @ chunk))"

type_synonym partials = "(string \<times> reassembly) list"

definition fetch_state :: "string \<Rightarrow> nat \<Rightarrow> partials \<Rightarrow> reassembly \<times> partials" where
  "fetch_state sid cnt n =
     (case map_of n sid of
        Some st \<Rightarrow> (st, n)
      | None \<Rightarrow>
          (let n1 = (if 128 \<le> length n then tl n else n);
               st = \<lparr>totalBytes = 0, frag_count = cnt, chunks = Map.empty, receivedAt = 0\<rparr>
           in (st, AList.update sid st n1)))"

text \<open>The result is the packet handed to \<^verbatim>\<open>enqueueDeliver\<close>, if any, and the new map.\<close>

definition acceptIPFragmentAt ::
    "string \<Rightarrow> bytes \<Rightarrow> time \<Rightarrow> partials \<Rightarrow> bytes option \<times> partials" where
  "acceptIPFragmentAt source plain now n =
     (if length plain < 12 \<or> maxTUN_bytes < length plain - 12 then (None, n)
      else (let fragmentID = take 8 plain; index = frag_index plain; cnt = frag_total plain
        in if cnt = 0 \<or> 128 < cnt \<or> cnt \<le> index then (None, n)
        else (let cutoff = now - 10000;
                  n0 = filter (\<lambda>(_, st). \<not> receivedAt st < cutoff) n;
                  sid = state_key source fragmentID;
                  (st, n1) = fetch_state sid cnt n0
              in if frag_count st \<noteq> cnt then (None, AList.delete sid n1)
                 else if chunks st index \<noteq> None then (None, n1)
                 else if int maxTUN_bytes - int (totalBytes st) < int (length plain - 12)
                 then (None, AList.delete sid n1)
                 else (let st' = st\<lparr>chunks := (chunks st)(index \<mapsto> drop 12 plain),
                              totalBytes := totalBytes st + (length plain - 12), receivedAt := now\<rparr>;
                           n2 = AList.update sid st' n1
                       in if card (dom (chunks st')) \<noteq> cnt then (None, n2)
                          else (case join_parts (chunks st') [0..<cnt] [] of
                                  None \<Rightarrow> (None, n2)
                                | Some packet \<Rightarrow> (Some packet, AList.delete sid n2))))))"

definition acceptIPFragment ::
    "string \<Rightarrow> bytes \<Rightarrow> time \<Rightarrow> partials \<Rightarrow> bytes option \<times> partials" where
  "acceptIPFragment source plain now n =
     (if 12 \<le> length plain \<and> frag_index plain = 0 \<and> frag_total plain = 1
      then (Some (drop 12 plain), n)
      else acceptIPFragmentAt source plain now n)"

section \<open>Delivery queues\<close>

definition flow_hash :: "bytes \<Rightarrow> 32 word" where
  "flow_hash data =
     (let mix = (\<lambda>b flow. (flow * 16777619) XOR ucast (b :: byte));
          flow = fold mix (slice 12 20 data) (ucast (data ! 9));
          ihl = unat (data ! 0 AND 15) * 4
      in if 20 \<le> ihl \<and> ihl + 4 \<le> length data \<and> (data ! 9 = 6 \<or> data ! 9 = 17)
         then fold mix (slice ihl (ihl + 4) data) flow else flow)"

record deliver_queues =
  queues :: "(string \<times> bytes) list list"
  queue_cap :: nat
  deliveryDrops :: nat

definition enqueueDeliver :: "string \<Rightarrow> bytes \<Rightarrow> deliver_queues \<Rightarrow> deliver_queues" where
  "enqueueDeliver source data q =
     (if length (queues q) = 0 \<or> length data < 20 \<or> maxTUN_bytes < length data
      then q\<lparr>deliveryDrops := deliveryDrops q + 1\<rparr>
      else (let i = unat (flow_hash data) mod length (queues q); queue = queues q ! i
            in if length queue < queue_cap q
               then q\<lparr>queues := (queues q)[i := queue @ [(source, data)]]\<rparr>
               else q\<lparr>deliveryDrops := deliveryDrops q + 1\<rparr>))"

section \<open>Memory bounds\<close>

definition chunk_total :: "reassembly \<Rightarrow> nat" where
  "chunk_total st = (\<Sum>i \<in> dom (chunks st). length (the (chunks st i)))"

definition partial_ok :: "reassembly \<Rightarrow> bool" where
  "partial_ok st \<longleftrightarrow> finite (dom (chunks st)) \<and> totalBytes st = chunk_total st
     \<and> totalBytes st \<le> maxTUN_bytes \<and> frag_count st \<le> 128 \<and> dom (chunks st) \<subseteq> {..<frag_count st}"

definition partials_ok :: "partials \<Rightarrow> bool" where
  "partials_ok n \<longleftrightarrow> distinct (map fst n) \<and> length n \<le> 128 \<and> (\<forall>st \<in> snd ` set n. partial_ok st)"

lemma partials_ok_filter: "partials_ok n \<Longrightarrow> partials_ok (filter P n)"
  using le_trans [OF length_filter_le] by (auto simp: partials_ok_def distinct_map_filter)

lemma partials_ok_delete: "partials_ok n \<Longrightarrow> partials_ok (AList.delete k n)"
  by (simp add: AList.delete_eq partials_ok_filter)

lemma set_update_values: "snd ` set (AList.update k v n) \<subseteq> insert v (snd ` set n)"
  by (induction n) auto

lemma length_update: "k \<in> fst ` set n \<Longrightarrow> length (AList.update k v n) = length n"
  by (induction n) auto

lemma partials_ok_update:
  assumes "partials_ok n" "partial_ok v" "k \<in> fst ` set n \<or> length n < 128"
  shows "partials_ok (AList.update k v n)"
proof -
  have "length (AList.update k v n) \<le> 128"
  proof (cases "k \<in> fst ` set n")
    case True
    then show ?thesis using assms(1) length_update [of k n v] by (simp add: partials_ok_def)
  next
    case False
    then show ?thesis using assms(3) length_update_le [of k v n] by simp
  qed
  moreover have "\<forall>st \<in> snd ` set (AList.update k v n). partial_ok st"
    using assms(1,2) set_update_values [of k v n] unfolding partials_ok_def by blast
  ultimately show ?thesis using assms(1) by (simp add: partials_ok_def distinct_update)
qed

lemma partials_ok_tl: "partials_ok n \<Longrightarrow> partials_ok (tl n)"
  by (cases n) (auto simp: partials_ok_def)

lemma fetch_state_facts:
  assumes "partials_ok n" "cnt \<le> 128" "fetch_state sid cnt n = (st, n1)"
  shows "partials_ok n1" "partial_ok st" "map_of n1 sid = Some st" "sid \<in> fst ` set n1"
proof -
  let ?e = "\<lparr>totalBytes = 0, frag_count = cnt, chunks = Map.empty, receivedAt = 0\<rparr>"
  have e: "partial_ok ?e" using assms(2) by (simp add: partial_ok_def chunk_total_def)
  have facts: "partials_ok n1 \<and> partial_ok st \<and> map_of n1 sid = Some st"
  proof (cases "map_of n sid")
    case None
    let ?n = "if 128 \<le> length n then tl n else n"
    have "partials_ok ?n" using assms(1) partials_ok_tl by simp
    moreover have "length ?n < 128" using assms(1) by (auto simp: partials_ok_def)
    ultimately have "partials_ok (AList.update sid ?e ?n)" using e by (intro partials_ok_update) auto
    then show ?thesis using None e assms(3) by (auto simp: fetch_state_def Let_def update_conv')
  next
    case (Some x)
    then have "x \<in> snd ` set n" by (metis map_of_SomeD imageI snd_conv)
    then show ?thesis using Some assms(1,3) by (auto simp: fetch_state_def partials_ok_def)
  qed
  then show "partials_ok n1" "partial_ok st" "map_of n1 sid = Some st" by auto
  then show "sid \<in> fst ` set n1" by (metis map_of_SomeD fst_conv imageI)
qed

lemma partial_ok_add:
  assumes "partial_ok st" "index < frag_count st" "chunks st index = None"
    "length c + totalBytes st \<le> maxTUN_bytes"
  shows "partial_ok (st\<lparr>chunks := (chunks st)(index \<mapsto> c), totalBytes := totalBytes st + length c, receivedAt := now\<rparr>)"
proof -
  have notin: "index \<notin> dom (chunks st)" using assms(3) by auto
  have "(\<Sum>i \<in> insert index (dom (chunks st)). length (the (((chunks st)(index \<mapsto> c)) i)))
      = length c + (\<Sum>i \<in> dom (chunks st). length (the (((chunks st)(index \<mapsto> c)) i)))"
    using assms(1) notin by (simp add: partial_ok_def)
  also have "(\<Sum>i \<in> dom (chunks st). length (the (((chunks st)(index \<mapsto> c)) i))) = chunk_total st"
    unfolding chunk_total_def using notin by (intro sum.cong) auto
  finally show ?thesis
    using assms by (simp add: partial_ok_def chunk_total_def [of "_\<lparr>receivedAt := _\<rparr>"])
qed

lemma join_parts_Some:
  "join_parts cs is acc = Some p \<longleftrightarrow> (\<forall>i \<in> set is. cs i \<noteq> None) \<and> p = acc @ concat (map (\<lambda>i. the (cs i)) is)"
  by (induction "is" arbitrary: acc) (auto split: option.splits)

lemma join_parts_length:
  assumes "partial_ok st" "join_parts (chunks st) [0..<k] [] = Some p"
  shows "length p \<le> maxTUN_bytes"
proof -
  have p: "p = concat (map (\<lambda>i. the (chunks st i)) [0..<k])" and d: "{..<k} \<subseteq> dom (chunks st)"
    using assms(2) by (auto simp: join_parts_Some)
  have "length p = (\<Sum>i < k. length (the (chunks st i)))"
    by (simp add: p length_concat comp_def interv_sum_list_conv_sum_set_nat atLeast0LessThan)
  also have "\<dots> \<le> chunk_total st"
    unfolding chunk_total_def using assms(1) d by (intro sum_mono2) (auto simp: partial_ok_def)
  finally show ?thesis using assms(1) by (simp add: partial_ok_def)
qed

text \<open>The reassembly buffer is bounded.  However fragments arrive, there are never more than 128 partial
  packets, none holds more than 1350 bytes or more than 128 chunks, and whatever is delivered has
  at most 1350 bytes.\<close>

lemma reassembly_bounded:
  assumes "partials_ok n" "acceptIPFragmentAt source plain now n = (out, n')"
  shows "partials_ok n' \<and> (\<forall>packet. out = Some packet \<longrightarrow> length packet \<le> maxTUN_bytes)"
proof -
  let ?n0 = "filter (\<lambda>(_, st). \<not> receivedAt st < now - 10000) n"
  let ?sid = "state_key source (take 8 plain)" and ?i = "frag_index plain" and ?cnt = "frag_total plain"
  obtain st n1 where f: "fetch_state ?sid ?cnt ?n0 = (st, n1)" by (cases "fetch_state ?sid ?cnt ?n0")
  show ?thesis
  proof (cases "length plain < 12 \<or> maxTUN_bytes < length plain - 12 \<or> ?cnt = 0 \<or> 128 < ?cnt \<or> ?cnt \<le> ?i")
    case True
    then show ?thesis using assms by (auto simp: acceptIPFragmentAt_def Let_def split: if_splits)
  next
    case False
    then have small: "?cnt \<le> 128" and i: "?i < ?cnt" and big: "12 \<le> length plain" by auto
    note ok = fetch_state_facts [OF partials_ok_filter [OF assms(1)] small f]
    let ?st = "st\<lparr>chunks := (chunks st)(?i \<mapsto> drop 12 plain),
        totalBytes := totalBytes st + (length plain - 12), receivedAt := now\<rparr>"
    show ?thesis
    proof (cases "frag_count st \<noteq> ?cnt \<or> chunks st ?i \<noteq> None
        \<or> int maxTUN_bytes - int (totalBytes st) < int (length plain - 12)")
      case True
      then show ?thesis using assms(2) False f ok partials_ok_delete
        by (auto simp: acceptIPFragmentAt_def Let_def split: if_splits)
    next
      case fits: False
      have "length (drop 12 plain) + totalBytes st \<le> maxTUN_bytes" using fits big by auto
      then have st': "partial_ok ?st"
        using partial_ok_add [OF ok(2), of ?i "drop 12 plain" now] fits i by simp
      have n2: "partials_ok (AList.update ?sid ?st n1)"
        using ok st' by (intro partials_ok_update) auto
      show ?thesis
        using assms(2) False fits f n2 st' partials_ok_delete [OF n2, of ?sid]
        by (auto simp: acceptIPFragmentAt_def Let_def join_parts_length [OF st'] split: if_splits option.splits)
    qed
  qed
qed

lemma reassembly_bounded_witness:
  "partials_ok (snd (acceptIPFragmentAt ''p'' (replicate 9 0 @ [0, 0, 2, 7]) 5 []))"
proof -
  have n: "partials_ok []" by (simp add: partials_ok_def)
  obtain out n' where r: "acceptIPFragmentAt ''p'' (replicate 9 0 @ [0, 0, 2, 7]) 5 [] = (out, n')"
    by (cases "acceptIPFragmentAt ''p'' (replicate 9 0 @ [0, 0, 2, 7]) 5 []")
  from reassembly_bounded [OF n r] r show ?thesis by simp
qed

section \<open>Completeness in any order\<close>

text \<open>Fragment \<open>i\<close> of the packet with the chunks \<open>cs\<close>.\<close>

definition fragment :: "bytes \<Rightarrow> bytes list \<Rightarrow> nat \<Rightarrow> bytes" where
  "fragment fid cs i = fid @ put_be16n i @ put_be16n (length cs) @ cs ! i"

fun run_fragments :: "string \<Rightarrow> (time \<times> bytes) list \<Rightarrow> partials \<Rightarrow> bytes option list \<times> partials" where
  "run_fragments source [] n = ([], n)"
| "run_fragments source ((t, plain) # fs) n =
     (let (out, n1) = acceptIPFragmentAt source plain t n; (outs, n2) = run_fragments source fs n1
      in (out # outs, n2))"

text \<open>The map holds exactly the chunks \<open>S\<close> of the packet, received since \<open>t0\<close>.\<close>

definition collecting :: "string \<Rightarrow> bytes list \<Rightarrow> time \<Rightarrow> nat set \<Rightarrow> partials \<Rightarrow> bool" where
  "collecting sid cs t0 S n \<longleftrightarrow> partials_ok n \<and> S \<subseteq> {..<length cs} \<and>
     (if S = {} then map_of n sid = None
      else \<exists>st. map_of n sid = Some st \<and> frag_count st = length cs \<and> t0 \<le> receivedAt st
        \<and> chunks st = (\<lambda>i. if i \<in> S then Some (cs ! i) else None))"

lemma map_of_filter_keep:
  "distinct (map fst n) \<Longrightarrow> map_of n k = Some v \<Longrightarrow> P (k, v) \<Longrightarrow> map_of (filter P n) k = Some v"
  by (induction n) (auto split: if_splits simp: map_of_eq_None_iff)

lemma map_of_filter_None: "map_of n k = None \<Longrightarrow> map_of (filter P n) k = None"
  by (auto simp: map_of_eq_None_iff)

lemma fragment_header:
  assumes "length fid = 8" "i < length cs" "length cs \<le> 128"
  shows "frag_index (fragment fid cs i) = i" "frag_total (fragment fid cs i) = length cs"
    "take 8 (fragment fid cs i) = fid" "drop 12 (fragment fid cs i) = cs ! i"
    "length (fragment fid cs i) = 12 + length (cs ! i)"
  using assms
  by (auto simp: fragment_def frag_index_def frag_total_def slice_def)

lemma collecting_fetch:
  assumes "collecting sid cs t0 S n" "cs \<noteq> []" "length cs \<le> 128" "now \<le> t0 + 10000"
    and "fetch_state sid (length cs) (filter (\<lambda>(_, st). \<not> receivedAt st < now - 10000) n) = (st, n1)"
  shows "partials_ok n1" "map_of n1 sid = Some st" "sid \<in> fst ` set n1" "partial_ok st"
    "frag_count st = length cs" "chunks st = (\<lambda>i. if i \<in> S then Some (cs ! i) else None)"
    "S \<noteq> {} \<Longrightarrow> t0 \<le> receivedAt st"
proof -
  let ?n0 = "filter (\<lambda>(_, st). \<not> receivedAt st < now - 10000) n"
  have ok: "partials_ok ?n0" using assms(1) by (simp add: collecting_def partials_ok_filter)
  note ff = fetch_state_facts [OF ok assms(3,5)]
  then show "partials_ok n1" "map_of n1 sid = Some st" "sid \<in> fst ` set n1" "partial_ok st" by auto
  have "frag_count st = length cs \<and> chunks st = (\<lambda>i. if i \<in> S then Some (cs ! i) else None)
      \<and> (S \<noteq> {} \<longrightarrow> t0 \<le> receivedAt st)"
  proof (cases "S = {}")
    case True
    then have "map_of ?n0 sid = None" using assms(1) by (intro map_of_filter_None) (simp add: collecting_def)
    then show ?thesis using assms(5) True by (auto simp: fetch_state_def Let_def)
  next
    case False
    then obtain s0 where s0: "map_of n sid = Some s0" "frag_count s0 = length cs" "t0 \<le> receivedAt s0"
      "chunks s0 = (\<lambda>i. if i \<in> S then Some (cs ! i) else None)"
      using assms(1) by (auto simp: collecting_def)
    have "map_of ?n0 sid = Some s0"
      using s0 assms(1,4) by (intro map_of_filter_keep) (auto simp: collecting_def partials_ok_def)
    then show ?thesis using assms(5) s0 by (auto simp: fetch_state_def)
  qed
  then show "frag_count st = length cs" "chunks st = (\<lambda>i. if i \<in> S then Some (cs ! i) else None)"
    "S \<noteq> {} \<Longrightarrow> t0 \<le> receivedAt st" by auto
qed

lemma chunk_room:
  assumes "partial_ok st" "chunks st = (\<lambda>i. if i \<in> S then Some (cs ! i) else None)"
    "S \<subseteq> {..<length cs}" "i < length cs" "i \<notin> S" "length (concat cs) \<le> maxTUN_bytes"
  shows "totalBytes st + length (cs ! i) \<le> maxTUN_bytes"
proof -
  have d: "dom (chunks st) = S" by (auto simp: assms(2) split: if_splits)
  have fin: "finite S" using assms(3) finite_subset by blast
  have "totalBytes st = (\<Sum>j \<in> S. length (cs ! j))"
    using assms(1) unfolding partial_ok_def chunk_total_def d
    by (simp add: assms(2) cong: sum.cong)
  then have "totalBytes st + length (cs ! i) = (\<Sum>j \<in> insert i S. length (cs ! j))"
    using assms(5) fin by simp
  also have "\<dots> \<le> (\<Sum>j < length cs. length (cs ! j))"
    using assms(3,4) by (intro sum_mono2) auto
  also have "\<dots> = length (concat cs)"
    by (simp add: length_concat sum_list_sum_nth atLeast0LessThan)
  finally show ?thesis using assms(6) by simp
qed

lemma fragment_step:
  assumes c: "collecting sid cs t0 S n" and sid: "sid = state_key source fid"
    and fid: "length fid = 8" and cs: "length cs \<le> 128" "length (concat cs) \<le> maxTUN_bytes"
    and t: "t0 \<le> t" "t \<le> t0 + 10000" and i: "i < length cs"
    and acc: "acceptIPFragmentAt source (fragment fid cs i) t n = (out, n')"
  shows "i \<in> S \<or> insert i S \<noteq> {..<length cs} \<Longrightarrow> out = None \<and> collecting sid cs t0 (insert i S) n'"
    and "i \<notin> S \<Longrightarrow> insert i S = {..<length cs} \<Longrightarrow> out = Some (concat cs) \<and> map_of n' sid = None"
proof -
  note h = fragment_header [OF fid i cs(1)]
  obtain st n1 where f: "fetch_state sid (length cs) (filter (\<lambda>(_, st). \<not> receivedAt st < t - 10000) n) = (st, n1)"
    by (cases "fetch_state sid (length cs) (filter (\<lambda>(_, st). \<not> receivedAt st < t - 10000) n)")
  have ne: "cs \<noteq> []" using i by auto
  note ff = collecting_fetch [OF c ne cs(1) t(2) f]
  have S: "S \<subseteq> {..<length cs}" using c by (simp add: collecting_def)
  have "length (cs ! i) \<le> length (concat cs)"
    using i member_le_sum_list [of "length (cs ! i)" "map length cs"] by (simp add: length_concat)
  then have small: "length (cs ! i) \<le> maxTUN_bytes" using cs(2) by simp
  define st' where "st' = st\<lparr>chunks := (chunks st)(i \<mapsto> cs ! i), totalBytes := totalBytes st + length (cs ! i),
      receivedAt := t\<rparr>"
  have chunks': "chunks st' = (\<lambda>j. if j \<in> insert i S then Some (cs ! j) else None)"
    by (auto simp: st'_def ff(6))
  then have dom': "dom (chunks st') = insert i S" by (auto split: if_splits)
  have acc': "(out, n') =
      (if i \<in> S then (None, n1)
       else if card (insert i S) \<noteq> length cs then (None, AList.update sid st' n1)
       else (case join_parts (chunks st') [0..<length cs] [] of
               None \<Rightarrow> (None, AList.update sid st' n1)
             | Some packet \<Rightarrow> (Some packet, AList.delete sid (AList.update sid st' n1))))"
  proof -
    have room: "i \<notin> S \<Longrightarrow> \<not> int maxTUN_bytes - int (totalBytes st) < int (length (cs ! i))"
      using chunk_room [OF ff(4,6) S i _ cs(2)] by simp
    have fst_guard: "\<not> (length (fragment fid cs i) < 12 \<or> maxTUN_bytes < length (cs ! i))"
      using small by (simp add: h)
    have snd_guard: "\<not> (length cs = 0 \<or> 128 < length cs \<or> length cs \<le> i)" using i cs(1) ne by simp
    have len: "length (fragment fid cs i) - 12 = length (cs ! i)" by (simp add: h)
    have base: "(out, n') =
      (if frag_count st \<noteq> length cs then (None, AList.delete sid n1)
       else if chunks st i \<noteq> None then (None, n1)
       else if int maxTUN_bytes - int (totalBytes st) < int (length (cs ! i)) then (None, AList.delete sid n1)
       else if card (dom (chunks st')) \<noteq> length cs then (None, AList.update sid st' n1)
       else (case join_parts (chunks st') [0..<length cs] [] of
               None \<Rightarrow> (None, AList.update sid st' n1)
             | Some packet \<Rightarrow> (Some packet, AList.delete sid (AList.update sid st' n1))))"
      unfolding acc [symmetric] acceptIPFragmentAt_def Let_def h(1-4) len if_not_P [OF fst_guard]
        if_not_P [OF snd_guard] sid [symmetric] f prod.case st'_def [symmetric] ..
    show ?thesis
    proof (cases "i \<in> S")
      case True
      then have "chunks st i \<noteq> None" by (simp add: ff(6))
      with base True ff(5) show ?thesis by simp
    next
      case False
      then have "chunks st i = None" by (simp add: ff(6))
      with base False ff(5) room show ?thesis by (simp only: dom') simp
    qed
  qed
  have card: "card (insert i S) = length cs \<longleftrightarrow> insert i S = {..<length cs}"
  proof
    assume "card (insert i S) = length cs"
    moreover have "insert i S \<subseteq> {..<length cs}" using S i by simp
    ultimately show "insert i S = {..<length cs}" by (intro card_subset_eq) simp_all
  next
    assume "insert i S = {..<length cs}"
    then show "card (insert i S) = length cs" by (simp only: card_lessThan)
  qed
  have upd: "partials_ok (AList.update sid st' n1)" if "i \<notin> S"
  proof (rule partials_ok_update [OF ff(1)])
    have "length (cs ! i) + totalBytes st \<le> maxTUN_bytes"
      using chunk_room [OF ff(4,6) S i that cs(2)] by simp
    then show "partial_ok st'"
      unfolding st'_def using that i ff(5) by (intro partial_ok_add [OF ff(4)]) (simp_all add: ff(6))
  qed (use ff in simp)
  show "out = None \<and> collecting sid cs t0 (insert i S) n'"
    if no: "i \<in> S \<or> insert i S \<noteq> {..<length cs}"
  proof (cases "i \<in> S")
    case True
    then have "S \<noteq> {}" "insert i S = S" by auto
    then show ?thesis using acc' True ff S by (auto simp: collecting_def)
  next
    case False
    then have "out = None" "n' = AList.update sid st' n1" using acc' no card by simp_all
    then show ?thesis using upd [OF False] S i t ff(5) chunks'
      by (auto simp: collecting_def update_conv' st'_def)
  qed
  show "out = Some (concat cs) \<and> map_of n' sid = None"
    if new: "i \<notin> S" and full: "insert i S = {..<length cs}"
  proof -
    have c': "chunks st' j = Some (cs ! j)" if "j < length cs" for j
      using that full chunks' by (metis lessThan_iff)
    then have "map (\<lambda>j. the (chunks st' j)) [0..<length cs] = cs"
      by (intro nth_equalityI) auto
    then have "join_parts (chunks st') [0..<length cs] [] = Some (concat cs)"
      by (simp add: join_parts_Some c')
    moreover have "card (insert i S) = length cs" using card full by blast
    ultimately show ?thesis using acc' new by (simp add: delete_conv')
  qed
qed

lemma run_collecting:
  assumes "collecting (state_key source fid) cs t0 S n" "length fid = 8" "length cs \<le> 128"
    "length (concat cs) \<le> maxTUN_bytes"
    "\<forall>(t, i) \<in> set fs. t0 \<le> t \<and> t \<le> t0 + 10000 \<and> i < length cs"
    "S \<union> snd ` set fs \<noteq> {..<length cs}"
  shows "\<exists>n'. run_fragments source (map (\<lambda>(t, i). (t, fragment fid cs i)) fs) n = (replicate (length fs) None, n')
    \<and> collecting (state_key source fid) cs t0 (S \<union> snd ` set fs) n'"
  using assms
proof (induction fs arbitrary: S n)
  case (Cons f fs)
  obtain t i where f: "f = (t, i)" by (cases f)
  obtain out n1 where acc: "acceptIPFragmentAt source (fragment fid cs i) t n = (out, n1)"
    by (cases "acceptIPFragmentAt source (fragment fid cs i) t n")
  have S: "S \<subseteq> {..<length cs}" using Cons.prems(1) by (simp add: collecting_def)
  have sub: "snd ` set fs \<subseteq> {..<length cs}" using Cons.prems(5) by auto
  have "insert i S \<noteq> {..<length cs}" using Cons.prems(6) S sub f by auto
  then have s: "out = None" "collecting (state_key source fid) cs t0 (insert i S) n1"
    using fragment_step(1) [OF Cons.prems(1) refl Cons.prems(2-4) _ _ _ acc] Cons.prems(5) f by auto
  have "insert i S \<union> snd ` set fs \<noteq> {..<length cs}" using Cons.prems(6) f by auto
  from Cons.IH [OF s(2) Cons.prems(2-4) _ this] Cons.prems(5) obtain n2 where
    "run_fragments source (map (\<lambda>(t, i). (t, fragment fid cs i)) fs) n1 = (replicate (length fs) None, n2)"
    "collecting (state_key source fid) cs t0 (insert i S \<union> snd ` set fs) n2" by auto
  then show ?case using acc s(1) by (auto simp: f)
qed simp



end
