(* ===== verification/Fast_Path.thy ===== *)
theory Fast_Path
  imports Wire Dedup Reassembly
begin

text \<open>
  The encrypted data path of \<^verbatim>\<open>mesh-node/keepalive.go\<close> and \<^verbatim>\<open>mesh-node/tun_forward.go\<close>: the cache of peer
  ciphers (\<^verbatim>\<open>peerCrypto\<close>, \<^verbatim>\<open>fastPeerAEAD\<close>, \<^verbatim>\<open>peerCipher\<close>), the sender \<^verbatim>\<open>sendIP\<close> up to the choice of a next
  hop, and the receiver \<^verbatim>\<open>fast\<close> with relaying, decryption and duplicate suppression.

  The Diffie-Hellman key of a peer (\<^verbatim>\<open>protocol.SharedKey\<close> with the node's private key) is the argument
  \<open>shared\<close>, from the peer's public key; \<^verbatim>\<open>protocol.NewAEAD\<close> is the argument \<open>newAEAD\<close>; the eight random
  bytes of a nonce sequence are the argument \<open>rnd\<close>.  A nil dereference is the result \<open>Panic\<close>.
\<close>

section \<open>State\<close>

record cachedKey =
  ck_public :: string
  ck_key :: bytes
  ck_aead :: aead
  ck_nonces :: NonceSequence
  ck_peerID :: bytes
  openAAD :: bytes
  sealAAD :: bytes

record peerSnap =
  snap_hex :: string
  snap_aead :: aead
  snap_openAAD :: bytes

text \<open>\<^verbatim>\<open>n.dir\<close> is reduced to the public key of each entry.\<close>

record fast_node =
  fn_id :: string
  idBinary :: bytes
  fn_role :: string
  dir :: "string \<rightharpoonup> string"
  sharedKeys :: "string \<rightharpoonup> cachedKey"
  fastPeerSnap :: "peerSnap option"
  fn_seen :: "nat \<Rightarrow> shard"
  fn_prefix :: bytes
  fn_counter :: "64 word"
  fn_partials :: partials

datatype 'a outcome = Ok 'a | Err string | Panic

definition str_bytes :: "string \<Rightarrow> bytes" where
  "str_bytes s = map of_char s"

abbreviation fastHeader :: nat where "fastHeader \<equiv> 49"
abbreviation aeadTag :: nat where "aeadTag \<equiv> 16"

definition fastMagic :: bytes where "fastMagic = [77, 73, 80, 49]"

definition maxFastFrame :: nat where
  "maxFastFrame = fastHeader + 12 + 12 + maxTUN_bytes + aeadTag"

section \<open>Peer ciphers\<close>

definition derive_key ::
    "(string \<Rightarrow> bytes go_result) \<Rightarrow> (bytes \<Rightarrow> aead go_result) \<Rightarrow> bytes \<Rightarrow> string \<Rightarrow> string \<Rightarrow> fast_node
      \<Rightarrow> cachedKey outcome \<times> fast_node" where
  "derive_key shared newAEAD rnd k public n =
     (case shared public of
        Inl e \<Rightarrow> (Err e, n)
      | Inr key \<Rightarrow>
          (case hex_id 16 k of
             None \<Rightarrow> (Err ''peer has an invalid node ID'', n)
           | Some peerID \<Rightarrow>
               (case newAEAD key of
                  Inl e \<Rightarrow> (Err e, n)
                | Inr a \<Rightarrow>
                    (let ck = \<lparr>ck_public = public, ck_key = key, ck_aead = a,
                           ck_nonces = NewNonceSequence rnd, ck_peerID = peerID,
                           openAAD = str_bytes (k @ '':'' @ fn_id n),
                           sealAAD = str_bytes (fn_id n @ '':'' @ k)\<rparr>
                     in (Ok ck, n\<lparr>sharedKeys := (sharedKeys n)(k \<mapsto> ck)\<rparr>)))))"

text \<open>The cache lookup reads \<^verbatim>\<open>p.Public\<close> before it checks \<^verbatim>\<open>p\<close> for nil, so a cached key of a node that is no
  longer in the directory is a nil dereference.\<close>

definition peerCrypto ::
    "(string \<Rightarrow> bytes go_result) \<Rightarrow> (bytes \<Rightarrow> aead go_result) \<Rightarrow> bytes \<Rightarrow> string \<Rightarrow> fast_node
      \<Rightarrow> cachedKey outcome \<times> fast_node" where
  "peerCrypto shared newAEAD rnd k n =
     (case sharedKeys n k of
        Some cached \<Rightarrow>
          (case dir n k of
             None \<Rightarrow> (Panic, n)
           | Some public \<Rightarrow>
               if ck_public cached = public then (Ok cached, n)
               else derive_key shared newAEAD rnd k public n)
      | None \<Rightarrow>
          (case dir n k of
             None \<Rightarrow> (Err ''unknown peer'', n)
           | Some public \<Rightarrow> derive_key shared newAEAD rnd k public n))"

definition fastPeerAEAD ::
    "(string \<Rightarrow> bytes go_result) \<Rightarrow> (bytes \<Rightarrow> aead go_result) \<Rightarrow> bytes \<Rightarrow> string \<Rightarrow> fast_node
      \<Rightarrow> (aead \<times> bytes \<times> string) outcome \<times> fast_node" where
  "fastPeerAEAD shared newAEAD rnd peerHex n =
     (case (case fastPeerSnap n of
              Some snap \<Rightarrow> if snap_hex snap = peerHex then Some snap else None | None \<Rightarrow> None) of
        Some snap \<Rightarrow> (Ok (snap_aead snap, snap_openAAD snap, snap_hex snap), n)
      | None \<Rightarrow>
          (case peerCrypto shared newAEAD rnd peerHex n of
             (Panic, n1) \<Rightarrow> (Panic, n1)
           | (Err e, n1) \<Rightarrow> (Err e, n1)
           | (Ok ck, n1) \<Rightarrow>
               (Ok (ck_aead ck, openAAD ck, peerHex),
                n1\<lparr>fastPeerSnap := Some \<lparr>snap_hex = peerHex, snap_aead = ck_aead ck,
                     snap_openAAD = openAAD ck\<rparr>\<rparr>)))"

section \<open>Sending\<close>

definition fastAAD :: "bytes \<Rightarrow> bytes \<Rightarrow> bytes" where
  "fastAAD peerAAD packetID = peerAAD @ packetID"

text \<open>The sequential behaviour of \<^verbatim>\<open>nextPacketID\<close> for a 12-byte buffer.\<close>

definition next_id :: "fast_node \<Rightarrow> (bytes \<times> fast_node) option" where
  "next_id n = (if fn_counter n = - 1 then None
     else Some (fn_prefix n @ put_be64 (fn_counter n + 1), n\<lparr>fn_counter := fn_counter n + 1\<rparr>))"

text \<open>The sealed frame that \<^verbatim>\<open>sendIP\<close> hands to \<^verbatim>\<open>sendFastMode\<close>.\<close>

definition sendIP ::
    "(string \<Rightarrow> bytes go_result) \<Rightarrow> (bytes \<Rightarrow> aead go_result) \<Rightarrow> bytes \<Rightarrow> string \<Rightarrow> bytes \<Rightarrow> fast_node
      \<Rightarrow> bytes outcome \<times> fast_node" where
  "sendIP shared newAEAD rnd dst p n =
     (if maxTUN_bytes < length p then (Err ''packet exceeds MTU'', n)
      else case peerCrypto shared newAEAD rnd dst n of
        (Panic, n1) \<Rightarrow> (Panic, n1)
      | (Err e, n1) \<Rightarrow> (Err e, n1)
      | (Ok ck, n1) \<Rightarrow>
          (case next_id n1 of
             None \<Rightarrow> (Err ''packet ID sequence exhausted'', n1)
           | Some (packetID, n2) \<Rightarrow>
               (case NextInto (ck_nonces ck) (NonceSize (ck_aead ck)) of
                  (res, seq') \<Rightarrow>
                    (let n3 = n2\<lparr>sharedKeys := (sharedKeys n2)(dst \<mapsto> ck\<lparr>ck_nonces := seq'\<rparr>)\<rparr>
                     in case res of
                          Inl e \<Rightarrow> (Err e, n3)
                        | Inr nonce \<Rightarrow>
                            (let header = fastMagic @ [8] @ idBinary n @ ck_peerID ck @ packetID;
                                 plain = replicate 10 0 @ [0, 1] @ p
                             in (Ok (header @ nonce @ aead_Seal (ck_aead ck) nonce plain
                                       (fastAAD (sealAAD ck) packetID)), n3))))))"

section \<open>Receiving\<close>

datatype fast_action =
    FastDrop
  | FastRelay string bytes
  | FastDeliver string bytes
  | FastCrash

definition fast ::
    "(string \<Rightarrow> bytes go_result) \<Rightarrow> (bytes \<Rightarrow> aead go_result) \<Rightarrow> bytes \<Rightarrow> time \<Rightarrow> bytes \<Rightarrow> fast_node
      \<Rightarrow> fast_action \<times> fast_node" where
  "fast shared newAEAD rnd now data n =
     (if length data < fastHeader + 28 \<or> maxFastFrame < length data then (FastDrop, n)
      else (let ttl = data ! 4; srcHex = hex_encode (slice 5 21 data); packetID = slice 37 49 data
        in if ttl < 1 \<or> 8 < ttl then (FastDrop, n)
        else if slice 21 37 data \<noteq> idBinary n then
          (if fn_role n = ''superpeer'' \<and> 1 < ttl
           then (let (fresh, seen) = rememberFast packetID (fn_seen n); n1 = n\<lparr>fn_seen := seen\<rparr>
                 in if fresh then (FastRelay (hex_encode (slice 21 37 data)) (data[4 := ttl - 1]), n1)
                    else (FastDrop, n1))
           else (FastDrop, n))
        else case fastPeerAEAD shared newAEAD rnd srcHex n of
          (Panic, n1) \<Rightarrow> (FastCrash, n1)
        | (Err e, n1) \<Rightarrow> (FastDrop, n1)
        | (Ok (a, aad, srcID), n1) \<Rightarrow>
            (case OpenBytesInto [] (length data - (fastHeader + NonceSize a)) a (drop fastHeader data)
                    (fastAAD aad packetID) of
               Inl e \<Rightarrow> (FastDrop, n1)
             | Inr plain \<Rightarrow>
                 (let (fresh, seen) = rememberFast packetID (fn_seen n1); n2 = n1\<lparr>fn_seen := seen\<rparr>
                  in if \<not> fresh then (FastDrop, n2)
                     else (case acceptIPFragment srcID plain now (fn_partials n2) of
                             (None, ps) \<Rightarrow> (FastDrop, n2\<lparr>fn_partials := ps\<rparr>)
                           | (Some packet, ps) \<Rightarrow> (FastDeliver srcID packet, n2\<lparr>fn_partials := ps\<rparr>))))))"

section \<open>Lemmas\<close>

lemma fast_fields:
  assumes "length a = 16" "length b = 16" "length pid = 12"
    and data: "data = fastMagic @ [t] @ a @ b @ pid @ rest"
  shows "data ! 4 = t" "slice 5 21 data = a" "slice 21 37 data = b" "slice 37 49 data = pid"
    "drop 49 data = rest" "length data = 49 + length rest" "data[4 := t'] = fastMagic @ [t'] @ a @ b @ pid @ rest"
  using assms by (simp_all add: slice_def fastMagic_def)

lemma hex_id_self [simp]: "length b = 16 \<Longrightarrow> hex_id 16 (hex_encode b) = Some b"
  by (rule hex_id_encode)

lemma single_fragment:
  "acceptIPFragment src (replicate 10 0 @ [0, 1] @ p) now ps = (Some p, ps)"
proof -
  have "frag_index (replicate 10 0 @ [0, 1] @ p) = 0" "frag_total (replicate 10 0 @ [0, 1] @ p) = 1"
    by (simp_all add: frag_index_def frag_total_def slice_def be16n_def)
  then show ?thesis by (simp add: acceptIPFragment_def)
qed

text \<open>How a node receives a well-formed frame for which it obtains the right cipher.\<close>

lemma fast_receives:
  assumes frame: "frame = fastMagic @ [t] @ a @ idBinary n @ pid @ nonce @ ct"
    and len: "length a = 16" "length (idBinary n) = 16" "length pid = 12" "length nonce = 12"
    and t: "1 \<le> t" "t \<le> 8"
    and c: "NonceSize c = 12" "Overhead c = 16" "length ct = length plain + 16" "length plain \<le> 12 + maxTUN_bytes"
    and cipher: "fastPeerAEAD shared newAEAD rnd (hex_encode a) n = (Ok (c, aad, hex_encode a), n1)"
    and opened: "aead_Open c nonce ct (fastAAD aad pid) = Some plain"
  shows "fast shared newAEAD rnd now frame n =
    (let (fresh, seen) = rememberFast pid (fn_seen n1); n2 = n1\<lparr>fn_seen := seen\<rparr>
     in if \<not> fresh then (FastDrop, n2)
        else (case acceptIPFragment (hex_encode a) plain now (fn_partials n2) of
                (None, ps) \<Rightarrow> (FastDrop, n2\<lparr>fn_partials := ps\<rparr>)
              | (Some packet, ps) \<Rightarrow> (FastDeliver (hex_encode a) packet, n2\<lparr>fn_partials := ps\<rparr>)))"
proof -
  note f = fast_fields [OF len(1-3) frame]
  have "length frame = 77 + length plain" using f(6) len(4) c(3) by simp
  then have size: "\<not> (length frame < fastHeader + 28 \<or> maxFastFrame < length frame)"
    using c(4) by (simp add: maxFastFrame_def)
  have ttl: "\<not> (t < 1 \<or> 8 < t)" using t by auto
  have "OpenBytesInto [] (length frame - (fastHeader + NonceSize c)) c (drop fastHeader frame) (fastAAD aad pid)
      = Inr plain"
    using f(5,6) len(4) c opened by (simp add: OpenBytesInto_def OpenBytesWithAEAD_def Let_def)
  then show ?thesis
    unfolding fast_def if_not_P [OF size] Let_def f(1-4) if_not_P [OF ttl] cipher
    by (simp add: cipher)
qed

text \<open>What both ends rely on: consistent identities and one key from both directions.\<close>

definition peered ::
    "(string \<Rightarrow> bytes go_result) \<Rightarrow> (string \<Rightarrow> bytes go_result) \<Rightarrow> (bytes \<Rightarrow> aead go_result)
      \<Rightarrow> fast_node \<Rightarrow> fast_node \<Rightarrow> aead \<Rightarrow> bool" where
  "peered sharedA sharedB newAEAD a b c \<longleftrightarrow>
     length (idBinary a) = 16 \<and> length (idBinary b) = 16
     \<and> fn_id a = hex_encode (idBinary a) \<and> fn_id b = hex_encode (idBinary b)
     \<and> sharedKeys a (fn_id b) = None \<and> sharedKeys b (fn_id a) = None \<and> fastPeerSnap b = None
     \<and> (case (dir a (fn_id b), dir b (fn_id a)) of
          (Some pubB, Some pubA) \<Rightarrow>
            (case (sharedA pubB, sharedB pubA) of
               (Inr kA, Inr kB) \<Rightarrow> kA = kB \<and> newAEAD kA = Inr c | _ \<Rightarrow> False)
        | _ \<Rightarrow> False)"


definition sample_cipher :: aead where
  "sample_cipher = \<lparr>NonceSize = 12, Overhead = 16, aead_Seal = (\<lambda>n p d. p @ replicate 16 0),
     aead_Open = (\<lambda>n c d. Some (take (length c - 16) c))\<rparr>"

definition sample_fast :: "byte \<Rightarrow> byte \<Rightarrow> fast_node" where
  "sample_fast me other = \<lparr>fn_id = hex_encode (replicate 16 me), idBinary = replicate 16 me, fn_role = ''peer'',
     dir = [hex_encode (replicate 16 other) \<mapsto> ''pub''], sharedKeys = Map.empty, fastPeerSnap = None,
     fn_seen = (\<lambda>_. empty_shard), fn_prefix = [1, 2, 3, 4], fn_counter = 41, fn_partials = []\<rparr>"



definition sample_key :: cachedKey where
  "sample_key = \<lparr>ck_public = ''pub'', ck_key = [], ck_aead = sample_cipher, ck_nonces = NewNonceSequence (replicate 8 5),
     ck_peerID = replicate 16 2, openAAD = [], sealAAD = []\<rparr>"

definition sample_stale :: fast_node where
  "sample_stale = (sample_fast 1 2)\<lparr>dir := Map.empty, sharedKeys := [hex_encode (replicate 16 2) \<mapsto> sample_key]\<rparr>"


end
