(* ===== verification/Node_Datagrams.thy ===== *)
theory Node_Datagrams
  imports Json_Envelope Mesh_Routes Sockets Scan_Sessions Fast_Path
begin

text \<open>
  The control datagrams of a node (\<^verbatim>\<open>mesh-node/dataplane.go\<close>, \<^verbatim>\<open>discovery.go\<close>, \<^verbatim>\<open>recovery.go\<close>, \<^verbatim>\<open>keepalive.go\<close>,
  \<^verbatim>\<open>tun_forward.go\<close>): choice of the wire format, sending to an address or along the routes, greetings and
  keepalive probes, sealed messages, and \<^verbatim>\<open>handleDatagram\<close> with relaying, answers and the opening of data
  packets.  The node composes the components it uses: the neighbour table, the routes, the sockets, the
  scan sessions and the cached peer keys.

  A call takes the environment \<open>dp_env\<close> of that moment and returns the datagrams it writes and the work it
  starts as effects; \<open>None\<close> is a panic.  The counters are those of received control traffic.  What services
  and tunnels do with an opened message is the effect \<open>Inner\<close>.

  The lemmas show that keepalives bring a link up on both sides, that relays change only the hop limit and
  are at most seven, that a sealed message is delivered as it was given, and which packet ends the process.
\<close>

section \<open>State\<close>

text \<open>The fields of \<^verbatim>\<open>node\<close> that the control datagrams read and write.  \<open>dp_crypto\<close> holds the cached peer
  keys with the directory's public keys, \<open>dp_directory\<close> the ids of the directory.\<close>

record dp_node =
  dp_id :: string
  dp_public :: string
  dp_role :: string
  dp_nat :: string
  dp_key :: bytes
  dp_table :: peer_table
  dp_links :: "edge list"
  dp_directory :: "string list"
  dp_routes :: "string \<rightharpoonup> string"
  dp_altRoutes :: "string \<rightharpoonup> string"
  dp_recompute :: time
  dp_seen :: "string set"
  dp_socks :: sock_state
  dp_scans :: scan_state
  dp_crypto :: fast_node
  refresh_busy :: bool
  topologyRefreshNext :: time
  controlRxPackets :: "64 word"
  controlRxBytes :: "64 word"

text \<open>What the environment supplies while one call runs: the clock in milliseconds and in seconds, random
  bytes, name resolution, the HMAC, the choice in map iteration, and which writes succeed.\<close>

record dp_env =
  clock :: time
  unix_time :: "64 word"
  rnd12 :: bytes
  lookup :: "string \<Rightarrow> udp_addr option"
  hmac :: "bytes \<Rightarrow> bytes \<Rightarrow> bytes"
  first_key :: "string set \<Rightarrow> string"
  writable :: "nat \<Rightarrow> udp_addr \<Rightarrow> bool"
  shared_key :: "string \<Rightarrow> bytes go_result"
  new_aead :: "bytes \<Rightarrow> aead go_result"
  rnd8 :: bytes
  rnd_nonce :: bytes

text \<open>What a data packet carries once it is opened.\<close>

datatype inner =
    LegacyFragment bytes
  | ServiceRequest string "(string \<times> json) list"
  | ServiceResponse string string string
  | TunnelOpen "(string \<times> json) list"
  | TunnelData "(string \<times> json) list"
  | TunnelClose "(string \<times> json) list"
  | IPPacket bytes

datatype dp_effect =
    Datagram nat udp_addr bytes
  | FastFrame bytes udp_addr
  | RefreshTopology string
  | RetryEdge string peer
  | Inner string inner

definition dp_new :: "dp_env \<Rightarrow> string \<Rightarrow> string \<Rightarrow> string \<Rightarrow> (string \<times> json) list \<Rightarrow> Packet" where
  "dp_new e typ src dst payload = NewPacket (rnd12 e) (unix_time e) typ src dst payload"

definition UDPAddr_String :: "udp_addr \<Rightarrow> string" where
  "UDPAddr_String a = Addr_String (fst a) @ '':'' @ itoa (snd a)"

section \<open>Encoding and sending\<close>

definition speaksCompactHello :: "time \<Rightarrow> string \<Rightarrow> dp_node \<Rightarrow> bool" where
  "speaksCompactHello now i n =
     (case neighbor (dp_table n) i of None \<Rightarrow> False | Some p \<Rightarrow> now < compactHelloUntil p)"

definition encodePacketForPeer :: "dp_env \<Rightarrow> Packet \<Rightarrow> dp_node \<Rightarrow> bytes go_result" where
  "encodePacketForPeer e p n =
     (if TTL p = DefaultTTL \<and> (Type p = ''HELLO'' \<or> Type p = ''HELLO_ACK'') \<and> payloadString p ''session_id'' = []
         \<and> speaksCompactHello (clock e) (Destination p) n
      then (case EncodeCompact (hmac e) p (dp_key n) of
              Inr encoded \<Rightarrow> Inr encoded
            | Inl _ \<Rightarrow> EncodePacket (hmac e) p (dp_key n))
      else EncodePacket (hmac e) p (dp_key n))"

definition write_to :: "dp_env \<Rightarrow> nat option \<Rightarrow> udp_addr \<Rightarrow> bytes \<Rightarrow> bool \<times> dp_effect list" where
  "write_to e c a b =
     (case c of None \<Rightarrow> (False, []) | Some c \<Rightarrow> if writable e c a then (True, [Datagram c a b]) else (False, []))"

definition sendToAddress :: "dp_env \<Rightarrow> Packet \<Rightarrow> udp_addr \<Rightarrow> dp_node \<Rightarrow> dp_effect list" where
  "sendToAddress e p a n =
     (case encodePacketForPeer e p n of
        Inl _ \<Rightarrow> []
      | Inr encoded \<Rightarrow> snd (write_to e (connForPeer (dp_nat n) (Destination p) (dp_socks n)) a encoded))"

definition sendCompact :: "dp_env \<Rightarrow> Packet \<Rightarrow> udp_addr \<Rightarrow> dp_node \<Rightarrow> dp_effect list" where
  "sendCompact e p a n =
     (case EncodeCompact (hmac e) p (dp_key n) of
        Inl _ \<Rightarrow> sendToAddress e p a n
      | Inr encoded \<Rightarrow> snd (write_to e (connForPeer (dp_nat n) (Destination p) (dp_socks n)) a encoded))"

definition sendDirect :: "dp_env \<Rightarrow> Packet \<Rightarrow> string \<Rightarrow> udp_addr option \<Rightarrow> dp_node \<Rightarrow> bool \<times> dp_effect list" where
  "sendDirect e p endpoint observed n =
     (case (case observed of Some a \<Rightarrow> Some a | None \<Rightarrow> lookup e endpoint) of
        None \<Rightarrow> (False, [])
      | Some a \<Rightarrow>
          (case (case EncodeCompact (hmac e) p (dp_key n) of
                   Inr b \<Rightarrow> Inr b | Inl _ \<Rightarrow> EncodePacket (hmac e) p (dp_key n)) of
             Inl _ \<Rightarrow> (False, [])
           | Inr b \<Rightarrow> write_to e (connForPeer (dp_nat n) (Destination p) (dp_socks n)) a b))"

text \<open>\<^verbatim>\<open>send\<close>: the hop of the routing tables, its observed address or else its declared one, and the socket
  for that hop.  \<open>None\<close> is the result of a search that does not end.\<close>

definition routing_of :: "dp_node \<Rightarrow> routing" where
  "routing_of n = \<lparr>self_id = dp_id n, links_view = dp_links n, directory = dp_directory n,
     rt_neighbors = neighbors (dp_table n), routes = dp_routes n, altRoutes = dp_altRoutes n,
     routeRecompute = dp_recompute n\<rparr>"

definition with_routes :: "routing \<Rightarrow> dp_node \<Rightarrow> dp_node" where
  "with_routes r n = n\<lparr>dp_routes := routes r, dp_altRoutes := altRoutes r, dp_recompute := routeRecompute r\<rparr>"

definition send_packet :: "dp_env \<Rightarrow> Packet \<Rightarrow> dp_node \<Rightarrow> (bool \<times> dp_effect list \<times> dp_node) option" where
  "send_packet e p n =
     (case send_hop (clock e) (Destination p) (routing_of n) of
        None \<Rightarrow> None
      | Some (None, r) \<Rightarrow> Some (False, [], with_routes r n)
      | Some (Some (hop, q), r) \<Rightarrow>
          (let n1 = with_routes r n in
           case (case send_target q of Some a \<Rightarrow> Some a | None \<Rightarrow> lookup e (Endpoint q)) of
             None \<Rightarrow> Some (False, [], n1)
           | Some a \<Rightarrow>
               (case encodePacketForPeer e p n1 of
                  Inl _ \<Rightarrow> Some (False, [], n1)
                | Inr b \<Rightarrow>
                    (let (ok, es) = write_to e (connForPeer (dp_nat n1) hop (dp_socks n1)) a b in
                     Some (ok, es, n1)))))"

section \<open>Keepalives\<close>

text \<open>One target of \<^verbatim>\<open>helloAll\<close>.\<close>

definition hello_target :: "dp_env \<Rightarrow> string \<times> peer \<Rightarrow> dp_node \<Rightarrow> dp_effect list" where
  "hello_target e ip n =
     (let (i, p) = ip;
          skipDeclared = (freshLAN (Some p) (clock e) \<and> sameNAT (dp_table n) (Some p));
          observed = send_target p;
          packet = dp_new e ''HELLO'' (dp_id n) i [(''public_key'', JStr (dp_public n))] in
      (case observed of None \<Rightarrow> [] | Some a \<Rightarrow> sendToAddress e packet a n) @
      (case lookup e (Endpoint p) of
         None \<Rightarrow> []
       | Some a \<Rightarrow> if \<not> skipDeclared \<and> observed \<noteq> Some a then sendToAddress e packet a n else []))"

definition helloAll :: "(nat \<Rightarrow> dp_env) \<Rightarrow> dp_node \<Rightarrow> dp_effect list" where
  "helloAll e n =
     (let targets = filter (\<lambda>(i, p). \<not> usable (clock (e 0)) (Some p)) (neighbors (dp_table n)) in
      concat (map (\<lambda>(k, t). hello_target (e k) t n) (zip [0..<length targets] targets)))"

definition sendHello :: "dp_env \<Rightarrow> peer \<Rightarrow> dp_node \<Rightarrow> dp_effect list" where
  "sendHello e p n =
     (let packet = dp_new e ''HELLO'' (dp_id n) (ID p) [(''public_key'', JStr (dp_public n))] in
      (case send_target p of None \<Rightarrow> [] | Some a \<Rightarrow> sendToAddress e packet a n) @
      (case lookup e (Endpoint p) of None \<Rightarrow> [] | Some a \<Rightarrow> sendToAddress e packet a n))"

text \<open>One target of \<^verbatim>\<open>pingAll\<close>: an unconfirmed LAN candidate gets a probe of its own, and the probe that is
  recorded is the one whose write succeeded.\<close>

definition ping_target :: "dp_env \<Rightarrow> string \<times> peer \<Rightarrow> dp_node \<Rightarrow> dp_effect list \<times> dp_node" where
  "ping_target e ip n =
     (let (i, p) = ip;
          observed = send_target p;
          lan = (if lastLAN p \<noteq> None \<and> \<not> freshLAN (Some p) (clock e) then lastLAN p else None);
          packet = dp_new e ''PING'' (dp_id n) i [];
          es1 = (case lan of
              Some a \<Rightarrow> if observed \<noteq> Some a then snd (sendDirect e packet [] (Some a) n) else []
            | None \<Rightarrow> []);
          (ok, es2) = sendDirect e packet (Endpoint p) observed n in
      if ok then
        (es1 @ es2, n\<lparr>dp_table := (dp_table n)\<lparr>pings := AList.update (PacketID packet)
            \<lparr>sent = clock e, peerID = i\<rparr> (pings (dp_table n))\<rparr>\<rparr>)
      else (es1 @ es2 @ (case neighbor (dp_table n) i of None \<Rightarrow> [] | Some q \<Rightarrow> [RetryEdge i q]), n))"

fun ping_targets :: "(nat \<Rightarrow> dp_env) \<Rightarrow> nat \<Rightarrow> (string \<times> peer) list \<Rightarrow> dp_node \<Rightarrow> dp_effect list \<times> dp_node" where
  "ping_targets e k [] n = ([], n)"
| "ping_targets e k (t # ts) n =
     (let (es1, n1) = ping_target (e k) t n; (es2, n2) = ping_targets e (k + 1) ts n1 in (es1 @ es2, n2))"

definition pingAll :: "(nat \<Rightarrow> dp_env) \<Rightarrow> dp_node \<Rightarrow> dp_effect list \<times> dp_node" where
  "pingAll e n =
     (let targets = neighbors (dp_table n);
          (kept, lost) = prunePings (pings (dp_table n)) (clock (e 0) - linkTimeout);
          n1 = n\<lparr>dp_table := noteLostProbes lost ((dp_table n)\<lparr>pings := kept\<rparr>)\<rparr> in
      ping_targets e 0 targets n1)"

section \<open>Receiving\<close>

abbreviation compactHelloCapabilityTTL :: int where "compactHelloCapabilityTTL \<equiv> 604800000"

definition markCompactHello :: "time \<Rightarrow> string \<Rightarrow> dp_node \<Rightarrow> dp_node" where
  "markCompactHello now i n =
     n\<lparr>dp_table := update_neighbor i (\<lambda>p. p\<lparr>compactHelloUntil := now + compactHelloCapabilityTTL\<rparr>) (dp_table n)\<rparr>"


text \<open>\<^verbatim>\<open>ensureNeighbor\<close>: at most one refresh at a time and one in five seconds.  The goroutine it starts logs the
  first eight characters of the id, so a shorter one is a panic.\<close>

abbreviation refresh_interval :: int where "refresh_interval \<equiv> 5000"

definition ensureNeighbor :: "dp_env \<Rightarrow> string \<Rightarrow> dp_node \<Rightarrow> (dp_effect list \<times> dp_node) option" where
  "ensureNeighbor e i n =
     (if neighbor (dp_table n) i \<noteq> None \<or> refresh_busy n \<or> clock e < topologyRefreshNext n then Some ([], n)
      else if length i < 8 then None
      else Some ([RefreshTopology i],
        n\<lparr>refresh_busy := True, topologyRefreshNext := clock e + refresh_interval\<rparr>))"

section \<open>Sealed payloads\<close>

definition Seal :: "(bytes \<Rightarrow> aead go_result) \<Rightarrow> bytes \<Rightarrow> bytes \<Rightarrow> bytes \<Rightarrow> bytes \<Rightarrow> (string \<times> string) list go_result" where
  "Seal newAEAD nonce key plaintext aad =
     (case newAEAD key of
        Inl e \<Rightarrow> Inl e
      | Inr a \<Rightarrow>
          (let out = aead_Seal a nonce plaintext aad; tagAt = length out - Overhead a in
           Inr [(''nonce'', B64Encode nonce), (''ciphertext'', B64Encode (take tagAt out)),
                (''tag'', B64Encode (drop tagAt out))]))"

definition field :: "(string \<times> string) list \<Rightarrow> string \<Rightarrow> string" where
  "field s k = (case map_of s k of Some x \<Rightarrow> x | None \<Rightarrow> [])"

definition Open :: "(bytes \<Rightarrow> aead go_result) \<Rightarrow> bytes \<Rightarrow> (string \<times> string) list \<Rightarrow> bytes \<Rightarrow> bytes go_result" where
  "Open newAEAD key sealed aad =
     (case (B64Decode (field sealed ''nonce''), B64Decode (field sealed ''ciphertext''), B64Decode (field sealed ''tag'')) of
        (Some n, Some c, Some t) \<Rightarrow>
          (case newAEAD key of
             Inl e \<Rightarrow> Inl e
           | Inr a \<Rightarrow>
               if length n \<noteq> NonceSize a \<or> length t \<noteq> Overhead a then Inl ''mesh protocol error: invalid nonce or tag length''
               else (case aead_Open a n (c @ t) aad of
                       None \<Rightarrow> Inl ''message authentication failed'' | Some p \<Rightarrow> Inr p))
      | _ \<Rightarrow> Inl ''mesh protocol error: invalid sealed data'')"

text \<open>The string members of an object: \<^verbatim>\<open>if z, ok := v.(string); ok { s[k] = z }\<close>.\<close>

definition string_members :: "(string \<times> json) list \<Rightarrow> (string \<times> string) list" where
  "string_members kvs = concat (map (\<lambda>(k, v). case v of JStr z \<Rightarrow> [(k, z)] | _ \<Rightarrow> []) kvs)"

section \<open>Data packets\<close>

definition peerKey :: "dp_env \<Rightarrow> string \<Rightarrow> dp_node \<Rightarrow> bytes outcome \<times> dp_node" where
  "peerKey e i n =
     (case peerCrypto (shared_key e) (new_aead e) (rnd8 e) i (dp_crypto n) of
        (Ok ck, c) \<Rightarrow> (Ok (ck_key ck), n\<lparr>dp_crypto := c\<rparr>)
      | (Err x, c) \<Rightarrow> (Err x, n\<lparr>dp_crypto := c\<rparr>)
      | (Panic, c) \<Rightarrow> (Panic, n\<lparr>dp_crypto := c\<rparr>))"

text \<open>\<^verbatim>\<open>encrypted\<close>: the message is sealed for its destination and sent as a data packet.\<close>

definition encrypted ::
    "dp_env \<Rightarrow> string \<Rightarrow> string \<Rightarrow> (string \<times> json) list \<Rightarrow> string \<Rightarrow> dp_node
      \<Rightarrow> (bool \<times> dp_effect list \<times> dp_node) option" where
  "encrypted e dst typ body i n =
     (case peerKey e dst n of
        (Panic, n1) \<Rightarrow> None
      | (Err x, n1) \<Rightarrow> Some (False, [], n1)
      | (Ok k, n1) \<Rightarrow>
          (let raw = string_bytes (Marshal (JObj [(''type'', JStr typ), (''body'', JObj body)])) in
           case Seal (new_aead e) (rnd_nonce e) k raw (string_bytes (dp_id n @ '':'' @ dst)) of
             Inl x \<Rightarrow> Some (False, [], n1)
           | Inr s \<Rightarrow>
               (let p = dp_new e ''DATA'' (dp_id n) dst [(''sealed'', JObj (map (\<lambda>(k, v). (k, JStr v)) s))];
                    p = (if i \<noteq> [] then p\<lparr>PacketID := i\<rparr> else p) in
                send_packet e p n1)))"

text \<open>The opened message, \<^verbatim>\<open>json.Unmarshal\<close> into the structure of a type and a body; the keys are matched as
  \<^verbatim>\<open>encrypted\<close> writes them.\<close>

definition open_message :: "bytes \<Rightarrow> (string \<times> (string \<times> json) list) option" where
  "open_message raw =
     (case Unmarshal (bytes_string raw) of
        Some (JObj m) \<Rightarrow>
          (case ((case map_of m ''type'' of None \<Rightarrow> Some [] | Some JNull \<Rightarrow> Some [] | Some (JStr t) \<Rightarrow> Some t | _ \<Rightarrow> None),
                 (case map_of m ''body'' of None \<Rightarrow> Some [] | Some JNull \<Rightarrow> Some [] | Some (JObj b) \<Rightarrow> Some b | _ \<Rightarrow> None)) of
             (Some t, Some b) \<Rightarrow> Some (t, b)
           | _ \<Rightarrow> None)
      | Some JNull \<Rightarrow> Some ([], [])
      | _ \<Rightarrow> None)"

definition str_member :: "(string \<times> json) list \<Rightarrow> string \<Rightarrow> string" where
  "str_member b k = (case get_str b k of Some s \<Rightarrow> s | None \<Rightarrow> [])"

definition inner_message :: "string \<Rightarrow> string \<times> (string \<times> json) list \<Rightarrow> inner list" where
  "inner_message pid tb =
     (let (t, b) = tb in
      if t = ''SERVICE_REQUEST'' then [ServiceRequest pid b]
      else if t = ''SERVICE_RESPONSE'' then
        [ServiceResponse (str_member b ''request_id'') (str_member b ''data'') (str_member b ''error'')]
      else if t = ''TUNNEL_OPEN'' then [TunnelOpen b]
      else if t = ''TUNNEL_DATA'' then [TunnelData b]
      else if t = ''TUNNEL_CLOSE'' then [TunnelClose b]
      else if t = ''IP_PACKET'' then
        (case B64Decode (str_member b ''data'') of Some payload \<Rightarrow> [IPPacket payload] | None \<Rightarrow> [])
      else [])"

definition data_packet :: "dp_env \<Rightarrow> Packet \<Rightarrow> dp_node \<Rightarrow> (dp_effect list \<times> dp_node) option" where
  "data_packet e p n =
     (let aad = string_bytes (Source p @ '':'' @ dp_id n);
          legacy = get_obj (Payload p) ''ip'' in
      case peerKey e (Source p) n of
        (Panic, n1) \<Rightarrow> None
      | (Err x, n1) \<Rightarrow> Some ([], n1)
      | (Ok k, n1) \<Rightarrow>
          (case legacy of
             Some ip \<Rightarrow>
               (case Open (new_aead e) k (string_members ip) aad of
                  Inl x \<Rightarrow> Some ([], n1)
                | Inr plain \<Rightarrow> Some ([Inner (Source p) (LegacyFragment plain)], n1))
           | None \<Rightarrow>
               (case get_obj (Payload p) ''sealed'' of
                  None \<Rightarrow> Some ([], n1)
                | Some x \<Rightarrow>
                    (case Open (new_aead e) k (string_members x) aad of
                       Inl x \<Rightarrow> Some ([], n1)
                     | Inr raw \<Rightarrow>
                         (case open_message raw of
                            None \<Rightarrow> Some ([], n1)
                          | Some tb \<Rightarrow> Some (map (Inner (Source p)) (inner_message (PacketID p) tb), n1))))))"

section \<open>The datagram handler\<close>

definition decode_datagram :: "dp_env \<Rightarrow> bytes \<Rightarrow> dp_node \<Rightarrow> Packet go_result" where
  "decode_datagram e d n =
     (if IsCompact d then DecodeCompact (hmac e) d (dp_key n) else DecodePacket (hmac e) d (dp_key n))"

definition count_control :: "bytes \<Rightarrow> dp_node \<Rightarrow> dp_node" where
  "count_control d n =
     n\<lparr>controlRxPackets := controlRxPackets n + 1, controlRxBytes := controlRxBytes n + of_nat (length d + 28)\<rparr>"

text \<open>A packet for another node: only a superpeer passes it on, with one hop less.\<close>

definition forward_packet :: "dp_env \<Rightarrow> Packet \<Rightarrow> dp_node \<Rightarrow> (dp_effect list \<times> dp_node) option" where
  "forward_packet e p n =
     (if dp_role n = ''superpeer'' then
        (case DecTTL p of
           Inl x \<Rightarrow> Some ([], n)
         | Inr q \<Rightarrow> map_option snd (send_packet e q n))
      else Some ([], n))"

definition answer_hello :: "dp_env \<Rightarrow> Packet \<Rightarrow> dp_node \<Rightarrow> (dp_effect list \<times> dp_node) option" where
  "answer_hello e p n =
     (case ensureNeighbor e (Source p) n of
        None \<Rightarrow> None
      | Some (es, n1) \<Rightarrow>
          map_option (\<lambda>(ok, es', n2). (es @ es', n2))
            (send_packet e (dp_new e ''HELLO_ACK'' (dp_id n) (Source p)
               [(''session_id'', JStr (payloadString p ''session_id''))]) n1))"

definition with_scans :: "dp_node \<Rightarrow> scan_state option \<Rightarrow> (dp_effect list \<times> dp_node) option" where
  "with_scans n s = map_option (\<lambda>s. ([], n\<lparr>dp_scans := s\<rparr>)) s"

text \<open>The \<^verbatim>\<open>switch\<close> on the type of a packet for this node.  The acknowledgement case logs the first eight
  characters of the source.\<close>

definition local_packet :: "dp_env \<Rightarrow> bool \<Rightarrow> Packet \<Rightarrow> udp_addr \<Rightarrow> dp_node \<Rightarrow> (dp_effect list \<times> dp_node) option" where
  "local_packet e binary p a n =
     (if Type p = ''HELLO'' then answer_hello e p n
      else if Type p = ''HELLO_ACK'' then
        (if length (Source p) < 8 then None
         else with_scans n (completeSymmetricScan (Source p) (payloadString p ''session_id'') (dp_scans n)))
      else if Type p = ''PING'' then
        (let pong = dp_new e ''PONG'' (dp_id n) (Source p) [(''ping_id'', JStr (PacketID p))] in
         Some (if binary then sendCompact e pong a n else sendToAddress e pong a n, n))
      else if Type p = ''PONG'' then Some ([], n\<lparr>dp_table := handlePong (clock e) p (dp_table n)\<rparr>)
      else if Type p = ''SYMMETRIC_BURST'' then
        (case ensureNeighbor e (Source p) n of
           None \<Rightarrow> None
         | Some (es, n1) \<Rightarrow>
             map_option (\<lambda>(es', n2). (es @ es', n2))
               (with_scans n1 (handleSymmetricBurst (dp_role n1) (neighbor (dp_table n1)) (clock e) p
                  (UDPAddr_String a) (dp_scans n1))))
      else if Type p = ''DATA'' then
        (case ensureNeighbor e (Source p) n of
           None \<Rightarrow> None
         | Some (es, n1) \<Rightarrow> map_option (\<lambda>(es', n2). (es @ es', n2)) (data_packet e p n1))
      else Some ([], n))"

definition mark_sender :: "dp_env \<Rightarrow> bool \<Rightarrow> Packet \<Rightarrow> udp_addr \<Rightarrow> dp_node \<Rightarrow> dp_node" where
  "mark_sender e binary p a n =
     (let n1 = (if binary \<and> (Type p = ''PING'' \<or> Type p = ''PONG'' \<or> Type p = ''HELLO'' \<or> Type p = ''HELLO_ACK'')
                then markCompactHello (clock e) (Source p) n else n) in
      if Destination p = dp_id n \<and> confirmsDirectPath (Type p) (TTL p)
      then n1\<lparr>dp_table := touch (lookup e) (clock e) (Source p) a (dp_table n1)\<rparr> else n1)"

text \<open>\<^verbatim>\<open>None\<close> is a panic, which ends the process: the goroutines of the receiver do not recover.\<close>

definition handleDatagram :: "dp_env \<Rightarrow> bytes \<Rightarrow> udp_addr \<Rightarrow> dp_node \<Rightarrow> (dp_effect list \<times> dp_node) option" where
  "handleDatagram e d a n =
     (if length fastMagic \<le> length d \<and> take (length fastMagic) d = fastMagic then Some ([FastFrame d a], n)
      else (let n1 = count_control d n in
        case decode_datagram e d n1 of
          Inl x \<Rightarrow> Some ([], n1)
        | Inr p \<Rightarrow>
            (let (fresh, seen) = remember (first_key e) (PacketID p) (dp_seen n1); n2 = n1\<lparr>dp_seen := seen\<rparr> in
             if \<not> fresh then Some ([], n2)
             else (let n3 = mark_sender e (IsCompact d) p a n2 in
                   if Destination p \<noteq> dp_id n3 then forward_packet e p n3
                   else local_packet e (IsCompact d) p a n3))))"

section \<open>Lemmas\<close>

definition id16 :: "string \<Rightarrow> bool" where
  "id16 i \<longleftrightarrow> (\<exists>bs. length bs = 16 \<and> i = hex_encode bs)"

lemma id16_hex: "id16 i \<Longrightarrow> \<exists>bs. hex_id 16 i = Some bs" by (auto simp: id16_def)

lemma id16_lower: "id16 i \<Longrightarrow> list_all lower_hex i" by (auto simp: id16_def lower_hex_encode)

lemma id16_length: "id16 i \<Longrightarrow> length i = 32" by (auto simp: id16_def)

lemmas dp_new_defs = dp_new_def NewPacket_def

lemma dp_new_fields [simp]:
  "Type (dp_new e t s d pl) = t" "Source (dp_new e t s d pl) = s" "Destination (dp_new e t s d pl) = d"
  "Payload (dp_new e t s d pl) = pl" "PacketID (dp_new e t s d pl) = hex_encode (rnd12 e)" "TTL (dp_new e t s d pl) = DefaultTTL"
  by (simp_all add: dp_new_defs)

text \<open>The frame of a keepalive, and what a holder of the same key reads from it.\<close>

lemma ping_encodes:
  assumes "id16 s" "id16 d" "length (rnd12 e) = 12"
  shows "\<exists>f. EncodeCompact hm (dp_new e ''PING'' s d []) key = Inr f"
proof -
  obtain sb db where "hex_id 16 s = Some sb" "hex_id 16 d = Some db" using assms id16_hex by meson
  then show ?thesis
    using CompactBody_I(2) [of "dp_new e ''PING'' s d []" compactTypePing sb db "rnd12 e"] assms(3)
    by (simp add: EncodeCompact_eq compact_type_def payloadString_def)
qed

lemma pong_encodes:
  assumes "id16 s" "id16 d" "length (rnd12 e) = 12" "length r = 12"
  shows "\<exists>f. EncodeCompact hm (dp_new e ''PONG'' s d [(''ping_id'', JStr (hex_encode r))]) key = Inr f"
proof -
  obtain sb db where "hex_id 16 s = Some sb" "hex_id 16 d = Some db" using assms id16_hex by meson
  then show ?thesis
    using CompactBody_I(1) [of "dp_new e ''PONG'' s d [(''ping_id'', JStr (hex_encode r))]" compactTypePong sb db "rnd12 e" r] assms(3,4)
    by (simp add: EncodeCompact_eq compact_type_def payloadString_def)
qed

lemma compact_frame_shape:
  assumes "EncodeCompact hm p key = Inr f"
  shows "IsCompact f \<and> take (length fastMagic) f \<noteq> fastMagic"
proof -
  obtain body where b: "CompactBody p = Inr body" "f = body @ take compactHMACSize (hm key body)"
    using assms by (auto simp: EncodeCompact_eq split: sum.splits)
  obtain x y where "body = compactMagic # x # y" using b(1) by (rule CompactBody_layout) simp
  then show ?thesis by (simp add: IsCompact_def b fastMagic_def)
qed

text \<open>A frame that is neither a data frame nor a repetition gets to the switch on its destination.\<close>

lemma handleDatagram_new:
  assumes "take (length fastMagic) d \<noteq> fastMagic" "decode_datagram e d (count_control d n) = Inr p"
    "PacketID p \<notin> dp_seen n"
  shows "handleDatagram e d a n =
    (let n3 = mark_sender e (IsCompact d) p a ((count_control d n)\<lparr>dp_seen :=
           snd (remember (first_key e) (PacketID p) (dp_seen n))\<rparr>) in
     if Destination p \<noteq> dp_id n3 then forward_packet e p n3 else local_packet e (IsCompact d) p a n3)"
  using assms by (simp add: handleDatagram_def remember_def Let_def count_control_def)

lemma handleDatagram_dropped:
  assumes "take (length fastMagic) d \<noteq> fastMagic" "decode_datagram e d (count_control d n) = Inl x"
  shows "handleDatagram e d a n = Some ([], count_control d n)"
  using assms by (simp add: handleDatagram_def Let_def)

lemma handleDatagram_repeated:
  assumes "take (length fastMagic) d \<noteq> fastMagic" "decode_datagram e d (count_control d n) = Inr p"
    "PacketID p \<in> dp_seen n"
  shows "handleDatagram e d a n = Some ([], count_control d n)"
  using assms by (simp add: handleDatagram_def Let_def remember_def count_control_def)

lemma count_control_frame [simp]:
  "dp_id (count_control d n) = dp_id n" "dp_key (count_control d n) = dp_key n" "dp_table (count_control d n) = dp_table n"
  "dp_socks (count_control d n) = dp_socks n" "dp_nat (count_control d n) = dp_nat n" "dp_seen (count_control d n) = dp_seen n"
  "dp_role (count_control d n) = dp_role n"
  by (simp_all add: count_control_def)

lemma mark_sender_frame [simp]:
  "dp_id (mark_sender e b p a n) = dp_id n" "dp_key (mark_sender e b p a n) = dp_key n"
  "dp_socks (mark_sender e b p a n) = dp_socks n" "dp_nat (mark_sender e b p a n) = dp_nat n"
  "dp_role (mark_sender e b p a n) = dp_role n" "dp_seen (mark_sender e b p a n) = dp_seen n"
  by (auto simp: mark_sender_def markCompactHello_def Let_def)

lemma mark_sender_hears:
  assumes "Destination p = dp_id n" "confirmsDirectPath (Type p) (TTL p)" "neighbor (dp_table n) (Source p) \<noteq> None"
  shows "\<exists>q. neighbor (dp_table (mark_sender e b p a n)) (Source p) = Some q \<and> lastRX q = clock e \<and> up q"
proof -
  have t: "lastRX (touch_peer now lan a q) = now \<and> up (touch_peer now lan a q)" for now lan q
    by (simp add: touch_peer_def Let_def)
  have n: "neighbor (touch r now i a tb) i = map_option (touch_peer now (localSource r tb i (fst a)) a) (neighbor tb i)"
    for r now i tb by (simp add: touch_def Let_def)
  show ?thesis using assms t by (auto simp: mark_sender_def markCompactHello_def Let_def n)
qed

lemma handlePong_hears: "neighbor tb i = Some q \<Longrightarrow> \<exists>q'. neighbor (handlePong now p tb) i = Some q' \<and> lastRX q' = lastRX q"
proof -
  assume q: "neighbor tb i = Some q"
  have s: "lastRX (pong_sample now probe z) = lastRX z" for probe z by (simp add: pong_sample_def Let_def)
  have d: "neighbor (tb\<lparr>pings := x\<rparr>) i = Some q" for x using q by (simp add: neighbor_def)
  show ?thesis using q s d by (auto simp: handlePong_def Let_def split: option.splits json.splits)
qed

text \<open>C6: Keepalives bring a link up on both sides.  When a node probes a neighbour that also lists it, under
  the same network key, the neighbour answers the probe with exactly one datagram, to the address it
  saw the probe come from; then it regards the prober as usable, and once the answer is back the
  prober regards the neighbour as usable.\<close>

theorem ping_exchange:
  assumes hm: "\<And>k m. length (hm k m) = 32" "hmac eA = hm" "hmac eB = hm" "hmac eC = hm"
    and ids: "id16 (dp_id A)" "id16 (dp_id B)" "length (rnd12 eA) = 12" "length (rnd12 eB) = 12"
    and key: "dp_key A = dp_key B"
    and nbrs: "neighbor (dp_table A) (dp_id B) = Some q" "neighbor (dp_table B) (dp_id A) \<noteq> None"
    and ping: "ping_target eA (dp_id B, q) A = (es, A1)" "Datagram c x frame \<in> set es"
    and fresh: "hex_encode (rnd12 eA) \<notin> dp_seen B" "hex_encode (rnd12 eB) \<notin> dp_seen A"
    and sock: "conn (dp_socks B) \<noteq> None" "\<And>s y. writable eB s y" and clocks: "clock eB \<noteq> 0" "clock eC \<noteq> 0"
  shows "\<exists>s answer B1. handleDatagram eB frame a B = Some ([Datagram s a answer], B1)
    \<and> usable (clock eB) (neighbor (dp_table B1) (dp_id A))
    \<and> (\<exists>A2. handleDatagram eC answer b A1 = Some ([], A2) \<and> usable (clock eC) (neighbor (dp_table A2) (dp_id B)))"
proof -
  let ?ping = "dp_new eA ''PING'' (dp_id A) (dp_id B) []"
  let ?pong = "dp_new eB ''PONG'' (dp_id B) (dp_id A) [(''ping_id'', JStr (hex_encode (rnd12 eA)))]"
  obtain f where f: "EncodeCompact hm ?ping (dp_key B) = Inr f" using ping_encodes [OF ids(1,2,3)] by blast
  obtain g where g: "EncodeCompact hm ?pong (dp_key B) = Inr g" using pong_encodes [OF ids(2,1,4,3)] by blast
  have direct: "Datagram c x frame \<in> set (snd (sendDirect eA ?ping y z A)) \<Longrightarrow> frame = f" for y z
    using f hm(2) key by (auto simp: sendDirect_def write_to_def split: option.splits if_splits)
  have frame: "frame = f"
    using ping direct by (auto simp: ping_target_def Let_def split: prod.splits option.splits if_splits; metis snd_conv)
  have A1: "dp_id A1 = dp_id A" "dp_key A1 = dp_key A" "dp_seen A1 = dp_seen A" "neighbors (dp_table A1) = neighbors (dp_table A)"
    using ping(1) by (auto simp: ping_target_def Let_def split: prod.splits if_splits)
  define vp where "vp = compact_view ?ping"
  define vq where "vq = compact_view ?pong"
  have vp: "Type vp = ''PING''" "Source vp = dp_id A" "Destination vp = dp_id B" "PacketID vp = hex_encode (rnd12 eA)" "TTL vp = DefaultTTL"
    by (simp_all add: vp_def compact_view_def)
  have vq: "Type vq = ''PONG''" "Source vq = dp_id B" "Destination vq = dp_id A" "PacketID vq = hex_encode (rnd12 eB)" "TTL vq = DefaultTTL"
    by (simp_all add: vq_def compact_view_def)
  note lower = id16_lower [OF ids(1)] id16_lower [OF ids(2)] lower_hex_encode
  have df: "decode_datagram eB f (count_control f B) = Inr vp"
    using compact_decodes [OF hm(1), where p = ?ping and key = "dp_key B" and frame = f] f lower compact_frame_shape [OF f]
    by (simp add: decode_datagram_def hm lower_ids_def payloadString_def vp_def)
  have dg: "decode_datagram eC g (count_control g A1) = Inr vq"
    using compact_decodes [OF hm(1), where p = ?pong and key = "dp_key B" and frame = g] g lower compact_frame_shape [OF g]
    by (simp add: decode_datagram_def hm lower_ids_def payloadString_def A1 key vq_def)
  note shape = compact_frame_shape [OF f] compact_frame_shape [OF g]
  define n where "n = mark_sender eB True vp a
    ((count_control f B)\<lparr>dp_seen := snd (remember (first_key eB) (hex_encode (rnd12 eA)) (dp_seen B))\<rparr>)"
  have n: "dp_id n = dp_id B" "dp_key n = dp_key B" "dp_socks n = dp_socks B" by (simp_all add: n_def)
  have "connForPeer (dp_nat n) (dp_id A) (dp_socks B) \<noteq> None"
    using sock(1) by (simp add: connForPeer_def split: option.splits)
  then obtain s where s: "connForPeer (dp_nat n) (dp_id A) (dp_socks B) = Some s" by blast
  have "handleDatagram eB f a B = local_packet eB True vp a n"
    using handleDatagram_new [OF _ df] shape fresh(1) by (simp add: vp n n_def [symmetric] Let_def)
  moreover have "local_packet eB True vp a n = Some ([Datagram s a g], n)"
    using g s sock(2) by (simp add: local_packet_def vp sendCompact_def n hm write_to_def Let_def)
  ultimately have B: "handleDatagram eB f a B = Some ([Datagram s a g], n)" by simp
  have "\<exists>q. neighbor (dp_table n) (Source vp) = Some q \<and> lastRX q = clock eB \<and> up q"
    unfolding n_def by (rule mark_sender_hears) (use nbrs(2) in \<open>simp_all add: vp confirmsDirectPath_def\<close>)
  then have uB: "usable (clock eB) (neighbor (dp_table n) (dp_id A))"
    using clocks(1) by (auto simp: vp usable_def)
  define m where "m = mark_sender eC True vq b
    ((count_control g A1)\<lparr>dp_seen := snd (remember (first_key eC) (hex_encode (rnd12 eB)) (dp_seen A))\<rparr>)"
  have m: "dp_id m = dp_id A" by (simp add: m_def A1)
  have "handleDatagram eC g b A1 = local_packet eC True vq b m"
    using handleDatagram_new [OF _ dg] shape fresh(2) by (simp add: vq m m_def [symmetric] Let_def A1)
  then have A2: "handleDatagram eC g b A1 = Some ([], m\<lparr>dp_table := handlePong (clock eC) vq (dp_table m)\<rparr>)"
    by (simp add: local_packet_def vq)
  have "\<exists>q. neighbor (dp_table m) (Source vq) = Some q \<and> lastRX q = clock eC \<and> up q"
    unfolding m_def
    by (rule mark_sender_hears) (use nbrs(1) A1 in \<open>simp_all add: vq confirmsDirectPath_def neighbor_def\<close>)
  then obtain q1 where "neighbor (dp_table m) (dp_id B) = Some q1" "lastRX q1 = clock eC" by (auto simp: vq)
  then have uA: "usable (clock eC) (neighbor (handlePong (clock eC) vq (dp_table m)) (dp_id B))"
    using handlePong_hears [of "dp_table m" "dp_id B" q1 "clock eC" vq] clocks(2) by (auto simp: usable_def)
  show ?thesis unfolding frame using B uB A2 uA by fastforce
qed

section \<open>Relaying\<close>

lemma json_frame_shape:
  assumes "EncodePacket hm p key = Inr f"
  shows "\<not> IsCompact f" "take (length fastMagic) f \<noteq> fastMagic" "length f \<le> MaxDatagramSize"
proof -
  obtain s where f: "f = string_bytes (CHR ''{'' # s)" and l: "length f \<le> MaxDatagramSize"
    using assms by (auto simp: EncodePacket_text Let_def split: if_splits)
  then show "\<not> IsCompact f" "take (length fastMagic) f \<noteq> fastMagic" "length f \<le> MaxDatagramSize"
    by (simp_all add: IsCompact_def fastMagic_def string_bytes_def)
qed

lemma send_packet_frame:
  assumes "send_packet e p n = Some (ok, es, n')"
  shows "es = [] \<or> (\<exists>c x f. es = [Datagram c x f] \<and> encodePacketForPeer e p n = Inr f)"
proof -
  have "encodePacketForPeer e p (with_routes r n) = encodePacketForPeer e p n" for r
    by (auto simp: encodePacketForPeer_def speaksCompactHello_def with_routes_def split: sum.splits)
  then show ?thesis using assms
    by (auto simp: send_packet_def Let_def write_to_def split: option.splits sum.splits prod.splits if_splits)
qed

lemma encode_relayed: "TTL p \<noteq> DefaultTTL \<Longrightarrow> encodePacketForPeer e p n = EncodePacket (hmac e) p (dp_key n)"
  by (simp add: encodePacketForPeer_def)

text \<open>A packet for another node leaves a node as at most one datagram, from a superpeer, with one hop less.\<close>

lemma forwarded:
  assumes "decode_datagram e d (count_control d n) = Inr p" "take (length fastMagic) d \<noteq> fastMagic"
    and "Destination p \<noteq> dp_id n" "TTL p \<le> DefaultTTL" "handleDatagram e d a n = Some (es, n')"
  shows "es = [] \<or> (dp_role n = ''superpeer'' \<and> 2 \<le> TTL p \<and> PacketID p \<notin> dp_seen n
    \<and> (\<exists>c x f. es = [Datagram c x f] \<and> EncodePacket (hmac e) (p\<lparr>TTL := TTL p - 1\<rparr>) (dp_key n) = Inr f))"
proof (cases "PacketID p \<in> dp_seen n")
  case True
  then show ?thesis using assms handleDatagram_repeated by fastforce
next
  case False
  define m where "m = mark_sender e (IsCompact d) p a ((count_control d n)\<lparr>dp_seen := snd (remember (first_key e) (PacketID p) (dp_seen n))\<rparr>)"
  have m: "dp_id m = dp_id n" "dp_key m = dp_key n" "dp_role m = dp_role n" by (simp_all add: m_def)
  have h: "forward_packet e p m = Some (es, n')"
    using handleDatagram_new [OF assms(2,1) False, of a] assms(3,5) by (simp add: m_def [symmetric] m Let_def)
  show ?thesis
  proof (cases "dp_role n = ''superpeer'' \<and> 2 \<le> TTL p")
    case True
    then obtain ok where s: "send_packet e (p\<lparr>TTL := TTL p - 1\<rparr>) m = Some (ok, es, n')"
      using h by (auto simp: forward_packet_def m DecTTL_def)
    have "encodePacketForPeer e (p\<lparr>TTL := TTL p - 1\<rparr>) m = EncodePacket (hmac e) (p\<lparr>TTL := TTL p - 1\<rparr>) (dp_key n)"
      using assms(4) m by (simp add: encode_relayed)
    then show ?thesis using send_packet_frame [OF s] True False by auto
  next
    case False
    then show ?thesis using h by (auto simp: forward_packet_def m DecTTL_def split: if_splits)
  qed
qed

text \<open>The frames that carry a packet after so many relays.\<close>

inductive carried :: "(bytes \<Rightarrow> bytes \<Rightarrow> bytes) \<Rightarrow> bytes \<Rightarrow> Packet \<Rightarrow> nat \<Rightarrow> bytes \<Rightarrow> bool"
  for hm :: "bytes \<Rightarrow> bytes \<Rightarrow> bytes" and key :: bytes and p :: Packet where
  carried_sent: "EncodePacket hm p key = Inr f \<Longrightarrow> carried hm key p 0 f"
| carried_on: "carried hm key p k f \<Longrightarrow> hmac e = hm \<Longrightarrow> dp_key n = key \<Longrightarrow> dp_id n \<noteq> Destination p \<Longrightarrow>
    handleDatagram e f a n = Some (es, n') \<Longrightarrow> Datagram c x g \<in> set es \<Longrightarrow> carried hm key p (Suc k) g"

lemma json_packet_hop:
  assumes "json_packet p" "1 \<le> t" "t \<le> DefaultTTL"
  shows "json_packet (p\<lparr>TTL := t, Payload := canon_obj (Payload p)\<rparr>)"
proof -
  have "plain_json (JObj (canon_obj (Payload p)))"
    using plain_canon [of "JObj (Payload p)"] assms(1) unfolding canon_JObj by (simp only: json_packet_def)
  then show ?thesis using assms by (simp add: json_packet_def del: plain_json.simps)
qed

lemma relayed:
  assumes "carried hm key p k f" "json_packet p"
  shows "int k < TTL p \<and> \<not> IsCompact f \<and> take (length fastMagic) f \<noteq> fastMagic
    \<and> DecodePacket hm f key = Inr (p\<lparr>TTL := TTL p - int k, Payload := canon_obj (Payload p)\<rparr>)"
  using assms(1)
proof (induction rule: carried.induct)
  case (carried_sent f)
  then show ?case using json_envelope_decodes [OF assms(2) carried_sent] json_frame_shape [OF carried_sent] assms(2)
    by (simp add: json_packet_def)
next
  case (carried_on k f e n a es n' c x g)
  let ?p = "p\<lparr>TTL := TTL p - int k, Payload := canon_obj (Payload p)\<rparr>"
  let ?q = "p\<lparr>TTL := TTL p - int (Suc k), Payload := canon_obj (Payload p)\<rparr>"
  have ttl: "TTL p \<le> DefaultTTL" using assms(2) by (simp add: json_packet_def)
  have "decode_datagram e f (count_control f n) = Inr ?p"
    using carried_on.IH carried_on.hyps by (simp add: decode_datagram_def)
  then have fw: "es = [] \<or> (dp_role n = ''superpeer'' \<and> 2 \<le> TTL ?p \<and> PacketID ?p \<notin> dp_seen n
    \<and> (\<exists>c x f. es = [Datagram c x f] \<and> EncodePacket (hmac e) (?p\<lparr>TTL := TTL ?p - 1\<rparr>) (dp_key n) = Inr f))"
    using carried_on.IH carried_on.hyps ttl by (intro forwarded) auto
  have q: "?p\<lparr>TTL := TTL ?p - 1\<rparr> = ?q" by (rule Packet.equality) simp_all
  have "2 \<le> TTL ?p \<and> EncodePacket hm ?q key = Inr g"
    using fw [unfolded q] carried_on.hyps by (metis dp_effect.inject(1) empty_iff empty_set list.set_intros(1) set_ConsD)
  then have k: "2 + int k \<le> TTL p" and g: "EncodePacket hm ?q key = Inr g" by auto
  have q: "json_packet ?q" using json_packet_hop [OF assms(2), of "TTL p - int (Suc k)"] k ttl by simp
  show ?case using json_envelope_decodes [OF q g] json_frame_shape [OF g] k by (simp add: canon_obj_idem)
qed


section \<open>Sealed messages\<close>

lemma map_of_string_members:
  "distinct (map fst kvs) \<Longrightarrow> map_of (string_members kvs) k = (case map_of kvs k of Some (JStr z) \<Rightarrow> Some z | _ \<Rightarrow> None)"
proof (induction kvs)
  case Nil
  then show ?case by (simp add: string_members_def)
next
  case (Cons m kvs)
  obtain i v where m: "m = (i, v)" by (cases m)
  have c: "string_members ((i, v) # kvs) = (case v of JStr z \<Rightarrow> [(i, z)] | _ \<Rightarrow> []) @ string_members kvs"
    by (simp add: string_members_def)
  have "map_of kvs i = None" using Cons.prems m by (simp add: map_of_eq_None_iff)
  then show ?case using Cons unfolding m c by (cases v) auto
qed

definition sealed_members :: "(string \<times> string) list \<Rightarrow> (string \<times> json) list" where
  "sealed_members s = map (\<lambda>(k, v). (k, JStr v)) s"

lemma field_sealed: "distinct (map fst s) \<Longrightarrow> field (string_members (canon_obj (sealed_members s))) k = field s k"
proof -
  assume d: "distinct (map fst s)"
  have keys: "map fst (sealed_members s) = map fst s" by (simp add: sealed_members_def case_prod_unfold comp_def)
  have m: "map_of (sealed_members s) k = map_option JStr (map_of s k)"
    by (induction s) (auto simp: sealed_members_def)
  have c: "distinct (map fst (canon_obj (sealed_members s)))"
    unfolding canon_obj_def distinct_map_fst_sort using d keys by (simp add: case_prod_unfold comp_def)
  show ?thesis
    unfolding field_def map_of_string_members [OF c] using canon_obj_map_of [of "sealed_members s" k] d keys m
    by (simp split: option.splits)
qed

text \<open>Opening what was sealed under the same key, nonce size and associated data, after its way through JSON.\<close>

lemma Open_Seal:
  assumes "newAEAD key = Inr ae" "aead_ok ae" "length nonce = NonceSize ae" "newAEAD' key = Inr ae"
    and "Seal newAEAD nonce key raw aad = Inr s"
  shows "Open newAEAD' key (string_members (canon_obj (sealed_members s))) aad = Inr raw"
proof -
  let ?out = "aead_Seal ae nonce raw aad"
  let ?at = "length ?out - Overhead ae"
  have s: "s = [(''nonce'', B64Encode nonce), (''ciphertext'', B64Encode (take ?at ?out)), (''tag'', B64Encode (drop ?at ?out))]"
    using assms by (simp add: Seal_def Let_def)
  have ok: "aead_Open ae nonce ?out aad = Some raw" "length ?out = length raw + Overhead ae"
    using assms(2,3) by (auto simp: aead_ok_def)
  have "distinct (map fst s)" by (simp add: s)
  note f = field_sealed [OF this]
  have "field s ''nonce'' = B64Encode nonce" "field s ''ciphertext'' = B64Encode (take ?at ?out)" "field s ''tag'' = B64Encode (drop ?at ?out)"
    by (simp_all add: s field_def)
  then show ?thesis using assms(3,4) ok by (simp add: Open_def f B64Decode_Encode)
qed

lemma open_message_Marshal:
  assumes "ascii typ" "plain_json (JObj body)"
  shows "open_message (string_bytes (Marshal (JObj [(''type'', JStr typ), (''body'', JObj body)]))) = Some (typ, canon_obj body)"
proof -
  let ?m = "[(''type'', JStr typ), (''body'', JObj body)]"
  have "plain_json (JObj ?m)" using assms by (simp add: ascii_def)
  then have "plain_json (canon (JObj ?m))" by (rule plain_canon)
  then have u: "Unmarshal (Marshal (JObj ?m)) = Some (JObj (canon_obj ?m))"
    unfolding Marshal_def canon_JObj by (rule marshal.Unmarshal_text)
  have "map_of (canon_obj ?m) k = map_option canon (map_of ?m k)" for k by (rule canon_obj_map_of) simp
  then show ?thesis using u by (simp add: open_message_def canon_obj_def [of body])
qed

lemma ascii_hex: "list_all lower_hex s \<Longrightarrow> ascii s"
  by (auto simp: ascii_def lower_hex_def Let_def list_all_iff)

lemma peerKey_same:
  assumes "dp_crypto n = dp_crypto m"
  shows "fst (peerKey e i n) = fst (peerKey e i m)"
  using assms by (simp add: peerKey_def split: prod.splits outcome.splits)

text \<open>The packet that \<^verbatim>\<open>encrypted\<close> sends.\<close>

lemma encrypted_packet:
  assumes "encrypted e dst typ body [] n = Some (ok, es, n')" "Datagram c x f \<in> set es"
    and "fst (peerKey e dst n) = Ok k" "new_aead e k = Inr ae"
  obtains s where
    "Seal (new_aead e) (rnd_nonce e) k (string_bytes (Marshal (JObj [(''type'', JStr typ), (''body'', JObj body)])))
       (string_bytes (dp_id n @ '':'' @ dst)) = Inr s"
    "EncodePacket (hmac e) (dp_new e ''DATA'' (dp_id n) dst [(''sealed'', JObj (sealed_members s))]) (dp_key n) = Inr f"
proof -
  obtain n1 where k: "peerKey e dst n = (Ok k, n1)" using assms(3) by (cases "peerKey e dst n") auto
  then have n1: "dp_id n1 = dp_id n" "dp_key n1 = dp_key n"
    by (auto simp: peerKey_def split: prod.splits outcome.splits)
  obtain s where s: "Seal (new_aead e) (rnd_nonce e) k (string_bytes (Marshal (JObj [(''type'', JStr typ), (''body'', JObj body)])))
       (string_bytes (dp_id n @ '':'' @ dst)) = Inr s"
    using assms(4) by (simp add: Seal_def Let_def)
  let ?p = "dp_new e ''DATA'' (dp_id n) dst [(''sealed'', JObj (sealed_members s))]"
  have "send_packet e ?p n1 = Some (ok, es, n')"
    using assms(1) k s by (simp add: encrypted_def Let_def sealed_members_def)
  then have "encodePacketForPeer e ?p n1 = Inr f" using send_packet_frame assms(2) by fastforce
  then show thesis using that s n1 by (simp add: encodePacketForPeer_def)
qed

lemma decoded_data:
  assumes "decode_datagram e g (count_control g n) = Inr p" "\<not> IsCompact g" "take (length fastMagic) g \<noteq> fastMagic"
    and "PacketID p \<notin> dp_seen n" "Type p = ''DATA''" "Destination p = dp_id n" "neighbor (dp_table n) (Source p) \<noteq> None"
    and "fst (peerKey e (Source p) n) = Ok k" "get_obj (Payload p) ''ip'' = None" "get_obj (Payload p) ''sealed'' = Some x"
    and "Open (new_aead e) k (string_members x) (string_bytes (Source p @ '':'' @ dp_id n)) = Inr raw" "open_message raw = Some tb"
  shows "\<exists>n'. handleDatagram e g a n = Some (map (Inner (Source p)) (inner_message (PacketID p) tb), n')"
proof -
  define m where "m = mark_sender e (IsCompact g) p a ((count_control g n)\<lparr>dp_seen := snd (remember (first_key e) (PacketID p) (dp_seen n))\<rparr>)"
  have m0: "m = (count_control g n)\<lparr>dp_seen := snd (remember (first_key e) (PacketID p) (dp_seen n))\<rparr>"
    using assms(2,5) by (simp add: m_def mark_sender_def confirmsDirectPath_def)
  have m: "dp_id m = dp_id n" "dp_table m = dp_table n" "dp_crypto m = dp_crypto n" by (simp_all add: m0 count_control_def)
  obtain m1 where k: "peerKey e (Source p) m = (Ok k, m1)"
    using peerKey_same [OF m(3), of e "Source p"] assms(8) by (cases "peerKey e (Source p) m") auto
  have "handleDatagram e g a n = local_packet e (IsCompact g) p a m"
    using handleDatagram_new [OF assms(3,1,4), of a] assms(6) by (simp add: m_def [symmetric] m Let_def)
  also have "\<dots> = Some (map (Inner (Source p)) (inner_message (PacketID p) tb), m1)"
    using assms(5,7,9-12) k by (simp add: local_packet_def ensureNeighbor_def data_packet_def m Let_def)
  finally show ?thesis by blast
qed

text \<open>C3: A message between two nodes arrives as it was given to \<^verbatim>\<open>encrypted\<close>, over any number of relays: the
  frame it leaves carries a packet such that every relayed copy that reaches the destination for the
  first time is opened there and handed on with its type and body, as a message of the sender.\<close>

theorem sealed_delivery:
  assumes sent: "encrypted eA (dp_id B) typ body [] A = Some (ok, es, A1)" "Datagram c x f \<in> set es"
    and net: "hmac eB = hmac eA" "dp_key A = key" "dp_key B = key"
    and keys: "fst (peerKey eA (dp_id B) A) = Ok k" "fst (peerKey eB (dp_id A) B) = Ok k"
    and aead: "new_aead eA k = Inr ae" "new_aead eB k = Inr ae" "aead_ok ae" "length (rnd_nonce eA) = NonceSize ae"
    and plain: "ascii typ" "plain_json (JObj body)" "id16 (dp_id A)" "id16 (dp_id B)" "json_exact (sint (unix_time eA))"
    and known: "neighbor (dp_table B) (dp_id A) \<noteq> None" "hex_encode (rnd12 eA) \<notin> dp_seen B"
  shows "\<exists>p. EncodePacket (hmac eA) p key = Inr f \<and>
    (\<forall>j g a. carried (hmac eA) key p j g \<longrightarrow>
      (\<exists>B1. handleDatagram eB g a B
        = Some (map (Inner (dp_id A)) (inner_message (hex_encode (rnd12 eA)) (typ, canon_obj body)), B1)))"
proof -
  let ?raw = "string_bytes (Marshal (JObj [(''type'', JStr typ), (''body'', JObj body)]))"
  obtain s where s: "Seal (new_aead eA) (rnd_nonce eA) k ?raw (string_bytes (dp_id A @ '':'' @ dp_id B)) = Inr s"
    and enc: "EncodePacket (hmac eA) (dp_new eA ''DATA'' (dp_id A) (dp_id B) [(''sealed'', JObj (sealed_members s))]) (dp_key A) = Inr f"
    using encrypted_packet [OF sent keys(1) aead(1)] .
  define p where "p = dp_new eA ''DATA'' (dp_id A) (dp_id B) [(''sealed'', JObj (sealed_members s))]"
  have open': "Open (new_aead eB) k (string_members (canon_obj (sealed_members s))) (string_bytes (dp_id A @ '':'' @ dp_id B)) = Inr ?raw"
    by (rule Open_Seal [where newAEAD = "new_aead eA" and nonce = "rnd_nonce eA"]) (use aead s in auto)
  have "plain_json (JObj (sealed_members s))"
    using s aead(1) ascii_B64 by (auto simp: Seal_def Let_def sealed_members_def ascii_def)
  then have plain_p: "json_packet p"
    using plain by (simp add: p_def json_packet_def ascii_hex id16_lower lower_hex_encode dp_new_defs) (simp add: ascii_def)
  have pl: "get_obj (canon_obj (Payload p)) k' = (if k' = ''sealed'' then Some (canon_obj (sealed_members s)) else None)" for k'
    using canon_obj_map_of [of "Payload p" k'] by (simp add: get_obj_def p_def canon_obj_def [of "sealed_members s"])
  have "\<exists>B1. handleDatagram eB g a B
      = Some (map (Inner (dp_id A)) (inner_message (hex_encode (rnd12 eA)) (typ, canon_obj body)), B1)"
    if g: "carried (hmac eA) key p j g" for j g a
  proof -
    let ?q = "p\<lparr>TTL := TTL p - int j, Payload := canon_obj (Payload p)\<rparr>"
    note r = relayed [OF g plain_p]
    have q: "Type ?q = ''DATA''" "Source ?q = dp_id A" "Destination ?q = dp_id B" "PacketID ?q = hex_encode (rnd12 eA)"
      "Payload ?q = canon_obj (Payload p)" by (simp_all add: p_def)
    have "decode_datagram eB g (count_control g B) = Inr ?q" using r net by (simp add: decode_datagram_def)
    then have "\<exists>B1. handleDatagram eB g a B = Some (map (Inner (Source ?q)) (inner_message (PacketID ?q) (typ, canon_obj body)), B1)"
      using r q known keys(2) pl open' open_message_Marshal [OF plain(1,2)]
      by (intro decoded_data [where k = k and x = "canon_obj (sealed_members s)" and raw = ?raw]) auto
    then show ?thesis unfolding q .
  qed
  then show ?thesis using enc net(2) unfolding p_def by blast
qed

section \<open>What a member can do\<close>

text \<open>C40: The handler does not survive every authenticated packet: an acknowledgement whose source is shorter than
  eight characters, which the envelope allows, is a panic in every node that it is addressed to.\<close>

theorem short_source_panics:
  assumes "json_packet p" "Type p = ''HELLO_ACK''" "length (Source p) < 8" "Destination p = dp_id n"
    and "EncodePacket (hmac e) p (dp_key n) = Inr f" "PacketID p \<notin> dp_seen n"
  shows "handleDatagram e f a n = None"
proof -
  define q where "q = p\<lparr>Payload := canon_obj (Payload p)\<rparr>"
  have q: "Type q = ''HELLO_ACK''" "Source q = Source p" "Destination q = dp_id n" "PacketID q = PacketID p"
    using assms by (simp_all add: q_def)
  have d: "decode_datagram e f (count_control f n) = Inr q"
    using json_envelope_decodes [OF assms(1,5)] json_frame_shape [OF assms(5)] by (simp add: decode_datagram_def q_def)
  show ?thesis
    using handleDatagram_new [OF json_frame_shape(2) [OF assms(5)] d, of a] assms(3,6) q
    by (simp add: local_packet_def Let_def)
qed

section \<open>Witnesses\<close>

definition sample_id :: "byte \<Rightarrow> string" where "sample_id b = hex_encode (replicate 16 b)"

definition sample_dp :: "byte \<Rightarrow> byte \<Rightarrow> dp_node" where
  "sample_dp i j =
     \<lparr>dp_id = sample_id i, dp_public = [], dp_role = ''superpeer'', dp_nat = ''cone'', dp_key = [1],
      dp_table = \<lparr>peer_table.self_id = sample_id i, self_endpoint = [], neighbors = [(sample_id j, heard (sample_id j))],
        pings = [], localSubnets = []\<rparr>,
      dp_links = [], dp_directory = [sample_id j], dp_routes = [sample_id j \<mapsto> sample_id j], dp_altRoutes = Map.empty,
      dp_recompute = 0, dp_seen = {},
      dp_socks = \<lparr>conn = Some 7, symmetricConns = [], symmetricReady = False, sock_closed = {}, receiveStarted = True,
        receiveSockets = {7}, networkGen = 0\<rparr>,
      dp_scans = scan_init,
      dp_crypto = \<lparr>fn_id = sample_id i, idBinary = replicate 16 i, fn_role = [], dir = [sample_id j \<mapsto> []],
        sharedKeys = Map.empty, fastPeerSnap = None, fn_seen = (\<lambda>_. empty_shard), fn_prefix = [], fn_counter = 0,
        fn_partials = []\<rparr>,
      refresh_busy = False, topologyRefreshNext = 0, controlRxPackets = 0, controlRxBytes = 0\<rparr>"

definition sample_denv :: "byte \<Rightarrow> dp_env" where
  "sample_denv r =
     \<lparr>clock = 2000, unix_time = 99, rnd12 = replicate 12 r, lookup = (\<lambda>_. Some (1, 2)), hmac = sample_hm,
      first_key = (\<lambda>_. []), writable = (\<lambda>_ _. True), shared_key = (\<lambda>_. Inr [5]), new_aead = (\<lambda>_. Inr sample_aead),
      rnd8 = replicate 8 0, rnd_nonce = replicate 12 3\<rparr>"

lemma sample_id16: "id16 (sample_id b)"
  unfolding id16_def sample_id_def by (rule exI [of _ "replicate 16 b"]) simp

lemma sample_denv_rnd: "length (rnd12 (sample_denv r)) = 12" by (simp add: sample_denv_def)

lemma sample_id_eq: "sample_id a = sample_id b \<longleftrightarrow> a = b" by (simp add: sample_id_def hex_encode_inject)

lemmas sample_dp_defs = sample_dp_def sample_denv_def

theorem ping_exchange_witness:
  "\<exists>es A1 c x frame s answer B1. ping_target (sample_denv 1) (sample_id 2, heard (sample_id 2)) (sample_dp 1 2) = (es, A1)
    \<and> Datagram c x frame \<in> set es
    \<and> handleDatagram (sample_denv 3) frame (9, 9) (sample_dp 2 1) = Some ([Datagram s (9, 9) answer], B1)
    \<and> usable 2000 (neighbor (dp_table B1) (sample_id 1))
    \<and> (\<exists>A2. handleDatagram (sample_denv 4) answer (8, 8) A1 = Some ([], A2) \<and> usable 2000 (neighbor (dp_table A2) (sample_id 2)))"
proof -
  let ?A = "sample_dp 1 2" and ?B = "sample_dp 2 1"
  obtain f where f: "EncodeCompact sample_hm (dp_new (sample_denv 1) ''PING'' (sample_id 1) (sample_id 2) []) [1] = Inr f"
    using ping_encodes [OF sample_id16 sample_id16 sample_denv_rnd] by blast
  obtain es A1 where p: "ping_target (sample_denv 1) (sample_id 2, heard (sample_id 2)) ?A = (es, A1)" by fastforce
  have ids: "dp_id ?A = sample_id 1" "dp_id ?B = sample_id 2" by (simp_all add: sample_dp_def)
  have sd: "sendDirect (sample_denv 1) (dp_new (sample_denv 1) ''PING'' (sample_id 1) (sample_id 2) []) [] None ?A
      = (True, [Datagram 7 (1, 2) f])"
    using f by (simp add: sendDirect_def sample_dp_defs connForPeer_def write_to_def)
  have h: "lastLAN (heard i) = None" "send_target (heard i) = None" "Endpoint (heard i) = []" for i
    by (simp_all add: heard_def send_target_def)
  have d: "Datagram 7 (1, 2) f \<in> set es" using p by (auto simp: ping_target_def Let_def h ids sd)
  have r: "\<exists>s answer B1. handleDatagram (sample_denv 3) f (9, 9) ?B = Some ([Datagram s (9, 9) answer], B1)
    \<and> usable (clock (sample_denv 3)) (neighbor (dp_table B1) (dp_id ?A))
    \<and> (\<exists>A2. handleDatagram (sample_denv 4) answer (8, 8) A1 = Some ([], A2)
         \<and> usable (clock (sample_denv 4)) (neighbor (dp_table A2) (dp_id ?B)))"
    by (rule ping_exchange [where hm = sample_hm and eA = "sample_denv 1" and q = "heard (sample_id 2)", OF _ _ _ _ _ _ _ _ _ _ _ _ d])
       (use p in \<open>simp_all add: sample_dp_defs sample_hm_def sample_id16 neighbor_def\<close>)
  have cl: "clock (sample_denv x) = 2000" for x by (simp add: sample_denv_def)
  show ?thesis using p d r unfolding ids cl by blast
qed

definition sample_hop :: "string \<Rightarrow> string \<Rightarrow> int \<Rightarrow> Packet" where
  "sample_hop typ src t = \<lparr>Type = typ, Source = src, Destination = ''bb'', Payload = [(''a'', JNull)], PacketID = ''01'', TTL = t,
     Timestamp = 99\<rparr>"

lemma sample_hop_canon: "canon_obj (Payload (sample_hop typ src t)) = [(''a'', JNull)]"
  by (simp add: sample_hop_def canon_obj_def)

lemma sample_tag: "sample_hm k m = replicate 32 7" by (simp add: sample_hm_def)

lemma encodes_short:
  assumes "length (json_text json_escape (JObj (canon_obj (env_members p) @ [(''mac'', JStr (B64Encode (replicate 32 7)))]))) = k"
    "k \<le> 1000"
  shows "\<exists>f. EncodePacket sample_hm p key = Inr f"
  using assms unfolding EncodePacket_text sample_tag by (simp add: Let_def string_bytes_def del: json_text.simps)

lemma sample_hop_encodes:
  "\<exists>f. EncodePacket sample_hm (sample_hop ''DATA'' ''aa'' 8) key = Inr f"
  "\<exists>f. EncodePacket sample_hm (sample_hop ''DATA'' ''aa'' 7) key = Inr f"
  "\<exists>f. EncodePacket sample_hm (sample_hop ''HELLO_ACK'' ''aa'' 8) key = Inr f"
  by (rule encodes_short, code_simp, simp)+

lemma sample_hop_plain: "json_packet (sample_hop ''DATA'' ''aa'' 8)" "json_packet (sample_hop ''HELLO_ACK'' ''aa'' 8)"
  by (simp_all add: json_packet_def sample_hop_def ascii_def json_exact_def)

definition sample_relay :: dp_node where
  "sample_relay = (sample_dp 1 2)\<lparr>dp_routes := [''bb'' \<mapsto> sample_id 2]\<rparr>"

text \<open>The relay's table sends the destination to its neighbour.\<close>

lemma sample_send:
  assumes "EncodePacket sample_hm p [1] = Inr g" "TTL p \<noteq> DefaultTTL \<or> Type p = ''DATA''"
    and "dp_routes n (Destination p) = Some (sample_id 2)" "dp_table n = dp_table (sample_dp 1 2)" "dp_key n = [1]"
      "dp_nat n = ''cone''" "dp_socks n = dp_socks (sample_dp 1 2)"
  shows "\<exists>n'. send_packet (sample_denv r) p n = Some (True, [Datagram 7 (1, 2) g], n')"
proof -
  have "map_of (neighbors (dp_table n)) (sample_id 2) = Some (heard (sample_id 2))" using assms(4) by (simp add: sample_dp_def)
  moreover have "usable 2000 (Some (heard (sample_id 2)))" by (simp add: usable_def heard_def)
  ultimately have "live_hop 2000 (routes (routing_of n)) (Destination p) (routing_of n) = Some (sample_id 2, heard (sample_id 2))"
    using assms(3) by (simp add: live_hop_Some routing_of_def go_get_def)
  then have "send_hop 2000 (Destination p) (routing_of n) = Some (Some (sample_id 2, heard (sample_id 2)), routing_of n)"
    by (simp add: send_hop_def nextHop_def)
  moreover have "send_target (heard i) = None" "Endpoint (heard i) = []" for i by (simp_all add: heard_def send_target_def)
  moreover have "conn (dp_socks n) = Some 7" using assms(7) by (simp add: sample_dp_def)
  moreover have "encodePacketForPeer (sample_denv r) p (with_routes rt n) = Inr g" for rt
    using assms(1,2,5) by (auto simp: encodePacketForPeer_def sample_denv_def with_routes_def)
  ultimately show ?thesis using assms(6,7)
    by (simp add: send_packet_def sample_denv_def write_to_def connForPeer_def Let_def) (simp add: with_routes_def)
qed


theorem short_source_panics_witness:
  "\<exists>f. EncodePacket sample_hm (sample_hop ''HELLO_ACK'' ''aa'' 8) [1] = Inr f
    \<and> handleDatagram (sample_denv 5) f (9, 9) ((sample_dp 1 2)\<lparr>dp_id := ''bb''\<rparr>) = None"
proof -
  obtain f where f: "EncodePacket sample_hm (sample_hop ''HELLO_ACK'' ''aa'' 8) [1] = Inr f" using sample_hop_encodes(3) by fastforce
  have "handleDatagram (sample_denv 5) f (9, 9) ((sample_dp 1 2)\<lparr>dp_id := ''bb''\<rparr>) = None"
  proof (rule short_source_panics [where p = "sample_hop ''HELLO_ACK'' ''aa'' 8"])
    show "json_packet (sample_hop ''HELLO_ACK'' ''aa'' 8)" by (rule sample_hop_plain)
  qed (use f in \<open>simp_all add: sample_hop_def sample_dp_def sample_denv_def\<close>)
  then show ?thesis using f by blast
qed

definition sample_body :: "(string \<times> json) list" where "sample_body = [(''id'', JStr ''t'')]"

definition sample_sealed :: Packet where
  "sample_sealed = dp_new (sample_denv 1) ''DATA'' (sample_id 1) (sample_id 2) [(''sealed'', JObj (sealed_members
     (case Seal (new_aead (sample_denv 1)) (rnd_nonce (sample_denv 1)) [5]
        (string_bytes (Marshal (JObj [(''type'', JStr ''TUNNEL_DATA''), (''body'', JObj sample_body)])))
        (string_bytes (sample_id 1 @ '':'' @ sample_id 2)) of Inr s \<Rightarrow> s | Inl _ \<Rightarrow> [])))]"

lemma sample_sealed_encodes: "\<exists>f. EncodePacket sample_hm sample_sealed key = Inr f"
  by (rule encodes_short, code_simp, simp)

lemma sample_keys:
  "fst (peerKey (sample_denv r) (sample_id j) (sample_dp i j)) = Ok [5]"
  by (simp add: peerKey_def peerCrypto_def derive_key_def sample_dp_defs Let_def hex_id_encode sample_id_def split: prod.splits)

theorem sealed_delivery_witness:
  "\<exists>es A1 c x f B1. encrypted (sample_denv 1) (sample_id 2) ''TUNNEL_DATA'' sample_body [] (sample_dp 1 2) = Some (True, es, A1)
    \<and> Datagram c x f \<in> set es
    \<and> handleDatagram (sample_denv 3) f (9, 9) (sample_dp 2 1) = Some ([Inner (sample_id 1) (TunnelData sample_body)], B1)"
proof -
  let ?A = "sample_dp 1 2" and ?B = "sample_dp 2 1" and ?e = "sample_denv 1"
  obtain g where g: "EncodePacket sample_hm sample_sealed [1] = Inr g" using sample_sealed_encodes by blast
  obtain n1 where k: "peerKey ?e (sample_id 2) ?A = (Ok [5], n1)"
    using sample_keys [of 1 2 1] by (cases "peerKey ?e (sample_id 2) ?A") auto
  have n1: "dp_routes n1 = dp_routes ?A" "dp_table n1 = dp_table ?A" "dp_key n1 = dp_key ?A" "dp_nat n1 = dp_nat ?A" "dp_socks n1 = dp_socks ?A"
    using k by (auto simp: peerKey_def split: prod.splits outcome.splits)
  have d: "Type sample_sealed = ''DATA''" "Destination sample_sealed = sample_id 2" by (simp_all add: sample_sealed_def)
  obtain A1 where s: "send_packet ?e sample_sealed n1 = Some (True, [Datagram 7 (1, 2) g], A1)"
    using sample_send [OF g, of n1 1] d n1 by (auto simp: sample_dp_def)
  have id: "dp_id ?A = sample_id 1" by (simp add: sample_dp_def)
  have e: "encrypted ?e (sample_id 2) ''TUNNEL_DATA'' sample_body [] ?A = Some (True, [Datagram 7 (1, 2) g], A1)"
    using s k id by (simp add: encrypted_def sample_sealed_def Seal_def sealed_members_def Let_def sample_denv_def)
  have idB: "dp_id ?B = sample_id 2" by (simp add: sample_dp_def)
  have net: "hmac (sample_denv 3) = hmac ?e" "dp_key ?A = [1]" "dp_key ?B = [1]" by (simp_all add: sample_dp_defs)
  have ae: "new_aead ?e [5] = Inr sample_aead" "new_aead (sample_denv 3) [5] = Inr sample_aead" "aead_ok sample_aead"
    "length (rnd_nonce ?e) = NonceSize sample_aead"
    by (simp_all add: sample_denv_def sample_aead_def aead_ok_def)
  have pl: "ascii ''TUNNEL_DATA''" "plain_json (JObj sample_body)" "json_exact (sint (unix_time ?e))"
    by (simp_all add: ascii_def sample_body_def json_exact_def sample_denv_def)
  have kn: "neighbor (dp_table ?B) (sample_id 1) \<noteq> None" "hex_encode (rnd12 ?e) \<notin> dp_seen ?B"
    by (simp_all add: sample_dp_defs neighbor_def)
  have "\<exists>p. EncodePacket (hmac ?e) p [1] = Inr g \<and>
    (\<forall>j f a. carried (hmac ?e) [1] p j f \<longrightarrow>
      (\<exists>B1. handleDatagram (sample_denv 3) f a ?B
        = Some (map (Inner (dp_id ?A)) (inner_message (hex_encode (rnd12 ?e)) (''TUNNEL_DATA'', canon_obj sample_body)), B1)))"
  proof (rule sealed_delivery [where k = "[5]" and ae = sample_aead and A = ?A and B = ?B and eA = ?e and eB = "sample_denv 3"
        and es = "[Datagram 7 (1, 2) g]" and c = 7 and x = "(1, 2)"])
    show "encrypted ?e (dp_id ?B) ''TUNNEL_DATA'' sample_body [] ?A = Some (True, [Datagram 7 (1, 2) g], A1)"
      unfolding idB by (rule e)
    show "fst (peerKey ?e (dp_id ?B) ?A) = Ok [5]" "fst (peerKey (sample_denv 3) (dp_id ?A) ?B) = Ok [5]"
      unfolding id idB by (rule sample_keys)+
  qed (simp_all only: id idB net ae pl kn sample_id16 list.set_intros simp_thms not_False_eq_True)
  then obtain p where "EncodePacket (hmac ?e) p [1] = Inr g"
    "\<forall>j f a. carried (hmac ?e) [1] p j f \<longrightarrow>
      (\<exists>B1. handleDatagram (sample_denv 3) f a ?B
        = Some (map (Inner (dp_id ?A)) (inner_message (hex_encode (rnd12 ?e)) (''TUNNEL_DATA'', canon_obj sample_body)), B1))"
    by blast
  then have "\<exists>B1. handleDatagram (sample_denv 3) g (9, 9) ?B
        = Some (map (Inner (dp_id ?A)) (inner_message (hex_encode (rnd12 ?e)) (''TUNNEL_DATA'', canon_obj sample_body)), B1)"
    using carried_sent by blast
  moreover have "canon_obj sample_body = sample_body" by (simp add: canon_obj_def sample_body_def)
  ultimately show ?thesis using e id by (fastforce simp: inner_message_def)
qed

end
