(* ===== verification/Mesh_Dns.thy ===== *)
theory Mesh_Dns
  imports Accounts
begin

text \<open>
  The name server of a node (\<^verbatim>\<open>src/cmd/mesh-node/dns.go\<close>): reading a question, writing an answer, looking a name up in
  the directory, choosing the upstream resolver and the listening address. The directory is a list in the order in
  which the iteration of the map meets its entries, so a statement for every list is one for every order; the addresses
  in it are IPv4 texts, as the coordinator writes them. What follows shows that a mesh name is answered with its
  address, that the answer of the lookup does not depend on the order but in one case, and that a query does not come
  back to its own listener.
\<close>

section \<open>Questions and answers\<close>

text \<open>The labels from a position on: the position of the closing zero or the end of the packet, or nothing when a
  label reaches past the end.\<close>

function dns_labels :: "bytes \<Rightarrow> nat \<Rightarrow> string list \<Rightarrow> (string list \<times> nat) option" where
  "dns_labels packet p labels =
     (if p < length packet \<and> packet ! p \<noteq> 0 then
        (let l = unat (packet ! p) in
         if length packet < p + 1 + l then None
         else dns_labels packet (p + 1 + l) (labels @ [bytes_string (slice (p + 1) (p + 1 + l) packet)]))
      else Some (labels, p))"
  by pat_completeness auto
termination by (relation "measure (\<lambda>(packet, p, labels). length packet - p)") auto

declare dns_labels.simps [simp del]

definition dnsQuestion :: "bytes \<Rightarrow> string \<times> nat \<times> bool" where
  "dnsQuestion packet =
     (if length packet < 17 \<or> be16 (slice 4 6 packet) \<noteq> 1 then ([], 0, False)
      else case dns_labels packet 12 [] of
        None \<Rightarrow> ([], 0, False)
      | Some (labels, p) \<Rightarrow>
          if length packet < p + 5 then ([], 0, False)
          else (ToLower (join_with ''.'' labels), p + 5, be16 (slice (p + 1) (p + 3) packet) = 1))"

definition dnsAnswer :: "bytes \<Rightarrow> nat \<Rightarrow> ipv4 \<Rightarrow> bytes" where
  "dnsAnswer query questionEnd ip =
     (let out = take questionEnd query;
          out = splice 2 (put_be16 0x8180) out;
          out = splice 6 (put_be16 1) out;
          out = splice 8 [0, 0, 0, 0] out in
      out @ [0xC0, 0x0C, 0, 1, 0, 1, 0, 0, 0, 30, 0, 4] @ put_be32 ip)"

section \<open>The upstream resolver\<close>

fun fields_from :: "string \<Rightarrow> string \<Rightarrow> string list" where
  "fields_from w [] = (if w = [] then [] else [w])"
| "fields_from w (c # s) =
     (if is_space c then (if w = [] then fields_from [] s else w # fields_from [] s) else fields_from (w @ [c]) s)"

definition Fields :: "string \<Rightarrow> string list" where
  "Fields s = fields_from [] s"

definition isMeshDNSAddress :: "ipv4 \<Rightarrow> bool" where
  "isMeshDNSAddress ip = HasPrefix (Addr_String ip) ''10.77.''"

text \<open>\<^verbatim>\<open>resolverFromResolvConf\<close>; \<open>ip6\<close> is \<^verbatim>\<open>net.ParseIP\<close> on a literal with colons: an IPv4 address
  for a mapped one, otherwise the text of the IPv6 address.\<close>

definition nameserver :: "(string \<Rightarrow> (ipv4 + string) option) \<Rightarrow> string \<Rightarrow> string option" where
  "nameserver ip6 line =
     (case Fields line of
        [a, b] \<Rightarrow>
          if a \<noteq> ''nameserver'' then None
          else (case (case ParseAddr b of Some ip \<Rightarrow> Some (Inl ip) | None \<Rightarrow> ip6 b) of
                  None \<Rightarrow> None
                | Some (Inl ip) \<Rightarrow> if isMeshDNSAddress ip then None else Some (JoinHostPort (Addr_String ip) ''53'')
                | Some (Inr t) \<Rightarrow> Some (JoinHostPort t ''53''))
      | _ \<Rightarrow> None)"

fun first_some :: "('a \<Rightarrow> 'b option) \<Rightarrow> 'a list \<Rightarrow> 'b option" where
  "first_some f [] = None"
| "first_some f (x # xs) = (case f x of Some y \<Rightarrow> Some y | None \<Rightarrow> first_some f xs)"

definition resolverFromResolvConf :: "(string \<Rightarrow> (ipv4 + string) option) \<Rightarrow> string \<Rightarrow> string" where
  "resolverFromResolvConf ip6 text =
     (case first_some (nameserver ip6) (split_on (CHR 0x0A) text) of Some r \<Rightarrow> r | None \<Rightarrow> [])"

text \<open>\<^verbatim>\<open>platformSystemResolver\<close> of Linux; the file may be missing.\<close>

definition platformSystemResolver :: "(string \<Rightarrow> (ipv4 + string) option) \<Rightarrow> string option \<Rightarrow> string" where
  "platformSystemResolver ip6 conf = (case conf of Some text \<Rightarrow> resolverFromResolvConf ip6 text | None \<Rightarrow> [])"

section \<open>Names of the mesh\<close>

record dnsRecord =
  rec_name :: string
  rec_virtual :: string

record dns_entry =
  entry_name :: string
  entry_meshIP :: string
  entry_records :: "dnsRecord list"

definition TrimSuffix :: "string \<Rightarrow> string \<Rightarrow> string" where
  "TrimSuffix s suffix = (if HasSuffix s suffix then take (length s - length suffix) s else s)"

text \<open>The loop over the directory, in the order of the map's iteration; the third argument is \<^verbatim>\<open>match\<close>.\<close>

fun mesh_scan :: "string \<Rightarrow> (string \<times> dns_entry) list \<Rightarrow> dns_entry option \<Rightarrow> ipv4 option" where
  "mesh_scan name [] m = (case m of None \<Rightarrow> None | Some p \<Rightarrow> ParseAddr (entry_meshIP p))"
| "mesh_scan name ((i, p) # ds) m =
     (case find (\<lambda>r. name = ToLower (rec_name r)) (entry_records p) of
        Some r \<Rightarrow> ParseAddr (rec_virtual r)
      | None \<Rightarrow>
          if name = ToLower (entry_name p) \<or> name = i then ParseAddr (entry_meshIP p)
          else if 8 \<le> length name \<and> HasPrefix i name then
            (case m of Some _ \<Rightarrow> None | None \<Rightarrow> mesh_scan name ds (Some p))
          else mesh_scan name ds m)"

record dns_node =
  dns_dir :: "(string \<times> dns_entry) list"
  dnsUpstream :: string
  dns_meshIP :: string

definition meshDNSIP :: "dns_node \<Rightarrow> string \<Rightarrow> ipv4 option" where
  "meshDNSIP n name = mesh_scan (TrimSuffix (ToLower name) ''.mesh'') (dns_dir n) None"

section \<open>The server\<close>

text \<open>\<open>sys\<close> is the answer of \<^verbatim>\<open>systemResolver\<close>.\<close>

definition choose_upstream :: "string \<Rightarrow> dns_node \<Rightarrow> string" where
  "choose_upstream sys n =
     (if dnsUpstream n = [] then sys
      else case SplitHostPort (dnsUpstream n) of
        Some (host, _) \<Rightarrow> if host = dns_meshIP n then sys else dnsUpstream n
      | None \<Rightarrow> dnsUpstream n)"

text \<open>What happens to one query: an answer, the query passed on, or nothing when there is no upstream to dial.\<close>

datatype dns_action = Answer bytes | Forward string bytes | Ignore

definition answer_query :: "string \<Rightarrow> dns_node \<Rightarrow> bytes \<Rightarrow> dns_action" where
  "answer_query sys n query =
     (let (name, stop, isA) = dnsQuestion query;
          upstream = choose_upstream sys n;
          forward = (if upstream = [] then Ignore else Forward upstream query) in
      if isA then (case meshDNSIP n name of Some ip \<Rightarrow> Answer (dnsAnswer query stop ip) | None \<Rightarrow> forward)
      else forward)"

text \<open>The listening socket: \<open>listen\<close> returns the bound address.\<close>

abbreviation meshDNSFallback :: string where "meshDNSFallback \<equiv> ''127.0.0.1:1053''"
abbreviation maxDNSQueries :: nat where "maxDNSQueries \<equiv> 64"

definition dnsTargetForListener :: "string \<Rightarrow> string" where
  "dnsTargetForListener address =
     (case SplitHostPort address of
        None \<Rightarrow> address
      | Some (host, port) \<Rightarrow> if host = ''127.0.0.1'' then host @ ''#'' @ port else address)"

definition openDNSListener :: "(string \<Rightarrow> string option) \<Rightarrow> string \<Rightarrow> (string \<times> string) option" where
  "openDNSListener listen meshIP =
     (let mesh = JoinHostPort meshIP ''53'' in
      case (if meshIP \<noteq> [] then listen mesh else None) of
        Some l \<Rightarrow> Some (l, mesh)
      | None \<Rightarrow>
          (case (case listen meshDNSFallback of Some l \<Rightarrow> Some l | None \<Rightarrow> listen ''127.0.0.1:0'') of
             None \<Rightarrow> None
           | Some l \<Rightarrow> Some (l, dnsTargetForListener l)))"

text \<open>The bounded pool: a query that finds no free slot is dropped; \<open>busy\<close> are the queries being worked on.\<close>

inductive dns_serve :: "bytes list \<Rightarrow> bytes list \<Rightarrow> bool" where
  dns_start: "length busy < maxDNSQueries \<Longrightarrow> dns_serve busy (q # busy)"
| dns_full: "maxDNSQueries \<le> length busy \<Longrightarrow> dns_serve busy busy"
| dns_done: "q \<in> set busy \<Longrightarrow> dns_serve busy (remove1 q busy)"

section \<open>Queries\<close>

text \<open>The question of a query as resolvers write it: header, labels, type and class.\<close>

definition dns_wire :: "bytes list \<Rightarrow> bytes" where
  "dns_wire labels = concat (map (\<lambda>l. of_nat (length l) # l) labels) @ [0]"

definition dns_query :: "bytes \<Rightarrow> bytes list \<Rightarrow> 16 word \<Rightarrow> bytes \<Rightarrow> bytes" where
  "dns_query header labels qtype extra = header @ dns_wire labels @ put_be16 qtype @ [0, 1] @ extra"

definition valid_label :: "bytes \<Rightarrow> bool" where
  "valid_label l \<longleftrightarrow> l \<noteq> [] \<and> length l < 64"

lemma dns_labels_wire:
  assumes "list_all valid_label labels"
  shows "dns_labels (pre @ dns_wire labels @ rest) (length pre) acc
    = Some (acc @ map bytes_string labels, length pre + length (dns_wire labels) - 1)"
  using assms
proof (induction labels arbitrary: pre acc)
  case Nil
  then show ?case by (subst dns_labels.simps) (simp add: dns_wire_def)
next
  case (Cons l ls)
  let ?w = "dns_wire ls"
  have l: "l \<noteq> []" "length l < 64" using Cons.prems by (simp_all add: valid_label_def)
  have w: "dns_wire (l # ls) = of_nat (length l) # l @ ?w" by (simp add: dns_wire_def)
  have u: "unat (of_nat (length l) :: byte) = length l" using l(2) by (simp add: unat_of_nat_byte)
  have nz: "(of_nat (length l) :: byte) \<noteq> 0" using u l(1) by (metis length_0_conv unat_0)
  have s: "slice (Suc (length pre)) (Suc (length pre + length l)) (pre @ of_nat (length l) # l @ ?w @ rest) = l"
    by (simp add: slice_def)
  have "dns_labels (pre @ dns_wire (l # ls) @ rest) (length pre) acc
      = dns_labels ((pre @ of_nat (length l) # l) @ ?w @ rest) (length (pre @ of_nat (length l) # l)) (acc @ [bytes_string l])"
    by (subst dns_labels.simps) (simp add: w u nz s Let_def)
  also have "\<dots> = Some ((acc @ [bytes_string l]) @ map bytes_string ls, length (pre @ of_nat (length l) # l) + length ?w - 1)"
    by (rule Cons.IH) (use Cons.prems in simp)
  finally show ?case by (simp add: w)
qed

lemma question_of_query:
  assumes "length header = 12" "be16 (slice 4 6 header) = 1" "list_all valid_label labels" "labels \<noteq> []"
  shows "dnsQuestion (dns_query header labels qtype extra)
    = (ToLower (join_with ''.'' (map bytes_string labels)), 16 + length (dns_wire labels), qtype = 1)"
proof -
  let ?q = "dns_query header labels qtype extra"
  have ls: "dns_labels ?q 12 [] = Some (map bytes_string labels, 12 + length (dns_wire labels) - 1)"
    using dns_labels_wire [OF assms(3), of header "put_be16 qtype @ [0, 1] @ extra" "[]"] assms(1) by (simp add: dns_query_def)
  have w: "2 \<le> length (dns_wire labels)" using assms(4) by (cases labels) (simp_all add: dns_wire_def)
  have h: "slice 4 6 ?q = slice 4 6 header" using assms(1) by (simp add: dns_query_def slice_append_left)
  have t: "slice (12 + length (dns_wire labels)) (14 + length (dns_wire labels)) ?q = put_be16 qtype"
    using assms(1) by (simp add: dns_query_def slice_def)
  have "17 \<le> length ?q" "\<not> length ?q < 11 + length (dns_wire labels) + 5" using assms(1) w by (simp_all add: dns_query_def)
  then show ?thesis using assms(2) ls w h t by (simp add: dnsQuestion_def)
qed


section \<open>Answers\<close>

lemma put_be_two: "put_be 2 n = put_be (Suc (Suc 0)) n" by (simp add: numeral_2_eq_2)

lemma list_of_six: "length xs = 6 \<Longrightarrow> \<exists>a b c d e f. xs = [a, b, c, d, e, f]"
  by (auto simp: numeral_eq_Suc length_Suc_conv)

text \<open>C31: A query for the address of a mesh name is answered locally: the answer carries the identifier of the query,
  its question as it was asked, the flags of a response, one answer and no other record, and the address
  of the name in the last four bytes.\<close>

theorem dns_answers_mesh_name:
  assumes "length header = 12" "be16 (slice 4 6 header) = 1" "list_all valid_label labels" "labels \<noteq> []"
    and "meshDNSIP n (ToLower (join_with ''.'' (map bytes_string labels))) = Some ip"
  shows "\<exists>a. answer_query sys n (dns_query header labels 1 extra) = Answer a
    \<and> take 2 a = take 2 header \<and> slice 2 4 a = [0x81, 0x80]
    \<and> slice 4 12 a = put_be16 1 @ put_be16 1 @ [0, 0, 0, 0]
    \<and> slice 12 (16 + length (dns_wire labels)) a = dns_wire labels @ [0, 1, 0, 1]
    \<and> length a = 32 + length (dns_wire labels) \<and> be32 (drop (28 + length (dns_wire labels)) a) = ip"
proof -
  let ?q = "dns_query header labels 1 extra" and ?stop = "16 + length (dns_wire labels)"
  have a: "answer_query sys n ?q = Answer (dnsAnswer ?q ?stop ip)"
    using question_of_query [OF assms(1-4), of 1 extra] assms(5) by (simp add: answer_query_def)
  obtain h0 h1 h2 h3 h4 h5 r0 r1 r2 r3 r4 r5 where h: "header = [h0, h1, h2, h3, h4, h5, r0, r1, r2, r3, r4, r5]"
  proof -
    obtain h0 h1 h2 h3 h4 h5 where x: "take 6 header = [h0, h1, h2, h3, h4, h5]"
      using list_of_six [of "take 6 header"] assms(1) by auto
    obtain r0 r1 r2 r3 r4 r5 where y: "drop 6 header = [r0, r1, r2, r3, r4, r5]"
      using list_of_six [of "drop 6 header"] assms(1) by auto
    have "header = take 6 header @ drop 6 header" by simp
    then have "header = [h0, h1, h2, h3, h4, h5, r0, r1, r2, r3, r4, r5]" unfolding x y by simp
    then show thesis by (rule that)
  qed
  have cnt: "[h4, h5] = put_be16 1"
  proof -
    have "slice 4 6 header = [h4, h5]" by (simp add: h slice_def)
    then have one: "be16 [h4, h5] = 1" using assms(2) by (simp only:)
    have "put_be16 (be16 [h4, h5]) = [h4, h5]" by (rule put_be_be16) simp
    then show ?thesis unfolding one by (rule sym)
  qed
  have p: "put_be16 1 = [0, 1]" "put_be16 0x8180 = [0x81, 0x80]"
    by (simp_all add: put_be16_def put_be_two)
  have "take ?stop ?q = take (length (header @ dns_wire labels @ [0, 1, 0, 1])) ((header @ dns_wire labels @ [0, 1, 0, 1]) @ extra)"
    using assms(1) by (simp add: dns_query_def p)
  then have tk: "take ?stop ?q = [h0, h1, h2, h3, h4, h5, r0, r1, r2, r3, r4, r5] @ dns_wire labels @ [0, 1, 0, 1]"
    by (simp only: append_eq_conv_conj) (simp add: h)
  have out: "dnsAnswer ?q ?stop ip = [h0, h1, 0x81, 0x80, 0, 1, 0, 1, 0, 0, 0, 0] @ dns_wire labels @ [0, 1, 0, 1]
      @ [0xC0, 0x0C, 0, 1, 0, 1, 0, 0, 0, 30, 0, 4] @ put_be32 ip"
    using cnt unfolding dnsAnswer_def tk Let_def by (simp add: p splice_def)
  have "drop (28 + length (dns_wire labels)) (([h0, h1, 0x81, 0x80, 0, 1, 0, 1, 0, 0, 0, 0] @ dns_wire labels @ [0, 1, 0, 1]
      @ [0xC0, 0x0C, 0, 1, 0, 1, 0, 0, 0, 30, 0, 4]) @ put_be32 ip) = put_be32 ip" by (subst drop_append) simp
  then have ip: "be32 (drop (28 + length (dns_wire labels)) (dnsAnswer ?q ?stop ip)) = ip" unfolding out by (simp del: drop_append)
  have "take 2 (dnsAnswer ?q ?stop ip) = take 2 header \<and> slice 2 4 (dnsAnswer ?q ?stop ip) = [0x81, 0x80]
    \<and> slice 4 12 (dnsAnswer ?q ?stop ip) = put_be16 1 @ put_be16 1 @ [0, 0, 0, 0]
    \<and> slice 12 ?stop (dnsAnswer ?q ?stop ip) = dns_wire labels @ [0, 1, 0, 1]
    \<and> length (dnsAnswer ?q ?stop ip) = 32 + length (dns_wire labels)"
    unfolding out using h by (simp add: slice_def p)
  then show ?thesis unfolding a using ip by blast
qed

section \<open>Names\<close>

text \<open>An entry claims a name by one of its records, its name or its id.\<close>

definition claims :: "string \<Rightarrow> string \<times> dns_entry \<Rightarrow> bool" where
  "claims name e \<longleftrightarrow> list_ex (\<lambda>r. name = ToLower (rec_name r)) (entry_records (snd e))
     \<or> name = ToLower (entry_name (snd e)) \<or> name = fst e"

definition claimed :: "string \<Rightarrow> string \<times> dns_entry \<Rightarrow> ipv4 option" where
  "claimed name e =
     (case find (\<lambda>r. name = ToLower (rec_name r)) (entry_records (snd e)) of
        Some r \<Rightarrow> ParseAddr (rec_virtual r) | None \<Rightarrow> ParseAddr (entry_meshIP (snd e)))"

definition abbreviates :: "string \<Rightarrow> string \<times> dns_entry \<Rightarrow> bool" where
  "abbreviates name e \<longleftrightarrow> 8 \<le> length name \<and> HasPrefix (fst e) name \<and> \<not> claims name e"

lemma mesh_scan_claim: "claims name e \<Longrightarrow> mesh_scan name (e # ds) m = claimed name e"
proof -
  assume c: "claims name e"
  obtain i p where e: "e = (i, p)" by (cases e)
  show ?thesis
  proof (cases "find (\<lambda>r. name = ToLower (rec_name r)) (entry_records p)")
    case None
    then have "\<not> list_ex (\<lambda>r. name = ToLower (rec_name r)) (entry_records p)" unfolding find_None_iff list_ex_iff by blast
    then have "name = ToLower (entry_name p) \<or> name = i" using c by (simp add: claims_def e)
    then show ?thesis using None unfolding e claimed_def by simp
  qed (simp add: e claimed_def)
qed

lemma mesh_scan_skip:
  assumes "\<not> claims name e"
  shows "mesh_scan name (e # ds) m = (if abbreviates name e then (case m of Some _ \<Rightarrow> None | None \<Rightarrow> mesh_scan name ds (Some (snd e)))
     else mesh_scan name ds m)"
proof -
  obtain i p where e: "e = (i, p)" by (cases e)
  have "find (\<lambda>r. name = ToLower (rec_name r)) (entry_records p) = None"
    using assms by (auto simp: e claims_def find_None_iff list_ex_iff)
  then show ?thesis using assms unfolding e by (auto simp: abbreviates_def claims_def split: option.splits)
qed

lemma mesh_scan_unique:
  assumes "e \<in> set ds" "claims name e" "\<And>d. d \<in> set ds \<Longrightarrow> claims name d \<Longrightarrow> d = e"
    and "length (filter (abbreviates name) ds) + (if m = None then 0 else 1) \<le> 1"
  shows "mesh_scan name ds m = claimed name e"
  using assms
proof (induction ds arbitrary: m)
  case Nil
  then show ?case by simp
next
  case (Cons d ds)
  show ?case
  proof (cases "claims name d")
    case True
    then have "d = e" using Cons.prems(3) by simp
    then show ?thesis using mesh_scan_claim [OF True] by simp
  next
    case False
    then have e: "e \<in> set ds" using Cons.prems(1,2) by auto
    show ?thesis
      unfolding mesh_scan_skip [OF False]
      using Cons.IH [OF e Cons.prems(2)] Cons.prems(3,4) by (auto split: option.splits if_splits)
  qed
qed

text \<open>A name that exactly one entry of the directory claims resolves to the address of that entry, whatever the
  order in which the map is iterated, unless two or more ids begin with the name.\<close>

lemma dns_name_unique:
  assumes "e \<in> set (dns_dir n)" "claims (TrimSuffix (ToLower name) ''.mesh'') e"
    and "\<And>d. d \<in> set (dns_dir n) \<Longrightarrow> claims (TrimSuffix (ToLower name) ''.mesh'') d \<Longrightarrow> d = e"
    and "length (filter (abbreviates (TrimSuffix (ToLower name) ''.mesh'')) (dns_dir n)) \<le> 1"
  shows "meshDNSIP n name = claimed (TrimSuffix (ToLower name) ''.mesh'') e"
  unfolding meshDNSIP_def
proof (rule mesh_scan_unique [OF assms(1,2)])
  show "length (filter (abbreviates (TrimSuffix (ToLower name) ''.mesh'')) (dns_dir n)) + (if None = None then 0 else 1) \<le> 1"
    using assms(4) by simp
qed (rule assms(3))

section \<open>No loop through the own listener\<close>

lemma Addr_String_clean: "d \<in> {CHR '':'', CHR ''['', CHR '']''} \<Longrightarrow> d \<notin> set (Addr_String ip)"
proof -
  assume d: "d \<in> {CHR '':'', CHR ''['', CHR '']''}"
  have i: "d \<notin> set (itoa n)" for n by (rule itoa_no_char) (use d in \<open>auto simp: is_digit_def\<close>)
  obtain w x y z where "put_be32 ip = [w, x, y, z]" using put_be32_four by blast
  then show ?thesis using i d by (auto simp: Addr_String_def)
qed

lemma Split_Addr: "SplitHostPort (JoinHostPort (Addr_String ip) ''53'') = Some (Addr_String ip, ''53'')"
proof -
  have c: "CHR '':'' \<notin> set (Addr_String ip)" "CHR ''['' \<notin> set (Addr_String ip)" "CHR '']'' \<notin> set (Addr_String ip)"
    by (rule Addr_String_clean; simp)+
  have "split_on (CHR '':'') (Addr_String ip @ '':53'') = [Addr_String ip, ''53'']"
    using split_on_append [OF c(1), of "''53''"] by simp
  moreover have "Addr_String ip \<noteq> [] \<longrightarrow> hd (Addr_String ip) \<noteq> CHR ''[''" using c(2) by (metis list.set_sel(1))
  ultimately show ?thesis using c by (auto simp: SplitHostPort_def JoinHostPort_def Let_def)
qed

lemma Join_Addr_eq: "JoinHostPort (Addr_String a) ''53'' = JoinHostPort (Addr_String b) ''53'' \<longleftrightarrow> a = b"
  using Split_Addr [of a] Split_Addr [of b] ParseAddr_String by (metis fst_conv option.inject)

lemma first_some_Some: "first_some f xs = Some y \<Longrightarrow> \<exists>x \<in> set xs. f x = Some y"
  by (induction xs) (auto split: option.splits)

lemma nameserver_cases:
  assumes "nameserver ip6 line = Some u"
  obtains a where "\<not> isMeshDNSAddress a" "u = JoinHostPort (Addr_String a) ''53''"
  | t x where "ip6 t = Some (Inr x)" "u = JoinHostPort x ''53''"
proof -
  obtain a b where f: "Fields line = [a, b]" "a = ''nameserver''"
    using assms unfolding nameserver_def by (auto split: list.splits if_splits)
  show thesis
  proof (cases "case ParseAddr b of Some ip \<Rightarrow> Some (Inl ip) | None \<Rightarrow> ip6 b")
    case None
    then show thesis using assms f by (simp add: nameserver_def)
  next
    case (Some r)
    show thesis
    proof (cases r)
      case (Inl ip)
      then have "\<not> isMeshDNSAddress ip \<and> u = JoinHostPort (Addr_String ip) ''53''"
        using assms f Some by (simp add: nameserver_def split: if_splits)
      then show thesis using that(1) by blast
    next
      case (Inr x)
      then have "ip6 b = Some (Inr x)" using Some by (simp split: option.splits)
      moreover have "u = JoinHostPort x ''53''" using assms f Some Inr by (simp add: nameserver_def)
      ultimately show thesis by (rule that(2))
    qed
  qed
qed


text \<open>Three entries of a directory.\<close>

definition dns_sample :: "dns_node" where
  "dns_sample =
     \<lparr>dns_dir = [(''aaaaaaaa11'', \<lparr>entry_name = ''alpha'', entry_meshIP = ''10.77.0.2'', entry_records = []\<rparr>),
        (''aaaaaaaa22'', \<lparr>entry_name = ''beta'', entry_meshIP = ''10.77.0.3'', entry_records = [\<lparr>rec_name = ''nas.home'', rec_virtual = ''10.99.0.7''\<rparr>]\<rparr>),
        (''bbbbbbbb33'', \<lparr>entry_name = ''AAAAAAAA'', entry_meshIP = ''10.77.0.4'', entry_records = []\<rparr>)],
      dnsUpstream = [], dns_meshIP = ''10.77.0.2''\<rparr>"

lemmas address_evaluation = ParseAddr_def parse_octet_def atoi_def digit_val_def is_digit_def be32_def Let_def

lemma sample_addresses:
  "ParseAddr ''10.77.0.2'' = Some 0x0A4D0002" "ParseAddr ''10.77.0.4'' = Some 0x0A4D0004"
  "ParseAddr ''10.99.0.7'' = Some 0x0A630007" "ParseAddr ''10.88.0.2'' = Some 0x0A580002"
  "ParseAddr ''9.9.9.9'' = Some 0x09090909"
  by (simp_all add: address_evaluation)

lemma sample_names:
  "ToLower ''alpha'' = ''alpha''" "ToLower ''beta'' = ''beta''" "ToLower ''nas.home'' = ''nas.home''" "ToLower ''AAAAAAAA'' = ''aaaaaaaa''"
  "ToLower ''aaaaaaaa.mesh'' = ''aaaaaaaa.mesh''" "TrimSuffix ''aaaaaaaa.mesh'' ''.mesh'' = ''aaaaaaaa''" "TrimSuffix ''nas.home'' ''.mesh'' = ''nas.home''"
  by code_simp+

lemmas scan_evaluation = meshDNSIP_def dns_sample_def sample_names sample_addresses HasPrefix_def

lemma sample_nas: "meshDNSIP dns_sample ''nas.home'' = Some 0x0A630007"
  by (simp add: scan_evaluation)

text \<open>Two ids that begin with a name, met before the entry whose name it is, hide that entry; met after it, they do not.\<close>

lemma meshDNSIP_order:
  "meshDNSIP dns_sample ''aaaaaaaa.mesh'' = None"
  "meshDNSIP (dns_sample\<lparr>dns_dir := rev (dns_dir dns_sample)\<rparr>) ''aaaaaaaa.mesh'' = Some 0x0A4D0004"
  by (simp_all add: scan_evaluation)

lemma sample_texts:
  "Addr_String 0x0A4D0002 = ''10.77.0.2''" "Addr_String 0x0A580002 = ''10.88.0.2''" "Addr_String 0x09090909 = ''9.9.9.9''"
proof -
  have b: "put_be32 w = put_be (Suc (Suc (Suc (Suc 0)))) (unat w)" for w
  proof -
    have "4 = Suc (Suc (Suc (Suc 0)))" by simp
    then show ?thesis unfolding put_be32_def by (rule arg_cong)
  qed
  have d: "digit_char 0 = CHR ''0''" "digit_char 1 = CHR ''1''" "digit_char 2 = CHR ''2''" "digit_char 7 = CHR ''7''"
    "digit_char 8 = CHR ''8''" "digit_char 9 = CHR ''9''" by code_simp+
  show "Addr_String 0x0A4D0002 = ''10.77.0.2''" "Addr_String 0x0A580002 = ''10.88.0.2''" "Addr_String 0x09090909 = ''9.9.9.9''"
    by (simp_all add: Addr_String_def itoa.simps b d [simplified])
qed

lemmas resolver_evaluation = platformSystemResolver_def resolverFromResolvConf_def nameserver_def Fields_def is_space_def
  isMeshDNSAddress_def HasPrefix_def JoinHostPort_def sample_addresses sample_texts

lemma sample_hosts: "SplitHostPort ''10.77.0.2:53'' = Some (''10.77.0.2'', ''53'')"
  using Split_Addr [of "0x0A4D0002"] by (simp add: sample_texts JoinHostPort_def)

lemma sample_resolver:
  "platformSystemResolver (\<lambda>_. None) (Some ''nameserver 10.88.0.2'') = ''10.88.0.2:53''"
  "platformSystemResolver (\<lambda>_. None) (Some (''nameserver 10.77.0.2'' @ CHR 0x0A # ''nameserver 9.9.9.9'')) = ''9.9.9.9:53''"
  "platformSystemResolver (\<lambda>_. None) (Some ''nameserver 10.77.0.2'') = []"
  by (simp_all add: resolver_evaluation)

lemma no_question: "dnsQuestion [1] = ([], 0, False)"
  by (simp add: dnsQuestion_def)

text \<open>The range of the mesh is a constant of the resolver: a node whose mesh address lies elsewhere may be its own upstream.\<close>

lemma configured_range_loops:
  "answer_query (platformSystemResolver (\<lambda>_. None) (Some ''nameserver 10.88.0.2'')) (dns_sample\<lparr>dns_meshIP := ''10.88.0.2''\<rparr>) [1]
     = Forward (JoinHostPort (dns_meshIP (dns_sample\<lparr>dns_meshIP := ''10.88.0.2''\<rparr>)) ''53'') [1]"
  unfolding sample_resolver answer_query_def no_question by (simp add: choose_upstream_def dns_sample_def JoinHostPort_def Let_def)

lemma dns_answers_mesh_name_witness:
  "\<exists>a. answer_query [] dns_sample (dns_query [7, 9, 1, 0, 0, 1, 0, 0, 0, 0, 0, 1] [[110, 97, 115], [104, 111, 109, 101]] 1 [0, 0, 41]) = Answer a
    \<and> be32 (drop (28 + length (dns_wire [[110, 97, 115], [104, 111, 109, 101]])) a) = 0x0A630007"
proof -
  let ?h = "[7, 9, 1, 0, 0, 1, 0, 0, 0, 0, 0, 1] :: bytes" and ?ls = "[[110, 97, 115], [104, 111, 109, 101]] :: bytes list"
  have n: "ToLower (join_with ''.'' (map bytes_string ?ls)) = ''nas.home''"
    by code_simp
  have h: "length ?h = 12" "be16 (slice 4 6 ?h) = 1" by (simp_all add: slice_def be16_def)
  have l: "list_all valid_label ?ls" "?ls \<noteq> []" by (simp_all add: valid_label_def)
  have "meshDNSIP dns_sample (ToLower (join_with ''.'' (map bytes_string ?ls))) = Some 0x0A630007" unfolding n by (rule sample_nas)
  from dns_answers_mesh_name [OF h l this, of "[]" "[0, 0, 41]"] show ?thesis by blast
qed


end
