(* ===== verification/Node_Tunnels.thy ===== *)
theory Node_Tunnels
  imports Server_State Node_Datagrams "HOL-Library.AList"
begin

text \<open>
  The services and tunnels of a node (\<^verbatim>\<open>mesh-node/topology.go\<close> from \<^verbatim>\<open>tunnelKey\<close> on, \<^verbatim>\<open>serviceRequest\<close> and \<^verbatim>\<open>call\<close> of
  \<^verbatim>\<open>mesh-node/dataplane.go\<close>, \<^verbatim>\<open>resolve\<close> of \<^verbatim>\<open>helpers.go\<close>): what a node does with an opened message, and the goroutines that
  copy between connections and messages.  The goroutines are lists of what each of them holds, and a step
  relation interleaves their atomic parts with arriving rules and messages.

  The lemmas show that a peer reaches only the connections that a rule gives it, what a call of a service returns,
  that any node can answer it, and what a reused tunnel id does.
\<close>

section \<open>Services\<close>

abbreviation maxRequest :: nat where "maxRequest \<equiv> 32000"
abbreviation maxResponse :: nat where "maxResponse \<equiv> 48000"

record serviceResult =
  Data :: string
  Error :: string

text \<open>The part of \<^verbatim>\<open>node\<close> that services and tunnels use.  \<open>pending\<close> holds the channels of the calls
  that wait, each with room for one result.  A connection and a listener are numbers; \<open>tn_next\<close> is the next
  one.  \<open>dialling\<close>, \<open>copiers\<close> and \<open>accepting\<close> are the goroutines at work: the calls of \<^verbatim>\<open>tunnelOpen\<close> that
  dial, the calls of \<^verbatim>\<open>copyTunnel\<close> and those of \<^verbatim>\<open>acceptPortForward\<close>.\<close>

record tunnel_node =
  tn_id :: string
  tn_dir :: "string list"
  services :: "string \<rightharpoonup> string"
  allow :: "string set"
  pending :: "string \<rightharpoonup> serviceResult option"
  forwardRules :: "(int \<times> portForward) list"
  forwardListeners :: "(int \<times> nat) list"
  tunnels :: "string \<rightharpoonup> nat"
  dialling :: "(string \<times> string \<times> string \<times> int) list"
  copiers :: "(nat \<times> string \<times> string) list"
  accepting :: "(nat \<times> portForward) list"
  tn_next :: nat

text \<open>\<open>Send\<close> is a call of \<^verbatim>\<open>encrypted\<close> with destination, type, body and packet id.\<close>

datatype tunnel_effect =
    Send string string "(string \<times> json) list" string
  | Dial string
  | WriteConn nat bytes
  | CloseConn nat
  | CloseListener nat

text \<open>The exchange with a service: the error of dialling or writing, or what was read until the end of the
  stream with the error that ended it.\<close>

type_synonym exchange = "string \<Rightarrow> bytes \<Rightarrow> string + (bytes \<times> string option)"

definition service_response :: "string \<Rightarrow> string \<Rightarrow> (string \<times> json) list \<Rightarrow> tunnel_effect list" where
  "service_response src rid out = [Send src ''SERVICE_RESPONSE'' ((''request_id'', JStr rid) # out) []]"

definition exchanged :: "exchange \<Rightarrow> string \<Rightarrow> bytes \<Rightarrow> string + bytes" where
  "exchanged ex address raw =
     (case ex address raw of
        Inl err \<Rightarrow> Inl err
      | Inr (all, err) \<Rightarrow>
          (let r = take (maxResponse + 1) all in
           if maxResponse < length r then Inl ''response too large''
           else case err of Some x \<Rightarrow> Inl x | None \<Rightarrow> Inr r))"

definition serviceRequest ::
    "exchange \<Rightarrow> string \<Rightarrow> string \<Rightarrow> (string \<times> json) list \<Rightarrow> tunnel_node \<Rightarrow> tunnel_effect list" where
  "serviceRequest ex src rid b n =
     (case services n (str_member b ''service'') of
        None \<Rightarrow> service_response src rid [(''error'', JStr ''service unavailable'')]
      | Some address \<Rightarrow>
          if ''*'' \<notin> allow n \<and> src \<notin> allow n then service_response src rid [(''error'', JStr ''service unavailable'')]
          else (case B64Decode (str_member b ''data'') of
            None \<Rightarrow> service_response src rid [(''error'', JStr ''invalid request'')]
          | Some raw \<Rightarrow>
              if maxRequest < length raw then service_response src rid [(''error'', JStr ''invalid request'')]
              else Dial address #
                (case exchanged ex address raw of
                   Inl err \<Rightarrow> service_response src rid [(''error'', JStr err)]
                 | Inr out \<Rightarrow> service_response src rid [(''data'', JStr (B64Encode out))])))"

definition resolve :: "string \<Rightarrow> tunnel_node \<Rightarrow> string option" where
  "resolve v n =
     (if v \<in> set (tn_dir n) then Some v
      else case filter (\<lambda>i. HasPrefix i v) (tn_dir n) of [i] \<Rightarrow> Some i | _ \<Rightarrow> None)"

text \<open>\<^verbatim>\<open>call\<close> up to its wait: the destination with the message that is written under the id of the call.  Its end
  takes the result, if one has come before the timer, and always forgets the channel.\<close>

definition call_begin :: "string \<Rightarrow> string \<Rightarrow> string \<Rightarrow> bytes \<Rightarrow> tunnel_node \<Rightarrow> string + (tunnel_effect list \<times> tunnel_node)" where
  "call_begin i dst name data n =
     (case resolve dst n of
        None \<Rightarrow> Inl ''unknown or ambiguous node ID''
      | Some d \<Rightarrow> Inr ([Send d ''SERVICE_REQUEST'' [(''service'', JStr name), (''data'', JStr (B64Encode data))] i],
          n\<lparr>pending := (pending n)(i \<mapsto> None)\<rparr>))"

definition call_end :: "bool \<Rightarrow> string \<Rightarrow> tunnel_node \<Rightarrow> (string + bytes) \<times> tunnel_node" where
  "call_end ok i n =
     ((if \<not> ok then Inl ''could not send service request''
       else case pending n i of
         Some (Some x) \<Rightarrow>
           (if Error x \<noteq> [] then Inl (Error x)
            else case B64Decode (Data x) of Some b \<Rightarrow> Inr b | None \<Rightarrow> Inl ''illegal base64 data'')
       | _ \<Rightarrow> Inl ''service response timed out''),
      n\<lparr>pending := (pending n)(i := None)\<rparr>)"

text \<open>The case \<^verbatim>\<open>SERVICE_RESPONSE\<close> of \<^verbatim>\<open>data\<close>.\<close>

definition serviceResponse :: "string \<Rightarrow> string \<Rightarrow> string \<Rightarrow> tunnel_node \<Rightarrow> tunnel_node" where
  "serviceResponse rid d err n =
     (case pending n rid of
        Some None \<Rightarrow> n\<lparr>pending := (pending n)(rid \<mapsto> Some \<lparr>Data = d, Error = err\<rparr>)\<rparr>
      | _ \<Rightarrow> n)"

section \<open>Tunnels\<close>

definition tunnelKey :: "string \<Rightarrow> string \<Rightarrow> string" where
  "tunnelKey p i = p @ '':'' @ i"

text \<open>\<^verbatim>\<open>syncPortForwards\<close>; \<open>listen\<close> tells which addresses can be bound.  \<open>None\<close> is the panic of a target
  with fewer than eight characters.\<close>

fun open_listeners ::
    "(string \<Rightarrow> bool) \<Rightarrow> portForward list \<Rightarrow> tunnel_node \<Rightarrow> tunnel_node option" where
  "open_listeners listen [] n = Some n"
| "open_listeners listen (r # rs) n =
     (if map_of (forwardListeners n) (pf_id r) \<noteq> None then open_listeners listen rs n
      else if \<not> listen (JoinHostPort (pf_listen_host r) (itoa (nat (pf_listen_port r)))) then open_listeners listen rs n
      else if length (pf_target r) < 8 then None
      else open_listeners listen rs
        (n\<lparr>forwardListeners := (pf_id r, tn_next n) # forwardListeners n,
           accepting := (tn_next n, r) # accepting n, tn_next := tn_next n + 1\<rparr>))"

definition keyed :: "portForward list \<Rightarrow> (int \<times> portForward) list" where
  "keyed rules = fold (\<lambda>r m. AList.update (pf_id r) r m) rules []"

definition syncPortForwards ::
    "(string \<Rightarrow> bool) \<Rightarrow> portForward list \<Rightarrow> tunnel_node \<Rightarrow> (tunnel_effect list \<times> tunnel_node) option" where
  "syncPortForwards listen rules n =
     (let want = keyed (filter (\<lambda>r. pf_source r = tn_id n) rules);
          stay = filter (\<lambda>(i, l). map_of want i \<noteq> None) (forwardListeners n);
          gone = filter (\<lambda>(i, l). map_of want i = None) (forwardListeners n);
          n1 = n\<lparr>forwardRules := keyed rules, forwardListeners := stay\<rparr> in
      map_option (\<lambda>n2. (map (\<lambda>(i, l). CloseListener l) gone, n2)) (open_listeners listen (map snd want) n1))"

text \<open>\<^verbatim>\<open>openTunnel\<close> with a connection that a listener accepted; \<open>i\<close> is the new id, \<open>ok\<close> the result of
  \<^verbatim>\<open>encrypted\<close>.\<close>

definition closeTunnel :: "string \<Rightarrow> string \<Rightarrow> tunnel_node \<Rightarrow> tunnel_effect list \<times> tunnel_node" where
  "closeTunnel p i n =
     ((case tunnels n (tunnelKey p i) of Some c \<Rightarrow> [CloseConn c] | None \<Rightarrow> [])
        @ [Send p ''TUNNEL_CLOSE'' [(''id'', JStr i)] []],
      n\<lparr>tunnels := (tunnels n)(tunnelKey p i := None)\<rparr>)"

definition openTunnel ::
    "string \<Rightarrow> bool \<Rightarrow> portForward \<Rightarrow> tunnel_node \<Rightarrow> tunnel_effect list \<times> tunnel_node" where
  "openTunnel i ok r n =
     (let c = tn_next n; p = pf_target r;
          n1 = n\<lparr>tunnels := (tunnels n)(tunnelKey p i \<mapsto> c), tn_next := c + 1\<rparr>;
          e = Send p ''TUNNEL_OPEN'' [(''id'', JStr i), (''host'', JStr (pf_target_host r)), (''port'', JInt (pf_target_port r))] [] in
      if ok then ([e], n1\<lparr>copiers := (c, p, i) # copiers n1\<rparr>)
      else (let (es, n2) = closeTunnel p i n1 in (e # es, n2)))"

text \<open>One turn of \<^verbatim>\<open>copyTunnel\<close>: \<open>b\<close> was read, \<open>eof\<close> tells of an error of the read, \<open>ok\<close> is the result of
  \<^verbatim>\<open>encrypted\<close>.  A turn that ends the loop closes the tunnel.\<close>

definition copyTunnel ::
    "bytes \<Rightarrow> bool \<Rightarrow> bool \<Rightarrow> nat \<times> string \<times> string \<Rightarrow> tunnel_node \<Rightarrow> tunnel_effect list \<times> tunnel_node" where
  "copyTunnel b eof ok t n =
     (let (c, p, i) = t;
          es = (if b \<noteq> [] then [Send p ''TUNNEL_DATA'' [(''id'', JStr i), (''data'', JStr (B64Encode b))] []] else []) in
      if b \<noteq> [] \<and> \<not> ok \<or> eof
      then (let (fs, n1) = closeTunnel p i (n\<lparr>copiers := remove1 t (copiers n)\<rparr>) in (es @ fs, n1))
      else (es, n))"

text \<open>The body of \<^verbatim>\<open>TUNNEL_OPEN\<close>; ports are whole numbers.\<close>

definition tunnel_request :: "(string \<times> json) list \<Rightarrow> (string \<times> string \<times> int) option" where
  "tunnel_request body =
     (let i = str_member body ''id''; host = str_member body ''host'' in
      case get_num body ''port'' of
        None \<Rightarrow> None
      | Some port \<Rightarrow> if i = [] \<or> host = [] \<or> port < 1 \<or> 65535 < port then None else Some (i, host, port))"

definition allowed_tunnel :: "string \<Rightarrow> string \<Rightarrow> int \<Rightarrow> tunnel_node \<Rightarrow> bool" where
  "allowed_tunnel src host port n =
     list_ex (\<lambda>(i, r). pf_source r = src \<and> pf_target r = tn_id n \<and> pf_target_host r = host \<and> pf_target_port r = port)
       (forwardRules n)"

text \<open>\<^verbatim>\<open>tunnelOpen\<close> up to its dial, and after it.\<close>

definition tunnelOpen ::
    "string \<Rightarrow> (string \<times> json) list \<Rightarrow> tunnel_node \<Rightarrow> (tunnel_effect list \<times> tunnel_node) option" where
  "tunnelOpen src body n =
     (case tunnel_request body of
        None \<Rightarrow> Some ([], n)
      | Some (i, host, port) \<Rightarrow>
          if allowed_tunnel src host port n
          then Some ([Dial (JoinHostPort host (itoa (nat port)))], n\<lparr>dialling := (src, i, host, port) # dialling n\<rparr>)
          else if length src < 8 then None else Some ([], n))"

definition tunnelDialled ::
    "bool \<Rightarrow> string \<times> string \<times> string \<times> int \<Rightarrow> tunnel_node \<Rightarrow> tunnel_effect list \<times> tunnel_node" where
  "tunnelDialled ok d n =
     (let (src, i, host, port) = d; n1 = n\<lparr>dialling := remove1 d (dialling n)\<rparr> in
      if ok then ([], n1\<lparr>tunnels := (tunnels n)(tunnelKey src i \<mapsto> tn_next n),
                        copiers := (tn_next n, src, i) # copiers n, tn_next := tn_next n + 1\<rparr>)
      else ([Send src ''TUNNEL_CLOSE'' [(''id'', JStr i)] []], n1))"

definition tunnelData :: "string \<Rightarrow> (string \<times> json) list \<Rightarrow> tunnel_node \<Rightarrow> tunnel_effect list" where
  "tunnelData src body n =
     (case B64Decode (str_member body ''data'') of
        None \<Rightarrow> []
      | Some data \<Rightarrow>
          if str_member body ''id'' = [] \<or> 900 < length data then []
          else case tunnels n (tunnelKey src (str_member body ''id'')) of Some c \<Rightarrow> [WriteConn c data] | None \<Rightarrow> [])"

definition tunnelClose :: "string \<Rightarrow> (string \<times> json) list \<Rightarrow> tunnel_node \<Rightarrow> tunnel_effect list \<times> tunnel_node" where
  "tunnelClose src body n =
     (let i = str_member body ''id'' in
      if i = [] then ([], n)
      else ((case tunnels n (tunnelKey src i) of Some c \<Rightarrow> [CloseConn c] | None \<Rightarrow> []),
        n\<lparr>tunnels := (tunnels n)(tunnelKey src i := None)\<rparr>))"

text \<open>An opened message, the cases of \<^verbatim>\<open>data\<close> that belong here.\<close>

definition inner_step ::
    "exchange \<Rightarrow> string \<Rightarrow> inner \<Rightarrow> tunnel_node \<Rightarrow> (tunnel_effect list \<times> tunnel_node) option" where
  "inner_step ex src x n =
     (case x of
        ServiceRequest rid b \<Rightarrow> Some (serviceRequest ex src rid b n, n)
      | ServiceResponse rid d err \<Rightarrow> Some ([], serviceResponse rid d err n)
      | TunnelOpen b \<Rightarrow> tunnelOpen src b n
      | TunnelData b \<Rightarrow> Some (tunnelData src b n, n)
      | TunnelClose b \<Rightarrow> Some (tunnelClose src b n)
      | _ \<Rightarrow> Some ([], n))"

section \<open>What a node does over time\<close>

text \<open>The end of a connection, other than the peer: an address that was dialled or the rule whose listener
  accepted it.\<close>

datatype endpoint = Dialled string int | Accepted portForward

text \<open>The node with its history: every rule it was ever given, and for each connection the peer and the id it
  was opened for.\<close>

record tunnel_world =
  tw_node :: tunnel_node
  tw_rules :: "portForward set"
  tw_origin :: "nat \<rightharpoonup> string \<times> string \<times> endpoint"

inductive world_step :: "tunnel_world \<Rightarrow> tunnel_effect list \<Rightarrow> tunnel_world \<Rightarrow> bool" where
  world_sync: "syncPortForwards listen rules (tw_node w) = Some (es, n)
    \<Longrightarrow> world_step w es (w\<lparr>tw_node := n, tw_rules := tw_rules w \<union> set rules\<rparr>)"
| world_message: "inner_step ex src x (tw_node w) = Some (es, n) \<Longrightarrow> world_step w es (w\<lparr>tw_node := n\<rparr>)"
| world_dialled: "(src, i, host, port) \<in> set (dialling (tw_node w)) \<Longrightarrow> tunnelDialled ok (src, i, host, port) (tw_node w) = (es, n)
    \<Longrightarrow> world_step w es (w\<lparr>tw_node := n,
      tw_origin := (if ok then (tw_origin w)(tn_next (tw_node w) \<mapsto> (src, i, Dialled host port)) else tw_origin w)\<rparr>)"
| world_accept: "(l, r) \<in> set (accepting (tw_node w)) \<Longrightarrow> openTunnel i ok r (tw_node w) = (es, n)
    \<Longrightarrow> world_step w es (w\<lparr>tw_node := n, tw_origin := (tw_origin w)(tn_next (tw_node w) \<mapsto> (pf_target r, i, Accepted r))\<rparr>)"
| world_accept_ends: "(l, r) \<in> set (accepting (tw_node w)) \<Longrightarrow> l \<notin> snd ` set (forwardListeners (tw_node w))
    \<Longrightarrow> world_step w [] (w\<lparr>tw_node := (tw_node w)\<lparr>accepting := remove1 (l, r) (accepting (tw_node w))\<rparr>\<rparr>)"
| world_copy: "t \<in> set (copiers (tw_node w)) \<Longrightarrow> length b \<le> 900 \<Longrightarrow> copyTunnel b eof ok t (tw_node w) = (es, n)
    \<Longrightarrow> world_step w es (w\<lparr>tw_node := n\<rparr>)"

inductive tunnel_reach :: "tunnel_node \<Rightarrow> tunnel_world \<Rightarrow> bool" where
  reach_start: "tunnels n0 = Map.empty \<Longrightarrow> forwardRules n0 = [] \<Longrightarrow> dialling n0 = [] \<Longrightarrow> copiers n0 = [] \<Longrightarrow> accepting n0 = []
    \<Longrightarrow> tunnel_reach n0 \<lparr>tw_node = n0, tw_rules = {}, tw_origin = Map.empty\<rparr>"
| reach_step: "tunnel_reach n0 w \<Longrightarrow> world_step w es w' \<Longrightarrow> tunnel_reach n0 w'"

definition rule_for :: "tunnel_world \<Rightarrow> string \<Rightarrow> string \<Rightarrow> int \<Rightarrow> bool" where
  "rule_for w p host port \<longleftrightarrow> (\<exists>r \<in> tw_rules w. pf_source r = p \<and> pf_target r = tn_id (tw_node w)
     \<and> pf_target_host r = host \<and> pf_target_port r = port)"

definition rightful :: "tunnel_world \<Rightarrow> string \<Rightarrow> endpoint \<Rightarrow> bool" where
  "rightful w p e = (case e of
     Dialled host port \<Rightarrow> rule_for w p host port
   | Accepted r \<Rightarrow> r \<in> tw_rules w \<and> pf_source r = tn_id (tw_node w) \<and> pf_target r = p)"

definition world_inv :: "tunnel_world \<Rightarrow> bool" where
  "world_inv w \<longleftrightarrow>
     (\<forall>k c. tunnels (tw_node w) k = Some c \<longrightarrow> (\<exists>p i e. tw_origin w c = Some (p, i, e) \<and> k = tunnelKey p i))
     \<and> (\<forall>(c, p, i) \<in> set (copiers (tw_node w)). \<exists>e. tw_origin w c = Some (p, i, e))
     \<and> (\<forall>c \<in> dom (tw_origin w). c < tn_next (tw_node w))
     \<and> (\<forall>c p i e. tw_origin w c = Some (p, i, e) \<longrightarrow> rightful w p e)
     \<and> (\<forall>(p, i, host, port) \<in> set (dialling (tw_node w)). rule_for w p host port)
     \<and> (\<forall>(l, r) \<in> set (accepting (tw_node w)). rightful w (pf_target r) (Accepted r))
     \<and> snd ` set (forwardRules (tw_node w)) \<subseteq> tw_rules w"

lemma keyed_rules: "snd ` set (keyed rules) \<subseteq> set rules"
proof -
  have "snd ` set (fold (\<lambda>r m. AList.update (pf_id r) r m) rs m) \<subseteq> snd ` set m \<union> set rs" for rs m
  proof (induction rs arbitrary: m)
    case (Cons r rs)
    have "snd ` set (AList.update (pf_id r) r m) \<subseteq> snd ` set m \<union> {r}" by (induction m) auto
    then show ?case using Cons.IH [of "AList.update (pf_id r) r m"] by simp blast
  qed simp
  from this [of rules "[]"] show ?thesis by (simp add: keyed_def)
qed

lemma open_listeners_frame:
  assumes "open_listeners listen rs n = Some n'"
  shows "tunnels n' = tunnels n \<and> copiers n' = copiers n \<and> dialling n' = dialling n \<and> forwardRules n' = forwardRules n
    \<and> tn_id n' = tn_id n \<and> tn_next n \<le> tn_next n' \<and> snd ` set (accepting n') \<subseteq> snd ` set (accepting n) \<union> set rs"
  using assms
proof (induction rs arbitrary: n)
  case (Cons r rs)
  show ?case
  proof (cases "open_listeners listen rs n = Some n'")
    case True
    then show ?thesis using Cons.IH by auto
  next
    case False
    let ?n = "n\<lparr>forwardListeners := (pf_id r, tn_next n) # forwardListeners n, accepting := (tn_next n, r) # accepting n,
      tn_next := tn_next n + 1\<rparr>"
    have "open_listeners listen rs ?n = Some n'" using Cons.prems False by (simp split: if_splits)
    then show ?thesis using Cons.IH [of ?n] by simp
  qed
qed simp

lemma sync_frame:
  assumes "syncPortForwards listen rules n = Some (es, n')"
  shows "tunnels n' = tunnels n" "copiers n' = copiers n" "dialling n' = dialling n" "forwardRules n' = keyed rules"
    "tn_id n' = tn_id n" "tn_next n \<le> tn_next n'"
    "snd ` set (accepting n') \<subseteq> snd ` set (accepting n) \<union> {r \<in> set rules. pf_source r = tn_id n}"
proof -
  let ?want = "keyed (filter (\<lambda>r. pf_source r = tn_id n) rules)"
  obtain n1 where n1: "open_listeners listen (map snd ?want) n1 = Some n'"
    and f: "n1 = n\<lparr>forwardRules := keyed rules, forwardListeners := filter (\<lambda>(i, l). map_of ?want i \<noteq> None) (forwardListeners n)\<rparr>"
    using assms unfolding syncPortForwards_def Let_def by auto
  show "tunnels n' = tunnels n" "copiers n' = copiers n" "dialling n' = dialling n" "forwardRules n' = keyed rules"
    "tn_id n' = tn_id n" "tn_next n \<le> tn_next n'"
    using open_listeners_frame [OF n1] unfolding f by simp_all
  show "snd ` set (accepting n') \<subseteq> snd ` set (accepting n) \<union> {r \<in> set rules. pf_source r = tn_id n}"
  proof -
    have k: "set (map snd ?want) \<subseteq> {r \<in> set rules. pf_source r = tn_id n}"
      using keyed_rules [of "filter (\<lambda>r. pf_source r = tn_id n) rules"] by simp
    have "snd ` set (accepting n') \<subseteq> snd ` set (accepting n1) \<union> set (map snd ?want)" using open_listeners_frame [OF n1] by blast
    then have "snd ` set (accepting n') \<subseteq> snd ` set (accepting n) \<union> set (map snd ?want)" by (simp add: f)
    from order_trans [OF this Un_mono [OF order_refl k]] show ?thesis .
  qed
qed

lemma closeTunnel_frame:
  "closeTunnel p i n = (es, n') \<Longrightarrow> n' = n\<lparr>tunnels := (tunnels n)(tunnelKey p i := None)\<rparr>"
  by (simp add: closeTunnel_def)

lemma map_leD: "m \<subseteq>\<^sub>m m' \<Longrightarrow> m k = Some x \<Longrightarrow> m' k = Some x"
  by (metis domI map_le_def)

lemma drop_key: "m(k := None) \<subseteq>\<^sub>m m"
  by (simp add: map_le_def)

lemma inner_step_frame:
  assumes "inner_step ex src x n = Some (es, n')"
  obtains m pd where "n' = n\<lparr>tunnels := m, pending := pd\<rparr>" "m \<subseteq>\<^sub>m tunnels n"
  | i host port where "n' = n\<lparr>dialling := (src, i, host, port) # dialling n\<rparr>" "allowed_tunnel src host port n"
proof -
  note upd = that(1) and dial = that(2)
  have same: thesis if "n' = n"
    using \<open>n' = n\<close> by (intro upd [where m = "tunnels n" and pd = "pending n"]) simp_all
  show thesis
  proof (cases x)
    case (TunnelOpen b)
    then have o: "tunnelOpen src b n = Some (es, n')" using assms by (simp add: inner_step_def)
    show thesis
    proof (cases "n' = n")
      case True
      then show thesis by (rule same)
    next
      case False
      then obtain i host port where "n' = n\<lparr>dialling := (src, i, host, port) # dialling n\<rparr>" "allowed_tunnel src host port n"
        using o by (auto simp: tunnelOpen_def split: option.splits if_splits)
      then show thesis by (rule dial)
    qed
  next
    case (TunnelClose b)
    then have "n' = n \<or> n' = n\<lparr>tunnels := (tunnels n)(tunnelKey src (str_member b ''id'') := None)\<rparr>"
      using assms by (cases "str_member b ''id'' = []") (simp_all add: inner_step_def tunnelClose_def Let_def)
    then show thesis
    proof
      assume n': "n' = n\<lparr>tunnels := (tunnels n)(tunnelKey src (str_member b ''id'') := None)\<rparr>"
      show thesis by (rule upd [where pd = "pending n", OF _ drop_key]) (simp add: n')
    qed (rule same)
  next
    case (ServiceResponse rid d err)
    then have "n' = serviceResponse rid d err n" using assms by (simp add: inner_step_def)
    then have "n' = n\<lparr>tunnels := tunnels n, pending := pending n'\<rparr>"
      by (auto simp: serviceResponse_def split: option.splits)
    then show thesis by (rule upd) simp
  qed (rule same, use assms in \<open>simp add: inner_step_def\<close>)+
qed

lemma allowed_rule:
  assumes "allowed_tunnel p host port (tw_node w)" "snd ` set (forwardRules (tw_node w)) \<subseteq> tw_rules w"
  shows "rule_for w p host port"
  using assms by (force simp: allowed_tunnel_def rule_for_def list_ex_iff)

lemma world_invD:
  assumes "world_inv w"
  shows inv_table: "tunnels (tw_node w) k = Some c \<Longrightarrow> \<exists>p i e. tw_origin w c = Some (p, i, e) \<and> k = tunnelKey p i"
    and inv_copier: "(c, p, i) \<in> set (copiers (tw_node w)) \<Longrightarrow> \<exists>e. tw_origin w c = Some (p, i, e)"
    and inv_fresh: "tw_origin w c = Some x \<Longrightarrow> c < tn_next (tw_node w)"
    and inv_right: "tw_origin w c = Some (p, i, e) \<Longrightarrow> rightful w p e"
    and inv_dial: "(p, i, host, port) \<in> set (dialling (tw_node w)) \<Longrightarrow> rule_for w p host port"
    and inv_accept: "(l, rule) \<in> set (accepting (tw_node w)) \<Longrightarrow> rightful w (pf_target rule) (Accepted rule)"
    and inv_rules: "snd ` set (forwardRules (tw_node w)) \<subseteq> tw_rules w"
proof -
  note v = assms [unfolded world_inv_def]
  show "tunnels (tw_node w) k = Some c \<Longrightarrow> \<exists>p i e. tw_origin w c = Some (p, i, e) \<and> k = tunnelKey p i"
    by (rule v [THEN conjunct1, rule_format])
  show "(c, p, i) \<in> set (copiers (tw_node w)) \<Longrightarrow> \<exists>e. tw_origin w c = Some (p, i, e)"
    by (drule v [THEN conjunct2, THEN conjunct1, THEN bspec]) simp
  show "tw_origin w c = Some x \<Longrightarrow> c < tn_next (tw_node w)"
    by (rule v [THEN conjunct2, THEN conjunct2, THEN conjunct1, THEN bspec]) (rule domI)
  show "tw_origin w c = Some (p, i, e) \<Longrightarrow> rightful w p e"
    by (rule v [THEN conjunct2, THEN conjunct2, THEN conjunct2, THEN conjunct1, rule_format])
  show "(p, i, host, port) \<in> set (dialling (tw_node w)) \<Longrightarrow> rule_for w p host port"
    by (drule v [THEN conjunct2, THEN conjunct2, THEN conjunct2, THEN conjunct2, THEN conjunct1, THEN bspec]) simp
  show "(l, rule) \<in> set (accepting (tw_node w)) \<Longrightarrow> rightful w (pf_target rule) (Accepted rule)"
    by (drule v [THEN conjunct2, THEN conjunct2, THEN conjunct2, THEN conjunct2, THEN conjunct2, THEN conjunct1, THEN bspec]) simp
  show "snd ` set (forwardRules (tw_node w)) \<subseteq> tw_rules w"
    by (rule v [THEN conjunct2, THEN conjunct2, THEN conjunct2, THEN conjunct2, THEN conjunct2, THEN conjunct2])
qed

text \<open>The invariant has two parts: what connections are for, and what the goroutines and rules still to act may
  bring.  A step that opens no connection keeps the first as long as the table and the copiers only shrink.\<close>

lemma world_inv_shrink:
  assumes "world_inv w" "tunnels n \<subseteq>\<^sub>m tunnels (tw_node w)" "set (copiers n) \<subseteq> set (copiers (tw_node w))"
    and "tn_id n = tn_id (tw_node w)" "tn_next (tw_node w) \<le> tn_next n" "tw_rules w \<subseteq> R"
    and "\<And>p i host port. (p, i, host, port) \<in> set (dialling n) \<Longrightarrow>
      (p, i, host, port) \<in> set (dialling (tw_node w)) \<or> allowed_tunnel p host port (tw_node w)"
    and "\<And>l r. (l, r) \<in> set (accepting n) \<Longrightarrow> r \<in> snd ` set (accepting (tw_node w)) \<or> r \<in> R \<and> pf_source r = tn_id n"
    and "snd ` set (forwardRules n) \<subseteq> R"
  shows "world_inv (w\<lparr>tw_node := n, tw_rules := R\<rparr>)"
proof -
  let ?w = "w\<lparr>tw_node := n, tw_rules := R\<rparr>"
  have rule: "rule_for w p h q \<Longrightarrow> rule_for ?w p h q" for p h q using assms(4,6) by (auto simp: rule_for_def)
  have right: "rightful w p e \<Longrightarrow> rightful ?w p e" for p e
    using assms(4,6) rule by (auto simp: rightful_def split: endpoint.splits)
  have "tunnels n k = Some c \<Longrightarrow> tunnels (tw_node w) k = Some c" for k c
    by (rule map_leD [OF assms(2)])
  then have a: "\<forall>k c. tunnels n k = Some c \<longrightarrow> (\<exists>p i e. tw_origin w c = Some (p, i, e) \<and> k = tunnelKey p i)"
    using inv_table [OF assms(1)] by simp
  have b: "\<forall>(c, p, i) \<in> set (copiers n). \<exists>e. tw_origin w c = Some (p, i, e)" using inv_copier [OF assms(1)] assms(3) by blast
  have c: "\<forall>c \<in> dom (tw_origin w). c < tn_next n" using inv_fresh [OF assms(1)] assms(5) by fastforce
  have d: "\<forall>c p i e. tw_origin w c = Some (p, i, e) \<longrightarrow> rightful ?w p e" using inv_right [OF assms(1)] right by simp
  have e: "\<forall>(p, i, host, port) \<in> set (dialling n). rule_for ?w p host port"
  proof clarify
    fix p j h q assume "(p, j, h, q) \<in> set (dialling n)"
    then consider "(p, j, h, q) \<in> set (dialling (tw_node w))" | "allowed_tunnel p h q (tw_node w)" using assms(7) by blast
    then have "rule_for w p h q"
    proof cases
      case 1
      then show ?thesis by (rule inv_dial [OF assms(1)])
    next
      case 2
      then show ?thesis by (rule allowed_rule [OF _ inv_rules [OF assms(1)]])
    qed
    then show "rule_for ?w p h q" by (rule rule)
  qed
  have f: "\<forall>(l, r) \<in> set (accepting n). rightful ?w (pf_target r) (Accepted r)"
  proof clarify
    fix l r assume "(l, r) \<in> set (accepting n)"
    then consider "r \<in> snd ` set (accepting (tw_node w))" | "r \<in> R \<and> pf_source r = tn_id n" using assms(8) by blast
    then show "rightful ?w (pf_target r) (Accepted r)"
    proof cases
      case 1
      then obtain l' where "(l', r) \<in> set (accepting (tw_node w))" by auto
      then show ?thesis by (rule right [OF inv_accept [OF assms(1)]])
    qed (simp add: rightful_def)
  qed
  show ?thesis unfolding world_inv_def using a b c d e f assms(9) by simp
qed

text \<open>A new connection for a peer that is entitled to it.\<close>

lemma world_inv_open:
  assumes "world_inv w" "rightful w p e" "c = tn_next (tw_node w)" "m \<subseteq>\<^sub>m (tunnels (tw_node w))(tunnelKey p i \<mapsto> c)"
    and "set cs \<subseteq> insert (c, p, i) (set (copiers (tw_node w)))" "set ds \<subseteq> set (dialling (tw_node w))"
  shows "world_inv (w\<lparr>tw_node := (tw_node w)\<lparr>tunnels := m, copiers := cs, dialling := ds, tn_next := c + 1\<rparr>,
    tw_origin := (tw_origin w)(c \<mapsto> (p, i, e))\<rparr>)" (is "world_inv ?w")
proof -
  have fresh: "tw_origin w c = None"
    using inv_fresh [OF assms(1), of c] assms(3) by (cases "tw_origin w c") auto
  have rule: "rule_for ?w = rule_for w" by (intro ext) (simp add: rule_for_def)
  have right: "rightful ?w q f = rightful w q f" for q f
    by (cases f) (simp_all add: rightful_def rule_for_def)
  have a: "m k = Some x \<Longrightarrow> \<exists>q j f. ((tw_origin w)(c \<mapsto> (p, i, e))) x = Some (q, j, f) \<and> k = tunnelKey q j" for k x
  proof -
    assume "m k = Some x"
    then have "((tunnels (tw_node w))(tunnelKey p i \<mapsto> c)) k = Some x" by (rule map_leD [OF assms(4)])
    then consider "k = tunnelKey p i" "x = c" | "tunnels (tw_node w) k = Some x"
      by (cases "k = tunnelKey p i") simp_all
    then show ?thesis
    proof cases
      case 2
      then obtain q j f where o: "tw_origin w x = Some (q, j, f)" "k = tunnelKey q j"  using inv_table [OF assms(1)] by blast
      then have "x \<noteq> c" using fresh by auto
      then show ?thesis using o by simp
    qed simp
  qed
  have b: "\<forall>(x, q, j) \<in> set cs. \<exists>f. ((tw_origin w)(c \<mapsto> (p, i, e))) x = Some (q, j, f)"
  proof clarify
    fix x q j assume "(x, q, j) \<in> set cs"
    then consider "(x, q, j) = (c, p, i)" | "(x, q, j) \<in> set (copiers (tw_node w))" using assms(5) by blast
    then show "\<exists>f. ((tw_origin w)(c \<mapsto> (p, i, e))) x = Some (q, j, f)"
    proof cases
      case 2
      then obtain f where "tw_origin w x = Some (q, j, f)" using inv_copier [OF assms(1)] by blast
      then show ?thesis using fresh by (cases "x = c") simp_all
    qed simp
  qed
  have d: "\<forall>x q j f. ((tw_origin w)(c \<mapsto> (p, i, e))) x = Some (q, j, f) \<longrightarrow> rightful w q f"
    using inv_right [OF assms(1)] assms(2) by auto
  have n: "\<forall>x \<in> dom ((tw_origin w)(c \<mapsto> (p, i, e))). x < c + 1"
    using inv_fresh [OF assms(1)] assms(3) by (auto simp: dom_def less_SucI)
  have g: "\<forall>(q, j, host, port) \<in> set ds. rule_for w q host port" using inv_dial [OF assms(1)] assms(6) by blast
  have h: "\<forall>(l, r) \<in> set (accepting (tw_node w)). rightful w (pf_target r) (Accepted r)" using inv_accept [OF assms(1)] by blast
  show ?thesis unfolding world_inv_def rule right using a b d n g h inv_rules [OF assms(1)] by simp
qed

lemma closed_le: "closeTunnel p i n = (es, n') \<Longrightarrow> \<exists>m. n' = n\<lparr>tunnels := m\<rparr> \<and> m \<subseteq>\<^sub>m tunnels n"
  using closeTunnel_frame [of p i n es n'] drop_key [of "tunnels n"] by blast

lemma openTunnel_shape:
  assumes "openTunnel i ok r n = (es, n')"
  shows "\<exists>m cs. n' = n\<lparr>tunnels := m, copiers := cs, dialling := dialling n, tn_next := tn_next n + 1\<rparr>
    \<and> m \<subseteq>\<^sub>m (tunnels n)(tunnelKey (pf_target r) i \<mapsto> tn_next n) \<and> set cs \<subseteq> insert (tn_next n, pf_target r, i) (set (copiers n))"
proof (cases ok)
  case True
  then have "n' = n\<lparr>tunnels := (tunnels n)(tunnelKey (pf_target r) i \<mapsto> tn_next n), copiers := (tn_next n, pf_target r, i) # copiers n,
      dialling := dialling n, tn_next := tn_next n + 1\<rparr>"
    using assms by (auto simp: openTunnel_def Let_def)
  then show ?thesis by (intro exI conjI) auto
next
  case False
  let ?n = "n\<lparr>tunnels := (tunnels n)(tunnelKey (pf_target r) i \<mapsto> tn_next n), tn_next := tn_next n + 1\<rparr>"
  obtain fs where "closeTunnel (pf_target r) i ?n = (fs, n')"
    using assms False by (auto simp: openTunnel_def Let_def split: prod.splits)
  then have n': "n' = n\<lparr>tunnels := (tunnels ?n)(tunnelKey (pf_target r) i := None), copiers := copiers n,
      dialling := dialling n, tn_next := tn_next n + 1\<rparr>"
    using closeTunnel_frame by fastforce
  have "(tunnels ?n)(tunnelKey (pf_target r) i := None) \<subseteq>\<^sub>m (tunnels n)(tunnelKey (pf_target r) i \<mapsto> tn_next n)"
    by (simp add: map_le_def)
  then show ?thesis unfolding n' by blast
qed

lemma copyTunnel_shape:
  assumes "copyTunnel b eof ok t n = (es, n')"
  shows "\<exists>m cs. n' = n\<lparr>tunnels := m, copiers := cs\<rparr> \<and> m \<subseteq>\<^sub>m tunnels n \<and> set cs \<subseteq> set (copiers n)"
proof -
  obtain c p i where t: "t = (c, p, i)" by (cases t)
  show ?thesis
  proof (cases "b \<noteq> [] \<and> \<not> ok \<or> eof")
    case True
    let ?n = "n\<lparr>copiers := remove1 t (copiers n)\<rparr>"
    obtain fs where "closeTunnel p i ?n = (fs, n')"
      using assms True unfolding copyTunnel_def t Let_def by (cases "closeTunnel p i ?n") (simp add: t)
    from closed_le [OF this] obtain m where m: "n' = ?n\<lparr>tunnels := m\<rparr>" "m \<subseteq>\<^sub>m tunnels n" by auto
    have "n' = n\<lparr>tunnels := m, copiers := remove1 t (copiers n)\<rparr>" unfolding m(1) by simp
    then show ?thesis using m(2) set_remove1_subset by metis
  next
    case False
    then have "n' = n\<lparr>tunnels := tunnels n, copiers := copiers n\<rparr>" using assms by (auto simp: copyTunnel_def t Let_def)
    then show ?thesis by (intro exI [of _ "tunnels n"] exI [of _ "copiers n"] conjI) simp_all
  qed
qed

lemma world_inv_step:
  assumes "world_inv w" "world_step w es w'"
  shows "world_inv w'"
  using assms(2)
proof cases
  case (world_sync listen rules n)
  note f = sync_frame [OF world_sync(2)]
  have "world_inv (w\<lparr>tw_node := n, tw_rules := tw_rules w \<union> set rules\<rparr>)"
  proof (rule world_inv_shrink [OF assms(1)])
    fix l r assume "(l, r) \<in> set (accepting n)"
    then have "r \<in> snd ` set (accepting n)" by force
    then show "r \<in> snd ` set (accepting (tw_node w)) \<or> r \<in> tw_rules w \<union> set rules \<and> pf_source r = tn_id n"
      using f(7) unfolding f(5) by blast
  next
    show "snd ` set (forwardRules n) \<subseteq> tw_rules w \<union> set rules" using keyed_rules [of rules] unfolding f(4) by blast
  qed (use f in simp_all)
  then show ?thesis unfolding world_sync(1) .
next
  case (world_message ex src x n)
  show ?thesis
    using world_message(2)
  proof (cases rule: inner_step_frame)
    case (1 m pd)
    have "world_inv (w\<lparr>tw_node := n, tw_rules := tw_rules w\<rparr>)"
      by (rule world_inv_shrink [OF assms(1)]) (use 1 inv_rules [OF assms(1)] in \<open>auto simp: rev_image_eqI\<close>)
    then show ?thesis unfolding world_message(1) by simp
  next
    case (2 i host port)
    have "world_inv (w\<lparr>tw_node := n, tw_rules := tw_rules w\<rparr>)"
      by (rule world_inv_shrink [OF assms(1)]) (use 2 inv_rules [OF assms(1)] in \<open>auto simp: rev_image_eqI\<close>)
    then show ?thesis unfolding world_message(1) by simp
  qed
next
  case (world_dialled src i host port ok n)
  let ?d = "(src, i, host, port)" and ?n = "tw_node w"
  show ?thesis
  proof (cases ok)
    case True
    have r: "rightful w src (Dialled host port)" using inv_dial [OF assms(1) world_dialled(2)] by (simp add: rightful_def)
    have n: "n = ?n\<lparr>tunnels := (tunnels ?n)(tunnelKey src i \<mapsto> tn_next ?n), copiers := (tn_next ?n, src, i) # copiers ?n,
        dialling := remove1 ?d (dialling ?n), tn_next := tn_next ?n + 1\<rparr>"
      using world_dialled(3) True by (auto simp: tunnelDialled_def Let_def)
    show ?thesis unfolding world_dialled(1) n using True world_inv_open [OF assms(1) r refl map_le_refl, where i = i] by (simp add: set_remove1_subset)
  next
    case False
    then have n: "n = ?n\<lparr>dialling := remove1 ?d (dialling ?n)\<rparr>" using world_dialled(3) by (auto simp: tunnelDialled_def Let_def)
    have "world_inv (w\<lparr>tw_node := n, tw_rules := tw_rules w\<rparr>)"
    proof (rule world_inv_shrink [OF assms(1)])
      fix p j h q assume "(p, j, h, q) \<in> set (dialling n)"
      then show "(p, j, h, q) \<in> set (dialling ?n) \<or> allowed_tunnel p h q ?n" unfolding n using set_remove1_subset by fastforce
    qed (use n inv_rules [OF assms(1)] in \<open>auto simp: rev_image_eqI\<close>)
    then show ?thesis unfolding world_dialled(1) using False by simp
  qed
next
  case (world_accept l r i ok n)
  obtain m cs where n: "n = (tw_node w)\<lparr>tunnels := m, copiers := cs, dialling := dialling (tw_node w), tn_next := tn_next (tw_node w) + 1\<rparr>"
    and m: "m \<subseteq>\<^sub>m (tunnels (tw_node w))(tunnelKey (pf_target r) i \<mapsto> tn_next (tw_node w))"
    and cs: "set cs \<subseteq> insert (tn_next (tw_node w), pf_target r, i) (set (copiers (tw_node w)))"
    using openTunnel_shape [OF world_accept(3)] by blast
  show ?thesis unfolding world_accept(1) n
    by (rule world_inv_open [OF assms(1) inv_accept [OF assms(1) world_accept(2)] refl m cs order_refl])
next
  case (world_accept_ends l r)
  let ?n = "(tw_node w)\<lparr>accepting := remove1 (l, r) (accepting (tw_node w))\<rparr>"
  have "world_inv (w\<lparr>tw_node := ?n, tw_rules := tw_rules w\<rparr>)"
  proof (rule world_inv_shrink [OF assms(1)])
    fix l' r' assume "(l', r') \<in> set (accepting ?n)"
    then have "(l', r') \<in> set (accepting (tw_node w))" using set_remove1_subset by fastforce
    then show "r' \<in> snd ` set (accepting (tw_node w)) \<or> r' \<in> tw_rules w \<and> pf_source r' = tn_id ?n" by force
  qed (use inv_rules [OF assms(1)] in simp_all)
  then show ?thesis unfolding world_accept_ends(2) by simp
next
  case (world_copy t b eof ok n)
  obtain m cs where n: "n = (tw_node w)\<lparr>tunnels := m, copiers := cs\<rparr>" "m \<subseteq>\<^sub>m tunnels (tw_node w)" "set cs \<subseteq> set (copiers (tw_node w))"
    using copyTunnel_shape [OF world_copy(4)] by blast
  have "world_inv (w\<lparr>tw_node := n, tw_rules := tw_rules w\<rparr>)"
    by (rule world_inv_shrink [OF assms(1)]) (use n inv_rules [OF assms(1)] in \<open>auto simp: rev_image_eqI\<close>)
  then show ?thesis unfolding world_copy(1) by simp
qed

lemma world_inv_reach: "tunnel_reach n0 w \<Longrightarrow> world_inv w"
proof (induction rule: tunnel_reach.induct)
  case (reach_start n0)
  then show ?case by (simp add: world_inv_def)
next
  case (reach_step n0 w es w')
  then show ?case by (meson world_inv_step)
qed

section \<open>Whose connections a message reaches\<close>

definition no_colon :: "string \<Rightarrow> bool" where
  "no_colon p \<longleftrightarrow> CHR '':'' \<notin> set p"

lemma tunnelKey_inj: "no_colon p \<Longrightarrow> no_colon q \<Longrightarrow> tunnelKey p i = tunnelKey q j \<Longrightarrow> p = q \<and> i = j"
proof (induction p arbitrary: q)
  case Nil
  then show ?case by (cases q) (auto simp: tunnelKey_def no_colon_def)
next
  case (Cons a p)
  then show ?case by (cases q) (auto simp: tunnelKey_def no_colon_def)
qed

lemma inner_step_touches:
  assumes "inner_step ex src x n = Some (es, n')" "WriteConn c d \<in> set es \<or> CloseConn c \<in> set es"
  shows "\<exists>i. tunnels n (tunnelKey src i) = Some c"
proof (cases x)
  case (ServiceRequest rid b)
  then have "es = serviceRequest ex src rid b n" using assms(1) by (auto simp: inner_step_def)
  then show ?thesis using assms(2) by (auto simp: serviceRequest_def service_response_def split: option.splits if_splits sum.splits)
next
  case (TunnelOpen b)
  then have "tunnelOpen src b n = Some (es, n')" using assms(1) by (simp add: inner_step_def)
  then show ?thesis using assms(2) by (auto simp: tunnelOpen_def split: option.splits if_splits)
next
  case (TunnelData b)
  then have "es = tunnelData src b n" using assms(1) by (auto simp: inner_step_def)
  then show ?thesis using assms(2) by (auto simp: tunnelData_def split: option.splits if_splits)
next
  case (TunnelClose b)
  then have "es = fst (tunnelClose src b n)" using assms(1) by (simp add: inner_step_def)
  then show ?thesis using assms(2)
    by (cases "str_member b ''id'' = []") (auto simp: tunnelClose_def Let_def split: option.splits)
qed (use assms in \<open>auto simp: inner_step_def\<close>)

text \<open>C10: The tunnels of different peers are apart: a message of a peer writes to and closes only connections that
  were opened for that peer, and each such connection goes to the target of a rule that names the peer as its
  source and this node as its target, or was accepted on the listener of a rule from this node to that peer.\<close>

theorem tunnel_isolation:
  assumes "tunnel_reach n0 w" "\<forall>r \<in> tw_rules w. no_colon (pf_source r) \<and> no_colon (pf_target r)" "no_colon src"
    and "inner_step ex src x (tw_node w) = Some (es, n)" "WriteConn c d \<in> set es \<or> CloseConn c \<in> set es"
  shows "\<exists>i e. tw_origin w c = Some (src, i, e) \<and>
    (case e of
       Dialled host port \<Rightarrow> \<exists>r \<in> tw_rules w. pf_source r = src \<and> pf_target r = tn_id (tw_node w)
         \<and> pf_target_host r = host \<and> pf_target_port r = port
     | Accepted r \<Rightarrow> r \<in> tw_rules w \<and> pf_source r = tn_id (tw_node w) \<and> pf_target r = src)"
proof -
  note v = world_inv_reach [OF assms(1)]
  obtain i where "tunnels (tw_node w) (tunnelKey src i) = Some c" using inner_step_touches [OF assms(4,5)] by blast
  then obtain p j e where o: "tw_origin w c = Some (p, j, e)" "tunnelKey src i = tunnelKey p j"
    using inv_table [OF v] by blast
  have r: "rightful w p e" by (rule inv_right [OF v o(1)])
  then have "no_colon p" using assms(2) by (auto simp: rightful_def rule_for_def split: endpoint.splits)
  then have p: "p = src" using tunnelKey_inj [OF assms(3) _ o(2)] by blast
  have "case e of
       Dialled host port \<Rightarrow> \<exists>r \<in> tw_rules w. pf_source r = src \<and> pf_target r = tn_id (tw_node w)
         \<and> pf_target_host r = host \<and> pf_target_port r = port
     | Accepted r \<Rightarrow> r \<in> tw_rules w \<and> pf_source r = tn_id (tw_node w) \<and> pf_target r = src"
    using r p by (cases e) (simp_all add: rightful_def rule_for_def)
  then show ?thesis using o(1) p by blast
qed

section \<open>Calls of services\<close>

lemma call_members:
  "str_member (canon_obj [(''service'', JStr name), (''data'', JStr d)]) ''service'' = name"
  "str_member (canon_obj [(''service'', JStr name), (''data'', JStr d)]) ''data'' = d"
  "str_member (canon_obj [(''request_id'', JStr i), (''data'', JStr d)]) ''request_id'' = i"
  "str_member (canon_obj [(''request_id'', JStr i), (''data'', JStr d)]) ''data'' = d"
  "str_member (canon_obj [(''request_id'', JStr i), (''data'', JStr d)]) ''error'' = []"
  by (simp_all add: str_member_def get_str_def canon_obj_map_of)

lemma serviceRequest_answer:
  assumes "services n name = Some address" "''*'' \<in> allow n \<or> src \<in> allow n" "length data \<le> maxRequest"
    and "exchanged ex address data = Inr out"
  shows "serviceRequest ex src i (canon_obj [(''service'', JStr name), (''data'', JStr (B64Encode data))]) n
    = [Dial address, Send src ''SERVICE_RESPONSE'' [(''request_id'', JStr i), (''data'', JStr (B64Encode out))] []]"
  using assms by (auto simp: serviceRequest_def call_members B64Decode_Encode service_response_def)

lemma response_ends_call:
  assumes "pending n i = Some None"
  shows "inner_message j (''SERVICE_RESPONSE'', canon_obj [(''request_id'', JStr i), (''data'', JStr (B64Encode out))])
      = [ServiceResponse i (B64Encode out) []]
    \<and> (\<exists>n'. inner_step ex src (ServiceResponse i (B64Encode out) []) n = Some ([], n') \<and> fst (call_end True i n') = Inr out)"
  using assms by (simp add: inner_message_def call_members inner_step_def serviceResponse_def call_end_def B64Decode_Encode)


text \<open>Every frame of a sealed message that is sent under an id shows the id.\<close>

lemma encrypted_id:
  assumes "encrypted e dst typ body i n = Some (ok, es, n')" "Datagram c x f \<in> set es" "i \<noteq> []"
  shows "\<exists>p. EncodePacket (hmac e) p (dp_key n) = Inr f \<and> PacketID p = i"
proof -
  obtain k n1 where k: "peerKey e dst n = (Ok k, n1)"
    using assms(1,2) by (auto simp: encrypted_def split: prod.splits outcome.splits)
  then have n1: "dp_key n1 = dp_key n" by (auto simp: peerKey_def split: prod.splits outcome.splits)
  obtain s where s: "Seal (new_aead e) (rnd_nonce e) k (string_bytes (Marshal (JObj [(''type'', JStr typ), (''body'', JObj body)])))
       (string_bytes (dp_id n @ '':'' @ dst)) = Inr s"
    using assms(1,2) k by (auto simp: encrypted_def split: sum.splits)
  let ?p = "(dp_new e ''DATA'' (dp_id n) dst [(''sealed'', JObj (map (\<lambda>(k, v). (k, JStr v)) s))])\<lparr>PacketID := i\<rparr>"
  have "send_packet e ?p n1 = Some (ok, es, n')"
    using assms(1,3) k s by (simp add: encrypted_def Let_def)
  then have "encodePacketForPeer e ?p n1 = Inr f" using send_packet_frame assms(2) by fastforce
  then have "EncodePacket (hmac e) ?p (dp_key n) = Inr f" by (simp add: encodePacketForPeer_def dp_new_defs n1)
  then show ?thesis by (intro exI [of _ ?p]) simp
qed

text \<open>C36: The answer of a call need not come from the node that was called.  Every frame that carries the request
  shows the id of the call to the relays on its way, and a message of any other node that names this id is taken
  as the result of the call; what the called node answers after that changes nothing.\<close>

theorem service_answer_any_sender:
  assumes "call_begin i dst name data n = Inr ([Send d typ body i], n1)" "i \<noteq> []"
    and "encrypted e d typ body i A = Some (ok, es, A1)" "Datagram c x f \<in> set es"
  shows "(\<exists>p. EncodePacket (hmac e) p (dp_key A) = Inr f \<and> PacketID p = i)
    \<and> (\<exists>n2. inner_step ex other (ServiceResponse i (B64Encode forged) []) n1 = Some ([], n2)
      \<and> (\<forall>r err. inner_step ex d (ServiceResponse i r err) n2 = Some ([], n2)) \<and> fst (call_end True i n2) = Inr forged)"
proof -
  have n1: "n1 = n\<lparr>pending := (pending n)(i \<mapsto> None)\<rparr>" using assms(1) by (auto simp: call_begin_def split: option.splits)
  show ?thesis
    unfolding n1 using encrypted_id [OF assms(3,4,2)]
    by (simp add: inner_step_def serviceResponse_def call_end_def B64Decode_Encode)
qed

section \<open>Reused ids\<close>

text \<open>Nothing keeps a peer from opening two tunnels under one id: the second connection takes the place of the
  first, the end of the first closes the second, and the first stays open and out of the table.\<close>

lemma tunnel_id_reuse:
  assumes "tunnels n (tunnelKey src i) = Some c1" "c1 \<noteq> tn_next n"
    and "tunnelDialled True (src, i, host, port) n = (es, n1)" "copyTunnel [] True True (c1, src, i) n1 = (fs, n2)"
  shows "CloseConn (tn_next n) \<in> set fs \<and> CloseConn c1 \<notin> set fs \<and> tunnels n2 (tunnelKey src i) = None"
  using assms by (auto simp: tunnelDialled_def copyTunnel_def closeTunnel_def Let_def)

text \<open>The rules that arrive do not touch the tunnels that are open.\<close>

lemma removed_rule_keeps_tunnels:
  "syncPortForwards listen [] n = Some (es, n') \<Longrightarrow> tunnels n' = tunnels n \<and> copiers n' = copiers n"
  using sync_frame by blast

section \<open>Examples\<close>

definition sample_forward :: portForward where
  "sample_forward = \<lparr>pf_id = 1, pf_source = ''aaaaaaaa'', pf_listen_host = ''l'', pf_listen_port = 80, pf_target = ''bbbbbbbb'',
     pf_target_host = ''h'', pf_target_port = 8\<rparr>"

definition sample_tn :: "string \<Rightarrow> tunnel_node" where
  "sample_tn i = \<lparr>tn_id = i, tn_dir = [''aaaaaaaa'', ''bbbbbbbb''], services = [''web'' \<mapsto> ''h:1''], allow = {''*''}, pending = Map.empty,
     forwardRules = [], forwardListeners = [], tunnels = Map.empty, dialling = [], copiers = [], accepting = [], tn_next = 0\<rparr>"

definition sample_open :: "(string \<times> json) list" where
  "sample_open = [(''id'', JStr ''t''), (''host'', JStr ''h''), (''port'', JInt 8)]"

definition sample_tunnel :: tunnel_node where
  "sample_tunnel = (sample_tn ''bbbbbbbb'')\<lparr>forwardRules := [(1, sample_forward)], tunnels := [tunnelKey ''aaaaaaaa'' ''t'' \<mapsto> 0],
     copiers := [(0, ''aaaaaaaa'', ''t'')], tn_next := 1\<rparr>"

definition sample_world :: tunnel_world where
  "sample_world = \<lparr>tw_node = sample_tunnel, tw_rules = {sample_forward}, tw_origin = [0 \<mapsto> (''aaaaaaaa'', ''t'', Dialled ''h'' 8)]\<rparr>"

lemma sample_world_reach: "tunnel_reach (sample_tn ''bbbbbbbb'') sample_world"
proof -
  let ?n0 = "sample_tn ''bbbbbbbb''" and ?n1 = "(sample_tn ''bbbbbbbb'')\<lparr>forwardRules := [(1, sample_forward)]\<rparr>"
  let ?d = "(''aaaaaaaa'', ''t'', ''h'', 8 :: int)"
  let ?n2 = "?n1\<lparr>dialling := [?d]\<rparr>"
  let ?w0 = "\<lparr>tw_node = ?n0, tw_rules = {}, tw_origin = Map.empty\<rparr>"
  let ?w1 = "?w0\<lparr>tw_node := ?n1, tw_rules := tw_rules ?w0 \<union> set [sample_forward]\<rparr>"
  have r0: "tunnel_reach ?n0 ?w0" by (rule reach_start) (simp_all add: sample_tn_def)
  have s1: "syncPortForwards (\<lambda>_. True) [sample_forward] (tw_node ?w0) = Some ([], ?n1)"
    by (simp add: syncPortForwards_def keyed_def sample_tn_def sample_forward_def)
  have s2: "inner_step (\<lambda>_ _. Inl []) ''aaaaaaaa'' (TunnelOpen sample_open) (tw_node ?w1) = Some ([Dial (JoinHostPort ''h'' (itoa (nat 8)))], ?n2)"
    by (simp add: inner_step_def tunnelOpen_def tunnel_request_def sample_open_def str_member_def get_str_def get_num_def
        allowed_tunnel_def sample_tn_def sample_forward_def)
  have s3: "tunnelDialled True ?d (tw_node (?w1\<lparr>tw_node := ?n2\<rparr>)) = ([], sample_tunnel)"
    by (simp add: tunnelDialled_def sample_tunnel_def sample_tn_def)
  have "tunnel_reach ?n0 ((?w1\<lparr>tw_node := ?n2\<rparr>)\<lparr>tw_node := sample_tunnel,
      tw_origin := (if True then (tw_origin (?w1\<lparr>tw_node := ?n2\<rparr>))(tn_next (tw_node (?w1\<lparr>tw_node := ?n2\<rparr>)) \<mapsto> (''aaaaaaaa'', ''t'', Dialled ''h'' 8))
        else tw_origin (?w1\<lparr>tw_node := ?n2\<rparr>))\<rparr>)"
    by (rule reach_step [OF reach_step [OF reach_step [OF r0 world_sync [OF s1]] world_message [OF s2]] world_dialled [OF _ s3]]) simp
  then show ?thesis by (simp add: sample_world_def sample_tn_def)
qed

lemma tunnel_isolation_witness:
  "WriteConn 0 [] \<in> set (tunnelData ''aaaaaaaa'' [(''id'', JStr ''t''), (''data'', JStr [])] (tw_node sample_world))
    \<and> (\<exists>i e. tw_origin sample_world 0 = Some (''aaaaaaaa'', i, e))"
proof -
  let ?b = "[(''id'', JStr ''t''), (''data'', JStr [])]"
  have w: "WriteConn 0 [] \<in> set (tunnelData ''aaaaaaaa'' ?b (tw_node sample_world))"
    using B64Decode_Encode [of "[]"]
    by (simp add: tunnelData_def str_member_def get_str_def sample_world_def sample_tunnel_def)
  have "inner_step (\<lambda>_ _. Inl []) ''aaaaaaaa'' (TunnelData ?b) (tw_node sample_world)
      = Some (tunnelData ''aaaaaaaa'' ?b (tw_node sample_world), tw_node sample_world)" by (simp add: inner_step_def)
  from tunnel_isolation [OF sample_world_reach _ _ this disjI1 [OF w]]
  have "\<exists>i e. tw_origin sample_world 0 = Some (''aaaaaaaa'', i, e)"
    by (auto simp: sample_world_def sample_forward_def no_colon_def)
  then show ?thesis using w by blast
qed


text \<open>A relay with a message of its own against a call between two nodes.\<close>

definition sample_request :: "(string \<times> json) list" where
  "sample_request = [(''service'', JStr ''w''), (''data'', JStr (B64Encode []))]"

definition sample_call :: Packet where
  "sample_call = (dp_new (sample_denv 1) ''DATA'' (sample_id 1) (sample_id 2) [(''sealed'', JObj (sealed_members
     (case Seal (new_aead (sample_denv 1)) (rnd_nonce (sample_denv 1)) [5]
        (string_bytes (Marshal (JObj [(''type'', JStr ''SERVICE_REQUEST''), (''body'', JObj sample_request)])))
        (string_bytes (sample_id 1 @ '':'' @ sample_id 2)) of Inr s \<Rightarrow> s | Inl _ \<Rightarrow> [])))])\<lparr>PacketID := ''07''\<rparr>"

lemma sample_call_encodes: "\<exists>f. EncodePacket sample_hm sample_call key = Inr f"
  by (rule encodes_short, code_simp, simp)

lemma service_answer_any_sender_witness:
  "\<exists>n1 n2. call_begin ''07'' (sample_id 2) ''w'' [] ((sample_tn ''aaaaaaaa'')\<lparr>tn_dir := [sample_id 2]\<rparr>)
      = Inr ([Send (sample_id 2) ''SERVICE_REQUEST'' sample_request ''07''], n1)
    \<and> inner_step (\<lambda>_ _. Inl []) ''cccccccc'' (ServiceResponse ''07'' (B64Encode [6]) []) n1 = Some ([], n2)
    \<and> fst (call_end True ''07'' n2) = Inr [6]"
proof -
  let ?A = "sample_dp 1 2" and ?e = "sample_denv 1"
  obtain g where g: "EncodePacket sample_hm sample_call [1] = Inr g" using sample_call_encodes by blast
  obtain n1 where k: "peerKey ?e (sample_id 2) ?A = (Ok [5], n1)"
    using sample_keys [of 1 2 1] by (cases "peerKey ?e (sample_id 2) ?A") auto
  have n1: "dp_routes n1 = dp_routes ?A" "dp_table n1 = dp_table ?A" "dp_key n1 = dp_key ?A" "dp_nat n1 = dp_nat ?A" "dp_socks n1 = dp_socks ?A"
    using k by (auto simp: peerKey_def split: prod.splits outcome.splits)
  have d: "Type sample_call = ''DATA''" "Destination sample_call = sample_id 2" by (simp_all add: sample_call_def dp_new_defs)
  obtain A1 where s: "send_packet ?e sample_call n1 = Some (True, [Datagram 7 (1, 2) g], A1)"
    using sample_send [OF g, of n1 1] d n1 by (auto simp: sample_dp_def)
  have id: "dp_id ?A = sample_id 1" by (simp add: sample_dp_def)
  have e: "encrypted ?e (sample_id 2) ''SERVICE_REQUEST'' sample_request ''07'' ?A = Some (True, [Datagram 7 (1, 2) g], A1)"
    using s k id by (simp add: encrypted_def sample_call_def Seal_def sealed_members_def Let_def sample_denv_def)
  obtain m where c: "call_begin ''07'' (sample_id 2) ''w'' [] ((sample_tn ''aaaaaaaa'')\<lparr>tn_dir := [sample_id 2]\<rparr>)
      = Inr ([Send (sample_id 2) ''SERVICE_REQUEST'' sample_request ''07''], m)"
    by (simp add: call_begin_def resolve_def sample_request_def)
  show ?thesis
    using service_answer_any_sender [OF c _ e, where other = "''cccccccc''" and forged = "[6]" and ex = "\<lambda>_ _. Inl []"] c by auto
qed

end
