(* ===== verification/Rendezvous.thy ===== *)
theory Rendezvous
  imports Accounts "HOL-Library.AList"
begin

text \<open>
  The matching of two clients by a session that they agree on, the legacy interface of the coordinator for hole punching
  (\<^verbatim>\<open>rendezvousRegister\<close> and \<^verbatim>\<open>rendezvousWait\<close> of \<^verbatim>\<open>server/nodes.go\<close>).  The peers are a store, because the table and the
  requests that wait share them, and a request comes to an answer, a panic or a wait for a mutex.

  The lemmas show whom a client is told of, that two clients that meet are told of each other, and that a client that
  registers again after that leaves the mutex taken for good.
\<close>

section \<open>State\<close>

text \<open>A waiting client.  Its channel \<open>ready\<close> is only ever closed; \<open>rz_closed\<close> tells whether it is.\<close>

record rendezvousPeer =
  rz_endpoint :: string
  rz_natType :: string
  rz_status :: string
  rz_other :: string
  rz_otherNAT :: string
  rz_closed :: bool
  rz_created :: int

text \<open>The part of \<^verbatim>\<open>server\<close> that the rendezvous uses.  A peer is shared between the table and the requests that wait
  for it, so the peers are a store, numbered in the order of their creation, and \<open>rz_sessions\<close> holds their
  numbers by session and id.  \<open>rz_locked\<close> is a mutex that no one will release.  Times are in milliseconds.\<close>

record rendezvous =
  rz_store :: "rendezvousPeer list"
  rz_sessions :: "(string \<times> (string \<times> nat) list) list"
  rz_locked :: bool

record rz_request =
  rq_session :: string
  rq_id :: string
  rq_external :: string
  rq_nat :: string

abbreviation rendezvousSessionTTL :: int where "rendezvousSessionTTL \<equiv> 15 * 60 * 1000"
abbreviation rendezvousMaxSessions :: nat where "rendezvousMaxSessions \<equiv> 65536"

text \<open>What a request comes to: an answer with its status, a panic of the handler, or a wait for the mutex that does
  not end.\<close>

datatype 'a handled = Replied nat 'a | Panicked | Blocked

section \<open>Registration\<close>

definition rz_fresh :: "int \<Rightarrow> rendezvousPeer list \<Rightarrow> (string \<times> nat) list \<Rightarrow> bool" where
  "rz_fresh now st ps = list_ex (\<lambda>(i, h). now - rz_created (st ! h) < rendezvousSessionTTL) ps"

definition rz_prune :: "int \<Rightarrow> rendezvous \<Rightarrow> rendezvous" where
  "rz_prune now r = r\<lparr>rz_sessions := filter (\<lambda>(s, ps). rz_fresh now (rz_store r) ps) (rz_sessions r)\<rparr>"

text \<open>\<^verbatim>\<open>close\<close> of a closed channel is a panic; the store it leaves is returned with the verdict.\<close>

definition close_ready :: "nat \<Rightarrow> rendezvousPeer list \<Rightarrow> bool \<times> rendezvousPeer list" where
  "close_ready h st = (if rz_closed (st ! h) then (False, st) else (True, st[h := (st ! h)\<lparr>rz_closed := True\<rparr>]))"

definition pair_up :: "nat \<Rightarrow> nat \<Rightarrow> rendezvousPeer list \<Rightarrow> bool \<times> rendezvousPeer list" where
  "pair_up a b st =
     (let p = st ! a; q = st ! b in
      if rz_natType p = ''symmetric'' \<and> rz_natType q = ''symmetric'' then
        (let (ok, st1) = close_ready a (st[a := p\<lparr>rz_status := ''incompatible''\<rparr>]) in
         if ok then close_ready b (st1[b := (st1 ! b)\<lparr>rz_status := ''incompatible''\<rparr>]) else (False, st1))
      else
        (let st1 = st[a := p\<lparr>rz_status := ''ready'', rz_other := rz_endpoint q, rz_otherNAT := rz_natType q\<rparr>];
             st2 = st1[b := q\<lparr>rz_status := ''ready'', rz_other := rz_endpoint p, rz_otherNAT := rz_natType p\<rparr>];
             (ok, st3) = close_ready a st2 in
         if ok then close_ready b st3 else (False, st3)))"

definition rz_valid :: "rz_request \<Rightarrow> bool" where
  "rz_valid q \<longleftrightarrow> rq_session q \<noteq> [] \<and> length (rq_session q) \<le> 128 \<and> rq_id q \<noteq> [] \<and> length (rq_id q) \<le> 128
     \<and> rq_external q \<noteq> [] \<and> length (rq_external q) \<le> 256 \<and> (rq_nat q = ''cone'' \<or> rq_nat q = ''symmetric'')"

text \<open>\<open>swap\<close> is the order in which the two entries of a full session are met.  The mutex is released by a call, not
  by a deferred one, so a panic leaves it taken.\<close>

definition rendezvousRegister ::
    "int \<Rightarrow> bool \<Rightarrow> rz_request option \<Rightarrow> rendezvous \<Rightarrow> string handled \<times> rendezvous" where
  "rendezvousRegister now swap body r =
     (case body of
        None \<Rightarrow> (Replied 400 ''missing or invalid fields'', r)
      | Some q \<Rightarrow>
          if \<not> rz_valid q then (Replied 400 ''missing or invalid fields'', r)
          else if SplitHostPort (rq_external q) = None then (Replied 400 ''invalid external endpoint'', r)
          else if rz_locked r then (Blocked, r)
          else
            (let r1 = rz_prune now r in
             if map_of (rz_sessions r1) (rq_session q) = None \<and> rendezvousMaxSessions \<le> length (rz_sessions r1)
             then (Replied 429 ''rendezvous capacity reached; retry later'', r1)
             else
               (let ps = (case map_of (rz_sessions r1) (rq_session q) of None \<Rightarrow> [] | Some ps \<Rightarrow> ps);
                    h = length (rz_store r1);
                    p = \<lparr>rz_endpoint = rq_external q, rz_natType = rq_nat q, rz_status = ''waiting'', rz_other = [],
                         rz_otherNAT = [], rz_closed = False, rz_created = now\<rparr>;
                    ps1 = AList.update (rq_id q) h ps;
                    r2 = r1\<lparr>rz_store := rz_store r1 @ [p], rz_sessions := AList.update (rq_session q) ps1 (rz_sessions r1)\<rparr> in
                case map snd ps1 of
                  [a, b] \<Rightarrow>
                    (let (ok, st) = (if swap then pair_up b a (rz_store r2) else pair_up a b (rz_store r2)) in
                     if ok then (Replied 200 ''ok'', r2\<lparr>rz_store := st\<rparr>)
                     else (Panicked, r2\<lparr>rz_store := st, rz_locked := True\<rparr>))
                | _ \<Rightarrow> (Replied 200 ''ok'', r2))))"

section \<open>Waiting\<close>

text \<open>\<^verbatim>\<open>rendezvousWait\<close> up to its \<^verbatim>\<open>select\<close>, with the seconds it may wait, and what it answers after it.  \<open>closed\<close>
  tells whether the channel was found closed or the time had passed.\<close>

definition wait_timeout :: "int option \<Rightarrow> int" where
  "wait_timeout t = min 120 (case t of Some n \<Rightarrow> if n \<le> 0 then 30 else n | None \<Rightarrow> 30)"

definition wait_begin :: "string \<Rightarrow> string \<Rightarrow> rendezvous \<Rightarrow> string handled + nat" where
  "wait_begin session i r =
     (if rz_locked r then Inl Blocked
      else case map_of (rz_sessions r) session of
        None \<Rightarrow> Inl (Replied 400 ''not registered'')
      | Some ps \<Rightarrow> (case map_of ps i of None \<Rightarrow> Inl (Replied 400 ''not registered'') | Some h \<Rightarrow> Inr h))"

datatype rz_answer = TimedOut | Incompatible | Ready string string

definition wait_end :: "bool \<Rightarrow> nat \<Rightarrow> rendezvous \<Rightarrow> rz_answer handled" where
  "wait_end closed h r =
     (if \<not> closed then Replied 408 TimedOut
      else if rz_locked r then Blocked
      else let p = rz_store r ! h in
        if rz_status p = ''incompatible'' then Replied 409 Incompatible
        else if rz_status p \<noteq> ''ready'' then Replied 408 TimedOut
        else Replied 200 (Ready (rz_other p) (rz_otherNAT p)))"

section \<open>What is paired\<close>

text \<open>The runs of the server, with the session and the id of every peer of the store.\<close>

inductive rz_reach :: "rendezvous \<Rightarrow> (string \<times> string) list \<Rightarrow> bool" where
  rz_start: "rz_reach \<lparr>rz_store = [], rz_sessions = [], rz_locked = False\<rparr> []"
| rz_register: "rz_reach r hs \<Longrightarrow> rendezvousRegister now swap (Some q) r = (x, r') \<Longrightarrow> length (rz_store r') \<noteq> length (rz_store r)
    \<Longrightarrow> rz_reach r' (hs @ [(rq_session q, rq_id q)])"
| rz_other: "rz_reach r hs \<Longrightarrow> rendezvousRegister now swap body r = (x, r') \<Longrightarrow> length (rz_store r') = length (rz_store r)
    \<Longrightarrow> rz_reach r' hs"

text \<open>Peer \<open>h\<close> was given the address of \<open>k\<close>.\<close>

definition given :: "rendezvousPeer \<Rightarrow> rendezvousPeer \<Rightarrow> bool" where
  "given p q \<longleftrightarrow> rz_other p = rz_endpoint q \<and> rz_otherNAT p = rz_natType q
     \<and> \<not> (rz_natType p = ''symmetric'' \<and> rz_natType q = ''symmetric'')"

definition rz_ok :: "rendezvous \<Rightarrow> (string \<times> string) list \<Rightarrow> bool" where
  "rz_ok r hs \<longleftrightarrow> length hs = length (rz_store r)
     \<and> (\<forall>(s, ps) \<in> set (rz_sessions r). distinct (map fst ps) \<and> (\<forall>(i, h) \<in> set ps. h < length (rz_store r) \<and> hs ! h = (s, i)))
     \<and> (\<forall>h < length (rz_store r). rz_status (rz_store r ! h) = ''ready'' \<longrightarrow>
         (\<exists>k < length (rz_store r). fst (hs ! k) = fst (hs ! h) \<and> snd (hs ! k) \<noteq> snd (hs ! h) \<and> given (rz_store r ! h) (rz_store r ! k)))"

definition same_face :: "rendezvousPeer \<Rightarrow> rendezvousPeer \<Rightarrow> bool" where
  "same_face p q \<longleftrightarrow> rz_endpoint p = rz_endpoint q \<and> rz_natType p = rz_natType q \<and> rz_created p = rz_created q"

lemma close_ready_shape: "h < length st \<Longrightarrow> close_ready h st = (\<not> rz_closed (st ! h), st[h := (st ! h)\<lparr>rz_closed := True\<rparr>])"
  by (auto simp: close_ready_def intro!: nth_equalityI [symmetric] simp: nth_list_update)

definition paired :: "rendezvousPeer \<Rightarrow> rendezvousPeer \<Rightarrow> rendezvousPeer \<Rightarrow> bool" where
  "paired p' p q \<longleftrightarrow> p' = p \<or> same_face p' p \<and> (rz_status p' = ''ready'' \<longrightarrow> given p' q)"

lemma update_back: "a \<noteq> b \<Longrightarrow> st[a := x, b := y, a := z] = st[a := z, b := y]"
  by (metis list_update_swap list_update_overwrite)

lemma pair_up_symmetric:
  assumes "a < length st" "b < length st" "a \<noteq> b" "rz_natType (st ! a) = ''symmetric'' \<and> rz_natType (st ! b) = ''symmetric''"
  shows "pair_up a b st = (if rz_closed (st ! a) then (False, st[a := (st ! a)\<lparr>rz_status := ''incompatible'', rz_closed := True\<rparr>])
    else (\<not> rz_closed (st ! b), st[a := (st ! a)\<lparr>rz_status := ''incompatible'', rz_closed := True\<rparr>,
           b := (st ! b)\<lparr>rz_status := ''incompatible'', rz_closed := True\<rparr>]))"
  using assms by (simp add: pair_up_def close_ready_shape Let_def)

lemma pair_up_compatible:
  assumes "a < length st" "b < length st" "a \<noteq> b" "\<not> (rz_natType (st ! a) = ''symmetric'' \<and> rz_natType (st ! b) = ''symmetric'')"
  shows "pair_up a b st =
    (let p = (st ! a)\<lparr>rz_status := ''ready'', rz_other := rz_endpoint (st ! b), rz_otherNAT := rz_natType (st ! b), rz_closed := True\<rparr>;
         q = (st ! b)\<lparr>rz_status := ''ready'', rz_other := rz_endpoint (st ! a), rz_otherNAT := rz_natType (st ! a)\<rparr> in
     if rz_closed (st ! a) then (False, st[a := p, b := q]) else (\<not> rz_closed (st ! b), st[a := p, b := q\<lparr>rz_closed := True\<rparr>]))"
  unfolding pair_up_def Let_def if_not_P [OF assms(4)] using assms(1-3) by (simp add: close_ready_shape update_back)

lemma pair_up_shape:
  assumes "pair_up a b st = (ok, st')" "a < length st" "b < length st" "a \<noteq> b"
  shows "\<exists>p q. st' = st[a := p, b := q] \<and> paired p (st ! a) (st ! b) \<and> paired q (st ! b) (st ! a)"
proof (cases "rz_natType (st ! a) = ''symmetric'' \<and> rz_natType (st ! b) = ''symmetric''")
  case True
  let ?p = "(st ! a)\<lparr>rz_status := ''incompatible'', rz_closed := True\<rparr>" and ?q = "(st ! b)\<lparr>rz_status := ''incompatible'', rz_closed := True\<rparr>"
  have p: "paired ?p (st ! a) (st ! b)" "paired ?q (st ! b) (st ! a)" "paired (st ! b) (st ! b) (st ! a)"
    by (simp_all add: paired_def same_face_def)
  have "st' = st[a := ?p, b := st ! b] \<or> st' = st[a := ?p, b := ?q]"
  proof (cases "rz_closed (st ! a)")
    case True
    then have "st' = st[a := ?p]" using assms(1) pair_up_symmetric [OF assms(2-4) \<open>_ \<and> _\<close>] by simp
    then show ?thesis using list_update_id [of "st[a := ?p]" b] assms(4) by simp
  next
    case False
    then show ?thesis using assms(1) pair_up_symmetric [OF assms(2-4) \<open>_ \<and> _\<close>] by simp
  qed
  then show ?thesis using p by blast
next
  case False
  let ?p = "(st ! a)\<lparr>rz_status := ''ready'', rz_other := rz_endpoint (st ! b), rz_otherNAT := rz_natType (st ! b), rz_closed := True\<rparr>"
  let ?q = "(st ! b)\<lparr>rz_status := ''ready'', rz_other := rz_endpoint (st ! a), rz_otherNAT := rz_natType (st ! a)\<rparr>"
  have p: "paired ?p (st ! a) (st ! b)" "paired ?q (st ! b) (st ! a)" "paired (?q\<lparr>rz_closed := True\<rparr>) (st ! b) (st ! a)"
    using False by (auto simp: paired_def same_face_def given_def)
  have "st' = st[a := ?p, b := ?q] \<or> st' = st[a := ?p, b := ?q\<lparr>rz_closed := True\<rparr>]"
    using assms(1) pair_up_compatible [OF assms(2-4) False] by (auto simp: Let_def split: if_splits)
  then show ?thesis using p by blast
qed

text \<open>What a registration that reaches the table does: it adds one peer, and a full pair is given to each other.\<close>

definition rz_peer :: "int \<Rightarrow> rz_request \<Rightarrow> rendezvousPeer" where
  "rz_peer now q = \<lparr>rz_endpoint = rq_external q, rz_natType = rq_nat q, rz_status = ''waiting'', rz_other = [],
     rz_otherNAT = [], rz_closed = False, rz_created = now\<rparr>"

definition rz_entries :: "string \<Rightarrow> rendezvous \<Rightarrow> (string \<times> nat) list" where
  "rz_entries session r = (case map_of (rz_sessions r) session of None \<Rightarrow> [] | Some ps \<Rightarrow> ps)"

definition rz_paired :: "bool \<Rightarrow> nat \<Rightarrow> nat \<Rightarrow> rendezvous \<Rightarrow> string handled \<times> rendezvous" where
  "rz_paired swap a b r =
     (case (if swap then pair_up b a (rz_store r) else pair_up a b (rz_store r)) of
        (ok, st) \<Rightarrow> if ok then (Replied 200 ''ok'', r\<lparr>rz_store := st\<rparr>) else (Panicked, r\<lparr>rz_store := st, rz_locked := True\<rparr>))"

definition rz_added :: "int \<Rightarrow> rz_request \<Rightarrow> (string \<times> nat) list \<Rightarrow> rendezvous \<Rightarrow> rendezvous" where
  "rz_added now q ps r = (rz_prune now r)\<lparr>rz_store := rz_store r @ [rz_peer now q],
     rz_sessions := AList.update (rq_session q) ps (rz_sessions (rz_prune now r))\<rparr>"

lemma register_admitted:
  assumes "rz_valid q" "SplitHostPort (rq_external q) \<noteq> None" "\<not> rz_locked r"
    and "\<not> (map_of (rz_sessions (rz_prune now r)) (rq_session q) = None \<and> rendezvousMaxSessions \<le> length (rz_sessions (rz_prune now r)))"
    and "ps = AList.update (rq_id q) (length (rz_store r)) (rz_entries (rq_session q) (rz_prune now r))"
  shows "rendezvousRegister now swap (Some q) r =
    (case map snd ps of [a, b] \<Rightarrow> rz_paired swap a b (rz_added now q ps r) | _ \<Rightarrow> (Replied 200 ''ok'', rz_added now q ps r))"
proof -
  have st: "rz_store (rz_prune now r) = rz_store r" by (simp add: rz_prune_def)
  show ?thesis
    unfolding rendezvousRegister_def option.case Let_def st rz_peer_def [symmetric] rz_entries_def [symmetric]
      if_not_P [OF assms(4)] if_not_P [OF assms(2)] if_not_P [OF assms(3)] assms(5) [symmetric] rz_added_def [symmetric] rz_paired_def
    using assms(1) by simp
qed

lemma register_cases:
  assumes "rendezvousRegister now swap body r = (x, r')"
  obtains "r' = r" | "r' = rz_prune now r"
  | q ps where "body = Some q" "ps = AList.update (rq_id q) (length (rz_store r)) (rz_entries (rq_session q) (rz_prune now r))"
      "rz_sessions r' = AList.update (rq_session q) ps (rz_sessions (rz_prune now r))"
      "rz_store r' = rz_store r @ [rz_peer now q] \<or> (\<exists>a b ok. map snd ps = [a, b] \<and>
         ((ok, rz_store r') = pair_up a b (rz_store r @ [rz_peer now q]) \<or> (ok, rz_store r') = pair_up b a (rz_store r @ [rz_peer now q])))"
proof -
  let ?r = "rz_prune now r"
  have st: "rz_store ?r = rz_store r" by (simp add: rz_prune_def)
  consider "r' = r" | "r' = ?r" | q where "body = Some q" "rz_valid q" "SplitHostPort (rq_external q) \<noteq> None" "\<not> rz_locked r"
    "\<not> (map_of (rz_sessions ?r) (rq_session q) = None \<and> rendezvousMaxSessions \<le> length (rz_sessions ?r))"
    using assms by (auto simp: rendezvousRegister_def Let_def split: option.splits if_splits)
  then show thesis
  proof cases
    case (3 q)
    let ?ps = "AList.update (rq_id q) (length (rz_store r)) (rz_entries (rq_session q) ?r)"
    let ?r2 = "rz_added now q ?ps r"
    have r2: "rz_store ?r2 = rz_store r @ [rz_peer now q]" "rz_sessions ?r2 = AList.update (rq_session q) ?ps (rz_sessions ?r)"
      by (simp_all add: rz_added_def)
    have e: "(x, r') = (case map snd ?ps of [a, b] \<Rightarrow> rz_paired swap a b ?r2 | _ \<Rightarrow> (Replied 200 ''ok'', ?r2))"
      unfolding assms [symmetric] 3(1) by (rule register_admitted [OF 3(2-5) refl])
    show thesis
    proof (cases "\<exists>a b. map snd ?ps = [a, b]")
      case True
      then obtain a b where ab: "map snd ?ps = [a, b]" by (elim exE)
      define pu where "pu = (if swap then pair_up b a (rz_store ?r2) else pair_up a b (rz_store ?r2))"
      obtain ok st' where p: "pu = (ok, st')" by (cases pu)
      have "(x, r') = rz_paired swap a b ?r2" using e unfolding ab by simp
      then have "r' = ?r2\<lparr>rz_store := st'\<rparr> \<or> r' = ?r2\<lparr>rz_store := st', rz_locked := True\<rparr>"
        unfolding rz_paired_def pu_def [symmetric] p by (cases ok) simp_all
      then have r': "rz_store r' = st'" "rz_sessions r' = AList.update (rq_session q) ?ps (rz_sessions ?r)" using r2 by auto
      have pq: "(ok, st') = pair_up a b (rz_store r @ [rz_peer now q]) \<or> (ok, st') = pair_up b a (rz_store r @ [rz_peer now q])"
        using p unfolding pu_def r2 by (cases swap) auto
      show thesis
      proof (rule that(3) [OF 3(1) refl r'(2)], rule disjI2, intro exI conjI)
        show "map snd ?ps = [a, b]" by (rule ab)
        show "(ok, rz_store r') = pair_up a b (rz_store r @ [rz_peer now q]) \<or> (ok, rz_store r') = pair_up b a (rz_store r @ [rz_peer now q])"
          unfolding r'(1) by (rule pq)
      qed
    next
      case False
      then have "r' = ?r2" using e by (auto split: list.splits)
      then show thesis using r2 by (intro that(3) [OF 3(1) refl]) simp_all
    qed
  qed (rule that(1), assumption, rule that(2), assumption)
qed

lemma rz_prune_facts: "rz_store (rz_prune now r) = rz_store r" "set (rz_sessions (rz_prune now r)) \<subseteq> set (rz_sessions r)"
  by (auto simp: rz_prune_def)

lemma set_AList_update: "set (AList.update k v xs) \<subseteq> insert (k, v) (set xs)"
  by (induction xs) auto

lemma rz_ok_mono:
  assumes "rz_ok r hs" "rz_store r' = rz_store r" "set (rz_sessions r') \<subseteq> set (rz_sessions r)"
  shows "rz_ok r' hs"
proof -
  have "\<forall>(s, ps) \<in> set (rz_sessions r'). distinct (map fst ps) \<and> (\<forall>(i, h) \<in> set ps. h < length (rz_store r) \<and> hs ! h = (s, i))"
    using assms(1,3) unfolding rz_ok_def by blast
  then show ?thesis using assms(1,2) by (simp add: rz_ok_def)
qed

lemma rz_ok_register:
  assumes "rz_ok r hs" "ps = AList.update (rq_id q) (length (rz_store r)) (rz_entries (rq_session q) r)"
    and "rz_sessions r' = AList.update (rq_session q) ps (rz_sessions r)"
    and "rz_store r' = rz_store r @ [rz_peer now q] \<or> (\<exists>a b ok. map snd ps = [a, b] \<and>
         ((ok, rz_store r') = pair_up a b (rz_store r @ [rz_peer now q]) \<or> (ok, rz_store r') = pair_up b a (rz_store r @ [rz_peer now q])))"
  shows "rz_ok r' (hs @ [(rq_session q, rq_id q)]) \<and> length (rz_store r') = Suc (length (rz_store r))"
proof -
  let ?st = "rz_store r @ [rz_peer now q]" and ?hs = "hs @ [(rq_session q, rq_id q)]" and ?n = "length (rz_store r)"
  have n: "length hs = ?n" using assms(1) by (simp add: rz_ok_def)
  have old: "distinct (map fst es) \<and> (\<forall>(i, h) \<in> set es. h < Suc ?n \<and> ?hs ! h = (s, i))" if "(s, es) \<in> set (rz_sessions r)" for s es
    using assms(1) that n by (fastforce simp: rz_ok_def nth_append)
  have entries: "distinct (map fst (rz_entries (rq_session q) r)) \<and>
      (\<forall>(i, h) \<in> set (rz_entries (rq_session q) r). h < Suc ?n \<and> ?hs ! h = (rq_session q, i))"
  proof (cases "map_of (rz_sessions r) (rq_session q)")
    case (Some es)
    then show ?thesis using old [OF map_of_SomeD [OF Some]] by (simp add: rz_entries_def)
  qed (simp add: rz_entries_def)
  have ps: "distinct (map fst ps) \<and> (\<forall>(i, h) \<in> set ps. h < Suc ?n \<and> ?hs ! h = (rq_session q, i))"
  proof
    show "distinct (map fst ps)" unfolding assms(2) using entries by (intro distinct_update) simp
    show "\<forall>(i, h) \<in> set ps. h < Suc ?n \<and> ?hs ! h = (rq_session q, i)"
    proof clarify
      fix i h assume "(i, h) \<in> set ps"
      then have "(i, h) = (rq_id q, ?n) \<or> (i, h) \<in> set (rz_entries (rq_session q) r)"
        unfolding assms(2) using set_AList_update by fast
      then show "h < Suc ?n \<and> ?hs ! h = (rq_session q, i)"
      proof
        assume "(i, h) = (rq_id q, ?n)"
        then show ?thesis using n by (simp add: nth_append)
      next
        assume "(i, h) \<in> set (rz_entries (rq_session q) r)"
        then show ?thesis using entries by blast
      qed
    qed
  qed
  have tbl: "\<forall>(s, es) \<in> set (rz_sessions r'). distinct (map fst es) \<and> (\<forall>(i, h) \<in> set es. h < Suc ?n \<and> ?hs ! h = (s, i))"
  proof clarify
    fix s es assume "(s, es) \<in> set (rz_sessions r')"
    then have "(s, es) = (rq_session q, ps) \<or> (s, es) \<in> set (rz_sessions r)"
      unfolding assms(3) using set_AList_update by fast
    then show "distinct (map fst es) \<and> (\<forall>(i, h) \<in> set es. h < Suc ?n \<and> ?hs ! h = (s, i))"
      using ps old by (elim disjE) blast+
  qed
  define good where "good st \<longleftrightarrow> length st = Suc ?n \<and> (\<forall>h < Suc ?n. same_face (st ! h) (?st ! h)) \<and>
    (\<forall>h < Suc ?n. rz_status (st ! h) = ''ready'' \<longrightarrow> (\<exists>k < Suc ?n. fst (?hs ! k) = fst (?hs ! h) \<and> snd (?hs ! k) \<noteq> snd (?hs ! h) \<and> given (st ! h) (?st ! k)))" for st
  have base: "good ?st"
    unfolding good_def
  proof (intro conjI allI impI)
    fix h assume h: "h < Suc ?n" "rz_status (?st ! h) = ''ready''"
    then have "h < ?n" by (cases "h = ?n") (simp_all add: rz_peer_def)
    then obtain k where "k < ?n" "fst (hs ! k) = fst (hs ! h)" "snd (hs ! k) \<noteq> snd (hs ! h)" "given (rz_store r ! h) (rz_store r ! k)"
      using assms(1) h(2) unfolding rz_ok_def nth_append by auto
    then show "\<exists>k < Suc ?n. fst (?hs ! k) = fst (?hs ! h) \<and> snd (?hs ! k) \<noteq> snd (?hs ! h) \<and> given (?st ! h) (?st ! k)"
      using \<open>h < ?n\<close> n by (intro exI [of _ k]) (simp add: nth_append)
  qed (simp_all add: same_face_def)
  have pair: "good st'" if p: "(ok, st') = pair_up a b ?st" and ab: "a < Suc ?n" "b < Suc ?n" "a \<noteq> b"
      and hs: "fst (?hs ! a) = fst (?hs ! b)" "snd (?hs ! a) \<noteq> snd (?hs ! b)" for ok st' a b
  proof -
    obtain x y where st: "st' = ?st[a := x, b := y]" "paired x (?st ! a) (?st ! b)" "paired y (?st ! b) (?st ! a)"
      using pair_up_shape [OF p [symmetric]] ab by auto
    have at: "st' ! h = (if h = b then y else if h = a then x else ?st ! h)" if "h < Suc ?n" for h
      using ab that by (simp add: st(1) nth_list_update)
    show ?thesis
      unfolding good_def
    proof (intro conjI allI impI)
      fix h assume h: "h < Suc ?n"
      show "same_face (st' ! h) (?st ! h)" using st(2,3) unfolding at [OF h] paired_def by (auto simp: same_face_def)
    next
      fix h assume h: "h < Suc ?n" "rz_status (st' ! h) = ''ready''"
      show "\<exists>k < Suc ?n. fst (?hs ! k) = fst (?hs ! h) \<and> snd (?hs ! k) \<noteq> snd (?hs ! h) \<and> given (st' ! h) (?st ! k)"
      proof (cases "st' ! h = ?st ! h")
        case True
        then show ?thesis using base h unfolding good_def by simp
      next
        case False
        then consider "h = b" "given y (?st ! a)" | "h = a" "h \<noteq> b" "given x (?st ! b)"
          using st(2,3) h at [OF h(1)] by (cases "h = b"; cases "h = a") (auto simp: paired_def)
        then show ?thesis
        proof cases
          case 1
          then show ?thesis using ab hs at [OF h(1)] by (intro exI [of _ a]) simp
        next
          case 2
          then show ?thesis using ab hs at [OF h(1)] by (intro exI [of _ b]) simp
        qed
      qed
    qed (simp add: st(1))
  qed
  have "good (rz_store r')"
    using assms(4)
  proof (elim disjE exE conjE)
    fix a b ok assume ab: "map snd ps = [a, b]"
    then obtain i j where ij: "ps = [(i, a), (j, b)]" by (auto simp: map_eq_Cons_conv)
    have m: "a < Suc ?n" "b < Suc ?n" "?hs ! a = (rq_session q, i)" "?hs ! b = (rq_session q, j)" "i \<noteq> j" using ps unfolding ij by auto
    then have ne: "a \<noteq> b" by auto
    { assume "(ok, rz_store r') = pair_up a b ?st"
      from pair [OF this m(1,2) ne] show "good (rz_store r')" using m by simp
    next
      assume "(ok, rz_store r') = pair_up b a ?st"
      from pair [OF this m(2,1) ne [symmetric]] show "good (rz_store r')" using m by simp }
  qed (use base in simp)
  then have g: "length (rz_store r') = Suc ?n" "\<And>h. h < Suc ?n \<Longrightarrow> same_face (rz_store r' ! h) (?st ! h)"
    "\<And>h. h < Suc ?n \<Longrightarrow> rz_status (rz_store r' ! h) = ''ready'' \<Longrightarrow>
       \<exists>k < Suc ?n. fst (?hs ! k) = fst (?hs ! h) \<and> snd (?hs ! k) \<noteq> snd (?hs ! h) \<and> given (rz_store r' ! h) (?st ! k)"
    unfolding good_def by blast+
  have "given p (?st ! k) = given p (rz_store r' ! k)" if "k < Suc ?n" for p k
    using g(2) [OF that] by (auto simp: given_def same_face_def)
  then have "\<forall>h < Suc ?n. rz_status (rz_store r' ! h) = ''ready'' \<longrightarrow>
       (\<exists>k < Suc ?n. fst (?hs ! k) = fst (?hs ! h) \<and> snd (?hs ! k) \<noteq> snd (?hs ! h) \<and> given (rz_store r' ! h) (rz_store r' ! k))"
    using g(3) by blast
  then show ?thesis using tbl g(1) n by (simp add: rz_ok_def)
qed

lemma rz_reach_ok: "rz_reach r hs \<Longrightarrow> rz_ok r hs"
proof (induction rule: rz_reach.induct)
  case rz_start
  show ?case by (simp add: rz_ok_def)
next
  case (rz_register r hs now swap q x r')
  note f = rz_prune_facts [of now r]
  have ok: "rz_ok (rz_prune now r) hs" by (rule rz_ok_mono [OF rz_register.IH f])
  show ?case
    using rz_register.hyps(2)
  proof (cases rule: register_cases)
    case (3 q' ps)
    then show ?thesis using rz_ok_register [OF ok, of ps q r' now] by (simp add: f(1))
  qed (use rz_register.hyps(3) f in simp_all)
next
  case (rz_other r hs now swap body x r')
  note f = rz_prune_facts [of now r]
  have ok: "rz_ok (rz_prune now r) hs" by (rule rz_ok_mono [OF rz_other.IH f])
  show ?case
    using rz_other.hyps(2)
  proof (cases rule: register_cases)
    case (3 q ps)
    then have "length (rz_store r') = Suc (length (rz_store r))"
      using rz_ok_register [OF ok, of ps q r' now] by (simp add: f(1))
    then show ?thesis using rz_other.hyps(3) by simp
  qed (use rz_other.IH ok in simp_all)
qed

lemma map_of_filter_hit: "map_of xs k = Some v \<Longrightarrow> P (k, v) \<Longrightarrow> map_of (filter P xs) k = Some v"
  by (induction xs) (auto split: if_splits)

lemma register_known_session:
  assumes "map_of (rz_sessions r) (rq_session q) = Some es" "rz_fresh now (rz_store r) es" "\<not> rz_locked r"
    and "rz_valid q" "SplitHostPort (rq_external q) \<noteq> None" "map snd (AList.update (rq_id q) (length (rz_store r)) es) = [a, b]"
  shows "rendezvousRegister now swap (Some q) r
    = rz_paired swap a b (rz_added now q (AList.update (rq_id q) (length (rz_store r)) es) r)"
proof -
  have m: "map_of (rz_sessions (rz_prune now r)) (rq_session q) = Some es"
    unfolding rz_prune_def using assms(1,2) by (simp add: map_of_filter_hit)
  then have "rz_entries (rq_session q) (rz_prune now r) = es" by (simp add: rz_entries_def)
  then show ?thesis using register_admitted [OF assms(4,5,3), of now _ swap] m assms(6) by simp
qed

lemma added_facts: "rz_store (rz_added now q ps r) = rz_store r @ [rz_peer now q]" "rz_locked (rz_added now q ps r) = rz_locked r"
  "map_of (rz_sessions (rz_added now q ps r)) (rq_session q) = Some ps"
  by (simp_all add: rz_added_def rz_prune_def update_conv)

lemma pair_up_closed:
  assumes "a < length st" "b < length st" "a \<noteq> b" "rz_closed (st ! a) \<or> rz_closed (st ! b)"
  shows "\<not> fst (pair_up a b st)"
proof (cases "rz_natType (st ! a) = ''symmetric'' \<and> rz_natType (st ! b) = ''symmetric''")
  case True
  then show ?thesis using pair_up_symmetric [OF assms(1-3)] assms(4) by auto
next
  case False
  then show ?thesis using pair_up_compatible [OF assms(1-3)] assms(4) by (auto simp: Let_def)
qed

text \<open>The answers of two peers that were paired.\<close>

lemma wait_paired:
  assumes "a < length (rz_store r)" "b < length (rz_store r)" "a \<noteq> b" "\<not> rz_closed (rz_store r ! a)" "\<not> rz_closed (rz_store r ! b)" "\<not> rz_locked r"
  shows "\<exists>r'. rz_paired swap a b r = (Replied 200 ''ok'', r') \<and> rz_sessions r' = rz_sessions r \<and> \<not> rz_locked r' \<and>
    (if rz_natType (rz_store r ! a) = ''symmetric'' \<and> rz_natType (rz_store r ! b) = ''symmetric''
     then wait_end True a r' = Replied 409 Incompatible \<and> wait_end True b r' = Replied 409 Incompatible
     else wait_end True a r' = Replied 200 (Ready (rz_endpoint (rz_store r ! b)) (rz_natType (rz_store r ! b)))
       \<and> wait_end True b r' = Replied 200 (Ready (rz_endpoint (rz_store r ! a)) (rz_natType (rz_store r ! a))))"
proof (cases "rz_natType (rz_store r ! a) = ''symmetric'' \<and> rz_natType (rz_store r ! b) = ''symmetric''")
  case True
  then show ?thesis
    using pair_up_symmetric [OF assms(1-3) True] pair_up_symmetric [OF assms(2,1) assms(3) [symmetric]] assms
    by (cases swap) (simp_all add: rz_paired_def wait_end_def)
next
  case False
  then have F: "\<not> (rz_natType (rz_store r ! b) = ''symmetric'' \<and> rz_natType (rz_store r ! a) = ''symmetric'')" by blast
  show ?thesis
    unfolding if_not_P [OF False]
    using pair_up_compatible [OF assms(1-3) False] pair_up_compatible [OF assms(2,1) assms(3) [symmetric] F] assms
    by (cases swap) (simp_all add: rz_paired_def wait_end_def Let_def)
qed

text \<open>C37: A client that waits is only ever given the address that another client registered under the same session
  and another id, with the NAT type that client stated, and never when both are behind symmetric NATs.\<close>

theorem rendezvous_sound:
  assumes "rz_reach r hs" "h < length (rz_store r)"
    and "wait_end closed h r = Replied 200 (Ready address nat_type)"
  shows "\<exists>k < length (rz_store r). fst (hs ! k) = fst (hs ! h) \<and> snd (hs ! k) \<noteq> snd (hs ! h)
    \<and> rz_endpoint (rz_store r ! k) = address \<and> rz_natType (rz_store r ! k) = nat_type
    \<and> \<not> (rz_natType (rz_store r ! h) = ''symmetric'' \<and> nat_type = ''symmetric'')"
proof -
  have "rz_status (rz_store r ! h) = ''ready''" "address = rz_other (rz_store r ! h)" "nat_type = rz_otherNAT (rz_store r ! h)"
    using assms(3) by (auto simp: wait_end_def Let_def split: if_splits)
  moreover obtain k where "k < length (rz_store r)" "fst (hs ! k) = fst (hs ! h)" "snd (hs ! k) \<noteq> snd (hs ! h)"
    "given (rz_store r ! h) (rz_store r ! k)"
    using rz_reach_ok [OF assms(1)] assms(2) calculation(1) unfolding rz_ok_def by blast
  ultimately show ?thesis by (intro exI [of _ k]) (simp add: given_def)
qed


text \<open>C38: A client that registers again after its session was matched closes a channel twice.  The handler panics
  with the mutex taken, and from then on no registration and no wait is ever answered.\<close>

theorem rendezvous_deadlock:
  assumes "map_of (rz_sessions r) (rq_session q) = Some [(i, a), (j, b)]" "\<not> rz_locked r" "a < length (rz_store r)" "b < length (rz_store r)"
    and "i \<noteq> j" "rz_closed (rz_store r ! a)" "rz_closed (rz_store r ! b)" "now - rz_created (rz_store r ! a) < rendezvousSessionTTL"
    and "rz_valid q" "SplitHostPort (rq_external q) \<noteq> None" "rq_id q = i \<or> rq_id q = j"
  shows "\<exists>r'. rendezvousRegister now swap (Some q) r = (Panicked, r')
    \<and> (\<forall>later swap' q'. rz_valid q' \<longrightarrow> SplitHostPort (rq_external q') \<noteq> None \<longrightarrow>
         rendezvousRegister later swap' (Some q') r' = (Blocked, r'))
    \<and> (\<forall>session k. wait_begin session k r' = Inl Blocked) \<and> (\<forall>h. wait_end True h r' = Blocked)"
proof -
  let ?n = "length (rz_store r)" and ?es = "[(i, a), (j, b)]"
  let ?ps = "AList.update (rq_id q) ?n ?es"
  let ?r = "rz_added now q ?ps r"
  obtain c d where ps: "map snd ?ps = [c, d]" and cd: "c \<noteq> d" "c < Suc ?n" "d < Suc ?n"
    and closed: "rz_closed (rz_store ?r ! c) \<or> rz_closed (rz_store ?r ! d)"
    using assms(3-7,11) by (auto simp: added_facts nth_append)
  have reg: "rendezvousRegister now swap (Some q) r = rz_paired swap c d ?r"
    by (rule register_known_session [OF assms(1) _ assms(2,9,10) ps]) (use assms(8) in \<open>simp add: rz_fresh_def\<close>)
  have "\<not> fst (pair_up c d (rz_store ?r))" "\<not> fst (pair_up d c (rz_store ?r))"
    by (rule pair_up_closed; use cd closed in \<open>auto simp: added_facts\<close>)+
  then obtain r' where r': "rz_paired swap c d ?r = (Panicked, r')" "rz_locked r'"
  proof -
    obtain ok st where p: "(if swap then pair_up d c (rz_store ?r) else pair_up c d (rz_store ?r)) = (ok, st)" by fastforce
    then have "\<not> ok" using \<open>\<not> fst (pair_up c d _)\<close> \<open>\<not> fst (pair_up d c _)\<close> by (cases swap) simp_all
    then have "rz_paired swap c d ?r = (Panicked, ?r\<lparr>rz_store := st, rz_locked := True\<rparr>)" unfolding rz_paired_def p by simp
    then show thesis by (rule that) simp
  qed
  have b: "rendezvousRegister later swap' (Some q') r' = (Blocked, r')" if "rz_valid q'" "SplitHostPort (rq_external q') \<noteq> None" for later swap' q'
    using that r'(2) by (simp add: rendezvousRegister_def)
  have "wait_begin session k r' = Inl Blocked" "wait_end True h r' = Blocked" for session k h
    using r'(2) by (simp_all add: wait_begin_def wait_end_def)
  then show ?thesis using reg r'(1) b by (intro exI [of _ r']) simp
qed

section \<open>Examples\<close>

definition sample_rz_request :: "string \<Rightarrow> string \<Rightarrow> rz_request" where
  "sample_rz_request i t = \<lparr>rq_session = ''s'', rq_id = i, rq_external = ''h:1'', rq_nat = t\<rparr>"

definition sample_waiting :: rendezvous where
  "sample_waiting = \<lparr>rz_store = [rz_peer 0 (sample_rz_request ''a'' ''symmetric'')], rz_sessions = [(''s'', [(''a'', 0)])], rz_locked = False\<rparr>"

definition sample_matched :: rendezvous where
  "sample_matched = \<lparr>rz_store = [(rz_peer 0 (sample_rz_request ''a'' ''symmetric''))\<lparr>rz_status := ''ready'', rz_other := ''h:1'', rz_otherNAT := ''cone'', rz_closed := True\<rparr>,
       (rz_peer 5 (sample_rz_request ''b'' ''cone''))\<lparr>rz_status := ''ready'', rz_other := ''h:1'', rz_otherNAT := ''symmetric'', rz_closed := True\<rparr>],
     rz_sessions = [(''s'', [(''a'', 0), (''b'', 1)])], rz_locked = False\<rparr>"

lemma sample_rz_valid: "t = ''cone'' \<or> t = ''symmetric'' \<Longrightarrow> length i = 1 \<Longrightarrow> rz_valid (sample_rz_request i t)"
  "SplitHostPort (rq_external (sample_rz_request i t)) = Some (''h'', ''1'')"
  by (auto simp: rz_valid_def sample_rz_request_def SplitHostPort_def)

lemma sample_rz_first:
  "rendezvousRegister 0 False (Some (sample_rz_request ''a'' ''symmetric'')) \<lparr>rz_store = [], rz_sessions = [], rz_locked = False\<rparr>
     = (Replied 200 ''ok'', sample_waiting)"
proof -
  let ?r = "\<lparr>rz_store = [], rz_sessions = [], rz_locked = False\<rparr>"
  have p: "rz_prune 0 ?r = ?r" by (simp add: rz_prune_def)
  show ?thesis
    using register_admitted [of "sample_rz_request ''a'' ''symmetric''" ?r 0 "[(''a'', 0)]" False] sample_rz_valid
    by (simp add: p rz_entries_def rz_added_def sample_waiting_def) (simp add: sample_rz_request_def)
qed

lemma sample_rz_second:
  "rendezvousRegister 5 False (Some (sample_rz_request ''b'' ''cone'')) sample_waiting = (Replied 200 ''ok'', sample_matched)"
proof -
  have "rendezvousRegister 5 False (Some (sample_rz_request ''b'' ''cone'')) sample_waiting
      = rz_paired False 0 1 (rz_added 5 (sample_rz_request ''b'' ''cone'') [(''a'', 0), (''b'', 1)] sample_waiting)"
    using register_known_session [of sample_waiting "sample_rz_request ''b'' ''cone''" "[(''a'', 0)]" 5 0 1 False] sample_rz_valid
    by (simp add: sample_waiting_def rz_fresh_def rz_peer_def) (simp add: sample_rz_request_def)
  then show ?thesis
    by (simp add: rz_paired_def rz_added_def rz_prune_def rz_fresh_def sample_waiting_def sample_matched_def pair_up_def close_ready_def
        rz_peer_def sample_rz_request_def Let_def)
qed

lemma sample_rz_reach: "rz_reach sample_matched [(''s'', ''a''), (''s'', ''b'')]"
proof -
  have "rz_reach sample_waiting ([] @ [(rq_session (sample_rz_request ''a'' ''symmetric''), rq_id (sample_rz_request ''a'' ''symmetric''))])"
    by (rule rz_register [OF rz_start sample_rz_first]) (simp add: sample_waiting_def)
  from rz_register [OF this sample_rz_second] show ?thesis
    by (simp add: sample_waiting_def sample_matched_def) (simp add: sample_rz_request_def)
qed

lemma rendezvous_sound_witness:
  "\<exists>k < 2. rz_endpoint (rz_store sample_matched ! k) = ''h:1'' \<and> rz_natType (rz_store sample_matched ! k) = ''cone''"
proof -
  have "wait_end True 0 sample_matched = Replied 200 (Ready ''h:1'' ''cone'')" by (simp add: wait_end_def sample_matched_def)
  moreover have n: "length (rz_store sample_matched) = 2" by (simp add: sample_matched_def)
  ultimately show ?thesis
    using rendezvous_sound [OF sample_rz_reach, of 0 True "''h:1''" "''cone''"] unfolding n by auto
qed


lemma rendezvous_deadlock_witness:
  "\<exists>r'. rendezvousRegister 9 True (Some (sample_rz_request ''a'' ''cone'')) sample_matched = (Panicked, r')
    \<and> (\<forall>session k. wait_begin session k r' = Inl Blocked)"
proof -
  have f: "map_of (rz_sessions sample_matched) (rq_session (sample_rz_request ''a'' ''cone'')) = Some [(''a'', 0), (''b'', 1)]"
    "\<not> rz_locked sample_matched" "0 < length (rz_store sample_matched)" "1 < length (rz_store sample_matched)" "''a'' \<noteq> ''b''"
    "rz_closed (rz_store sample_matched ! 0)" "rz_closed (rz_store sample_matched ! 1)"
    "9 - rz_created (rz_store sample_matched ! 0) < rendezvousSessionTTL"
    by (simp_all add: sample_matched_def sample_rz_request_def rz_peer_def)
  have v: "rz_valid (sample_rz_request ''a'' ''cone'')" "SplitHostPort (rq_external (sample_rz_request ''a'' ''cone'')) \<noteq> None"
    "rq_id (sample_rz_request ''a'' ''cone'') = ''a'' \<or> rq_id (sample_rz_request ''a'' ''cone'') = ''b''"
    using sample_rz_valid by (simp_all add: sample_rz_request_def)
  from rendezvous_deadlock [OF f v, of True] show ?thesis by blast
qed

end
