(* ===== verification/Port_Scan.thy ===== *)
theory Port_Scan
  imports Mesh_Prelude
begin

text \<open>
  The port scan against symmetric NATs: \<^verbatim>\<open>symmetricScanPortPass\<close> (\<^verbatim>\<open>mesh-node/discovery.go\<close>) and
  \<^verbatim>\<open>symmetricScanPorts\<close> (\<^verbatim>\<open>mesh-node/keepalive.go\<close>).  The visitor is a function on a state, so that
  sending, sleeping, cancellation and the deadline can all be its effects.  The lemmas show that a
  scan calls its visitor along one fixed order, which enumerates every UDP port exactly once.
\<close>

section \<open>The scan\<close>

abbreviation maxUDPPort :: int where "maxUDPPort \<equiv> 65535"

text \<open>Go's \<^verbatim>\<open>%\<close> truncates: the remainder takes the sign of the dividend.\<close>

definition go_rem :: "int \<Rightarrow> int \<Rightarrow> int" where
  "go_rem a b = (if 0 \<le> a then a mod b else - ((- a) mod b))"

text \<open>\<^verbatim>\<open>for port := p; port <= last; port += step { if !visit(port) { return false } }\<close>; the caller
  has checked that the step is positive.\<close>

function for_ports :: "int \<Rightarrow> int \<Rightarrow> int \<Rightarrow> (int \<Rightarrow> 's \<Rightarrow> bool \<times> 's) \<Rightarrow> 's \<Rightarrow> bool \<times> 's" where
  "for_ports p final step visit st =
     (if p \<le> final \<and> 0 < step then
        (case visit p st of
           (False, st') \<Rightarrow> (False, st')
         | (True, st') \<Rightarrow> for_ports (p + step) final step visit st')
      else (True, st))"
  by pat_completeness auto
termination
  by (relation "measure (\<lambda>(p, final, step, visit, st). nat (final + 1 - p))") auto

declare for_ports.simps [simp del]

definition symmetricScanPortPass ::
    "int \<Rightarrow> int \<Rightarrow> (int \<Rightarrow> 's \<Rightarrow> bool \<times> 's) \<Rightarrow> 's \<Rightarrow> bool \<times> 's" where
  "symmetricScanPortPass center step visit st =
     (let first = go_rem center step;
          first = (if first < 0 then first + step else first);
          first = (if first = 0 then step else first);
          final = first + (maxUDPPort - first) div step * step
      in if center < 1 then for_ports first final step visit st
      else (let beforeCenter = center - step;
                (go1, st1) = (if first \<le> beforeCenter then visit beforeCenter st else (True, st))
            in if \<not> go1 then (False, st1)
            else (let (go2, st2) = for_ports (center + step) final step visit st1
                  in if \<not> go2 then (False, st2)
                  else (let (go3, st3) = for_ports first (beforeCenter - 1) step visit st2
                        in if \<not> go3 then (False, st3) else visit center st3))))"

text \<open>\<^verbatim>\<open>for offset := 0; offset < step; offset++\<close>, by the number of passes that are left.\<close>

fun scan_passes :: "nat \<Rightarrow> int \<Rightarrow> int \<Rightarrow> int \<Rightarrow> (int \<Rightarrow> 's \<Rightarrow> bool \<times> 's) \<Rightarrow> 's \<Rightarrow> 's" where
  "scan_passes 0 offset center step visit st = st"
| "scan_passes (Suc k) offset center step visit st =
     (case symmetricScanPortPass (center - offset) step visit st of
        (False, st') \<Rightarrow> st'
      | (True, st') \<Rightarrow> scan_passes k (offset + 1) center step visit st')"

definition symmetricScanPorts :: "int \<Rightarrow> int \<Rightarrow> (int \<Rightarrow> 's \<Rightarrow> bool \<times> 's) \<Rightarrow> 's \<Rightarrow> 's" where
  "symmetricScanPorts center step visit st =
     (if center < 1 \<or> maxUDPPort < center \<or> step < 1 \<or> maxUDPPort < step then st
      else scan_passes (nat step) 0 center step visit st)"

section \<open>The reference order\<close>

text \<open>Visiting a list of ports until the visitor says stop.\<close>

fun visit_seq :: "(int \<Rightarrow> 's \<Rightarrow> bool \<times> 's) \<Rightarrow> int list \<Rightarrow> 's \<Rightarrow> bool \<times> 's" where
  "visit_seq visit [] st = (True, st)"
| "visit_seq visit (p # ps) st =
     (case visit p st of (False, st') \<Rightarrow> (False, st') | (True, st') \<Rightarrow> visit_seq visit ps st')"

function ports_from :: "int \<Rightarrow> int \<Rightarrow> int \<Rightarrow> int list" where
  "ports_from p final step = (if p \<le> final \<and> 0 < step then p # ports_from (p + step) final step else [])"
  by pat_completeness auto
termination
  by (relation "measure (\<lambda>(p, final, step). nat (final + 1 - p))") auto

declare ports_from.simps [simp del]

definition first_port :: "int \<Rightarrow> int \<Rightarrow> int" where
  "first_port center step = (if center mod step = 0 then step else center mod step)"

definition last_port :: "int \<Rightarrow> int \<Rightarrow> int" where
  "last_port center step =
     first_port center step + (maxUDPPort - first_port center step) div step * step"

definition pass_order :: "int \<Rightarrow> int \<Rightarrow> int list" where
  "pass_order center step =
     (let f = first_port center step; l = last_port center step in
      if center < 1 then ports_from f l step
      else (if f \<le> center - step then [center - step] else [])
        @ ports_from (center + step) l step @ ports_from f (center - step - 1) step @ [center])"

definition scan_order :: "int \<Rightarrow> int \<Rightarrow> int list" where
  "scan_order center step = concat (map (\<lambda>o'. pass_order (center - int o') step) [0..<nat step])"

lemma visit_seq_append:
  "visit_seq visit (ps @ qs) st =
     (case visit_seq visit ps st of (False, st') \<Rightarrow> (False, st') | (True, st') \<Rightarrow> visit_seq visit qs st')"
  by (induction ps arbitrary: st) (auto split: prod.splits bool.splits)

lemma for_ports_seq: "for_ports p l s visit st = visit_seq visit (ports_from p l s) st"
proof (induction p l s visit st rule: for_ports.induct)
  case (1 p l s visit st)
  then show ?case
    by (subst for_ports.simps, subst ports_from.simps) (auto split: prod.splits bool.splits)
qed

lemma go_first:
  assumes "0 < step"
  shows "(let first = go_rem center step; first = (if first < 0 then first + step else first)
          in if first = 0 then step else first) = first_port center step"
proof (cases "0 \<le> center")
  case False
  have "(- center) mod step = (if center mod step = 0 then 0 else step - center mod step)"
    using assms by (simp add: zmod_zminus1_eq_if)
  moreover have "center mod step < step" "0 \<le> center mod step" using assms by simp_all
  ultimately show ?thesis using False by (auto simp: go_rem_def first_port_def Let_def)
next
  case True
  have "0 \<le> center mod step" using assms by simp
  with True show ?thesis by (auto simp: go_rem_def first_port_def Let_def)
qed

lemma symmetricScanPortPass_seq:
  assumes "0 < step"
  shows "symmetricScanPortPass center step visit st = visit_seq visit (pass_order center step) st"
proof -
  have f: "(let first = go_rem center step; first = (if first < 0 then first + step else first)
          in if first = 0 then step else first) = first_port center step" by (rule go_first [OF assms])
  show ?thesis
    unfolding symmetricScanPortPass_def pass_order_def last_port_def Let_def
    unfolding f [unfolded Let_def]
    by (auto simp: visit_seq_append for_ports_seq split: prod.splits bool.splits)
qed

lemma scan_passes_seq:
  assumes "0 < step"
  shows "scan_passes k offset center step visit st =
    snd (visit_seq visit (concat (map (\<lambda>o'. pass_order (center - (offset + int o')) step) [0..<k])) st)"
proof (induction k arbitrary: offset st)
  case (Suc k)
  have "map (\<lambda>o'. pass_order (center - (offset + int o')) step) [0..<Suc k]
      = pass_order (center - offset) step
        # map (\<lambda>o'. pass_order (center - ((offset + 1) + int o')) step) [0..<k]"
    by (simp add: map_upt_Suc algebra_simps del: upt_Suc)
  then show ?case
    by (simp add: Suc.IH symmetricScanPortPass_seq [OF assms] visit_seq_append
        del: upt_Suc split: prod.splits bool.splits)
qed simp

section \<open>What the order enumerates\<close>

lemma set_ports_from:
  "0 < s \<Longrightarrow> set (ports_from p l s) = {q. p \<le> q \<and> q \<le> l \<and> q mod s = p mod s}"
proof (induction p l s rule: ports_from.induct)
  case (1 p l s)
  show ?case
  proof (cases "p \<le> l")
    case False
    then show ?thesis by (subst ports_from.simps) auto
  next
    case True
    have "q = p \<or> p + s \<le> q" if "p \<le> q" "q mod s = p mod s" for q
    proof -
      from that(2) have "s dvd q - p" by (simp add: mod_eq_dvd_iff)
      then show ?thesis using that(1) zdvd_imp_le [of s "q - p"] by fastforce
    qed
    then have "{q. p \<le> q \<and> q \<le> l \<and> q mod s = p mod s}
        = insert p {q. p + s \<le> q \<and> q \<le> l \<and> q mod s = (p + s) mod s}"
      using True 1(2) by auto
    then show ?thesis using 1 True by (subst ports_from.simps) simp
  qed
qed

lemma distinct_ports_from: "0 < s \<Longrightarrow> distinct (ports_from p l s)"
proof (induction p l s rule: ports_from.induct)
  case (1 p l s)
  then show ?case by (subst ports_from.simps) (auto simp: set_ports_from)
qed

lemma div_ge_iff: "0 < (s :: int) \<Longrightarrow> k \<le> a div s \<longleftrightarrow> k * s \<le> a"
proof -
  assume s: "0 < s"
  have a: "a = a div s * s + a mod s" "0 \<le> a mod s" "a mod s < s" using s by simp_all
  show ?thesis
  proof
    assume "k \<le> a div s"
    then have "k * s \<le> a div s * s" using s by simp
    then show "k * s \<le> a" using a by linarith
  next
    assume "k * s \<le> a"
    then have "k * s div s \<le> a div s" using s by (rule zdiv_mono1)
    then show "k \<le> a div s" using s by simp
  qed
qed

lemma last_port_bound:
  assumes "0 < s" "q mod s = c mod s" "first_port c s \<le> q"
  shows "q \<le> last_port c s \<longleftrightarrow> q \<le> maxUDPPort"
proof -
  let ?f = "first_port c s"
  have "?f mod s = c mod s" by (simp add: first_port_def)
  then have "s dvd q - ?f" using assms(2) by (metis mod_eq_dvd_iff)
  then obtain k where k: "q = ?f + k * s" by (metis add.commute diff_eq_eq dvdE mult.commute)
  have "k * s \<le> (maxUDPPort - ?f) div s * s \<longleftrightarrow> k \<le> (maxUDPPort - ?f) div s"
    using assms(1) by simp
  also have "\<dots> \<longleftrightarrow> k * s \<le> maxUDPPort - ?f"
    using assms(1) by (rule div_ge_iff)
  finally show ?thesis by (auto simp: last_port_def k)
qed

lemma first_port_bounds: "0 < s \<Longrightarrow> 1 \<le> first_port c s \<and> first_port c s \<le> s"
proof -
  assume "0 < s"
  then have "0 \<le> c mod s" "c mod s < s" by simp_all
  then show ?thesis by (auto simp: first_port_def)
qed

lemma first_port_le:
  assumes "0 < s" "1 \<le> q" "q mod s = c mod s"
  shows "first_port c s \<le> q"
proof (cases "q < s")
  case True
  then show ?thesis using assms by (auto simp: first_port_def)
next
  case False
  then show ?thesis using first_port_bounds [OF assms(1), of c] by simp
qed

text \<open>One pass enumerates its residue class, without repetition.\<close>

lemma set_pass_order:
  assumes "0 < s" "c \<le> maxUDPPort"
  shows "set (pass_order c s) = {q. 1 \<le> q \<and> q \<le> maxUDPPort \<and> q mod s = c mod s}"
    (is "_ = ?class")
proof -
  have f: "first_port c s mod s = c mod s" by (simp add: first_port_def)
  have cls: "q \<in> ?class \<longleftrightarrow> first_port c s \<le> q \<and> q \<le> last_port c s \<and> q mod s = c mod s" for q
    using first_port_bounds [OF assms(1), of c] first_port_le [OF assms(1), of q c]
      last_port_bound [OF assms(1), of q c] by auto
  show ?thesis
  proof (cases "c < 1")
    case True
    then show ?thesis using assms(1) f cls
      by (auto simp: pass_order_def Let_def set_ports_from)
  next
    case False
    then have c: "c \<in> ?class" using assms by auto
    have near: "q = c \<or> q = c - s \<or> q < c - s \<or> c + s \<le> q" if "q mod s = c mod s" for q
    proof -
      have "s dvd q - c" using that by (simp add: mod_eq_dvd_iff)
      then obtain k where k: "q - c = s * k" by (rule dvdE)
      consider "k \<le> -2" | "k = -1" | "k = 0" | "1 \<le> k" by linarith
      then show ?thesis
      proof cases
        case 1
        then have "s * k \<le> s * -2" using assms(1) by (intro mult_left_mono) auto
        then show ?thesis using k assms(1) by linarith
      next
        case 4
        then have "s * 1 \<le> s * k" using assms(1) by (intro mult_left_mono) auto
        then show ?thesis using k by linarith
      qed (use k in auto)
    qed
    have eq: "set (pass_order c s) = {q. q = c \<or> q = c - s \<and> first_port c s \<le> q
        \<or> c + s \<le> q \<and> q \<le> last_port c s \<and> q mod s = c mod s
        \<or> first_port c s \<le> q \<and> q < c - s \<and> q mod s = c mod s}"
      using False assms(1) f by (auto simp: pass_order_def Let_def set_ports_from)
    show ?thesis unfolding eq set_eq_iff cls mem_Collect_eq
      using c cls [of c] near assms(1) by (smt (verit) minus_mod_self2)
  qed
qed

lemma distinct_pass_order: "0 < s \<Longrightarrow> distinct (pass_order c s)"
  by (auto simp: pass_order_def Let_def set_ports_from distinct_ports_from)

lemma distinct_concat_map:
  assumes "distinct xs" "\<And>x. x \<in> set xs \<Longrightarrow> distinct (f x)"
    "\<And>x y. x \<in> set xs \<Longrightarrow> y \<in> set xs \<Longrightarrow> x \<noteq> y \<Longrightarrow> set (f x) \<inter> set (f y) = {}"
  shows "distinct (concat (map f xs))"
  using assms
proof (induction xs)
  case (Cons x xs)
  have "set (f x) \<inter> set (f y) = {}" if "y \<in> set xs" for y
    using Cons.prems that by (intro Cons.prems(3)) auto
  moreover have "distinct (concat (map f xs))"
    using Cons.prems by (intro Cons.IH) auto
  ultimately show ?case using Cons.prems(2) [of x] by auto
qed simp

lemma zdvd_imp_zero: "(s :: int) dvd d \<Longrightarrow> \<bar>d\<bar> < s \<Longrightarrow> d = 0"
  using zdvd_imp_le [of s "\<bar>d\<bar>"] by fastforce

lemma residue_offset_inj:
  assumes "0 < s" "x < nat s" "y < nat s" "(c - int x) mod s = (c - int y) mod s"
  shows "x = y"
proof -
  have "s dvd (c - int x) - (c - int y)" using assms(4) by (simp add: mod_eq_dvd_iff)
  then have "s dvd int y - int x" by simp
  then have "int y - int x = 0" using assms(1-3) by (intro zdvd_imp_zero) auto
  then show ?thesis by simp
qed

lemma scan_order_enumerates:
  assumes "1 \<le> step" "c \<le> maxUDPPort"
  shows "distinct (scan_order c step)" "set (scan_order c step) = {1..maxUDPPort}"
proof -
  have sets: "set (pass_order (c - int x) step)
      = {q. 1 \<le> q \<and> q \<le> maxUDPPort \<and> q mod step = (c - int x) mod step}" for x
    using assms by (intro set_pass_order) auto
  show "distinct (scan_order c step)" unfolding scan_order_def
    using assms residue_offset_inj [of step _ _ c]
    by (intro distinct_concat_map) (auto simp: sets distinct_pass_order)
  have "\<exists>x \<in> {0..<nat step}. q mod step = (c - int x) mod step" for q
  proof
    show "nat ((c - q) mod step) \<in> {0..<nat step}" using assms by simp
    show "q mod step = (c - int (nat ((c - q) mod step))) mod step"
      using assms by (simp add: mod_simps)
  qed
  then show "set (scan_order c step) = {1..maxUDPPort}"
    by (auto simp: scan_order_def sets)
qed

text \<open>C28: a scan is a walk along one fixed order of ports that stops where its visitor says stop, and
  that order contains every UDP port from 1 to 65535 exactly once, whatever the centre and the step.\<close>

theorem scan_covers_every_port_once:
  fixes visit :: "int \<Rightarrow> 's \<Rightarrow> bool \<times> 's"
  assumes "1 \<le> center" "center \<le> maxUDPPort" "1 \<le> step" "step \<le> maxUDPPort"
  shows "symmetricScanPorts center step visit st = snd (visit_seq visit (scan_order center step) st)
    \<and> distinct (scan_order center step) \<and> set (scan_order center step) = {1..65535}"
  using assms scan_order_enumerates [of step center]
  by (simp add: symmetricScanPorts_def scan_passes_seq scan_order_def)

theorem scan_covers_every_port_once_witness:
  "symmetricScanPorts 40000 200 (\<lambda>p st. (True, st @ [p])) []
     = snd (visit_seq (\<lambda>p st. (True, st @ [p])) (scan_order 40000 200) [])
   \<and> distinct (scan_order 40000 200) \<and> set (scan_order 40000 200) = {1..65535}"
  by (rule scan_covers_every_port_once) simp_all

end
