(* ===== verification/Spec2Isabelle.thy ===== *)
theory Spec2Isabelle
  imports Overlay Control_Channel Node_Datagrams Mesh_Dns Node_Tunnels Rendezvous Mesh_Routes Policies Virtual_Nets Registry Mesh_Graph Accounts Wire Port_Scan Backoff Peers Dedup Checksum Packet_Path Reassembly Fast_Path Scan_Sessions Sockets
begin

text \<open>
  A model of the mesh overlay in \<^verbatim>\<open>src/cmd\<close> and \<^verbatim>\<open>src/internal\<close>: nodes exchange IP packets over UDP through
  holes punched into their NATs, and a coordinator registers the nodes, computes the graph they forward over
  and hands each node its view of the network.

  \<^bold>\<open>Parts of the program and the theories that model them.\<close>

  Wire format (\<^verbatim>\<open>internal/protocol/protocol.go\<close>): \<open>Wire\<close> holds packets with their hop limit, the compact
  keepalive codec, the nonce sequence and the sealed payloads.  AES-GCM and HMAC are parameters with their
  documented laws.

  The node (\<^verbatim>\<open>cmd/mesh-node\<close>).  \<open>Peers\<close> is the neighbour table with its probes and the choice between LAN and
  internet addresses.  \<open>Go_Heap\<close> and \<open>Mesh_Routes\<close> compute the routes and choose the next hop.
  \<open>Packet_Path\<close> is the way of an IP packet between the TUN device and the mesh: ownership of addresses,
  firewall, translation between LAN and virtual prefixes, with \<open>Checksum\<close> for the incremental update.
  \<open>Fast_Path\<close>, \<open>Dedup\<close> and \<open>Reassembly\<close> are the encrypted data path with its key cache, the duplicate filters and
  the reassembly of fragments.  \<open>Port_Scan\<close>, \<open>Scan_Sessions\<close>, \<open>Sockets\<close> and \<open>Backoff\<close> are the traversal of symmetric
  NATs: the scan of the port space, the sessions that own a scan, the sockets for each relay and the delays
  between attempts.

  The coordinator (\<^verbatim>\<open>cmd/server\<close>).  \<open>Server_State\<close> is its record, a field for each table and in-memory map.
  \<open>Accounts\<close> are users, sessions, tokens and the limits on failed attempts; \<open>Registry\<close> is registration,
  heartbeats, roles and removal of nodes; \<open>Mesh_Graph\<close> builds the forwarding graph from measured links;
  \<open>Virtual_Nets\<close> allocates the virtual prefixes and names of LANs.

  \<open>Mesh_Prelude\<close>, \<open>Base64\<close> and \<open>Ip\<close> hold what all of them share: bytes and words, the encodings and the
  parsers of Go's \<^verbatim>\<open>net\<close>, \<^verbatim>\<open>netip\<close>, \<^verbatim>\<open>strconv\<close> and \<^verbatim>\<open>strings\<close>.

  \<^bold>\<open>How state and operations correspond.\<close>  A struct is a record, an operation under one lock is a function
  that returns the updated record, a handler runs its guards in the order of its early returns.  An error
  reply is \<open>Inl (status, text)\<close>.  Where calls overlap, the critical sections are the steps of an inductive
  relation and the invariants are proved by rule induction over its runs.  SQL tables are lists of rows in
  insertion order; columns that hold JSON are kept decoded.  Times are integers, in the unit of the code.
  Floating-point costs, loss rates and round-trip times are exact rationals, so that rounding is not modelled.

  \<^bold>\<open>Loops and partiality.\<close>  Loops that walk a structure are structural recursions.  Loops that may run on are
  partial functions into option: \<open>None\<close> is a call that never returns.  That they return is proved where
  it holds (the route search, the repair of the graph, the allocation of addresses and prefixes) and refuted
  where it does not (\<open>Virtual_Nets.stale_name_blocks_removal\<close>).  Panics are explicit branches.  The heap
  operations recurse with a bound on the positions left, the length of the heap.

  \<^bold>\<open>Interfaces.\<close>  The locale \<open>min_queue\<close> (\<open>Go_Heap\<close>) is what the route search needs of its queue; \<open>route_queue\<close>
  (\<open>Mesh_Routes\<close>) proves the search correct against it, and the interpretations discharge the laws for
  Go's binary heap.  \<open>Dedup\<close>, \<open>Backoff\<close> and \<open>Accounts\<close> state the contracts of a bounded filter, a doubling delay and
  an attempt limiter in the same way and interpret them on each of the code's instances.

  \<^bold>\<open>Not modelled.\<close>  The platform layers (\<^verbatim>\<open>tun_linux.go\<close>, \<^verbatim>\<open>tun_windows.go\<close>, \<^verbatim>\<open>udp_iface_*\<close>, \<^verbatim>\<open>udp_batch_*\<close>,
  \<^verbatim>\<open>udp_send*\<close>, \<^verbatim>\<open>system_resolver_*\<close>), which only call the operating system; start-up, flags and files of both
  binaries; HTTP routing, logging and rate middleware; the admin pages and the event stream of the browser;
  distribution and installation of updates; the tools under \<^verbatim>\<open>testlab\<close> and \<^verbatim>\<open>cmd/measure\<close>.  These hold no state that
  the modelled operations depend on.  JSON text is outside the model: handlers take decoded bodies.
\<close>

end
